(* ===== verification/Prelude.thy ===== *)
theory Prelude
  imports Main "HOL-Library.Word"
begin

text \<open>
  Shared vocabulary of the development: the machine types of the Go code, the error
  values, the byte-level primitives of \<^verbatim>\<open>encoding/binary\<close> and the slice primitives
  (\<^verbatim>\<open>copy\<close>, bounds-checked reads) that the components are written with, and the
  generic lemmas on lists, words and circular indices that their proofs share.

  \<^item> \<^verbatim>\<open>byte\<close> is an 8-bit word, \<^verbatim>\<open>uint64\<close> and \<^verbatim>\<open>int64\<close> are 64-bit words. The two share
    one representation because Go's conversions between them keep the bits; a signed
    comparison reads the word with \<^verbatim>\<open>sint\<close>.
  \<^item> A Go \<^verbatim>\<open>int\<close> that counts, indexes or configures is an \<^verbatim>\<open>int\<close> or \<^verbatim>\<open>nat\<close>; where the
    code narrows it (\<^verbatim>\<open>uint32(len)\<close>) the conversion is written out.
  \<^item> \<^verbatim>\<open>oops.Wrapf\<close> only adds text to an error and \<^verbatim>\<open>errors.Is\<close> sees through it, so an
    error value is its innermost cause.
\<close>

named_theorems codec_simps \<open>decoding what was encoded\<close>
named_theorems ring_simps \<open>circular buffers as lists\<close>

subsection \<open>Machine types and errors\<close>

type_synonym byte = "8 word"
type_synonym bytes = "byte list"
type_synonym u32 = "32 word"
type_synonym u64 = "64 word"
type_synonym i64 = "64 word"
type_synonym gotime = int

datatype err =
    ErrTopicAlreadyExists
  | ErrTopicNotFound
  | ErrNoMessages
  | ErrThrottled
  | ErrMessageTooLarge
  | ErrDataTooShort
  | ErrTruncatedMessage
  | ErrEmptyEntry
  | ErrCorruptRedirect
  | ErrNotBatchRecord
  | ErrBatchIndexRange
  | ErrCorruptBatch
  | ErrBatchIndexNotFound
  | ErrPartitionRange
  | ErrNoPriorityIndex
  | ErrNoScheduler
  | ErrUnknownTopic
  | ErrOffsetNotFound
  | ErrInvalidConfig
  | ErrContext
  | WalNotFound
  | WalOutOfOrder
  | WalOutOfRange
  | WalFailure
  | CodecFailure
  | StoreFailure
  | ErrPanic

subsection \<open>Big-endian integers (\<^verbatim>\<open>encoding/binary\<close>)\<close>

text \<open>
  \<^verbatim>\<open>be_put n w\<close> is what \<^verbatim>\<open>binary.BigEndian.PutUint32/64\<close> stores, most significant byte
  first; \<^verbatim>\<open>be_get bs\<close> is what \<^verbatim>\<open>binary.BigEndian.Uint32/64\<close> reads.
\<close>

primrec be_put :: "nat \<Rightarrow> 'a::len word \<Rightarrow> bytes" where
  "be_put 0 w = []"
| "be_put (Suc n) w = ucast (drop_bit (8 * n) w) # be_put n w"

definition be_step :: "'a::len word \<Rightarrow> byte \<Rightarrow> 'a word" where
  "be_step acc b = or (push_bit 8 acc) (ucast b)"

definition be_get :: "bytes \<Rightarrow> 'a::len word" where
  "be_get bs = foldl be_step 0 bs"

lemma length_be_put [simp]: "length (be_put n w) = n"
  by (induction n) auto

lemma be_get_put_acc:
  "foldl be_step acc (be_put n w) = or (push_bit (8 * n) acc) (take_bit (8 * n) w)"
proof (induction n arbitrary: acc)
  case 0
  then show ?case by simp
next
  case (Suc n)
  have "foldl be_step acc (be_put (Suc n) w) =
      or (push_bit (8 * n) (be_step acc (ucast (drop_bit (8 * n) w)))) (take_bit (8 * n) w)"
    by (simp add: Suc.IH)
  also have "\<dots> = or (push_bit (8 * Suc n) acc) (take_bit (8 * Suc n) w)"
    by (rule bit_word_eqI)
      (auto simp: be_step_def bit_or_iff bit_push_bit_iff bit_take_bit_iff
        bit_unsigned_iff bit_drop_bit_eq add.commute dest: bit_imp_le_length)
  finally show ?case .
qed

lemma be_get_put [codec_simps]:
  fixes w :: "'a::len word"
  assumes "LENGTH('a) \<le> 8 * n"
  shows "be_get (be_put n w) = w"
proof (rule bit_word_eqI)
  fix k assume "k < LENGTH('a)"
  with assms show "bit (be_get (be_put n w) :: 'a word) k = bit w k"
    by (simp add: be_get_def be_get_put_acc bit_take_bit_iff)
qed

lemma be_put_snoc: "be_put (Suc n) w = be_put n (drop_bit 8 w) @ [ucast w]"
proof (induction n)
  case 0
  then show ?case by simp
next
  case (Suc n)
  have "be_put (Suc (Suc n)) w = ucast (drop_bit (8 * Suc n) w) # be_put (Suc n) w"
    by (rule be_put.simps(2))
  also have "be_put (Suc n) w = be_put n (drop_bit 8 w) @ [ucast w]"
    by (rule Suc.IH)
  finally show ?case by (simp add: add.commute)
qed

lemma be_put_take_bit: "8 * n \<le> m \<Longrightarrow> be_put n (take_bit m w) = be_put n w"
proof (induction n)
  case 0
  then show ?case by simp
next
  case (Suc n)
  have "(ucast (drop_bit (8 * n) (take_bit m w)) :: byte) = ucast (drop_bit (8 * n) w)"
    by (rule bit_word_eqI)
      (use Suc.prems in \<open>auto simp: bit_unsigned_iff bit_drop_bit_eq bit_take_bit_iff\<close>)
  with Suc show ?case by simp
qed

lemma drop_bit_be_step:
  fixes x :: "'a::len word"
  assumes "8 \<le> LENGTH('a)"
  shows "drop_bit 8 (be_step x b) = take_bit (LENGTH('a) - 8) x"
  by (rule bit_word_eqI)
    (use assms in \<open>auto simp: be_step_def bit_simps dest: bit_imp_le_length\<close>)

lemma ucast_be_step:
  fixes x :: "'a::len word"
  assumes "8 \<le> LENGTH('a)"
  shows "ucast (be_step x b) = b"
  by (rule bit_word_eqI)
    (use assms in \<open>auto simp: be_step_def bit_simps dest: bit_imp_le_length\<close>)

lemma be_put_get [codec_simps]:
  fixes bs :: bytes
  assumes "8 * length bs \<le> LENGTH('a::len)"
  shows "be_put (length bs) (be_get bs :: 'a word) = bs"
  using assms
proof (induction bs rule: rev_induct)
  case Nil
  then show ?case by simp
next
  case (snoc b bs)
  let ?x = "be_get bs :: 'a word"
  have step: "(be_get (bs @ [b]) :: 'a word) = be_step ?x b"
    by (simp add: be_get_def)
  have "be_put (length (bs @ [b])) (be_get (bs @ [b]) :: 'a word) =
      be_put (length bs) (take_bit (LENGTH('a) - 8) ?x) @ [b]"
    using snoc.prems by (simp add: step be_put_snoc drop_bit_be_step ucast_be_step del: be_put.simps)
  also have "\<dots> = be_put (length bs) ?x @ [b]"
    using snoc.prems by (simp add: be_put_take_bit)
  finally show ?case using snoc by simp
qed

lemma unat_word_of_nat_u64: "n < 2 ^ 64 \<Longrightarrow> unat (word_of_nat n :: u64) = n"
  by (simp add: unsigned_of_nat take_bit_nat_eq_self)

subsection \<open>Slices\<close>

text \<open>
  \<^verbatim>\<open>slice_write off src buf\<close> is \<^verbatim>\<open>copy(buf[off:], src)\<close>: it overwrites at most the bytes
  that fit and never changes the length. \<^verbatim>\<open>subslice i j bs\<close> is \<^verbatim>\<open>bs[i:j]\<close>.
\<close>

definition slice_write :: "nat \<Rightarrow> 'a list \<Rightarrow> 'a list \<Rightarrow> 'a list" where
  "slice_write off src buf =
     take off buf @ take (length buf - off) src @ drop (off + length src) buf"

definition subslice :: "nat \<Rightarrow> nat \<Rightarrow> 'a list \<Rightarrow> 'a list" where
  "subslice i j bs = take (j - i) (drop i bs)"

lemma length_slice_write [simp]:
  "off \<le> length buf \<Longrightarrow> length (slice_write off src buf) = length buf"
  by (simp add: slice_write_def)

text \<open>Writing right behind a prefix that is already final extends the prefix.\<close>

lemma take_slice_write:
  assumes "n = off + length src" and "n \<le> length buf"
  shows "take n (slice_write off src buf) = take off buf @ src"
  using assms by (simp add: slice_write_def)

lemma subslice_append_mid:
  "length pre = i \<Longrightarrow> length mid = j - i \<Longrightarrow> subslice i j (pre @ mid @ post) = mid"
  by (simp add: subslice_def)

subsection \<open>Circular windows\<close>

text \<open>
  \<^verbatim>\<open>circ xs h s\<close> lists the \<^verbatim>\<open>s\<close> elements of a circular buffer \<^verbatim>\<open>xs\<close> from index \<^verbatim>\<open>h\<close> on,
  wrapping around at the end. Every ring of the code (pending entries, load samples,
  replayed transitions) is read through it.
\<close>

definition circ :: "'a list \<Rightarrow> nat \<Rightarrow> nat \<Rightarrow> 'a list" where
  "circ xs h s = map (\<lambda>i. xs ! ((h + i) mod length xs)) [0..<s]"

lemma length_circ [simp]: "length (circ xs h s) = s"
  by (simp add: circ_def)

lemma circ_0 [simp]: "circ xs h 0 = []"
  by (simp add: circ_def)

lemma nth_circ: "i < s \<Longrightarrow> circ xs h s ! i = xs ! ((h + i) mod length xs)"
  by (simp add: circ_def)

lemma circ_from_0: "s \<le> length xs \<Longrightarrow> circ xs 0 s = take s xs"
  by (rule nth_equalityI) (auto simp: nth_circ)

lemma mod_offset_neq:
  fixes h :: nat
  assumes "i < j" and "j < h' + n" and "h' \<le> i"
  shows "(h + i) mod n \<noteq> (h + j) mod n"
proof
  assume "(h + i) mod n = (h + j) mod n"
  then have "n dvd (h + j) - (h + i)"
    using assms(1) by (metis add_le_cancel_left less_imp_le_nat mod_eq_dvd_iff_nat)
  then have "n \<le> j - i"
    using assms(1) by (simp add: dvd_imp_le)
  with assms show False by simp
qed

lemma circ_push [ring_simps]:
  assumes "s < length xs"
  shows "circ (xs[(h + s) mod length xs := e]) h (Suc s) = circ xs h s @ [e]"
proof (rule nth_equalityI)
  fix i assume i: "i < length (circ (xs[(h + s) mod length xs := e]) h (Suc s))"
  have lt: "(h + s) mod length xs < length xs"
    by (rule mod_less_divisor) (use assms in linarith)
  show "circ (xs[(h + s) mod length xs := e]) h (Suc s) ! i = (circ xs h s @ [e]) ! i"
  proof (cases "i = s")
    case True
    then show ?thesis using lt by (simp add: nth_circ nth_append)
  next
    case False
    with i have "i < s" by simp
    then have "(h + s) mod length xs \<noteq> (h + i) mod length xs"
      using mod_offset_neq [of i s 0 "length xs" h] assms by simp
    with \<open>i < s\<close> show ?thesis by (simp add: nth_circ nth_append)
  qed
qed simp

lemma circ_pop [ring_simps]:
  assumes "0 < s" and "s \<le> length xs" and "h < length xs"
  shows "circ (xs[h := e]) (Suc h mod length xs) (s - Suc 0) = tl (circ xs h s)"
proof (rule nth_equalityI)
  fix i assume i: "i < length (circ (xs[h := e]) (Suc h mod length xs) (s - Suc 0))"
  have idx: "(Suc h mod length xs + i) mod length xs = (h + Suc i) mod length xs"
    by (simp add: mod_add_left_eq)
  have "(h + 0) mod length xs \<noteq> (h + Suc i) mod length xs"
    using i assms by (intro mod_offset_neq [where h' = 0]) auto
  then show "circ (xs[h := e]) (Suc h mod length xs) (s - Suc 0) ! i = tl (circ xs h s) ! i"
    using i assms idx by (simp add: nth_circ nth_tl)
qed simp

lemma hd_circ [ring_simps]: "0 < s \<Longrightarrow> h < length xs \<Longrightarrow> hd (circ xs h s) = xs ! h"
  by (simp add: circ_def hd_map upt_rec [of 0 s])

lemma circ_replace [ring_simps]:
  assumes "h < length xs"
  shows "circ (xs[h := e]) (Suc h mod length xs) (length xs) = tl (circ xs h (length xs)) @ [e]"
proof -
  let ?n = "length xs" and ?ys = "xs[h := e]" and ?h = "Suc h mod length xs"
  have last: "(?h + (?n - 1)) mod ?n = h"
  proof (cases "Suc h = ?n")
    case False
    with assms have "?h + (?n - 1) = h + ?n" by simp
    with assms show ?thesis by simp
  qed (use assms in simp)
  have "circ (?ys[(?h + (?n - 1)) mod length ?ys := e]) ?h (Suc (?n - 1)) = circ ?ys ?h (?n - 1) @ [e]"
    using assms by (intro circ_push) auto
  then have "circ (?ys[h := e]) ?h (Suc (?n - 1)) = circ ?ys ?h (?n - 1) @ [e]"
    unfolding length_list_update last .
  moreover have "circ ?ys ?h (?n - Suc 0) = tl (circ xs h ?n)"
    using assms by (intro circ_pop) auto
  moreover have "Suc (?n - 1) = ?n"
    using assms by simp
  ultimately show ?thesis by simp
qed

subsection \<open>Bounded histories\<close>

definition takelast :: "nat \<Rightarrow> 'a list \<Rightarrow> 'a list" where
  "takelast k xs = drop (length xs - k) xs"

lemma takelast_all [simp]: "length xs \<le> k \<Longrightarrow> takelast k xs = xs"
  by (simp add: takelast_def)

lemma length_takelast [simp]: "length (takelast k xs) = min k (length xs)"
  by (simp add: takelast_def)

lemma takelast_snoc_takelast:
  "takelast k (takelast k xs @ ys) = takelast k (xs @ ys)"
proof (cases "length xs \<le> k")
  case False
  then have "takelast k xs @ ys = drop (length xs - k) (xs @ ys)"
    by (simp add: takelast_def)
  then show ?thesis using False
    by (simp add: takelast_def add.commute)
qed simp

lemma takelast_tl: "length xs = k \<Longrightarrow> 0 < k \<Longrightarrow> takelast k (xs @ [x]) = tl xs @ [x]"
  by (cases xs) (simp_all add: takelast_def)

text \<open>
  The contract of a bounded queue that drops its oldest element when it is full: what the
  code's rings promise to their users. A bound of 0 means the queue is unbounded.
\<close>

definition keep_last :: "nat \<Rightarrow> 'a list \<Rightarrow> 'a list" where
  "keep_last k xs = (if k = 0 then xs else takelast k xs)"

lemma keep_last_keep_last [simp]: "keep_last k (keep_last k xs @ ys) = keep_last k (xs @ ys)"
  by (simp add: keep_last_def takelast_snoc_takelast)

lemma set_keep_last: "set (keep_last k xs) \<subseteq> set xs"
  by (auto simp: keep_last_def takelast_def dest: in_set_dropD)

lemma map_update_same: "f y = f (xs ! i) \<Longrightarrow> map f (xs[i := y]) = map f xs"
  by (cases "i < length xs") (simp_all add: map_update list_update_same_conv list_update_beyond)

text \<open>
  An array written at a running index modulo its length, read from its oldest element on: it always
  holds the newest elements written.
\<close>

definition ring_items :: "'a list \<Rightarrow> nat \<Rightarrow> 'a list" where
  "ring_items xs w = (if w \<le> length xs then take w xs else circ xs (w mod length xs) (length xs))"

lemma length_ring_items [simp]: "length (ring_items xs w) = min w (length xs)"
  by (simp add: ring_items_def)

lemma ring_items_put:
  assumes n: "0 < length xs"
  shows "ring_items (xs[w mod length xs := v]) (Suc w) = keep_last (length xs) (ring_items xs w @ [v])"
proof -
  let ?n = "length xs"
  consider (room) "w < ?n" | (turn) "w = ?n" | (wrap) "?n < w" by linarith
  then show ?thesis
  proof cases
    case room
    then have "take (Suc w) (xs[w := v]) = take w xs @ [v]" by (simp add: take_Suc_conv_app_nth)
    with room n show ?thesis by (simp add: ring_items_def keep_last_def)
  next
    case turn
    have "circ (xs[0 := v]) (Suc 0 mod ?n) ?n = tl (circ xs 0 ?n) @ [v]"
      using circ_replace [of 0 xs v] n by simp
    moreover have "takelast ?n (xs @ [v]) = tl xs @ [v]" using n by (simp add: takelast_tl)
    moreover have "Suc ?n mod ?n = Suc 0 mod ?n"
      by (metis add.right_neutral add_Suc_right mod_add_self1)
    ultimately show ?thesis using turn n by (simp add: ring_items_def keep_last_def circ_from_0)
  next
    case wrap
    let ?h = "w mod ?n"
    have "circ (xs[?h := v]) (Suc ?h mod ?n) ?n = tl (circ xs ?h ?n) @ [v]"
      using circ_replace [of ?h xs v] n by simp
    moreover have "takelast ?n (circ xs ?h ?n @ [v]) = tl (circ xs ?h ?n) @ [v]"
      using n by (simp add: takelast_tl)
    moreover have "Suc w mod ?n = Suc ?h mod ?n" by (simp add: mod_Suc_eq)
    ultimately show ?thesis using wrap n by (simp add: ring_items_def keep_last_def)
  qed
qed

lemma circ_split:
  assumes "h < length xs"
  shows "circ xs h (length xs) = drop h xs @ take h xs"
proof (rule nth_equalityI)
  fix i assume "i < length (circ xs h (length xs))"
  then have i: "i < length xs" by simp
  show "circ xs h (length xs) ! i = (drop h xs @ take h xs) ! i"
  proof (cases "h + i < length xs")
    case True
    then have "i < length xs - h" by simp
    with True show ?thesis using i by (simp add: nth_circ nth_append)
  next
    case False
    then have "(h + i) mod length xs = h + i - length xs"
      using assms i by (simp add: mod_if)
    moreover have "\<not> i < length xs - h" using False by simp
    ultimately show ?thesis using False i assms by (simp add: nth_circ nth_append add.commute)
  qed
qed (use assms in simp)

lemma set_ring_items:
  assumes "0 < length xs"
  shows "set (ring_items xs w) = set (take w xs)"
proof (cases "w \<le> length xs")
  case False
  have "set (drop k xs @ take k xs) = set xs" for k
    using set_append [of "take k xs" "drop k xs"] by auto
  then show ?thesis using False assms by (simp add: ring_items_def circ_split)
qed (simp add: ring_items_def)

lemma keep_last_map: "keep_last n (map f xs) = map f (keep_last n xs)"
  by (simp add: keep_last_def takelast_def drop_map)

lemma ring_items_map: "ring_items (map f xs) w = map f (ring_items xs w)"
  by (cases "xs = []") (simp_all add: ring_items_def circ_def take_map)

locale bounded_log =
  fixes put :: "'a \<Rightarrow> 'r \<Rightarrow> 'r"
    and items :: "'r \<Rightarrow> 'a list"
    and bound :: "'r \<Rightarrow> nat"
    and ok :: "'r \<Rightarrow> bool"
  assumes ok_put: "ok r \<Longrightarrow> ok (put x r)"
    and bound_put: "ok r \<Longrightarrow> bound (put x r) = bound r"
    and items_put: "ok r \<Longrightarrow> items (put x r) = keep_last (bound r) (items r @ [x])"
    and items_bound: "ok r \<Longrightarrow> 0 < bound r \<Longrightarrow> length (items r) \<le> bound r"
begin

lemma items_kept: "ok r \<Longrightarrow> keep_last (bound r) (items r) = items r"
  using items_bound [of r] by (simp add: keep_last_def)

lemma put_all_ok: "ok r \<Longrightarrow> ok (foldl (\<lambda>q x. put x q) r xs)"
  by (induction xs arbitrary: r) (auto simp: ok_put)

lemma put_all_bound: "ok r \<Longrightarrow> bound (foldl (\<lambda>q x. put x q) r xs) = bound r"
  by (induction xs arbitrary: r) (auto simp: ok_put bound_put)

text \<open>Putting a list keeps the newest elements of what was there and what came.\<close>

lemma put_all_items:
  "ok r \<Longrightarrow> items (foldl (\<lambda>q x. put x q) r xs) = keep_last (bound r) (items r @ xs)"
proof (induction xs arbitrary: r)
  case Nil
  then show ?case by (simp add: items_kept)
next
  case (Cons x xs)
  then have "items (foldl (\<lambda>q y. put y q) r (x # xs)) =
      keep_last (bound r) (keep_last (bound r) (items r @ [x]) @ xs)"
    by (simp add: ok_put bound_put items_put)
  then show ?case by simp
qed

end

text \<open>A bounded queue is such a log that also hands its oldest element out.\<close>

locale bounded_fifo = bounded_log "\<lambda>x r. snd (push x r)" items bound ok
  for push :: "'a \<Rightarrow> 'r \<Rightarrow> ('a \<times> bool) \<times> 'r"
    and items :: "'r \<Rightarrow> 'a list"
    and bound :: "'r \<Rightarrow> nat"
    and ok :: "'r \<Rightarrow> bool" +
  fixes pop :: "'r \<Rightarrow> ('a \<times> bool) \<times> 'r"
  assumes evicted_push: "ok r \<Longrightarrow>
      snd (fst (push x r)) \<longleftrightarrow> 0 < bound r \<and> bound r \<le> length (items r)"
    and evicted_hd: "ok r \<Longrightarrow> snd (fst (push x r)) \<Longrightarrow> fst (fst (push x r)) = hd (items r)"
    and ok_pop: "ok r \<Longrightarrow> ok (snd (pop r))"
    and bound_pop: "ok r \<Longrightarrow> bound (snd (pop r)) = bound r"
    and items_pop: "ok r \<Longrightarrow> items (snd (pop r)) = tl (items r)"
    and popped: "ok r \<Longrightarrow> snd (fst (pop r)) \<longleftrightarrow> items r \<noteq> []"
    and popped_hd: "ok r \<Longrightarrow> items r \<noteq> [] \<Longrightarrow> fst (fst (pop r)) = hd (items r)"
begin

lemma items_Nil_pop: "ok r \<Longrightarrow> items r = [] \<Longrightarrow> items (snd (pop r)) = []"
  by (simp add: items_pop)

text \<open>First in, first out: popping returns what was pushed first.\<close>

lemma push_pop_empty:
  assumes "ok r" and "items r = []"
  shows "fst (pop (snd (push x r))) = (x, True)"
proof -
  have "items (snd (push x r)) = [x]"
    using assms items_put [of r x] by (simp add: keep_last_def takelast_def)
  then show ?thesis
    using assms popped [of "snd (push x r)"] popped_hd [of "snd (push x r)"] ok_put [of r x]
    by (simp add: prod_eq_iff)
qed

end

end
