(* ===== verification/Message.thy ===== *)
theory Message
  imports Prelude
begin

text \<open>
  The wire format of a message, \<^verbatim>\<open>pkg/broker/message.go\<close>: the header and message structs,
  \<^verbatim>\<open>marshalInto\<close> and its two callers (\<^verbatim>\<open>Marshal\<close> on a fresh buffer, \<^verbatim>\<open>MarshalPooled\<close> on a
  recycled one), \<^verbatim>\<open>UnmarshalMessage\<close> and \<^verbatim>\<open>UnmarshalHeader\<close>. The lemmas show that the
  two directions are inverse to each other, that every byte of a recycled buffer is
  overwritten, and that the header reader agrees with the message reader.
\<close>

subsection \<open>Layout\<close>

definition priorityFieldSize :: nat where "priorityFieldSize = 1"
definition timestampFieldSize :: nat where "timestampFieldSize = 8"
definition keyLenFieldSize :: nat where "keyLenFieldSize = 4"
definition priorityOffset :: nat where "priorityOffset = 0"
definition timestampOff :: nat where "timestampOff = priorityFieldSize"
definition produceTimeOff :: nat where "produceTimeOff = timestampOff + timestampFieldSize"
definition appendTimeOff :: nat where "appendTimeOff = produceTimeOff + timestampFieldSize"
definition keyLenOff :: nat where "keyLenOff = appendTimeOff + timestampFieldSize"
definition keyOff :: nat where "keyOff = keyLenOff + keyLenFieldSize"
definition HeaderSize :: nat where "HeaderSize = keyLenOff"
definition MetadataSize :: nat where "MetadataSize = keyOff"

lemmas layout_defs = priorityFieldSize_def timestampFieldSize_def keyLenFieldSize_def
  priorityOffset_def timestampOff_def produceTimeOff_def appendTimeOff_def keyLenOff_def
  keyOff_def HeaderSize_def MetadataSize_def

record message_header =
  Priority :: byte
  Timestamp :: i64
  ProduceTime :: i64
  AppendTime :: i64

record message =
  Header :: message_header
  Key :: bytes
  Value :: bytes
  BatchDecoded :: bool

definition NewMessage :: "i64 \<Rightarrow> byte \<Rightarrow> bytes \<Rightarrow> bytes \<Rightarrow> message" where
  "NewMessage now priority key val =
     \<lparr>Header = \<lparr>Priority = priority, Timestamp = now, ProduceTime = 0, AppendTime = 0\<rparr>,
      Key = key, Value = val, BatchDecoded = False\<rparr>"

subsection \<open>Encoding\<close>

definition encodedSize :: "message \<Rightarrow> nat" where
  "encodedSize m = MetadataSize + length (Key m) + length (Value m)"

definition marshalInto :: "message \<Rightarrow> bytes \<Rightarrow> bytes" where
  "marshalInto m buf0 =
     (let kl = length (Key m);
          buf1 = buf0[priorityOffset := Priority (Header m)];
          buf2 = slice_write timestampOff (be_put 8 (Timestamp (Header m))) buf1;
          buf3 = slice_write produceTimeOff (be_put 8 (ProduceTime (Header m))) buf2;
          buf4 = slice_write appendTimeOff (be_put 8 (AppendTime (Header m))) buf3;
          buf5 = slice_write keyLenOff (be_put 4 (word_of_nat kl :: u32)) buf4;
          buf6 = slice_write keyOff (Key m) buf5
      in slice_write (keyOff + kl) (Value m) buf6)"

definition Marshal :: "message \<Rightarrow> bytes" where
  "Marshal m = marshalInto m (replicate (encodedSize m) 0)"

text \<open>
  The pooled buffer is given by its backing array, whose length is the capacity and whose
  contents are whatever the previous user left; a buffer that is too small is replaced by
  a zeroed one, a large enough one is resliced to the needed length.
\<close>

definition MarshalPooled :: "message \<Rightarrow> bytes \<Rightarrow> bytes" where
  "MarshalPooled m backing =
     (let needed = encodedSize m;
          buf = (if length backing < needed then replicate needed 0 else take needed backing)
      in marshalInto m buf)"

subsection \<open>Decoding\<close>

definition parse_header :: "bytes \<Rightarrow> message_header" where
  "parse_header data =
     \<lparr>Priority = data ! priorityOffset,
      Timestamp = be_get (subslice timestampOff (timestampOff + 8) data),
      ProduceTime = be_get (subslice produceTimeOff (produceTimeOff + 8) data),
      AppendTime = be_get (subslice appendTimeOff (appendTimeOff + 8) data)\<rparr>"

definition UnmarshalHeader :: "bytes \<Rightarrow> err + message_header" where
  "UnmarshalHeader data =
     (if length data < HeaderSize then Inl ErrDataTooShort else Inr (parse_header data))"

definition UnmarshalMessage :: "bytes \<Rightarrow> err + message" where
  "UnmarshalMessage data =
     (if length data < MetadataSize then Inl ErrDataTooShort
      else let kl = unat (be_get (subslice keyLenOff (keyLenOff + 4) data) :: u32)
           in if length data < MetadataSize + kl then Inl ErrTruncatedMessage
              else Inr \<lparr>Header = parse_header data,
                        Key = subslice keyOff (keyOff + kl) data,
                        Value = drop (keyOff + kl) data,
                        BatchDecoded = False\<rparr>)"

subsection \<open>What the encoder writes\<close>

definition frame :: "message \<Rightarrow> bytes" where
  "frame m = Priority (Header m) # be_put 8 (Timestamp (Header m)) @
     be_put 8 (ProduceTime (Header m)) @ be_put 8 (AppendTime (Header m)) @
     be_put 4 (word_of_nat (length (Key m)) :: u32) @ Key m @ Value m"

lemma length_frame [simp]: "length (frame m) = encodedSize m"
  by (simp add: frame_def encodedSize_def layout_defs)

lemma marshalInto_frame:
  assumes "length buf = encodedSize m"
  shows "marshalInto m buf = frame m"
proof -
  let ?n = "encodedSize m"
  have len: "length (marshalInto m buf) = ?n"
    using assms by (simp add: marshalInto_def Let_def encodedSize_def layout_defs)
  from assms have "take 1 (buf[0 := Priority (Header m)]) = [Priority (Header m)]"
    by (cases buf) (auto simp: encodedSize_def layout_defs)
  then have "take ?n (marshalInto m buf) = frame m"
    using assms unfolding marshalInto_def Let_def frame_def
    by (simp add: take_slice_write encodedSize_def layout_defs del: take_all take_all_iff)
  with len show ?thesis by simp
qed

lemma Marshal_frame: "Marshal m = frame m"
  by (simp add: Marshal_def marshalInto_frame)

lemma subslice_Cons: "0 < i \<Longrightarrow> subslice i j (x # xs) = subslice (i - 1) (j - 1) xs"
  by (cases i; cases j) (auto simp: subslice_def)

lemma parse_header_frame [codec_simps]: "parse_header (frame m) = Header m"
  by (simp add: parse_header_def frame_def layout_defs subslice_Cons be_get_put)
    (simp add: subslice_def be_get_put)

lemma key_length_frame [codec_simps]:
  "subslice keyLenOff (keyLenOff + 4) (frame m) =
     be_put 4 (word_of_nat (length (Key m)) :: u32)"
  by (simp add: frame_def layout_defs subslice_Cons) (simp add: subslice_def)

lemma drop_keyOff_frame: "drop keyOff (frame m) = Key m @ Value m"
  by (simp add: frame_def layout_defs)

text \<open>Bytes that parse are exactly the frame of the parsed message.\<close>

lemma split_header:
  assumes "MetadataSize \<le> length data"
  shows "data = data ! 0 # subslice 1 9 data @ subslice 9 17 data @ subslice 17 25 data @
           subslice 25 29 data @ drop 29 data"
proof -
  have split: "drop i data = subslice i j data @ drop j data" if "i \<le> j" for i j
    using that append_take_drop_id [of "j - i" "drop i data"] by (simp add: subslice_def)
  have "data = data ! 0 # drop 1 data"
    using assms by (cases data) (auto simp: layout_defs)
  also have "drop 1 data = subslice 1 9 data @ drop 9 data" by (rule split) simp
  also have "drop 9 data = subslice 9 17 data @ drop 17 data" by (rule split) simp
  also have "drop 17 data = subslice 17 25 data @ drop 25 data" by (rule split) simp
  also have "drop 25 data = subslice 25 29 data @ drop 29 data" by (rule split) simp
  finally show ?thesis .
qed

lemma length_subslice: "j \<le> length bs \<Longrightarrow> length (subslice i j bs) = j - i"
  by (simp add: subslice_def)

lemma be_put_get_subslice:
  assumes "i \<le> j" and "j \<le> length data" and "8 * (j - i) \<le> LENGTH('a::len)" and "n = j - i"
  shows "be_put n (be_get (subslice i j data) :: 'a word) = subslice i j data"
  using be_put_get [where 'a = 'a, of "subslice i j data"] assms by (simp add: length_subslice)

lemma UnmarshalMessage_frame [codec_simps]:
  assumes "length (Key m) < 2 ^ 32"
  shows "UnmarshalMessage (frame m) = Inr (m\<lparr>BatchDecoded := False\<rparr>)"
proof -
  have kl: "unat (be_get (subslice keyLenOff (keyLenOff + 4) (frame m)) :: u32) = length (Key m)"
    using assms by (simp add: codec_simps unsigned_of_nat take_bit_nat_eq_self)
  have key: "subslice keyOff (keyOff + length (Key m)) (frame m) = Key m"
    by (simp add: subslice_def drop_keyOff_frame)
  have val: "drop (keyOff + length (Key m)) (frame m) = Value m"
    using drop_drop [of "length (Key m)" keyOff "frame m"]
    by (simp add: drop_keyOff_frame add.commute)
  show ?thesis
    by (simp add: UnmarshalMessage_def Let_def kl key val encodedSize_def
        parse_header_frame del: length_0_conv)
qed

lemma MarshalPooled_frame: "MarshalPooled m backing = frame m"
  by (simp add: MarshalPooled_def Let_def marshalInto_frame)

subsection \<open>Properties\<close>

text \<open>
  C30: decoding an encoded message gives the message back: every header field, the key and
  the value survive the wire format, for every key shorter than \<^verbatim>\<open>2^32\<close> bytes (the width
  of the key-length field).
\<close>

theorem UnmarshalMessage_Marshal:
  assumes "length (Key m) < 2 ^ 32"
  shows "UnmarshalMessage (Marshal m) = Inr (m\<lparr>BatchDecoded := False\<rparr>)"
  using UnmarshalMessage_frame [OF assms] by (simp add: Marshal_frame)

theorem UnmarshalMessage_Marshal_witness:
  "length (Key (NewMessage 7 3 [1, 2] [9])) < 2 ^ 32 \<and>
   UnmarshalMessage (Marshal (NewMessage 7 3 [1, 2] [9])) = Inr (NewMessage 7 3 [1, 2] [9])"
proof -
  have h: "length (Key (NewMessage 7 3 [1, 2] [9])) < 2 ^ 32"
    by (simp add: NewMessage_def)
  show ?thesis using h UnmarshalMessage_Marshal [OF h] by (simp add: NewMessage_def)
qed

text \<open>
  The encoding is canonical: bytes that \<^verbatim>\<open>UnmarshalMessage\<close> accepts are exactly the
  bytes \<^verbatim>\<open>Marshal\<close> produces for the message it returns, so no two byte strings decode to
  the same message.
\<close>

theorem Marshal_UnmarshalMessage:
  assumes "UnmarshalMessage data = Inr m"
  shows "Marshal m = data"
proof -
  let ?kl = "unat (be_get (subslice keyLenOff (keyLenOff + 4) data) :: u32)"
  from assms have len: "MetadataSize \<le> length data" "MetadataSize + ?kl \<le> length data"
    and m: "m = \<lparr>Header = parse_header data, Key = subslice keyOff (keyOff + ?kl) data,
                Value = drop (keyOff + ?kl) data, BatchDecoded = False\<rparr>"
    by (auto simp: UnmarshalMessage_def Let_def split: if_splits)
  have kv: "Key m @ Value m = drop 29 data"
    using append_take_drop_id [of ?kl "drop 29 data"]
    by (simp add: m subslice_def layout_defs add.commute)
  have "length (Key m) = ?kl"
    using len by (simp add: m length_subslice layout_defs)
  then have klb: "be_put 4 (word_of_nat (length (Key m)) :: u32) = subslice 25 29 data"
    using len by (simp add: be_put_get_subslice layout_defs)
  have "frame m = data ! 0 # subslice 1 9 data @ subslice 9 17 data @ subslice 17 25 data @
           subslice 25 29 data @ Key m @ Value m"
    using len unfolding frame_def klb
    by (simp add: m parse_header_def be_put_get_subslice layout_defs)
  also have "\<dots> = data"
    using split_header [OF len(1)] by (simp add: kv)
  finally show ?thesis by (simp add: Marshal_frame)
qed

definition zero_message :: message where
  "zero_message = \<lparr>Header = \<lparr>Priority = 0, Timestamp = 0, ProduceTime = 0, AppendTime = 0\<rparr>,
     Key = [], Value = [], BatchDecoded = False\<rparr>"

theorem Marshal_UnmarshalMessage_witness:
  "UnmarshalMessage (replicate 29 0) = Inr zero_message \<and> Marshal zero_message = replicate 29 0"
proof -
  have h: "UnmarshalMessage (replicate 29 0) = Inr zero_message"
    by code_simp
  show ?thesis using h Marshal_UnmarshalMessage [OF h] by simp
qed

text \<open>
  A recycled buffer never leaks: whatever the pooled backing array holds and however
  large it is, \<^verbatim>\<open>MarshalPooled\<close> returns exactly the bytes \<^verbatim>\<open>Marshal\<close> builds from a
  fresh buffer.
\<close>

theorem MarshalPooled_eq_Marshal: "MarshalPooled m backing = Marshal m"
  by (simp add: MarshalPooled_frame Marshal_frame)

text \<open>The header reader used by rebuild and retention agrees with the message reader.\<close>

lemma UnmarshalHeader_agrees:
  "UnmarshalMessage data = Inr m \<Longrightarrow> UnmarshalHeader data = Inr (Header m)"
  by (auto simp: UnmarshalMessage_def UnmarshalHeader_def Let_def layout_defs split: if_splits)

lemma UnmarshalHeader_frame [codec_simps]: "UnmarshalHeader (frame m) = Inr (Header m)"
  by (simp add: UnmarshalHeader_def parse_header_frame encodedSize_def)
    (simp add: layout_defs)

lemma frame_nth_0: "frame m ! 0 = Priority (Header m)" and frame_not_Nil [simp]: "frame m \<noteq> []"
  by (simp_all add: frame_def)

lemma frame_BatchDecoded [simp]: "frame (m\<lparr>BatchDecoded := b\<rparr>) = frame m"
  by (simp add: frame_def)

end
