(* ===== verification/PriorityIndex.thy ===== *)
theory PriorityIndex
  imports Prelude
begin

text \<open>
  The in-memory index of undelivered messages, \<^verbatim>\<open>pkg/broker/priority_index.go\<close>: the
  circular buffer \<^verbatim>\<open>entryRing\<close> of one priority level, and the index of ten levels with its
  counters. Each operation runs under the mutex of the level it touches and is modelled as
  one state transformer; the clock is an argument. The ring is shown to refine a bounded
  queue (an interpretation of \<^verbatim>\<open>bounded_fifo\<close>), and the operations of the index are shown to
  keep its counters exact and to act on the level contents the way their comments say.
\<close>

subsection \<open>The ring\<close>

definition MaxPriority :: nat where "MaxPriority = 10"

record pending_entry =
  WalOffset :: i64
  ArrivedAt :: gotime

text \<open>The zero \<^verbatim>\<open>time.Time\<close> is January 1, year 1, in nanoseconds since the Unix epoch.\<close>

definition zeroEntry :: pending_entry where
  "zeroEntry = \<lparr>WalOffset = 0, ArrivedAt = - 62135596800000000000\<rparr>"

record entryRing =
  rbuf :: "pending_entry list"
  rhead :: nat
  rsize :: nat
  rcap :: nat

definition linearize :: "entryRing \<Rightarrow> pending_entry list" where
  "linearize r = map (\<lambda>i. rbuf r ! ((rhead r + i) mod length (rbuf r))) [0..<rsize r]"

definition grow :: "entryRing \<Rightarrow> entryRing" where
  "grow r =
     (let wanted = max (length (rbuf r) * 2) 16;
          newCap = (if rcap r > 0 \<and> wanted > rcap r then rcap r else wanted);
          newBuf = map (\<lambda>i. rbuf r ! ((rhead r + i) mod length (rbuf r))) [0..<rsize r] @
                   replicate (newCap - rsize r) zeroEntry
      in r\<lparr>rbuf := newBuf, rhead := 0\<rparr>)"

definition pushBack :: "pending_entry \<Rightarrow> entryRing \<Rightarrow> (pending_entry \<times> bool) \<times> entryRing" where
  "pushBack e r =
     (if rcap r > 0 \<and> rsize r \<ge> rcap r
      then ((rbuf r ! rhead r, True),
            r\<lparr>rbuf := (rbuf r)[rhead r := e], rhead := (rhead r + 1) mod rcap r\<rparr>)
      else let r1 = (if rsize r = length (rbuf r) then grow r else r);
               idx = (rhead r1 + rsize r1) mod length (rbuf r1)
           in ((zeroEntry, False),
               r1\<lparr>rbuf := (rbuf r1)[idx := e], rsize := rsize r1 + 1\<rparr>))"

definition popFront :: "entryRing \<Rightarrow> (pending_entry \<times> bool) \<times> entryRing" where
  "popFront r =
     (if rsize r = 0 then ((zeroEntry, False), r)
      else ((rbuf r ! rhead r, True),
            r\<lparr>rbuf := (rbuf r)[rhead r := zeroEntry],
              rhead := (rhead r + 1) mod length (rbuf r),
              rsize := rsize r - 1\<rparr>))"

definition peekFront :: "entryRing \<Rightarrow> pending_entry \<times> bool" where
  "peekFront r = (if rsize r = 0 then (zeroEntry, False) else (rbuf r ! rhead r, True))"

definition resetFrom :: "pending_entry list \<Rightarrow> entryRing \<Rightarrow> entryRing" where
  "resetFrom entries0 r =
     (let entries = (if rcap r > 0 \<and> length entries0 > rcap r
                     then drop (length entries0 - rcap r) entries0 else entries0);
          need = length entries;
          b = (if need > length (rbuf r) then replicate need zeroEntry else rbuf r);
          b' = slice_write 0 entries b
      in r\<lparr>rbuf := take need b' @ replicate (length b' - need) zeroEntry,
           rhead := 0, rsize := need\<rparr>)"

subsection \<open>The ring refines a bounded queue\<close>

definition ring_ok :: "entryRing \<Rightarrow> bool" where
  "ring_ok r \<longleftrightarrow> rsize r \<le> length (rbuf r) \<and>
     (rbuf r = [] \<longrightarrow> rhead r = 0) \<and> (rbuf r \<noteq> [] \<longrightarrow> rhead r < length (rbuf r)) \<and>
     (0 < rcap r \<longrightarrow> length (rbuf r) \<le> rcap r)"

lemma linearize_circ: "linearize r = circ (rbuf r) (rhead r) (rsize r)"
  by (simp add: linearize_def circ_def)

lemma length_linearize [simp]: "length (linearize r) = rsize r"
  by (simp add: linearize_circ)

lemma grow_linearize:
  assumes "ring_ok r" and "rsize r = length (rbuf r)" and "rcap r = 0 \<or> rsize r < rcap r"
  shows "ring_ok (grow r)" and "linearize (grow r) = linearize r"
    and "rsize (grow r) = rsize r" and "rcap (grow r) = rcap r"
    and "rsize r < length (rbuf (grow r))"
proof -
  let ?new = "if rcap r > 0 \<and> max (length (rbuf r) * 2) 16 > rcap r then rcap r
    else max (length (rbuf r) * 2) 16"
  have new: "rsize r < ?new" using assms by auto
  have buf: "rbuf (grow r) = linearize r @ replicate (?new - rsize r) zeroEntry"
    by (simp add: grow_def Let_def linearize_def)
  have flds: "rhead (grow r) = 0" "rsize (grow r) = rsize r" "rcap (grow r) = rcap r"
    by (simp_all add: grow_def Let_def)
  have len: "length (rbuf (grow r)) = ?new" using new by (simp add: buf)
  show "rsize (grow r) = rsize r" "rcap (grow r) = rcap r" by (fact flds)+
  show "rsize r < length (rbuf (grow r))" using new len by simp
  show "ring_ok (grow r)" using assms new by (auto simp: ring_ok_def flds len buf)
  have "linearize (grow r) = take (rsize r) (rbuf (grow r))"
    using new len by (simp add: linearize_circ flds circ_from_0)
  then show "linearize (grow r) = linearize r" by (simp add: buf)
qed

lemma push_free:
  assumes "ring_ok r" and "rsize r < length (rbuf r)"
  shows "linearize (r\<lparr>rbuf := (rbuf r)[(rhead r + rsize r) mod length (rbuf r) := e],
      rsize := rsize r + 1\<rparr>) = linearize r @ [e]"
    and "ring_ok (r\<lparr>rbuf := (rbuf r)[(rhead r + rsize r) mod length (rbuf r) := e],
      rsize := rsize r + 1\<rparr>)"
  using assms by (simp_all add: linearize_circ circ_push ring_ok_def)

lemma pushBack_full:
  assumes "ring_ok r" and "0 < rcap r" and "rcap r \<le> rsize r"
  shows "ring_ok (snd (pushBack e r))"
    and "linearize (snd (pushBack e r)) = tl (linearize r) @ [e]"
    and "fst (pushBack e r) = (hd (linearize r), True)"
    and "rcap (snd (pushBack e r)) = rcap r"
proof -
  have len: "length (rbuf r) = rcap r" "rsize r = rcap r" "rhead r < length (rbuf r)"
    using assms by (auto simp: ring_ok_def)
  show "ring_ok (snd (pushBack e r))"
    using assms len by (auto simp: pushBack_def ring_ok_def)
  show "linearize (snd (pushBack e r)) = tl (linearize r) @ [e]"
    using assms len circ_replace [of "rhead r" "rbuf r" e]
    by (simp add: pushBack_def linearize_circ)
  show "fst (pushBack e r) = (hd (linearize r), True)"
    using assms len by (simp add: pushBack_def linearize_circ hd_circ)
  show "rcap (snd (pushBack e r)) = rcap r"
    using assms by (simp add: pushBack_def)
qed

lemma pushBack_room:
  assumes "ring_ok r" and "rcap r = 0 \<or> rsize r < rcap r"
  shows "ring_ok (snd (pushBack e r))"
    and "linearize (snd (pushBack e r)) = linearize r @ [e]"
    and "fst (pushBack e r) = (zeroEntry, False)"
    and "rcap (snd (pushBack e r)) = rcap r"
proof -
  define r1 where "r1 = (if rsize r = length (rbuf r) then grow r else r)"
  have r1: "ring_ok r1" "linearize r1 = linearize r" "rcap r1 = rcap r" "rsize r1 < length (rbuf r1)"
    using assms grow_linearize [of r] by (auto simp: r1_def ring_ok_def)
  have pb: "pushBack e r = ((zeroEntry, False),
      r1\<lparr>rbuf := (rbuf r1)[(rhead r1 + rsize r1) mod length (rbuf r1) := e], rsize := rsize r1 + 1\<rparr>)"
    using assms(2) by (auto simp: pushBack_def r1_def Let_def)
  show "ring_ok (snd (pushBack e r))" "linearize (snd (pushBack e r)) = linearize r @ [e]"
    "fst (pushBack e r) = (zeroEntry, False)" "rcap (snd (pushBack e r)) = rcap r"
    unfolding pb using push_free [OF r1(1,4), of e] r1 by simp_all
qed

lemma popFront_ring:
  assumes "ring_ok r"
  shows "ring_ok (snd (popFront r))" and "linearize (snd (popFront r)) = tl (linearize r)"
    and "rcap (snd (popFront r)) = rcap r"
proof -
  have "ring_ok (snd (popFront r)) \<and> linearize (snd (popFront r)) = tl (linearize r) \<and>
      rcap (snd (popFront r)) = rcap r"
  proof (cases "rsize r = 0")
    case True
    then show ?thesis using assms by (simp add: popFront_def linearize_circ)
  next
    case False
    then have "rhead r < length (rbuf r)" "rsize r \<le> length (rbuf r)"
      using assms by (auto simp: ring_ok_def)
    with False assms show ?thesis
      by (auto simp: popFront_def ring_ok_def linearize_circ circ_pop)
  qed
  then show "ring_ok (snd (popFront r))" "linearize (snd (popFront r)) = tl (linearize r)"
    "rcap (snd (popFront r)) = rcap r" by auto
qed

lemma linearize_Nil [simp]: "linearize r = [] \<longleftrightarrow> rsize r = 0"
  by (simp flip: length_0_conv)

interpretation entry_ring: bounded_fifo pushBack linearize rcap ring_ok popFront
proof
  fix r e
  assume ok: "ring_ok r"
  consider (full) "0 < rcap r" "rcap r \<le> rsize r" | (room) "rcap r = 0 \<or> rsize r < rcap r"
    by linarith
  note cases = this
  show "ring_ok (snd (pushBack e r))" "rcap (snd (pushBack e r)) = rcap r"
    using pushBack_full [OF ok] pushBack_room [OF ok] by (cases rule: cases; simp)+
  have le: "0 < rcap r \<Longrightarrow> rsize r \<le> rcap r"
    using ok by (auto simp: ring_ok_def)
  show "linearize (snd (pushBack e r)) = keep_last (rcap r) (linearize r @ [e])"
  proof (cases rule: cases)
    case full
    then show ?thesis using pushBack_full(2) [OF ok full] le takelast_tl [of "linearize r" "rcap r" e]
      by (simp add: keep_last_def)
  next
    case room
    then show ?thesis using pushBack_room(2) [OF ok room] by (auto simp: keep_last_def)
  qed
  show "snd (fst (pushBack e r)) \<longleftrightarrow> 0 < rcap r \<and> rcap r \<le> length (linearize r)"
    using pushBack_full(3) [OF ok] pushBack_room(3) [OF ok] by (cases rule: cases; auto)
  show "fst (fst (pushBack e r)) = hd (linearize r)" if "snd (fst (pushBack e r))"
    using that pushBack_full(3) [OF ok] pushBack_room(3) [OF ok] by (cases rule: cases; auto)
next
  fix r
  assume ok: "ring_ok r"
  show "length (linearize r) \<le> rcap r" if "0 < rcap r"
    using ok that by (auto simp: ring_ok_def)
  show "ring_ok (snd (popFront r))" "rcap (snd (popFront r)) = rcap r"
    "linearize (snd (popFront r)) = tl (linearize r)"
    using popFront_ring [OF ok] by simp_all
  show "snd (fst (popFront r)) \<longleftrightarrow> linearize r \<noteq> []"
    by (simp add: popFront_def)
  show "fst (fst (popFront r)) = hd (linearize r)" if "linearize r \<noteq> []"
  proof -
    have "0 < rsize r" using that by simp
    then show ?thesis using ok by (auto simp: popFront_def linearize_circ hd_circ ring_ok_def)
  qed
qed

lemma peekFront_ring:
  assumes "ring_ok r"
  shows "peekFront r = (if linearize r = [] then (zeroEntry, False) else (hd (linearize r), True))"
proof (cases "rsize r = 0")
  case False
  then have "hd (linearize r) = rbuf r ! rhead r"
    using assms by (auto simp: linearize_circ hd_circ ring_ok_def)
  with False show ?thesis by (simp add: peekFront_def)
qed (simp add: peekFront_def)

lemma resetFrom_ring:
  assumes "ring_ok r"
  shows "ring_ok (resetFrom es r)" and "rcap (resetFrom es r) = rcap r"
    and "linearize (resetFrom es r) = keep_last (rcap r) es"
proof -
  define ks where "ks = keep_last (rcap r) es"
  define b where "b = (if length ks > length (rbuf r) then replicate (length ks) zeroEntry else rbuf r)"
  have len: "length ks \<le> length b" by (simp add: b_def)
  have capb: "0 < rcap r \<Longrightarrow> length b \<le> rcap r"
    using assms by (auto simp: b_def ks_def keep_last_def ring_ok_def)
  have ks: "(if rcap r > 0 \<and> length es > rcap r then drop (length es - rcap r) es else es) = ks"
    by (auto simp: ks_def keep_last_def takelast_def)
  have eq: "resetFrom es r = r\<lparr>rbuf := ks @ replicate (length b - length ks) zeroEntry,
      rhead := 0, rsize := length ks\<rparr>"
    using len unfolding resetFrom_def Let_def ks b_def [symmetric]
    by (simp add: take_slice_write)
  show "ring_ok (resetFrom es r)" "rcap (resetFrom es r) = rcap r"
    using len capb by (auto simp: eq ring_ok_def)
  show "linearize (resetFrom es r) = keep_last (rcap r) es"
    using len by (simp add: eq linearize_circ circ_from_0 ks_def)
qed

subsection \<open>The index\<close>

record priorityLevel =
  ring :: entryRing
  count :: int

record pindex =
  levels :: "priorityLevel list"
  total :: int
  maxPerLevel :: int

definition emptyLevel :: priorityLevel where
  "emptyLevel = \<lparr>ring = \<lparr>rbuf = [], rhead = 0, rsize = 0, rcap = 0\<rparr>, count = 0\<rparr>"

text \<open>The option \<^verbatim>\<open>WithMaxPerLevel(n)\<close> sets the argument; without it the argument is 0.\<close>

definition NewPriorityIndex :: "int \<Rightarrow> pindex" where
  "NewPriorityIndex maxLevel =
     \<lparr>levels = replicate MaxPriority
        (if maxLevel > 0
         then emptyLevel\<lparr>ring := \<lparr>rbuf = replicate (nat maxLevel) zeroEntry, rhead = 0,
                rsize = 0, rcap = nat maxLevel\<rparr>\<rparr>
         else emptyLevel),
      total = 0, maxPerLevel = maxLevel\<rparr>"

definition clampPriority :: "int \<Rightarrow> nat" where
  "clampPriority priority =
     nat (let p0 = (if priority < 0 then 0 else priority)
          in if p0 \<ge> int MaxPriority then int MaxPriority - 1 else p0)"

definition Add :: "pindex \<Rightarrow> int \<Rightarrow> i64 \<Rightarrow> gotime \<Rightarrow> bool \<times> pindex" where
  "Add pi priority offset arrivedAt =
     (let p = clampPriority priority;
          lv = levels pi ! p;
          ((_, evicted), r) = pushBack \<lparr>WalOffset = offset, ArrivedAt = arrivedAt\<rparr> (ring lv)
      in if evicted then (False, pi\<lparr>levels := (levels pi)[p := lv\<lparr>ring := r\<rparr>]\<rparr>)
         else (True, pi\<lparr>levels := (levels pi)[p := lv\<lparr>ring := r, count := count lv + 1\<rparr>],
                        total := total pi + 1\<rparr>))"

text \<open>
  One iteration of the delivery loops: try to pop level \<^verbatim>\<open>p\<close>, and go on with the remaining
  levels when it is empty.
\<close>

fun pop_levels :: "nat list \<Rightarrow> pindex \<Rightarrow> (pending_entry \<times> bool) \<times> pindex" where
  "pop_levels [] pi = ((zeroEntry, False), pi)"
| "pop_levels (p # ps) pi =
     (let lv = levels pi ! p;
          ((entry, ok), r) = popFront (ring lv)
      in if ok then ((entry, True),
                     pi\<lparr>levels := (levels pi)[p := lv\<lparr>ring := r, count := count lv - 1\<rparr>],
                        total := total pi - 1\<rparr>)
         else pop_levels ps pi)"

definition PopHighest :: "pindex \<Rightarrow> (pending_entry \<times> bool) \<times> pindex" where
  "PopHighest pi = pop_levels (rev [0..<MaxPriority]) pi"

fun best_level :: "nat list \<Rightarrow> pindex \<Rightarrow> (nat \<times> gotime) option \<Rightarrow> (nat \<times> gotime) option" where
  "best_level [] pi best = best"
| "best_level (p # ps) pi best =
     (let (e, ok) = peekFront (ring (levels pi ! p))
      in best_level ps pi
           (if ok then (case best of None \<Rightarrow> Some (p, ArrivedAt e)
                        | Some (q, t) \<Rightarrow> if ArrivedAt e < t then Some (p, ArrivedAt e) else best)
            else best))"

text \<open>
  A negative threshold makes the first loop index level \<^verbatim>\<open>-1\<close> once all levels are found
  empty: the result \<^verbatim>\<open>None\<close> is that panic.
\<close>

definition PopWithThreshold ::
    "pindex \<Rightarrow> int \<Rightarrow> ((pending_entry \<times> bool) \<times> pindex) option" where
  "PopWithThreshold pi threshold =
     (case pop_levels (rev [nat threshold..<MaxPriority]) pi of
        ((entry, True), pi') \<Rightarrow> Some ((entry, True), pi')
      | ((_, False), _) \<Rightarrow>
          if threshold < 0 then None
          else (case best_level [0..<min (nat threshold) MaxPriority] pi None of
                  Some (p, _) \<Rightarrow>
                    let lv = levels pi ! p; ((entry, _), r) = popFront (ring lv)
                    in Some ((entry, True),
                         pi\<lparr>levels := (levels pi)[p := lv\<lparr>ring := r, count := count lv - 1\<rparr>],
                            total := total pi - 1\<rparr>)
                | None \<Rightarrow> Some ((zeroEntry, False), pi)))"

definition Len :: "pindex \<Rightarrow> int" where
  "Len pi = total pi"

definition LevelDistribution :: "pindex \<Rightarrow> int list" where
  "LevelDistribution pi = map count (levels pi)"

text \<open>Pushing the stale entries of a level one by one, counting evictions in the total.\<close>

fun push_stale :: "pending_entry list \<Rightarrow> entryRing \<Rightarrow> int \<Rightarrow> entryRing \<times> int" where
  "push_stale [] r tot = (r, tot)"
| "push_stale (e # es) r tot =
     (let ((_, evicted), r') = pushBack e r
      in push_stale es r' (if evicted then tot - 1 else tot))"

definition promote_level :: "int \<Rightarrow> gotime \<Rightarrow> nat \<Rightarrow> pindex \<Rightarrow> pindex" where
  "promote_level ttl now p pi =
     (let lv = levels pi ! p;
          es = linearize (ring lv);
          stale = filter (\<lambda>e. now - ArrivedAt e > ttl) es;
          fresh = filter (\<lambda>e. \<not> now - ArrivedAt e > ttl) es;
          pi1 = pi\<lparr>levels := (levels pi)[p := lv\<lparr>ring := resetFrom fresh (ring lv),
                                             count := int (length fresh)\<rparr>]\<rparr>
      in if stale = [] then pi1
         else let up = levels pi1 ! (p + 1);
                  (r, tot) = push_stale stale (ring up) (total pi1)
              in pi1\<lparr>levels := (levels pi1)[p + 1 := up\<lparr>ring := r, count := int (rsize r)\<rparr>],
                     total := tot\<rparr>)"

definition PromoteStale :: "int \<Rightarrow> gotime \<Rightarrow> pindex \<Rightarrow> pindex" where
  "PromoteStale ttl now pi =
     foldl (\<lambda>q p. promote_level ttl now p q) pi (rev [0..<MaxPriority - 1])"

subsection \<open>Invariant and contents\<close>

definition level_ok :: "nat \<Rightarrow> priorityLevel \<Rightarrow> bool" where
  "level_ok c lv \<longleftrightarrow> ring_ok (ring lv) \<and> rcap (ring lv) = c \<and> count lv = int (rsize (ring lv))"

definition pi_ok :: "pindex \<Rightarrow> bool" where
  "pi_ok pi \<longleftrightarrow> length (levels pi) = MaxPriority \<and>
     (\<forall>lv \<in> set (levels pi). level_ok (nat (maxPerLevel pi)) lv) \<and>
     total pi = sum_list (map count (levels pi))"

definition level_items :: "pindex \<Rightarrow> nat \<Rightarrow> pending_entry list" where
  "level_items pi p = linearize (ring (levels pi ! p))"

lemma pi_ok_level: "pi_ok pi \<Longrightarrow> p < MaxPriority \<Longrightarrow> level_ok (nat (maxPerLevel pi)) (levels pi ! p)"
  by (simp add: pi_ok_def)

lemma pi_ok_length: "pi_ok pi \<Longrightarrow> length (levels pi) = MaxPriority"
  by (simp add: pi_ok_def)

lemma sum_list_map_update:
  fixes f :: "'a \<Rightarrow> int"
  assumes "p < length xs"
  shows "sum_list (map f (xs[p := x])) = sum_list (map f xs) - f (xs ! p) + f x"
  using assms
proof (induction xs arbitrary: p)
  case (Cons y ys)
  then show ?case by (cases p) auto
qed simp

lemma pi_ok_update:
  assumes "pi_ok pi" and "p < MaxPriority" and "level_ok (nat (maxPerLevel pi)) lv"
    and "tot = total pi - count (levels pi ! p) + count lv"
  shows "pi_ok (pi\<lparr>levels := (levels pi)[p := lv], total := tot\<rparr>)"
  using assms set_update_subset_insert [of "levels pi" p lv]
  by (auto simp: pi_ok_def sum_list_map_update)

lemma level_items_update:
  assumes "p < length (levels pi)"
  shows "level_items (pi\<lparr>levels := (levels pi)[p := lv], total := tot\<rparr>) =
      (level_items pi)(p := linearize (ring lv))"
    and "level_items (pi\<lparr>levels := (levels pi)[p := lv]\<rparr>) =
      (level_items pi)(p := linearize (ring lv))"
  using assms by (auto simp: level_items_def fun_eq_iff)

lemma clampPriority_less: "clampPriority priority < MaxPriority"
  by (auto simp: clampPriority_def MaxPriority_def Let_def)

lemma clampPriority_id: "q < MaxPriority \<Longrightarrow> clampPriority (int q) = q"
  by (simp add: clampPriority_def MaxPriority_def Let_def)

lemma level_bounded:
  assumes "pi_ok pi" and "p < MaxPriority"
  shows "keep_last (nat (maxPerLevel pi)) (level_items pi p) = level_items pi p"
  using pi_ok_level [OF assms] entry_ring.items_bound [of "ring (levels pi ! p)"]
  by (auto simp: level_ok_def level_items_def keep_last_def)

text \<open>The abstract effect of a delivery: the oldest entry of one level leaves it.\<close>

definition delivers ::
    "(nat \<Rightarrow> pending_entry list) \<Rightarrow> nat \<Rightarrow> pending_entry \<Rightarrow> (nat \<Rightarrow> pending_entry list) \<Rightarrow> bool" where
  "delivers L p e L' \<longleftrightarrow> p < MaxPriority \<and> L p = e # L' p \<and> L' = L(p := tl (L p))"

lemma delivers_head:
  assumes "delivers L p e L'"
  shows "p < MaxPriority" and "L p \<noteq> []" and "e = hd (L p)"
proof -
  from assms have c: "L p = e # L' p" and p: "p < MaxPriority" unfolding delivers_def by blast+
  from p show "p < MaxPriority" .
  from c show "L p \<noteq> []" by (metis list.distinct(1))
  from c show "e = hd (L p)" by (metis list.sel(1))
qed

lemma pop_one_level:
  assumes ok: "pi_ok pi" and p: "p < MaxPriority" and ne: "level_items pi p \<noteq> []"
    and lv: "lv = levels pi ! p" and pop: "popFront (ring lv) = ((e, b), r)"
    and pi': "pi' = pi\<lparr>levels := (levels pi)[p := lv\<lparr>ring := r, count := count lv - 1\<rparr>],
      total := total pi - 1\<rparr>"
  shows "b" and "pi_ok pi'" and "delivers (level_items pi) p e (level_items pi')"
    and "maxPerLevel pi' = maxPerLevel pi" and "total pi' = total pi - 1"
proof -
  have lok: "level_ok (nat (maxPerLevel pi)) lv"
    using pi_ok_level [OF ok p] by (simp add: lv)
  then have rok: "ring_ok (ring lv)" by (simp add: level_ok_def)
  have items: "linearize (ring lv) \<noteq> []" using ne by (simp add: lv level_items_def)
  note spec = entry_ring.ok_pop [OF rok] entry_ring.bound_pop [OF rok] entry_ring.items_pop [OF rok]
    entry_ring.popped [OF rok] entry_ring.popped_hd [OF rok items]
  show b using spec(4) items pop by simp
  have tl: "linearize r = tl (linearize (ring lv))" "e = hd (linearize (ring lv))"
    using spec pop by simp_all
  have "rsize r = rsize (ring lv) - 1"
    using arg_cong [OF tl(1), of length] by simp
  moreover have "0 < rsize (ring lv)" using items by simp
  ultimately have "int (rsize r) = int (rsize (ring lv)) - 1" by simp
  then have "level_ok (nat (maxPerLevel pi)) (lv\<lparr>ring := r, count := count lv - 1\<rparr>)"
    using lok spec pop by (simp add: level_ok_def)
  then show "pi_ok pi'"
    using ok p by (simp add: pi' lv pi_ok_update)
  show "delivers (level_items pi) p e (level_items pi')"
    using p items tl pi_ok_length [OF ok]
    by (simp add: pi' level_items_update delivers_def) (simp add: level_items_def lv)
  show "maxPerLevel pi' = maxPerLevel pi" "total pi' = total pi - 1" by (simp_all add: pi')
qed

lemma pop_levels_spec:
  assumes "pi_ok pi" and "set ps \<subseteq> {..<MaxPriority}"
  shows "(\<exists>qs p rs e pi'. ps = qs @ p # rs \<and> (\<forall>q \<in> set qs. level_items pi q = []) \<and>
            pop_levels ps pi = ((e, True), pi') \<and> pi_ok pi' \<and> maxPerLevel pi' = maxPerLevel pi \<and>
            total pi' = total pi - 1 \<and> delivers (level_items pi) p e (level_items pi')) \<or>
         ((\<forall>q \<in> set ps. level_items pi q = []) \<and> pop_levels ps pi = ((zeroEntry, False), pi))"
  using assms(2)
proof (induction ps)
  case Nil
  then show ?case by simp
next
  case (Cons p ps)
  let ?lv = "levels pi ! p"
  from Cons.prems have p: "p < MaxPriority" by simp
  have rok: "ring_ok (ring ?lv)"
    using pi_ok_level [OF assms(1) p] by (simp add: level_ok_def)
  obtain e b r where pop: "popFront (ring ?lv) = ((e, b), r)" by (metis surj_pair)
  show ?case
  proof (cases "level_items pi p = []")
    case True
    then have "\<not> b"
      using entry_ring.popped [OF rok] pop by (simp add: level_items_def)
    then have skip: "pop_levels (p # ps) pi = pop_levels ps pi" by (simp add: pop)
    have "set ps \<subseteq> {..<MaxPriority}" using Cons.prems by simp
    from Cons.IH [OF this] show ?thesis
    proof
      assume "\<exists>qs p' rs e pi'. ps = qs @ p' # rs \<and> (\<forall>q \<in> set qs. level_items pi q = []) \<and>
          pop_levels ps pi = ((e, True), pi') \<and> pi_ok pi' \<and> maxPerLevel pi' = maxPerLevel pi \<and>
          total pi' = total pi - 1 \<and> delivers (level_items pi) p' e (level_items pi')"
      then obtain qs p' rs e pi' where h: "ps = qs @ p' # rs" "\<forall>q \<in> set qs. level_items pi q = []"
        "pop_levels ps pi = ((e, True), pi')" "pi_ok pi'" "maxPerLevel pi' = maxPerLevel pi"
        "total pi' = total pi - 1" "delivers (level_items pi) p' e (level_items pi')" by blast
      have "p # ps = (p # qs) @ p' # rs" "\<forall>q \<in> set (p # qs). level_items pi q = []"
        using h True by simp_all
      with h(3-) show ?thesis unfolding skip by blast
    qed (use True skip in auto)
  next
    case False
    define pi' where "pi' = pi\<lparr>levels := (levels pi)[p := ?lv\<lparr>ring := r, count := count ?lv - 1\<rparr>],
      total := total pi - 1\<rparr>"
    note one = pop_one_level [OF assms(1) p False refl pop pi'_def]
    from one(1) have "pop_levels (p # ps) pi = ((e, True), pi')"
      by (simp add: pop pi'_def Let_def)
    with one show ?thesis
      by (intro disjI1 exI [of _ "[]"] exI [of _ p] exI [of _ ps] exI [of _ e] exI [of _ pi']) simp
  qed
qed

lemma NewPriorityIndex_ok: "pi_ok (NewPriorityIndex n)"
  by (auto simp: NewPriorityIndex_def pi_ok_def level_ok_def ring_ok_def emptyLevel_def sum_list_replicate)

lemma NewPriorityIndex_empty: "p < MaxPriority \<Longrightarrow> level_items (NewPriorityIndex n) p = []"
  by (simp add: NewPriorityIndex_def level_items_def emptyLevel_def)

lemma Len_items:
  assumes "pi_ok pi"
  shows "Len pi = int (\<Sum>p<MaxPriority. length (level_items pi p))"
proof -
  have "total pi = (\<Sum>p<MaxPriority. count (levels pi ! p))"
    using assms by (simp add: pi_ok_def sum_list_sum_nth lessThan_atLeast0)
  also have "\<dots> = (\<Sum>p<MaxPriority. int (length (level_items pi p)))"
    using pi_ok_level [OF assms] by (intro sum.cong) (auto simp: level_ok_def level_items_def)
  finally show ?thesis by (simp add: Len_def)
qed

lemma level_same_count: "count lv = c \<Longrightarrow> lv\<lparr>ring := r, count := c\<rparr> = lv\<lparr>ring := r\<rparr>"
  by (cases lv) simp

lemma Add_spec:
  assumes ok: "pi_ok pi" and p: "p = clampPriority priority"
  shows "pi_ok (snd (Add pi priority off t))"
    and "level_items (snd (Add pi priority off t)) = (level_items pi)
      (p := keep_last (nat (maxPerLevel pi)) (level_items pi p @ [\<lparr>WalOffset = off, ArrivedAt = t\<rparr>]))"
    and "maxPerLevel (snd (Add pi priority off t)) = maxPerLevel pi"
    and "fst (Add pi priority off t) \<longleftrightarrow>
      \<not> (0 < maxPerLevel pi \<and> maxPerLevel pi \<le> int (length (level_items pi p)))"
proof -
  let ?lv = "levels pi ! p" and ?e = "\<lparr>WalOffset = off, ArrivedAt = t\<rparr>"
  have pl: "p < MaxPriority" by (simp add: p clampPriority_less)
  note lok = pi_ok_level [OF ok pl]
  then have rok: "ring_ok (ring ?lv)" by (simp add: level_ok_def)
  obtain x b r where push: "pushBack ?e (ring ?lv) = ((x, b), r)" by (metis surj_pair)
  note spec = entry_ring.ok_put [OF rok, of ?e] entry_ring.bound_put [OF rok, of ?e]
    entry_ring.items_put [OF rok, of ?e] entry_ring.evicted_push [OF rok, of ?e]
  have r: "ring_ok r" "rcap r = rcap (ring ?lv)"
    "linearize r = keep_last (rcap (ring ?lv)) (linearize (ring ?lv) @ [?e])"
    "b \<longleftrightarrow> 0 < rcap (ring ?lv) \<and> rcap (ring ?lv) \<le> rsize (ring ?lv)"
    using spec push by simp_all
  have size: "rsize r = (if b then rsize (ring ?lv) else rsize (ring ?lv) + 1)"
    using arg_cong [OF r(3), of length] r(4) entry_ring.items_bound [OF rok]
    by (auto simp: keep_last_def)
  have add: "Add pi priority off t =
    (\<not> b, pi\<lparr>levels := (levels pi)[p := ?lv\<lparr>ring := r, count := int (rsize r)\<rparr>],
      total := total pi - count ?lv + int (rsize r)\<rparr>)"
    using push size lok
    by (auto simp: Add_def p [symmetric] Let_def level_ok_def level_same_count add.commute)
  have lok': "level_ok (nat (maxPerLevel pi)) (?lv\<lparr>ring := r, count := int (rsize r)\<rparr>)"
    using lok r by (simp add: level_ok_def)
  show "pi_ok (snd (Add pi priority off t))"
    unfolding add using ok pl lok' by (simp add: pi_ok_update)
  show "level_items (snd (Add pi priority off t)) = (level_items pi)
      (p := keep_last (nat (maxPerLevel pi)) (level_items pi p @ [?e]))"
    unfolding add using pl lok r pi_ok_length [OF ok]
    by (simp add: level_items_update level_ok_def) (simp add: level_items_def)
  show "maxPerLevel (snd (Add pi priority off t)) = maxPerLevel pi" unfolding add by simp
  show "fst (Add pi priority off t) \<longleftrightarrow>
      \<not> (0 < maxPerLevel pi \<and> maxPerLevel pi \<le> int (length (level_items pi p)))"
    unfolding add using r(4) lok by (auto simp: level_ok_def level_items_def)
qed

lemma best_level_spec:
  assumes "pi_ok pi" and "set ps \<subseteq> {..<MaxPriority}"
  shows "case best_level ps pi b of
      None \<Rightarrow> b = None \<and> (\<forall>q \<in> set ps. level_items pi q = [])
    | Some (p, t) \<Rightarrow>
        (b = Some (p, t) \<or> p \<in> set ps \<and> level_items pi p \<noteq> [] \<and> t = ArrivedAt (hd (level_items pi p))) \<and>
        (\<forall>q \<in> set ps. level_items pi q \<noteq> [] \<longrightarrow> t \<le> ArrivedAt (hd (level_items pi q))) \<and>
        (\<forall>q u. b = Some (q, u) \<longrightarrow> t \<le> u)"
  using assms(2)
proof (induction ps arbitrary: b)
  case Nil
  then show ?case by (auto split: option.splits)
next
  case (Cons p ps)
  let ?items = "level_items pi p"
  define b' where "b' = (if ?items = [] then b
    else case b of None \<Rightarrow> Some (p, ArrivedAt (hd ?items))
      | Some (q, t) \<Rightarrow> if ArrivedAt (hd ?items) < t then Some (p, ArrivedAt (hd ?items)) else b)"
  have "ring_ok (ring (levels pi ! p))"
    using pi_ok_level [OF assms(1), of p] Cons.prems by (simp add: level_ok_def)
  then have step: "best_level (p # ps) pi b = best_level ps pi b'"
    unfolding b'_def level_items_def by (simp add: peekFront_ring)
  have "set ps \<subseteq> {..<MaxPriority}" using Cons.prems by simp
  note IH = Cons.IH [OF this, of b']
  show ?case
  proof (cases "best_level ps pi b'")
    case None
    with IH show ?thesis unfolding step by (auto simp: b'_def split: if_splits option.splits)
  next
    case (Some pt)
    obtain p' t where pt: "pt = (p', t)" by (cases pt)
    have ub: "\<forall>q u. b' = Some (q, u) \<longrightarrow> t \<le> u" using IH Some pt by simp
    show ?thesis
    proof (cases "?items = []")
      case True
      then show ?thesis unfolding step using IH Some pt by (auto simp: b'_def)
    next
      case False
      have "t \<le> ArrivedAt (hd ?items)" and "\<forall>q u. b = Some (q, u) \<longrightarrow> t \<le> u"
        using ub False by (auto simp: b'_def split: option.splits if_splits)
      then show ?thesis unfolding step using IH Some pt False
        by (auto simp: b'_def split: option.splits if_splits)
    qed
  qed
qed

lemma pop_down_spec:
  assumes "pi_ok pi"
  shows "(\<exists>p e pi'. pop_levels (rev [a..<MaxPriority]) pi = ((e, True), pi') \<and> a \<le> p \<and>
            pi_ok pi' \<and> total pi' = total pi - 1 \<and> delivers (level_items pi) p e (level_items pi') \<and>
            (\<forall>q. p < q \<and> q < MaxPriority \<longrightarrow> level_items pi q = [])) \<or>
         pop_levels (rev [a..<MaxPriority]) pi = ((zeroEntry, False), pi) \<and>
         (\<forall>q. a \<le> q \<and> q < MaxPriority \<longrightarrow> level_items pi q = [])"
proof -
  have "set (rev [a..<MaxPriority]) \<subseteq> {..<MaxPriority}" by auto
  from pop_levels_spec [OF assms this] show ?thesis
  proof (elim disjE exE conjE)
    fix qs p rs e pi'
    assume split: "rev [a..<MaxPriority] = qs @ p # rs"
      and empty: "\<forall>q \<in> set qs. level_items pi q = []"
      and res: "pop_levels (rev [a..<MaxPriority]) pi = ((e, True), pi')"
        "pi_ok pi'" "total pi' = total pi - 1" "delivers (level_items pi) p e (level_items pi')"
    have "p \<in> set (rev [a..<MaxPriority])" unfolding split by simp
    then have ap: "a \<le> p" by simp
    have "q \<in> set qs" if "p < q" "q < MaxPriority" for q
    proof -
      have "sorted_wrt (\<ge>) (qs @ p # rs)"
        unfolding split [symmetric] by (simp add: sorted_wrt_rev)
      then have "\<forall>r \<in> set rs. r \<le> p" by (simp add: sorted_wrt_append)
      moreover have "q \<in> set (qs @ p # rs)"
        unfolding split [symmetric] using that ap by simp
      ultimately show ?thesis using that by auto
    qed
    with empty have "\<forall>q. p < q \<and> q < MaxPriority \<longrightarrow> level_items pi q = []" by blast
    with res ap show ?thesis by blast
  qed simp
qed

text \<open>The oldest-head search below the threshold, when no level at or above it has an entry.\<close>

lemma PopWithThreshold_below:
  assumes ok: "pi_ok pi" and t: "0 \<le> threshold"
    and none: "\<And>q. q < MaxPriority \<Longrightarrow> threshold \<le> int q \<Longrightarrow> level_items pi q = []"
    and pop: "pop_levels (rev [nat threshold..<MaxPriority]) pi = ((zeroEntry, False), pi)"
  shows "(\<exists>p e pi'. PopWithThreshold pi threshold = Some ((e, True), pi') \<and> pi_ok pi' \<and>
            total pi' = total pi - 1 \<and> delivers (level_items pi) p e (level_items pi') \<and>
            (\<forall>q < MaxPriority. level_items pi q \<noteq> [] \<longrightarrow>
               ArrivedAt e \<le> ArrivedAt (hd (level_items pi q)))) \<or>
         PopWithThreshold pi threshold = Some ((zeroEntry, False), pi) \<and>
         (\<forall>q < MaxPriority. level_items pi q = [])"
proof -
  let ?low = "[0..<min (nat threshold) MaxPriority]"
  have low: "set ?low \<subseteq> {..<MaxPriority}" by auto
  note best = best_level_spec [OF ok low, of None]
  have cover: "q \<in> set ?low \<or> level_items pi q = []" if "q < MaxPriority" for q
    using none that by (cases "threshold \<le> int q") auto
  show ?thesis
  proof (cases "best_level ?low pi None")
    case None
    then have "\<forall>q \<in> set ?low. level_items pi q = []" using best by simp
    then have "\<forall>q < MaxPriority. level_items pi q = []" using cover by blast
    moreover have "PopWithThreshold pi threshold = Some ((zeroEntry, False), pi)"
      unfolding PopWithThreshold_def pop using t None by simp
    ultimately show ?thesis by blast
  next
    case (Some pt)
    obtain p t where pt: "pt = (p, t)" by (cases pt)
    have b: "p \<in> set ?low" "level_items pi p \<noteq> []" "t = ArrivedAt (hd (level_items pi p))"
      "\<forall>q \<in> set ?low. level_items pi q \<noteq> [] \<longrightarrow> t \<le> ArrivedAt (hd (level_items pi q))"
      using best Some pt by auto
    let ?lv = "levels pi ! p"
    obtain e b r where popp: "popFront (ring ?lv) = ((e, b), r)" by (metis surj_pair)
    define pi' where "pi' = pi\<lparr>levels := (levels pi)[p := ?lv\<lparr>ring := r, count := count ?lv - 1\<rparr>],
      total := total pi - 1\<rparr>"
    have p: "p < MaxPriority" using b(1) by auto
    note one = pop_one_level [OF ok p b(2) refl popp pi'_def]
    have eq: "PopWithThreshold pi threshold = Some ((e, True), pi')"
      unfolding PopWithThreshold_def pop using Some pt assms(2) popp by (simp add: pi'_def Let_def)
    have e: "e = hd (level_items pi p)" by (rule delivers_head [OF one(3)])
    have "\<forall>q < MaxPriority. level_items pi q \<noteq> [] \<longrightarrow>
        ArrivedAt e \<le> ArrivedAt (hd (level_items pi q))"
      using b(3,4) cover unfolding e by metis
    with eq one(2,3,5) show ?thesis
      by (intro disjI1 exI [of _ p] exI [of _ e] exI [of _ pi'] conjI) assumption+
  qed
qed

text \<open>
  What \<^verbatim>\<open>PromoteStale\<close> means for the contents: every level hands its stale entries to the
  level above, once, and the receiving level keeps its newest entries.
\<close>

definition promoted :: "nat \<Rightarrow> (pending_entry \<Rightarrow> bool) \<Rightarrow> (nat \<Rightarrow> pending_entry list) \<Rightarrow>
    nat \<Rightarrow> nat \<Rightarrow> pending_entry list" where
  "promoted c st L n q =
     (let own = if q < n then filter (\<lambda>e. \<not> st e) (L q) else L q
      in if 0 < q \<and> q \<le> n then keep_last c (own @ filter st (L (q - 1))) else own)"

lemma push_stale_spec:
  assumes "ring_ok r" and "push_stale es r tot = (r', tot')"
  shows "ring_ok r'" and "rcap r' = rcap r" and "linearize r' = keep_last (rcap r) (linearize r @ es)"
    and "tot' = tot - int (length es) + int (rsize r') - int (rsize r)"
proof -
  have "push_stale es r tot = (r', tot') \<Longrightarrow> ring_ok r \<Longrightarrow>
      r' = foldl (\<lambda>q x. snd (pushBack x q)) r es \<and>
      tot' = tot - int (length es) + int (rsize r') - int (rsize r)"
    for es r tot
  proof (induction es arbitrary: r tot)
    case (Cons e es)
    obtain x b r1 where push: "pushBack e r = ((x, b), r1)" by (metis surj_pair)
    have ok1: "ring_ok r1" using entry_ring.ok_put [OF Cons.prems(2), of e] push by simp
    have "linearize r1 = keep_last (rcap r) (linearize r @ [e])"
      "b \<longleftrightarrow> 0 < rcap r \<and> rcap r \<le> rsize r"
      using entry_ring.items_put [OF Cons.prems(2), of e]
        entry_ring.evicted_push [OF Cons.prems(2), of e] push by simp_all
    then have "rsize r1 = (if b then rsize r else rsize r + 1)"
      using entry_ring.items_bound [OF Cons.prems(2)] length_linearize [of r1, symmetric]
      by (auto simp: keep_last_def simp del: length_linearize [of r1])
    moreover have "push_stale es r1 (if b then tot - 1 else tot) = (r', tot')"
      using Cons.prems(1) push by simp
    note Cons.IH [OF this ok1]
    ultimately show ?case using push by (auto split: if_splits)
  qed simp
  with assms have eq: "r' = foldl (\<lambda>q x. snd (pushBack x q)) r es"
    and "tot' = tot - int (length es) + int (rsize r') - int (rsize r)" by blast+
  then show "tot' = tot - int (length es) + int (rsize r') - int (rsize r)" by simp
  show "ring_ok r'" "rcap r' = rcap r" "linearize r' = keep_last (rcap r) (linearize r @ es)"
    unfolding eq using assms(1)
    by (simp_all add: entry_ring.put_all_ok entry_ring.put_all_bound entry_ring.put_all_items)
qed

lemma filter_keep_last:
  "keep_last k xs = xs \<Longrightarrow> keep_last k (filter P xs) = filter P xs"
proof (cases "k = 0")
  case False
  assume "keep_last k xs = xs"
  with False have "length xs \<le> k" using length_takelast [of k xs] by (simp add: keep_last_def)
  then have "length (filter P xs) \<le> k" using length_filter_le [of P xs] by (rule order_trans [rotated])
  then show ?thesis by (simp add: keep_last_def)
qed (simp add: keep_last_def)

lemma promote_level_spec:
  fixes ttl :: int and now :: gotime
  defines "st \<equiv> \<lambda>e. now - ArrivedAt e > ttl"
  assumes ok: "pi_ok pi" and p: "p < MaxPriority - 1"
  shows "pi_ok (promote_level ttl now p pi)"
    and "level_items (promote_level ttl now p pi) = (level_items pi)
      (p := filter (\<lambda>e. \<not> st e) (level_items pi p),
       p + 1 := keep_last (nat (maxPerLevel pi)) (level_items pi (p + 1) @ filter st (level_items pi p)))"
    and "maxPerLevel (promote_level ttl now p pi) = maxPerLevel pi"
    and "maxPerLevel pi \<le> 0 \<Longrightarrow> total (promote_level ttl now p pi) = total pi"
proof -
  let ?lv = "levels pi ! p" and ?up = "levels pi ! (p + 1)" and ?c = "nat (maxPerLevel pi)"
  define es where "es = linearize (ring ?lv)"
  define stale where "stale = filter st es"
  define fresh where "fresh = filter (\<lambda>e. \<not> st e) es"
  have lt: "p < MaxPriority" "p + 1 < MaxPriority" using p by simp_all
  note len = pi_ok_length [OF ok]
  have lok: "level_ok ?c ?lv" "level_ok ?c ?up" using pi_ok_level [OF ok] lt by simp_all
  then have rok: "ring_ok (ring ?lv)" "ring_ok (ring ?up)" by (simp_all add: level_ok_def)
  obtain r tot where push: "push_stale stale (ring ?up) (total pi) = (r, tot)" by (metis surj_pair)
  note ps = push_stale_spec [OF rok(2) push]
  have kf: "keep_last ?c fresh = fresh"
    using level_bounded [OF ok lt(1)] filter_keep_last
    by (simp add: fresh_def es_def level_items_def)
  note rs = resetFrom_ring [OF rok(1), of fresh]
  have size: "int (length fresh) + int (length stale) = int (length es)"
    using sum_length_filter_compl [of st es] by (simp add: fresh_def stale_def)
  define lv' where "lv' = ?lv\<lparr>ring := resetFrom fresh (ring ?lv), count := int (length fresh)\<rparr>"
  define up' where "up' = ?up\<lparr>ring := r, count := int (rsize r)\<rparr>"
  have lfresh: "linearize (resetFrom fresh (ring ?lv)) = fresh"
    using rs(3) kf lok(1) by (simp add: level_ok_def)
  have "rsize (resetFrom fresh (ring ?lv)) = length fresh"
    unfolding length_linearize [symmetric] lfresh ..
  then have lok': "level_ok ?c lv'" "level_ok ?c up'"
    using lok rs ps by (simp_all add: lv'_def up'_def level_ok_def)
  define pi1 where "pi1 = pi\<lparr>levels := (levels pi)[p := lv'], total := total pi - int (length stale)\<rparr>"
  have ok1: "pi_ok pi1" unfolding pi1_def
    using ok lt(1) lok'(1) size lok(1)
    by (intro pi_ok_update) (auto simp: lv'_def level_ok_def es_def)
  have eq: "promote_level ttl now p pi =
      pi1\<lparr>levels := (levels pi1)[p + 1 := up'], total := tot\<rparr>"
  proof (cases "stale = []")
    case True
    then have "r = ring ?up" "tot = total pi" using push by simp_all
    then have "up' = ?up" using lok(2) by (cases ?up) (auto simp: up'_def level_ok_def)
    then have "(levels pi)[p := lv', p + 1 := up'] = (levels pi)[p := lv']"
      using list_update_id [of "(levels pi)[p := lv']" "p + 1"] by simp
    then show ?thesis using True \<open>tot = total pi\<close>
      by (simp add: promote_level_def Let_def pi1_def lv'_def stale_def fresh_def es_def st_def)
  next
    case False
    then show ?thesis using push
      by (simp add: promote_level_def Let_def pi1_def lv'_def up'_def stale_def fresh_def es_def st_def)
  qed
  show "pi_ok (promote_level ttl now p pi)" unfolding eq
    using lt lok'(2) ps(4) lok(2)
    by (intro pi_ok_update [OF ok1]) (auto simp: pi1_def up'_def level_ok_def)
  show "level_items (promote_level ttl now p pi) = (level_items pi)
      (p := filter (\<lambda>e. \<not> st e) (level_items pi p),
       p + 1 := keep_last ?c (level_items pi (p + 1) @ filter st (level_items pi p)))"
  proof -
    have "level_items (promote_level ttl now p pi) =
        (level_items pi)(p := linearize (ring lv'), p + 1 := linearize (ring up'))"
      unfolding eq using lt len by (subst level_items_update) (simp_all add: level_items_update pi1_def)
    moreover have "linearize (ring lv') = filter (\<lambda>e. \<not> st e) (level_items pi p)"
      using lfresh by (simp add: lv'_def fresh_def es_def level_items_def)
    moreover have "linearize (ring up') =
        keep_last ?c (level_items pi (p + 1) @ filter st (level_items pi p))"
      using ps(3) lok(2) by (simp add: up'_def stale_def es_def level_items_def level_ok_def)
    ultimately show ?thesis by simp
  qed
  show "maxPerLevel (promote_level ttl now p pi) = maxPerLevel pi" unfolding eq by (simp add: pi1_def)
  show "total (promote_level ttl now p pi) = total pi" if "maxPerLevel pi \<le> 0"
    using that ps(4) lok(2) length_linearize [of r, unfolded ps(3)]
    unfolding eq by (simp add: level_ok_def keep_last_def)
qed

lemma PromoteStale_prefix:
  assumes "pi_ok pi" and "n \<le> MaxPriority - 1"
  shows "pi_ok (foldl (\<lambda>q p. promote_level ttl now p q) pi (rev [0..<n])) \<and>
     maxPerLevel (foldl (\<lambda>q p. promote_level ttl now p q) pi (rev [0..<n])) = maxPerLevel pi \<and>
     level_items (foldl (\<lambda>q p. promote_level ttl now p q) pi (rev [0..<n])) =
       promoted (nat (maxPerLevel pi)) (\<lambda>e. now - ArrivedAt e > ttl) (level_items pi) n \<and>
     (maxPerLevel pi \<le> 0 \<longrightarrow>
       total (foldl (\<lambda>q p. promote_level ttl now p q) pi (rev [0..<n])) = total pi)"
  using assms
proof (induction n arbitrary: pi)
  case 0
  then show ?case by (auto simp: promoted_def fun_eq_iff Let_def)
next
  case (Suc n)
  have n: "n < MaxPriority - 1" using Suc.prems(2) by simp
  let ?pi = "promote_level ttl now n pi" and ?c = "nat (maxPerLevel pi)"
    and ?st = "\<lambda>e. now - ArrivedAt e > ttl"
  note one = promote_level_spec [OF Suc.prems(1) n, of ttl now]
  note IH = Suc.IH [OF one(1)]
  have "promoted ?c ?st (level_items ?pi) n = promoted ?c ?st (level_items pi) (Suc n)"
    unfolding one(2) by (auto simp: promoted_def fun_eq_iff less_Suc_eq le_Suc_eq Let_def)
  with IH n one(3,4) show ?case by simp
qed

subsection \<open>Properties\<close>

text \<open>
  \<^verbatim>\<open>Add\<close> keeps the counters exact and files the entry at the end of its clamped
  priority level; a full level keeps its newest \<^verbatim>\<open>maxPerLevel\<close> entries, no other level
  changes, and the result tells whether room was free.
\<close>

theorem Add_correct:
  assumes "pi_ok pi"
  shows "pi_ok (snd (Add pi priority off t)) \<and>
     level_items (snd (Add pi priority off t)) = (level_items pi)
       (clampPriority priority := keep_last (nat (maxPerLevel pi))
          (level_items pi (clampPriority priority) @ [\<lparr>WalOffset = off, ArrivedAt = t\<rparr>])) \<and>
     (fst (Add pi priority off t) \<longleftrightarrow>
       \<not> (0 < maxPerLevel pi \<and>
          maxPerLevel pi \<le> int (length (level_items pi (clampPriority priority)))))"
  using Add_spec [OF assms refl, of priority off t] by blast

text \<open>
  C31: strict priority: \<^verbatim>\<open>PopHighest\<close> removes the oldest entry of the highest level that is
  not empty, leaves every other level alone and keeps the counters exact; it reports that
  there is nothing exactly when all ten levels are empty, and then changes nothing.
\<close>

theorem PopHighest_correct:
  assumes "pi_ok pi"
  shows "case PopHighest pi of
      ((e, True), pi') \<Rightarrow> pi_ok pi' \<and> Len pi' = Len pi - 1 \<and>
         (\<exists>p. delivers (level_items pi) p e (level_items pi') \<and>
              (\<forall>q. p < q \<and> q < MaxPriority \<longrightarrow> level_items pi q = []))
    | ((e, False), pi') \<Rightarrow> pi' = pi \<and> (\<forall>q < MaxPriority. level_items pi q = [])"
  using pop_down_spec [OF assms, of 0] by (auto simp: PopHighest_def Len_def)

text \<open>A small index for the concrete instances: two entries, in levels 3 and 7.\<close>

definition sampleIndex :: pindex where
  "sampleIndex = snd (Add (snd (Add (NewPriorityIndex 2) 3 100 5)) 7 101 6)"

lemma sampleIndex_ok: "pi_ok sampleIndex"
  unfolding sampleIndex_def by (rule Add_spec(1) [OF Add_spec(1) [OF NewPriorityIndex_ok refl] refl])

theorem Add_correct_witness:
  "pi_ok (NewPriorityIndex 2) \<and>
   level_items (snd (Add (NewPriorityIndex 2) 12 100 5)) 9 = [\<lparr>WalOffset = 100, ArrivedAt = 5\<rparr>]"
proof -
  have c: "clampPriority 12 = 9" by (simp add: clampPriority_def MaxPriority_def)
  have e: "level_items (NewPriorityIndex 2) 9 = []"
    by (simp add: NewPriorityIndex_empty MaxPriority_def)
  have "keep_last (nat (maxPerLevel (NewPriorityIndex 2))) [\<lparr>WalOffset = 100, ArrivedAt = 5\<rparr>] =
      [\<lparr>WalOffset = 100, ArrivedAt = 5\<rparr>]"
    by (simp add: NewPriorityIndex_def keep_last_def)
  then show ?thesis
    using Add_correct [OF NewPriorityIndex_ok, of 2 12 100 5]
    by (simp add: c e NewPriorityIndex_ok)
qed

theorem PopHighest_correct_witness:
  "pi_ok sampleIndex \<and> fst (PopHighest sampleIndex) = (\<lparr>WalOffset = 101, ArrivedAt = 6\<rparr>, True) \<and>
   pi_ok (snd (PopHighest sampleIndex))"
proof -
  have v: "fst (PopHighest sampleIndex) = (\<lparr>WalOffset = 101, ArrivedAt = 6\<rparr>, True)"
    by code_simp
  then show ?thesis
    using PopHighest_correct [OF sampleIndex_ok] sampleIndex_ok
    by (simp add: case_prod_unfold)
qed

text \<open>
  C32: adaptive delivery: for a threshold that is not negative \<^verbatim>\<open>PopWithThreshold\<close> never
  panics; it serves the highest level at or above the threshold that is not empty, and
  otherwise, among the levels below the threshold, an entry that arrived no later than the
  head of any other level; it reports nothing exactly when the whole index is empty.
\<close>

theorem PopWithThreshold_correct:
  assumes "pi_ok pi" and "0 \<le> threshold"
  shows "\<exists>e ok pi'. PopWithThreshold pi threshold = Some ((e, ok), pi') \<and> pi_ok pi' \<and>
     (if ok
      then Len pi' = Len pi - 1 \<and>
        (\<exists>p. delivers (level_items pi) p e (level_items pi') \<and>
           (if \<exists>q < MaxPriority. threshold \<le> int q \<and> level_items pi q \<noteq> []
            then threshold \<le> int p \<and> (\<forall>q. p < q \<and> q < MaxPriority \<longrightarrow> level_items pi q = [])
            else \<forall>q < MaxPriority. level_items pi q \<noteq> [] \<longrightarrow>
                   ArrivedAt e \<le> ArrivedAt (hd (level_items pi q))))
      else pi' = pi \<and> (\<forall>q < MaxPriority. level_items pi q = []))"
  using pop_down_spec [OF assms(1), of "nat threshold"]
proof (elim disjE exE conjE)
  fix p e pi'
  assume pop: "pop_levels (rev [nat threshold..<MaxPriority]) pi = ((e, True), pi')"
    and res: "nat threshold \<le> p" "pi_ok pi'" "total pi' = total pi - 1"
      "delivers (level_items pi) p e (level_items pi')"
      "\<forall>q. p < q \<and> q < MaxPriority \<longrightarrow> level_items pi q = []"
  have "PopWithThreshold pi threshold = Some ((e, True), pi')"
    unfolding PopWithThreshold_def pop by simp
  moreover have p: "p < MaxPriority" "level_items pi p \<noteq> []" "threshold \<le> int p"
    using res assms(2) delivers_head [OF res(4)] by (simp_all add: nat_le_iff)
  have "\<exists>q < MaxPriority. threshold \<le> int q \<and> level_items pi q \<noteq> []" using p by blast
  ultimately show ?thesis using res p(3) unfolding Len_def
    by (intro exI [of _ e] exI [of _ True] exI [of _ pi']) (simp only: if_True simp_thms, metis)
next
  assume pop: "pop_levels (rev [nat threshold..<MaxPriority]) pi = ((zeroEntry, False), pi)"
    and none: "\<forall>q. nat threshold \<le> q \<and> q < MaxPriority \<longrightarrow> level_items pi q = []"
  have none': "level_items pi q = []" if "q < MaxPriority" "threshold \<le> int q" for q
    using none assms(2) that by auto
  from PopWithThreshold_below [OF assms _ pop] none' have
    "(\<exists>p e pi'. PopWithThreshold pi threshold = Some ((e, True), pi') \<and> pi_ok pi' \<and>
        total pi' = total pi - 1 \<and> delivers (level_items pi) p e (level_items pi') \<and>
        (\<forall>q < MaxPriority. level_items pi q \<noteq> [] \<longrightarrow>
           ArrivedAt e \<le> ArrivedAt (hd (level_items pi q)))) \<or>
     PopWithThreshold pi threshold = Some ((zeroEntry, False), pi) \<and>
     (\<forall>q < MaxPriority. level_items pi q = [])" by simp
  then show ?thesis
  proof (elim disjE exE conjE)
    fix p e pi'
    assume res: "PopWithThreshold pi threshold = Some ((e, True), pi')" "pi_ok pi'"
      "total pi' = total pi - 1" "delivers (level_items pi) p e (level_items pi')"
      "\<forall>q < MaxPriority. level_items pi q \<noteq> [] \<longrightarrow>
         ArrivedAt e \<le> ArrivedAt (hd (level_items pi q))"
    have "\<not> (\<exists>q < MaxPriority. threshold \<le> int q \<and> level_items pi q \<noteq> [])" using none' by blast
    with res show ?thesis unfolding Len_def
      by (intro exI [of _ e] exI [of _ True] exI [of _ pi']) (simp only: if_True if_False simp_thms, metis)
  next
    assume res: "PopWithThreshold pi threshold = Some ((zeroEntry, False), pi)"
      "\<forall>q < MaxPriority. level_items pi q = []"
    with assms(1) show ?thesis
      by (intro exI [of _ zeroEntry] exI [of _ False] exI [of _ pi]) (simp only: if_False simp_thms)
  qed
qed

theorem PopWithThreshold_correct_witness:
  "pi_ok sampleIndex \<and> (0::int) \<le> 8 \<and>
   (\<exists>pi'. PopWithThreshold sampleIndex 8 = Some ((\<lparr>WalOffset = 100, ArrivedAt = 5\<rparr>, True), pi') \<and>
      pi_ok pi')"
proof -
  have v: "map_option fst (PopWithThreshold sampleIndex 8) =
      Some (\<lparr>WalOffset = 100, ArrivedAt = 5\<rparr>, True)"
    by code_simp
  show ?thesis
    using PopWithThreshold_correct [OF sampleIndex_ok, of 8] v sampleIndex_ok by auto
qed

text \<open>
  C33: aging: one pass of \<^verbatim>\<open>PromoteStale\<close> moves every entry that waited longer than the TTL
  up by exactly one level, behind the entries already there, never two levels at once and
  never out of the top level; the counters stay exact, and without a per-level bound no
  entry is lost.
\<close>

theorem PromoteStale_correct:
  assumes "pi_ok pi"
  shows "pi_ok (PromoteStale ttl now pi) \<and>
     level_items (PromoteStale ttl now pi) = promoted (nat (maxPerLevel pi))
       (\<lambda>e. now - ArrivedAt e > ttl) (level_items pi) (MaxPriority - 1) \<and>
     (maxPerLevel pi \<le> 0 \<longrightarrow> Len (PromoteStale ttl now pi) = Len pi)"
  using PromoteStale_prefix [OF assms order_refl, of ttl now]
  by (simp add: PromoteStale_def Len_def)

theorem PromoteStale_correct_witness:
  "pi_ok sampleIndex \<and>
   level_items (PromoteStale 10 16 sampleIndex) 4 = [\<lparr>WalOffset = 100, ArrivedAt = 5\<rparr>] \<and>
   level_items (PromoteStale 10 16 sampleIndex) 7 = [\<lparr>WalOffset = 101, ArrivedAt = 6\<rparr>]"
proof -
  have i: "level_items sampleIndex 3 = [\<lparr>WalOffset = 100, ArrivedAt = 5\<rparr>]"
    "level_items sampleIndex 4 = []" "level_items sampleIndex 6 = []"
    "level_items sampleIndex 7 = [\<lparr>WalOffset = 101, ArrivedAt = 6\<rparr>]"
    "maxPerLevel sampleIndex = 2"
    by code_simp+
  show ?thesis
    using PromoteStale_correct [OF sampleIndex_ok, of 10 16] sampleIndex_ok
    by (simp add: promoted_def i MaxPriority_def keep_last_def)
qed

end
