(* ===== verification/Compression.thy ===== *)
theory Compression
  imports Prelude
begin

text \<open>
  The compression codecs, \<^verbatim>\<open>pkg/broker/compression.go\<close>. The snappy, gzip and lz4
  libraries are the fields of a record the definitions take as an argument; what the code
  relies on, that reading back a finished stream gives the data written to it, is the
  predicate \<^verbatim>\<open>compress_lib_ok\<close>. The lemmas show that \<^verbatim>\<open>Compress\<close> and \<^verbatim>\<open>Decompress\<close> are
  inverse for every compression type, unknown ones included, and that every codec
  \<^verbatim>\<open>NewCodec\<close> returns has this property, which is what the partition relies on.
\<close>

subsection \<open>The libraries\<close>

text \<open>
  A stream writer is opened on an empty buffer, takes data and is closed; the bytes it
  has emitted are read off the buffer. \<^verbatim>\<open>Reset(buf)\<close> puts a pooled gzip writer in the
  state of a new one, so the pools do not appear.
\<close>

record ('g, 'l) compress_lib =
  snappy_encode :: "bytes \<Rightarrow> bytes"
  snappy_decode :: "bytes \<Rightarrow> err + bytes"
  gz_new :: 'g
  gz_write :: "bytes \<Rightarrow> 'g \<Rightarrow> err + 'g"
  gz_close :: "'g \<Rightarrow> err + 'g"
  gz_bytes :: "'g \<Rightarrow> bytes"
  gz_open_reader :: "bytes \<Rightarrow> err + 'g"
  gz_read_all :: "'g \<Rightarrow> err + bytes"
  lz_new :: 'l
  lz_write :: "bytes \<Rightarrow> 'l \<Rightarrow> err + 'l"
  lz_close :: "'l \<Rightarrow> err + 'l"
  lz_bytes :: "'l \<Rightarrow> bytes"
  lz_read_all :: "bytes \<Rightarrow> err + bytes"

definition compress_lib_ok :: "('g, 'l) compress_lib \<Rightarrow> bool" where
  "compress_lib_ok L \<longleftrightarrow>
     (\<forall>d. snappy_decode L (snappy_encode L d) = Inr d) \<and>
     (\<forall>d w w'. gz_write L d (gz_new L) = Inr w \<longrightarrow> gz_close L w = Inr w' \<longrightarrow>
        (\<exists>r. gz_open_reader L (gz_bytes L w') = Inr r \<and> gz_read_all L r = Inr d)) \<and>
     (\<forall>d w w'. lz_write L d (lz_new L) = Inr w \<longrightarrow> lz_close L w = Inr w' \<longrightarrow>
        lz_read_all L (lz_bytes L w') = Inr d)"

subsection \<open>The codecs\<close>

definition CompressionNone :: int where "CompressionNone = 0"
definition CompressionSnappy :: int where "CompressionSnappy = 1"
definition CompressionGzip :: int where "CompressionGzip = 2"
definition CompressionLZ4 :: int where "CompressionLZ4 = 3"

record codec =
  Encode :: "bytes \<Rightarrow> err + bytes"
  Decode :: "bytes \<Rightarrow> err + bytes"

definition noopCodec :: codec where
  "noopCodec = \<lparr>Encode = \<lambda>d. Inr d, Decode = \<lambda>d. Inr d\<rparr>"

definition snappyCodec :: "('g, 'l) compress_lib \<Rightarrow> codec" where
  "snappyCodec L = \<lparr>Encode = \<lambda>d. Inr (snappy_encode L d), Decode = snappy_decode L\<rparr>"

definition gzip_Encode :: "('g, 'l) compress_lib \<Rightarrow> bytes \<Rightarrow> err + bytes" where
  "gzip_Encode L d =
     (case gz_write L d (gz_new L) of
        Inl e \<Rightarrow> Inl e
      | Inr w \<Rightarrow> (case gz_close L w of Inl e \<Rightarrow> Inl e | Inr w' \<Rightarrow> Inr (gz_bytes L w')))"

definition gzip_Decode :: "('g, 'l) compress_lib \<Rightarrow> bytes \<Rightarrow> err + bytes" where
  "gzip_Decode L d =
     (case gz_open_reader L d of
        Inl e \<Rightarrow> Inl e
      | Inr r \<Rightarrow> (case gz_read_all L r of Inl e \<Rightarrow> Inl e | Inr out \<Rightarrow> Inr out))"

definition gzipCodec :: "('g, 'l) compress_lib \<Rightarrow> codec" where
  "gzipCodec L = \<lparr>Encode = gzip_Encode L, Decode = gzip_Decode L\<rparr>"

definition lz4_Encode :: "('g, 'l) compress_lib \<Rightarrow> bytes \<Rightarrow> err + bytes" where
  "lz4_Encode L d =
     (case lz_write L d (lz_new L) of
        Inl e \<Rightarrow> Inl e
      | Inr w \<Rightarrow> (case lz_close L w of Inl e \<Rightarrow> Inl e | Inr w' \<Rightarrow> Inr (lz_bytes L w')))"

definition lz4Codec :: "('g, 'l) compress_lib \<Rightarrow> codec" where
  "lz4Codec L = \<lparr>Encode = lz4_Encode L, Decode = lz_read_all L\<rparr>"

definition NewCodec :: "('g, 'l) compress_lib \<Rightarrow> int \<Rightarrow> codec" where
  "NewCodec L compressionType =
     (if compressionType = CompressionSnappy then snappyCodec L
      else if compressionType = CompressionGzip then gzipCodec L
      else if compressionType = CompressionLZ4 then lz4Codec L
      else noopCodec)"

definition Compress :: "('g, 'l) compress_lib \<Rightarrow> bytes \<Rightarrow> int \<Rightarrow> err + bytes" where
  "Compress L d c = Encode (NewCodec L c) d"

definition Decompress :: "('g, 'l) compress_lib \<Rightarrow> bytes \<Rightarrow> int \<Rightarrow> err + bytes" where
  "Decompress L d c = Decode (NewCodec L c) d"

subsection \<open>Round trips\<close>

definition codec_ok :: "codec \<Rightarrow> bool" where
  "codec_ok c \<longleftrightarrow> (\<forall>d z. Encode c d = Inr z \<longrightarrow> Decode c z = Inr d)"

lemma codec_okD: "codec_ok c \<Longrightarrow> Encode c d = Inr z \<Longrightarrow> Decode c z = Inr d"
  by (simp add: codec_ok_def)

lemma noopCodec_ok: "codec_ok noopCodec"
  by (simp add: codec_ok_def noopCodec_def)

lemma NewCodec_ok:
  assumes "compress_lib_ok L"
  shows "codec_ok (NewCodec L c)"
proof -
  have "codec_ok (snappyCodec L)"
    using assms by (simp add: compress_lib_ok_def codec_ok_def snappyCodec_def)
  moreover have "codec_ok (gzipCodec L)"
    using assms
    by (auto simp: compress_lib_ok_def codec_ok_def gzipCodec_def gzip_Encode_def gzip_Decode_def
        split: sum.splits) (metis Inr_inject sum.distinct(1))+
  moreover have "codec_ok (lz4Codec L)"
    using assms
    by (auto simp: compress_lib_ok_def codec_ok_def lz4Codec_def lz4_Encode_def split: sum.splits)
  ultimately show ?thesis by (simp add: NewCodec_def noopCodec_ok)
qed

text \<open>A library that stores the data behind a one-byte tag, for the concrete instances.\<close>

definition tagLib :: "(bytes, bytes) compress_lib" where
  "tagLib =
     \<lparr>snappy_encode = \<lambda>d. 1 # d,
      snappy_decode = \<lambda>z. if z = [] \<or> hd z \<noteq> 1 then Inl CodecFailure else Inr (tl z),
      gz_new = [2], gz_write = \<lambda>d w. Inr (w @ d), gz_close = Inr, gz_bytes = id,
      gz_open_reader = \<lambda>z. if z = [] \<or> hd z \<noteq> 2 then Inl CodecFailure else Inr z,
      gz_read_all = \<lambda>r. Inr (tl r),
      lz_new = [3], lz_write = \<lambda>d w. Inr (w @ d), lz_close = Inr, lz_bytes = id,
      lz_read_all = \<lambda>z. if z = [] \<or> hd z \<noteq> 3 then Inl CodecFailure else Inr (tl z)\<rparr>"

lemma tagLib_ok: "compress_lib_ok tagLib"
  by (auto simp: compress_lib_ok_def tagLib_def)

text \<open>
  Whatever \<^verbatim>\<open>Compress\<close> returns for a compression type, known or not, \<^verbatim>\<open>Decompress\<close> with
  the same type gives the original data back.
\<close>

theorem Decompress_Compress:
  assumes "compress_lib_ok L" and "Compress L d c = Inr z"
  shows "Decompress L z c = Inr d"
  using codec_okD [OF NewCodec_ok [OF assms(1)]] assms(2) by (simp add: Compress_def Decompress_def)

theorem Decompress_Compress_witness:
  "compress_lib_ok tagLib \<and> Compress tagLib [7, 8] CompressionGzip = Inr [2, 7, 8] \<and>
   Decompress tagLib [2, 7, 8] CompressionGzip = Inr [7, 8]"
proof -
  have c: "Compress tagLib [7, 8] CompressionGzip = Inr [2, 7, 8]" by code_simp
  with Decompress_Compress [OF tagLib_ok c] tagLib_ok show ?thesis by simp
qed

end
