(* ===== verification/Wal.thy ===== *)
theory Wal
  imports Prelude
begin

text \<open>
  The write-ahead log library \<^verbatim>\<open>github.com/tidwall/wal\<close> as the broker uses it. The
  library is a parameter: its operations are the fields of a record over an arbitrary log
  type, and what the broker relies on is the predicate \<^verbatim>\<open>wal_laws\<close>, stated over a view of
  the log as the index of its first entry and the list of its entries:

  \<^item> a read of an index that the log holds returns that entry, any other read fails;
  \<^item> a batch that is accepted is contiguous, starts right behind the last entry and is
    appended as a whole; a batch that is out of order is refused and leaves the log as it
    is; nothing is said about the log after any other write error;
  \<^item> a truncation drops the entries before its index or fails and drops nothing; it does
    not fail for the index of an entry of the log;
  \<^item> the first and last index are those of the view, 0 for an empty log.
\<close>

record 'w wal_ops =
  walRead :: "'w \<Rightarrow> u64 \<Rightarrow> err + bytes"
  walWriteBatch :: "'w \<Rightarrow> (u64 \<times> bytes) list \<Rightarrow> err option \<times> 'w"
  walTruncateFront :: "'w \<Rightarrow> u64 \<Rightarrow> err option \<times> 'w"
  walFirstIndex :: "'w \<Rightarrow> err + u64"
  walLastIndex :: "'w \<Rightarrow> err + u64"
  walClose :: "'w \<Rightarrow> err option \<times> 'w"

text \<open>A view: the index of the first entry, and the entries.\<close>

type_synonym wal_view = "nat \<times> bytes list"

definition wal_end :: "wal_view \<Rightarrow> nat" where
  "wal_end v = fst v + length (snd v)"

definition wal_view_ok :: "wal_view \<Rightarrow> bool" where
  "wal_view_ok v \<longleftrightarrow> 0 < fst v \<and> wal_end v < 2 ^ 64"

definition wal_has :: "wal_view \<Rightarrow> u64 \<Rightarrow> bool" where
  "wal_has v i \<longleftrightarrow> fst v \<le> unat i \<and> unat i < wal_end v"

definition wal_get :: "wal_view \<Rightarrow> u64 \<Rightarrow> bytes" where
  "wal_get v i = snd v ! (unat i - fst v)"

definition wal_append :: "bytes list \<Rightarrow> wal_view \<Rightarrow> wal_view" where
  "wal_append ds v = (fst v, snd v @ ds)"

definition wal_drop :: "nat \<Rightarrow> wal_view \<Rightarrow> wal_view" where
  "wal_drop i v = (i, drop (i - fst v) (snd v))"

text \<open>The indices of a batch follow the log's last entry without a gap.\<close>

definition batch_follows :: "wal_view \<Rightarrow> (u64 \<times> bytes) list \<Rightarrow> bool" where
  "batch_follows v b \<longleftrightarrow> map (unat \<circ> fst) b = [wal_end v..<wal_end v + length b]"

definition read_law :: "'w wal_ops \<Rightarrow> ('w \<Rightarrow> wal_view) \<Rightarrow> 'w \<Rightarrow> bool" where
  "read_law W view w \<longleftrightarrow>
     (\<forall>i. if wal_has (view w) i then walRead W w i = Inr (wal_get (view w) i)
          else \<exists>e. walRead W w i = Inl e)"

definition write_law :: "'w wal_ops \<Rightarrow> ('w \<Rightarrow> bool) \<Rightarrow> ('w \<Rightarrow> wal_view) \<Rightarrow> 'w \<Rightarrow> bool" where
  "write_law W winv view w \<longleftrightarrow>
     (\<forall>b r w'. b \<noteq> [] \<longrightarrow> walWriteBatch W w b = (r, w') \<longrightarrow>
        (r = None \<longrightarrow> winv w' \<and> batch_follows (view w) b \<and> view w' = wal_append (map snd b) (view w)) \<and>
        (\<not> batch_follows (view w) b \<longrightarrow> r \<noteq> None \<and> winv w' \<and> view w' = view w))"

definition truncate_law :: "'w wal_ops \<Rightarrow> ('w \<Rightarrow> bool) \<Rightarrow> ('w \<Rightarrow> wal_view) \<Rightarrow> 'w \<Rightarrow> bool" where
  "truncate_law W winv view w \<longleftrightarrow>
     (\<forall>i r w'. walTruncateFront W w i = (r, w') \<longrightarrow> winv w' \<and>
        (if r = None
         then fst (view w) \<le> unat i \<and> unat i \<le> wal_end (view w) \<and> view w' = wal_drop (unat i) (view w)
         else view w' = view w) \<and>
        (wal_has (view w) i \<longrightarrow> r = None))"

definition index_law :: "'w wal_ops \<Rightarrow> ('w \<Rightarrow> wal_view) \<Rightarrow> 'w \<Rightarrow> bool" where
  "index_law W view w \<longleftrightarrow>
     walFirstIndex W w = Inr (if snd (view w) = [] then 0 else word_of_nat (fst (view w))) \<and>
     walLastIndex W w = Inr (if snd (view w) = [] then 0 else word_of_nat (wal_end (view w) - 1))"

definition wal_laws :: "'w wal_ops \<Rightarrow> ('w \<Rightarrow> bool) \<Rightarrow> ('w \<Rightarrow> wal_view) \<Rightarrow> bool" where
  "wal_laws W winv view \<longleftrightarrow>
     (\<forall>w. winv w \<longrightarrow> wal_view_ok (view w) \<and> read_law W view w \<and> write_law W winv view w \<and>
        truncate_law W winv view w \<and> index_law W view w)"

text \<open>
  A log that does not fail: it accepts every batch that follows its last entry, as long as
  there are indices left. Only statements that need it assume it.
\<close>

definition wal_faultless :: "'w wal_ops \<Rightarrow> ('w \<Rightarrow> bool) \<Rightarrow> ('w \<Rightarrow> wal_view) \<Rightarrow> bool" where
  "wal_faultless W winv view \<longleftrightarrow>
     (\<forall>w b. winv w \<longrightarrow> batch_follows (view w) b \<longrightarrow> wal_end (view w) + length b < 2 ^ 64 \<longrightarrow>
        fst (walWriteBatch W w b) = None)"

subsection \<open>Using the laws\<close>

lemma wal_read_has:
  "wal_laws W winv view \<Longrightarrow> winv w \<Longrightarrow> wal_has (view w) i \<Longrightarrow>
   walRead W w i = Inr (wal_get (view w) i)"
  by (simp add: wal_laws_def read_law_def)

lemma wal_read_missing:
  "wal_laws W winv view \<Longrightarrow> winv w \<Longrightarrow> \<not> wal_has (view w) i \<Longrightarrow> \<exists>e. walRead W w i = Inl e"
  by (simp add: wal_laws_def read_law_def)

lemma wal_write_done:
  assumes "wal_laws W winv view" and "winv w" and "b \<noteq> []" and "walWriteBatch W w b = (None, w')"
  shows "winv w'" and "batch_follows (view w) b" and "view w' = wal_append (map snd b) (view w)"
proof -
  have "write_law W winv view w" using assms(1,2) by (simp add: wal_laws_def)
  from this [unfolded write_law_def, rule_format, OF assms(3,4)]
  show "winv w'" and "batch_follows (view w) b" and "view w' = wal_append (map snd b) (view w)"
    by simp_all
qed

lemma wal_write_refused:
  assumes "wal_laws W winv view" and "winv w" and "b \<noteq> []" and "\<not> batch_follows (view w) b"
    and "walWriteBatch W w b = (r, w')"
  shows "r \<noteq> None" and "winv w'" and "view w' = view w"
proof -
  have "write_law W winv view w" using assms(1,2) by (simp add: wal_laws_def)
  from this [unfolded write_law_def, rule_format, OF assms(3,5)] assms(4)
  show "r \<noteq> None" and "winv w'" and "view w' = view w" by blast+
qed

lemma wal_truncate:
  assumes "wal_laws W winv view" and "winv w" and "walTruncateFront W w i = (r, w')"
  shows "winv w'" and "r = None \<Longrightarrow> view w' = wal_drop (unat i) (view w)"
    and "r \<noteq> None \<Longrightarrow> view w' = view w" and "wal_has (view w) i \<Longrightarrow> r = None"
proof -
  have "truncate_law W winv view w" using assms(1,2) by (simp add: wal_laws_def)
  from this [unfolded truncate_law_def, rule_format, OF assms(3)]
  show "winv w'" and "r = None \<Longrightarrow> view w' = wal_drop (unat i) (view w)"
    and "r \<noteq> None \<Longrightarrow> view w' = view w" and "wal_has (view w) i \<Longrightarrow> r = None"
    by (simp_all split: if_splits)
qed

lemma wal_first:
  "wal_laws W winv view \<Longrightarrow> winv w \<Longrightarrow>
   walFirstIndex W w = Inr (if snd (view w) = [] then 0 else word_of_nat (fst (view w)))"
  by (simp add: wal_laws_def index_law_def)

lemma wal_last:
  "wal_laws W winv view \<Longrightarrow> winv w \<Longrightarrow>
   walLastIndex W w = Inr (if snd (view w) = [] then 0 else word_of_nat (wal_end (view w) - 1))"
  by (simp add: wal_laws_def index_law_def)

lemma wal_viewD:
  "wal_laws W winv view \<Longrightarrow> winv w \<Longrightarrow> 0 < fst (view w) \<and> wal_end (view w) < 2 ^ 64"
  by (simp add: wal_laws_def wal_view_ok_def)

lemma wal_has_append:
  "wal_has (wal_append ds v) i \<longleftrightarrow>
     wal_has v i \<or> wal_end v \<le> unat i \<and> unat i < wal_end v + length ds"
  by (auto simp: wal_has_def wal_append_def wal_end_def)

lemma wal_get_append_old: "wal_has v i \<Longrightarrow> wal_get (wal_append ds v) i = wal_get v i"
  by (auto simp: wal_has_def wal_get_def wal_append_def wal_end_def nth_append)

lemma wal_get_append_new:
  "unat i = wal_end v + k \<Longrightarrow> k < length ds \<Longrightarrow> wal_get (wal_append ds v) i = ds ! k"
  by (auto simp: wal_get_def wal_append_def wal_end_def nth_append)

lemma wal_end_append [simp]: "wal_end (wal_append ds v) = wal_end v + length ds"
  by (simp add: wal_append_def wal_end_def)

lemma wal_has_drop:
  "fst v \<le> n \<Longrightarrow> n \<le> wal_end v \<Longrightarrow> wal_has (wal_drop n v) i \<longleftrightarrow> wal_has v i \<and> n \<le> unat i"
  by (auto simp: wal_has_def wal_drop_def wal_end_def)

lemma wal_get_drop:
  "fst v \<le> n \<Longrightarrow> n \<le> unat i \<Longrightarrow> wal_has v i \<Longrightarrow> wal_get (wal_drop n v) i = wal_get v i"
  by (simp add: wal_get_def wal_drop_def wal_has_def wal_end_def)

lemma wal_end_drop: "fst v \<le> n \<Longrightarrow> n \<le> wal_end v \<Longrightarrow> wal_end (wal_drop n v) = wal_end v"
  by (auto simp: wal_drop_def wal_end_def)

subsection \<open>An instance\<close>

text \<open>
  An in-memory log that satisfies the laws. It may accept a limited number of batches, so that
  the concrete instances can also exercise a write failure; without a limit it never fails
  while there are offsets left.
\<close>

record list_wal =
  lwBase :: nat
  lwEntries :: "bytes list"
  lwBudget :: "nat option"

definition lw_view :: "list_wal \<Rightarrow> wal_view" where
  "lw_view w = (lwBase w, lwEntries w)"

definition lw_inv :: "list_wal \<Rightarrow> bool" where
  "lw_inv w \<longleftrightarrow> wal_view_ok (lw_view w)"

definition listWal :: "list_wal wal_ops" where
  "listWal =
     \<lparr>walRead = \<lambda>w i. if wal_has (lw_view w) i then Inr (wal_get (lw_view w) i) else Inl WalNotFound,
      walWriteBatch = \<lambda>w b.
        if \<not> batch_follows (lw_view w) b then (Some WalOutOfOrder, w)
        else if lwBudget w = Some 0 \<or> (2 :: int) ^ 64 \<le> int (wal_end (lw_view w) + length b) then (Some WalFailure, w)
        else (None, w\<lparr>lwEntries := lwEntries w @ map snd b, lwBudget := map_option (\<lambda>n. n - 1) (lwBudget w)\<rparr>),
      walTruncateFront = \<lambda>w i.
        if wal_has (lw_view w) i
        then (None, w\<lparr>lwBase := unat i, lwEntries := drop (unat i - lwBase w) (lwEntries w)\<rparr>)
        else (Some WalOutOfRange, w),
      walFirstIndex = \<lambda>w. Inr (if lwEntries w = [] then 0 else word_of_nat (lwBase w)),
      walLastIndex = \<lambda>w. Inr (if lwEntries w = [] then 0 else word_of_nat (wal_end (lw_view w) - 1)),
      walClose = \<lambda>w. (None, w)\<rparr>"

definition emptyWal :: "nat \<Rightarrow> list_wal" where
  "emptyWal budget = \<lparr>lwBase = 1, lwEntries = [], lwBudget = Some budget\<rparr>"

lemma emptyWal_inv: "lw_inv (emptyWal n)"
  by (simp add: lw_inv_def emptyWal_def lw_view_def wal_view_ok_def wal_end_def)

lemma lw_write:
  assumes "lw_inv w" and "\<not> (2 :: int) ^ 64 \<le> int (wal_end (lw_view w) + length b)"
  shows "lw_inv (w\<lparr>lwEntries := lwEntries w @ map snd b, lwBudget := n\<rparr>)"
    and "lw_view (w\<lparr>lwEntries := lwEntries w @ map snd b, lwBudget := n\<rparr>) =
      wal_append (map snd b) (lw_view w)"
  using assms by (simp_all add: lw_inv_def wal_view_ok_def lw_view_def wal_append_def wal_end_def)

lemma lw_truncate:
  assumes "lw_inv w" and "wal_has (lw_view w) i"
  shows "lw_inv (w\<lparr>lwBase := unat i, lwEntries := drop (unat i - lwBase w) (lwEntries w)\<rparr>)"
    and "lw_view (w\<lparr>lwBase := unat i, lwEntries := drop (unat i - lwBase w) (lwEntries w)\<rparr>) =
      wal_drop (unat i) (lw_view w)"
    and "fst (lw_view w) \<le> unat i" and "unat i \<le> wal_end (lw_view w)"
proof -
  have b: "0 < lwBase w" "lwBase w + length (lwEntries w) < 2 ^ 64"
    "lwBase w \<le> unat i" "unat i < lwBase w + length (lwEntries w)"
    using assms by (simp_all add: lw_inv_def wal_view_ok_def lw_view_def wal_end_def wal_has_def)
  then have "0 < unat i" "unat i + (length (lwEntries w) - (unat i - lwBase w)) < 2 ^ 64"
    by linarith+
  then show "lw_inv (w\<lparr>lwBase := unat i, lwEntries := drop (unat i - lwBase w) (lwEntries w)\<rparr>)"
    by (simp add: lw_inv_def wal_view_ok_def lw_view_def wal_end_def)
  show "lw_view (w\<lparr>lwBase := unat i, lwEntries := drop (unat i - lwBase w) (lwEntries w)\<rparr>) =
      wal_drop (unat i) (lw_view w)" by (simp add: lw_view_def wal_drop_def)
  show "fst (lw_view w) \<le> unat i" "unat i \<le> wal_end (lw_view w)"
    using b by (simp_all add: lw_view_def wal_end_def)
qed

lemma listWal_laws_budget:
  assumes P: "\<And>x. P x \<Longrightarrow> P (map_option (\<lambda>n. n - 1) x)"
  shows "wal_laws listWal (\<lambda>w. lw_inv w \<and> P (lwBudget w)) lw_view"
proof (unfold wal_laws_def, intro allI impI conjI)
  fix w assume a: "lw_inv w \<and> P (lwBudget w)"
  then have winv: "lw_inv w" and budget: "P (lwBudget w)" by blast+
  then have ok: "wal_view_ok (lw_view w)" by (simp add: lw_inv_def)
  then show "wal_view_ok (lw_view w)" .
  show "read_law listWal lw_view w" by (auto simp: read_law_def listWal_def)
  show "write_law listWal (\<lambda>w. lw_inv w \<and> P (lwBudget w)) lw_view w"
    unfolding write_law_def
  proof (intro allI impI)
    fix b r w' assume "b \<noteq> []" and "walWriteBatch listWal w b = (r, w')"
    then show "(r = None \<longrightarrow> (lw_inv w' \<and> P (lwBudget w')) \<and> batch_follows (lw_view w) b \<and>
          lw_view w' = wal_append (map snd b) (lw_view w)) \<and>
        (\<not> batch_follows (lw_view w) b \<longrightarrow> r \<noteq> None \<and> (lw_inv w' \<and> P (lwBudget w')) \<and> lw_view w' = lw_view w)"
      using winv budget P [OF budget] lw_write [OF winv, of b] by (auto simp: listWal_def split: if_splits)
  qed
  show "truncate_law listWal (\<lambda>w. lw_inv w \<and> P (lwBudget w)) lw_view w"
    unfolding truncate_law_def
  proof (intro allI impI)
    fix i r w' assume "walTruncateFront listWal w i = (r, w')"
    then show "(lw_inv w' \<and> P (lwBudget w')) \<and>
        (if r = None then fst (lw_view w) \<le> unat i \<and> unat i \<le> wal_end (lw_view w) \<and>
           lw_view w' = wal_drop (unat i) (lw_view w)
         else lw_view w' = lw_view w) \<and> (wal_has (lw_view w) i \<longrightarrow> r = None)"
      using winv budget lw_truncate [OF winv, of i]
      by (cases "wal_has (lw_view w) i") (auto simp: listWal_def)
  qed
  show "index_law listWal lw_view w"
    by (simp add: index_law_def listWal_def lw_view_def)
qed

lemma listWal_laws: "wal_laws listWal lw_inv lw_view"
  using listWal_laws_budget [of "\<lambda>_. True"] by simp

definition mem_inv :: "list_wal \<Rightarrow> bool" where
  "mem_inv w \<longleftrightarrow> lw_inv w \<and> lwBudget w = None"

definition memWal :: list_wal where
  "memWal = \<lparr>lwBase = 1, lwEntries = [], lwBudget = None\<rparr>"

lemma memWal_inv: "mem_inv memWal"
  by (simp add: mem_inv_def memWal_def lw_inv_def lw_view_def wal_view_ok_def wal_end_def)

lemma memWal_laws: "wal_laws listWal mem_inv lw_view"
  using listWal_laws_budget [of "\<lambda>x. x = None"] by (simp add: mem_inv_def [abs_def])

lemma memWal_faultless: "wal_faultless listWal mem_inv lw_view"
proof -
  have "\<not> (2 :: int) ^ 64 \<le> int n" if "n < 2 ^ 64" for n :: nat using that by simp
  then show ?thesis by (simp add: wal_faultless_def listWal_def mem_inv_def)
qed

end
