(* ===== verification/Float64.thy ===== *)
theory Float64
  imports Complex_Main "HOL-Library.Log_Nat"
begin

text \<open>
  IEEE 754 binary64 arithmetic as Go's \<^verbatim>\<open>float64\<close> has it on amd64: every operation is the
  exact rational result rounded to the nearest representable number, ties to even, with
  gradual underflow and overflow to infinity. A value is not-a-number, an infinity with
  its sign, or a finite rational. Zero has no sign here; the code under \<^verbatim>\<open>pkg/\<close> never
  looks at it and only divides by quantities it has checked or that are positive.

  The lemmas give what the bounds of the components rest on: rounding is monotone,
  integers up to \<open>2^53\<close> are exact, and the operations are monotone with respect to \<^verbatim>\<open>fle\<close>.
\<close>

subsection \<open>Rounding\<close>

definition ilog2 :: "rat \<Rightarrow> int" where
  "ilog2 q = (let (n, d) = quotient_of q; k = bitlen n - bitlen d
              in if 2 powi k \<le> q then k else k - 1)"

definition round_even :: "rat \<Rightarrow> int" where
  "round_even x = (let f = \<lfloor>x\<rfloor>; r = x - of_int f
                   in if r < 1 / 2 then f else if r > 1 / 2 then f + 1
                      else if even f then f else f + 1)"

definition ulp_exp :: "rat \<Rightarrow> int" where
  "ulp_exp q = max (- 1074) (ilog2 q - 52)"

definition round_pos :: "rat \<Rightarrow> rat" where
  "round_pos q = of_int (round_even (q / 2 powi ulp_exp q)) * 2 powi ulp_exp q"

datatype f64 = NaN | Inf bool | Fin rat

definition overflow_bound :: rat where
  "overflow_bound = 2 powi 1024"

definition rnd :: "rat \<Rightarrow> f64" where
  "rnd q = (if q = 0 then Fin 0
            else let r = round_pos \<bar>q\<bar>
                 in if overflow_bound \<le> r then Inf (q < 0) else Fin (if q < 0 then - r else r))"

lemma ilog2_bounds:
  assumes "0 < q"
  shows "2 powi ilog2 q \<le> q" and "q < 2 powi (ilog2 q + 1)"
proof -
  obtain n d where nd: "quotient_of q = (n, d)" by (cases "quotient_of q")
  have d: "0 < d" using quotient_of_denom_pos [OF nd] .
  have q: "q = of_int n / of_int d" using quotient_of_div [OF nd] .
  with assms d have n: "0 < n" by (simp add: zero_less_divide_iff)
  let ?k = "bitlen n - bitlen d"
  have bn: "2 ^ nat (bitlen n - 1) \<le> n" "n < 2 ^ nat (bitlen n)" using bitlen_bounds [OF n] by auto
  have bd: "2 ^ nat (bitlen d - 1) \<le> d" "d < 2 ^ nat (bitlen d)" using bitlen_bounds [OF d] by auto
  have pn: "0 < bitlen n" "0 < bitlen d"
    using n d bitlen_nonneg by (simp_all add: bitlen_eq_zero_iff order_less_le)
  have conv: "2 powi m = (of_int (2 ^ nat m) :: rat)" if "0 \<le> m" for m
    using that by (simp add: power_int_def)
  have rn: "2 powi (bitlen n - 1) \<le> (of_int n :: rat)" "(of_int n :: rat) < 2 powi bitlen n"
    using bn pn by (simp_all only: conv of_int_le_iff of_int_less_iff)
  have rd: "2 powi (bitlen d - 1) \<le> (of_int d :: rat)" "(of_int d :: rat) < 2 powi bitlen d"
    using bd pn by (simp_all only: conv of_int_le_iff of_int_less_iff)
  have pos: "0 < (of_int d :: rat)" using d by simp
  have up: "q < 2 powi (?k + 1)"
  proof -
    have "of_int n < (2 powi (?k + 1) :: rat) * 2 powi (bitlen d - 1)"
      using rn(2) by (simp flip: power_int_add)
    also have "\<dots> \<le> 2 powi (?k + 1) * of_int d" using rd(1) by (simp add: mult_left_mono)
    finally show ?thesis using pos by (simp add: q divide_less_eq)
  qed
  have low: "2 powi (?k - 1) \<le> q"
  proof -
    have "2 powi (?k - 1) * of_int d \<le> (2 powi (?k - 1) :: rat) * 2 powi bitlen d"
      using rd(2) by (simp add: mult_left_mono)
    also have "\<dots> = 2 powi (bitlen n - 1)" by (simp flip: power_int_add)
    also have "\<dots> \<le> of_int n" using rn(1) .
    finally show ?thesis using pos by (simp add: q le_divide_eq)
  qed
  show "2 powi ilog2 q \<le> q" "q < 2 powi (ilog2 q + 1)"
    using up low by (simp_all add: ilog2_def nd Let_def)
qed

lemma ilog2_mono:
  assumes "0 < p" and "p \<le> q"
  shows "ilog2 p \<le> ilog2 q"
proof (rule ccontr)
  assume "\<not> ilog2 p \<le> ilog2 q"
  then have "(2 powi (ilog2 q + 1) :: rat) \<le> 2 powi ilog2 p" by (simp add: power_int_increasing)
  with assms ilog2_bounds [of p] ilog2_bounds [of q] show False by linarith
qed

lemma round_even_int [simp]: "round_even (of_int n) = n"
  by (simp add: round_even_def)

lemma round_even_bounds: "\<lfloor>x\<rfloor> \<le> round_even x" "round_even x \<le> \<lfloor>x\<rfloor> + 1"
  by (simp_all add: round_even_def Let_def)

lemma round_even_mono:
  assumes "x \<le> y"
  shows "round_even x \<le> round_even y"
proof (cases "\<lfloor>x\<rfloor> = \<lfloor>y\<rfloor>")
  case True
  with assms show ?thesis by (auto simp: round_even_def Let_def)
next
  case False
  with floor_mono [OF assms] have "\<lfloor>x\<rfloor> + 1 \<le> \<lfloor>y\<rfloor>" by simp
  with round_even_bounds [of x] round_even_bounds [of y] show ?thesis by linarith
qed

text \<open>A power of two at least as large as the unit in the last place is a multiple of it.\<close>

lemma powi_multiple:
  assumes "e \<le> k"
  shows "(2 powi k :: rat) / 2 powi e = of_int (2 ^ nat (k - e))"
proof -
  have "(2 powi k :: rat) / 2 powi e = 2 powi (k - e)" by (simp add: power_int_diff)
  also have "\<dots> = of_int (2 ^ nat (k - e))" using assms by (simp add: power_int_def)
  finally show ?thesis .
qed

lemma round_pos_le_powi:
  assumes "q \<le> 2 powi k" and "ulp_exp q \<le> k"
  shows "round_pos q \<le> 2 powi k"
proof -
  let ?e = "ulp_exp q"
  have "q / 2 powi ?e \<le> of_int (2 ^ nat (k - ?e))"
    unfolding powi_multiple [OF assms(2), symmetric] using assms(1) by (simp add: divide_right_mono)
  from round_even_mono [OF this]
  have "round_even (q / 2 powi ?e) \<le> 2 ^ nat (k - ?e)" unfolding round_even_int .
  then have "of_int (round_even (q / 2 powi ?e)) * (2 powi ?e :: rat) \<le>
      of_int (2 ^ nat (k - ?e)) * 2 powi ?e"
    by (intro mult_right_mono) (simp_all only: of_int_le_iff, simp)
  then show ?thesis unfolding round_pos_def powi_multiple [OF assms(2), symmetric] by simp
qed

lemma powi_le_round_pos:
  assumes "2 powi k \<le> q" and "ulp_exp q \<le> k"
  shows "2 powi k \<le> round_pos q"
proof -
  let ?e = "ulp_exp q"
  have "of_int (2 ^ nat (k - ?e)) \<le> q / 2 powi ?e"
    unfolding powi_multiple [OF assms(2), symmetric] using assms(1) by (simp add: divide_right_mono)
  from round_even_mono [OF this]
  have "2 ^ nat (k - ?e) \<le> round_even (q / 2 powi ?e)" unfolding round_even_int .
  then have "of_int (2 ^ nat (k - ?e)) * (2 powi ?e :: rat) \<le>
      of_int (round_even (q / 2 powi ?e)) * 2 powi ?e"
    by (intro mult_right_mono) (simp_all only: of_int_le_iff, simp)
  then show ?thesis unfolding round_pos_def powi_multiple [OF assms(2), symmetric] by simp
qed

lemma round_pos_mono:
  assumes "0 < p" and "p \<le> q"
  shows "round_pos p \<le> round_pos q"
proof (cases "ulp_exp p = ulp_exp q")
  case True
  from assms(2) have "p / 2 powi ulp_exp q \<le> q / 2 powi ulp_exp q" by (simp add: divide_right_mono)
  from round_even_mono [OF this] show ?thesis
    unfolding round_pos_def True by (simp add: mult_right_mono)
next
  case False
  from ilog2_mono [OF assms] False have lt: "ilog2 p < ilog2 q" and e: "ulp_exp q = ilog2 q - 52"
    "ulp_exp p \<le> ilog2 q"
    by (auto simp: ulp_exp_def max_def split: if_splits)
  have "(2 powi (ilog2 p + 1) :: rat) \<le> 2 powi ilog2 q" using lt by (simp add: power_int_increasing)
  with ilog2_bounds(2) [OF assms(1)] have "p \<le> 2 powi ilog2 q" by linarith
  then have "round_pos p \<le> 2 powi ilog2 q" using e by (intro round_pos_le_powi)
  also have "\<dots> \<le> round_pos q"
    using ilog2_bounds(1) [of q] assms e by (intro powi_le_round_pos) auto
  finally show ?thesis .
qed

lemma round_pos_nonneg:
  assumes "0 < q"
  shows "0 \<le> round_pos q"
proof -
  have "of_int 0 \<le> q / 2 powi ulp_exp q" using assms by simp
  from round_even_mono [OF this] have "0 \<le> round_even (q / 2 powi ulp_exp q)"
    unfolding round_even_int .
  then show ?thesis by (simp add: round_pos_def)
qed

lemma round_pos_int:
  assumes "0 < n" and "n \<le> 2 ^ 53"
  shows "round_pos (of_int n) = of_int n"
proof -
  let ?q = "of_int n :: rat" and ?e = "ulp_exp (of_int n)"
  have q: "0 < ?q" using assms by simp
  have log: "ilog2 ?q \<le> 53"
  proof (rule ccontr)
    assume "\<not> ?thesis"
    then have "(2 powi 54 :: rat) \<le> 2 powi ilog2 ?q" by (intro power_int_increasing) auto
    with ilog2_bounds(1) [OF q] have "(of_int (2 ^ 54) :: rat) \<le> of_int n" by (simp add: power_int_def)
    with assms show False unfolding of_int_le_iff by simp
  qed
  obtain m where m: "?q / 2 powi ?e = of_int m"
  proof (cases "?e \<le> 0")
    case True
    have "?q / 2 powi ?e = ?q * 2 powi (- ?e)" by (simp add: power_int_minus divide_inverse)
    also have "(2 powi (- ?e) :: rat) = of_int (2 ^ nat (- ?e))" using True by (simp add: power_int_def)
    finally have "?q / 2 powi ?e = of_int (n * 2 ^ nat (- ?e))" by simp
    then show ?thesis by (rule that)
  next
    case False
    with log have e1: "?e = 1" and "ilog2 ?q = 53" by (auto simp: ulp_exp_def max_def split: if_splits)
    with ilog2_bounds(1) [OF q] have "(of_int (2 ^ 53) :: rat) \<le> of_int n" by (simp add: power_int_def)
    with assms have "n = 2 ^ 53" unfolding of_int_le_iff by simp
    then have "?q / 2 powi ?e = of_int (2 ^ 52)" using e1 by (simp add: power_int_def)
    then show ?thesis by (rule that)
  qed
  have "round_pos ?q = of_int m * 2 powi ?e" by (simp add: round_pos_def m)
  also have "\<dots> = ?q" unfolding m [symmetric] by simp
  finally show ?thesis .
qed

subsection \<open>Comparisons\<close>

fun fle :: "f64 \<Rightarrow> f64 \<Rightarrow> bool" where
  "fle NaN _ = False"
| "fle _ NaN = False"
| "fle (Inf True) _ = True"
| "fle _ (Inf False) = True"
| "fle (Fin a) (Fin b) = (a \<le> b)"
| "fle _ _ = False"

definition flt :: "f64 \<Rightarrow> f64 \<Rightarrow> bool" where
  "flt x y \<longleftrightarrow> fle x y \<and> \<not> fle y x"

definition feq :: "f64 \<Rightarrow> f64 \<Rightarrow> bool" where
  "feq x y \<longleftrightarrow> fle x y \<and> fle y x"

lemma fle_Inf_simps [simp]:
  "fle (Inf s) (Fin b) \<longleftrightarrow> s" "fle (Fin a) (Inf s) \<longleftrightarrow> \<not> s" "fle (Inf s) (Inf t) \<longleftrightarrow> s \<or> \<not> t"
  by (cases s; cases t; simp)+

lemma fle_NaN_simps [simp]: "\<not> fle x NaN"
  by (cases x) auto

lemma fle_refl: "fle x x \<longleftrightarrow> x \<noteq> NaN"
  by (cases x) auto

lemma fle_trans: "fle x y \<Longrightarrow> fle y z \<Longrightarrow> fle x z"
  by (cases x; cases y; cases z) auto

lemma fle_Fin_between:
  assumes "fle (Fin a) x" and "fle x (Fin b)"
  obtains q where "x = Fin q" "a \<le> q" "q \<le> b"
  using assms by (cases x) auto

lemma flt_Fin [simp]: "flt (Fin a) (Fin b) \<longleftrightarrow> a < b"
  by (auto simp: flt_def)

lemma feq_Fin [simp]: "feq (Fin a) (Fin b) \<longleftrightarrow> a = b"
  by (auto simp: feq_def)

lemma flt_NaN [simp]: "\<not> flt NaN x" "\<not> flt x NaN"
  by (simp_all add: flt_def)

lemma rnd_0 [simp]: "rnd 0 = Fin 0"
  by (simp add: rnd_def)

lemma rnd_nonneg:
  assumes "0 \<le> q"
  shows "fle (Fin 0) (rnd q)"
proof (cases "q = 0")
  case False
  with assms have "0 < q" by simp
  with round_pos_nonneg [OF this] show ?thesis by (auto simp: rnd_def Let_def)
qed simp

lemma rnd_nonpos:
  assumes "q \<le> 0"
  shows "fle (rnd q) (Fin 0)"
proof (cases "q = 0")
  case False
  with assms have "0 < \<bar>q\<bar>" "q < 0" by simp_all
  with round_pos_nonneg [of "\<bar>q\<bar>"] show ?thesis by (auto simp: rnd_def Let_def)
qed simp

lemma rnd_mono:
  assumes "p \<le> q"
  shows "fle (rnd p) (rnd q)"
proof -
  consider (pos) "0 < p" | (neg) "q < 0" | (zero) "p \<le> 0" "0 \<le> q" by linarith
  then show ?thesis
  proof cases
    case pos
    with assms round_pos_mono [OF pos assms] show ?thesis by (auto simp: rnd_def Let_def)
  next
    case neg
    with assms round_pos_mono [of "- q" "- p"] show ?thesis by (auto simp: rnd_def Let_def)
  next
    case zero
    then show ?thesis using rnd_nonneg rnd_nonpos fle_trans by blast
  qed
qed

lemma rnd_int:
  assumes "\<bar>n\<bar> \<le> 2 ^ 53"
  shows "rnd (of_int n) = Fin (of_int n)"
proof (cases "n = 0")
  case False
  with assms have "round_pos (of_int \<bar>n\<bar>) = of_int \<bar>n\<bar>" by (intro round_pos_int) auto
  moreover have "\<not> overflow_bound \<le> of_int \<bar>n\<bar>"
  proof
    assume "overflow_bound \<le> of_int \<bar>n\<bar>"
    moreover have "(of_int \<bar>n\<bar> :: rat) \<le> of_int (2 ^ 53)" using assms unfolding of_int_le_iff .
    moreover have "(of_int (2 ^ 53) :: rat) = 2 powi 53" by (simp add: power_int_def)
    moreover have "(2 powi 53 :: rat) < overflow_bound"
      unfolding overflow_bound_def by (intro power_int_strict_increasing) auto
    ultimately show False by linarith
  qed
  ultimately show ?thesis using False by (auto simp: rnd_def Let_def abs_if split: if_splits)
qed simp

lemma rnd_1 [simp]: "rnd 1 = Fin 1"
  using rnd_int [of 1] by simp

lemma rnd_numeral: "numeral k \<le> (2 :: int) ^ 53 \<Longrightarrow> rnd (numeral k) = Fin (numeral k)"
  using rnd_int [of "numeral k"] by simp

subsection \<open>Arithmetic\<close>

fun fneg :: "f64 \<Rightarrow> f64" where
  "fneg NaN = NaN"
| "fneg (Inf s) = Inf (\<not> s)"
| "fneg (Fin a) = Fin (- a)"

fun fadd :: "f64 \<Rightarrow> f64 \<Rightarrow> f64" where
  "fadd (Fin a) (Fin b) = rnd (a + b)"
| "fadd (Inf s) (Fin _) = Inf s"
| "fadd (Fin _) (Inf s) = Inf s"
| "fadd (Inf s) (Inf t) = (if s = t then Inf s else NaN)"
| "fadd _ _ = NaN"

definition fsub :: "f64 \<Rightarrow> f64 \<Rightarrow> f64" where
  "fsub x y = fadd x (fneg y)"

fun fmul :: "f64 \<Rightarrow> f64 \<Rightarrow> f64" where
  "fmul (Fin a) (Fin b) = rnd (a * b)"
| "fmul (Inf s) (Fin a) = (if a = 0 then NaN else Inf (s \<noteq> (a < 0)))"
| "fmul (Fin a) (Inf s) = (if a = 0 then NaN else Inf (s \<noteq> (a < 0)))"
| "fmul (Inf s) (Inf t) = Inf (s \<noteq> t)"
| "fmul _ _ = NaN"

fun fdiv :: "f64 \<Rightarrow> f64 \<Rightarrow> f64" where
  "fdiv (Fin a) (Fin b) = (if b = 0 then if a = 0 then NaN else Inf (a < 0) else rnd (a / b))"
| "fdiv (Inf s) (Fin a) = Inf (s \<noteq> (a < 0))"
| "fdiv (Fin _) (Inf _) = Fin 0"
| "fdiv _ _ = NaN"

text \<open>\<^verbatim>\<open>float64(n)\<close> of an integer, and the decimal constants of the source.\<close>

definition f_int :: "int \<Rightarrow> f64" where
  "f_int n = rnd (of_int n)"

definition f_const :: "rat \<Rightarrow> f64" where
  "f_const q = rnd q"

definition fsum :: "f64 list \<Rightarrow> f64" where
  "fsum xs = foldl fadd (Fin 0) xs"

definition fmin0max1 :: "f64 \<Rightarrow> f64" where
  "fmin0max1 x = (let y = if flt x (Fin 0) then Fin 0 else x in if flt (Fin 1) y then Fin 1 else y)"

lemma f_int_mono: "m \<le> n \<Longrightarrow> fle (f_int m) (f_int n)"
  by (simp add: f_int_def rnd_mono)

lemma fadd_mono: "a \<le> b \<Longrightarrow> c \<le> d \<Longrightarrow> fle (fadd (Fin a) (Fin c)) (fadd (Fin b) (Fin d))"
  by (simp add: rnd_mono)

lemma fmul_mono:
  "0 \<le> a \<Longrightarrow> a \<le> b \<Longrightarrow> 0 \<le> c \<Longrightarrow> c \<le> d \<Longrightarrow> fle (fmul (Fin a) (Fin c)) (fmul (Fin b) (Fin d))"
  by (simp add: rnd_mono mult_mono)

text \<open>A quotient of a non-negative number by a larger one lies between 0 and 1.\<close>

lemma fdiv_unit:
  assumes "0 \<le> a" and "a \<le> b" and "0 < b"
  obtains q where "fdiv (Fin a) (Fin b) = Fin q" "0 \<le> q" "q \<le> 1"
proof -
  have "0 \<le> a / b" "a / b \<le> 1" using assms by (simp_all add: divide_le_eq)
  then have "fle (Fin 0) (rnd (a / b))" "fle (rnd (a / b)) (Fin 1)"
    using rnd_nonneg rnd_mono [of "a / b" 1] by simp_all
  then obtain q where "rnd (a / b) = Fin q" "0 \<le> q" "q \<le> 1" by (rule fle_Fin_between)
  with that assms show ?thesis by simp
qed

subsection \<open>Rounding errors\<close>

text \<open>Relative error, and the grid of the finite values.\<close>

lemma round_even_half: "of_int (round_even x) \<le> x + 1 / 2"
proof -
  have "of_int \<lfloor>x\<rfloor> \<le> x" by simp
  then have "of_int \<lfloor>x\<rfloor> \<le> x + 1 / 2" by (rule order_trans) simp
  then show ?thesis by (auto simp: round_even_def Let_def)
qed

lemma round_pos_above:
  assumes "0 < q" and "- 1074 < ulp_exp q"
  shows "round_pos q \<le> 5 / 4 * q"
proof -
  let ?u = "2 powi ulp_exp q :: rat"
  have u: "0 < ?u" by simp
  have e: "ulp_exp q = ilog2 q - 52" using assms(2) by (simp add: ulp_exp_def)
  have "?u * 2 powi 52 = 2 powi (ulp_exp q + 52)" by (simp only: power_int_add zero_neq_numeral [symmetric] simp_thms)
  then have "?u * 2 powi 52 = 2 powi ilog2 q" by (simp add: e)
  then have "?u * 2 ^ 52 \<le> q" using ilog2_bounds(1) [OF assms(1)] by simp
  then have small: "?u \<le> q / 2 ^ 52" by (simp add: field_simps)
  have "of_int (round_even (q / ?u)) * ?u \<le> (q / ?u + 1 / 2) * ?u"
    using round_even_half u by (intro mult_right_mono) simp_all
  also have "\<dots> = q + ?u / 2" by (simp add: distrib_right)
  finally have "round_pos q \<le> q + ?u / 2" by (simp add: round_pos_def)
  also have "\<dots> \<le> 5 / 4 * q" using small assms(1) by simp
  finally show ?thesis .
qed

lemma rnd_pos: "0 < q \<Longrightarrow> rnd q = (if overflow_bound \<le> round_pos q then Inf False else Fin (round_pos q))"
  by (simp add: rnd_def Let_def)

lemma rnd_minus: "rnd (- q) = fneg (rnd q)"
  by (auto simp: rnd_def Let_def)

definition grid :: rat where
  "grid = 2 powi (- 1074)"

lemma grid_pos [simp]: "0 < grid"
  by (simp add: grid_def)

lemma grid_nonneg [simp]: "0 \<le> grid"
  by (simp add: less_imp_le)

definition fval :: "rat \<Rightarrow> bool" where
  "fval q \<longleftrightarrow> rnd q = Fin q"

lemma fval_minus [simp]: "fval (- q) \<longleftrightarrow> fval q"
  by (auto simp: fval_def rnd_minus) (cases "rnd q"; simp)

lemma fval_0 [simp]: "fval 0" and fval_1 [simp]: "fval 1"
  by (simp_all add: fval_def)

lemma fval_grid:
  assumes "fval q"
  shows "\<exists>k. q = of_int k * grid"
proof -
  have pos: "\<exists>k. q = of_int k * grid" if q: "0 < q" "fval q" for q
  proof -
    have "q = round_pos q" using q by (auto simp: fval_def rnd_pos split: if_splits)
    then have "q = of_int (round_even (q / 2 powi ulp_exp q)) * 2 powi ulp_exp q" by (simp add: round_pos_def)
    moreover have "(2 powi ulp_exp q :: rat) = of_int (2 ^ nat (ulp_exp q + 1074)) * grid"
    proof -
      have "0 \<le> ulp_exp q + 1074" by (simp add: ulp_exp_def)
      then have "(of_int (2 ^ nat (ulp_exp q + 1074)) :: rat) = 2 powi (ulp_exp q + 1074)" by (simp add: power_int_def)
      moreover have "(2 powi (ulp_exp q + 1074) * grid :: rat) = 2 powi (ulp_exp q + 1074 + - 1074)"
        unfolding grid_def by (rule power_int_add [symmetric]) simp
      ultimately show ?thesis by simp
    qed
    ultimately have "q = of_int (round_even (q / 2 powi ulp_exp q) * 2 ^ nat (ulp_exp q + 1074)) * grid"
      by simp
    then show ?thesis by blast
  qed
  consider "0 < q" | "q = 0" | "0 < - q" by linarith
  then show ?thesis
  proof cases
    case 2
    then have "q = of_int 0 * grid" by simp
    then show ?thesis by blast
  next
    case 3
    with pos [of "- q"] assms obtain k where "- q = of_int k * grid" by auto
    then have "q = of_int (- k) * grid" by simp
    then show ?thesis by blast
  qed (use pos assms in auto)
qed

text \<open>On the grid nothing is rounded where the grid is all there is; elsewhere the error is relative.\<close>

lemma round_pos_grid:
  assumes "0 < y" and "y \<le> of_int k * grid" and "y \<le> 4 / 5 * (of_int k * grid) \<or> ulp_exp y = - 1074"
  shows "round_pos y \<le> of_int k * grid"
proof (cases "ulp_exp y = - 1074")
  case True
  have "round_even (y / grid) \<le> round_even (of_int k)"
    using assms(2) by (intro round_even_mono) (simp add: divide_le_eq)
  then have "round_even (y / grid) \<le> k" by simp
  then show ?thesis unfolding round_pos_def True grid_def [symmetric] by (intro mult_right_mono) simp_all
next
  case False
  then have "- 1074 < ulp_exp y" by (simp add: ulp_exp_def)
  from round_pos_above [OF assms(1) this] False assms(3) show ?thesis by simp
qed

text \<open>A step of at least half the way from one value towards another does not overshoot.\<close>

lemma rnd_step_le:
  assumes "fval x" and "fval m" and "m < x" and "rnd (x - m) = Fin d" and "2 \<le> n"
  shows "\<exists>s. rnd (d / n) = Fin s \<and> 0 \<le> s \<and> s \<le> x - m"
proof -
  obtain a b where "x = of_int a * grid" "m = of_int b * grid"
    using fval_grid [OF assms(1)] fval_grid [OF assms(2)] by blast
  then have D: "x - m = of_int (a - b) * grid" by (simp add: left_diff_distrib)
  have pos: "0 < x - m" using assms(3) by simp
  have d: "d = round_pos (x - m)" using assms(4) rnd_pos [OF pos] by (simp split: if_splits)
  have d_le: "d \<le> 5 / 4 * (x - m)"
  proof (cases "- 1074 < ulp_exp (x - m)")
    case True
    then show ?thesis using round_pos_above [OF pos] d by simp
  next
    case False
    then have "ulp_exp (x - m) = - 1074" by (simp add: ulp_exp_def)
    then have "round_pos (x - m) \<le> of_int (a - b) * grid"
      using pos by (intro round_pos_grid) (simp_all only: D [symmetric] order_refl simp_thms)
    then have "d \<le> x - m" unfolding d D .
    then show ?thesis using pos by simp
  qed
  have d0: "0 \<le> d" using round_pos_nonneg [OF pos] d by simp
  show ?thesis
  proof (cases "d = 0")
    case True
    then show ?thesis using pos by simp
  next
    case False
    with d0 have y: "0 < d / n" using assms(5) by simp
    have "d / n \<le> d / 2" using d0 assms(5) by (intro divide_left_mono) simp_all
    also have "d / 2 \<le> 4 / 5 * (x - m)" using d_le pos by simp
    finally have y_le: "d / n \<le> 4 / 5 * (x - m)" .
    also have "4 / 5 * (x - m) \<le> x - m" using pos by simp
    finally have y_le': "d / n \<le> x - m" .
    from round_pos_grid [of "d / n" "a - b"] y y_le y_le' have le: "round_pos (d / n) \<le> x - m"
      unfolding D [symmetric] by blast
    moreover have "round_pos (d / n) \<le> round_pos (x - m)"
      using y y_le' by (rule round_pos_mono)
    then have "round_pos (d / n) < overflow_bound"
      using assms(4) rnd_pos [OF pos] d by (auto split: if_splits)
    ultimately show ?thesis using rnd_pos [OF y] round_pos_nonneg [OF y] by simp
  qed
qed

text \<open>Rounding twice is rounding once.\<close>

lemma round_pos_fix: "(\<exists>k. r = of_int k * 2 powi ulp_exp r) \<Longrightarrow> round_pos r = r"
  by (auto simp: round_pos_def) (metis nonzero_mult_div_cancel_right power_int_not_zero round_even_int zero_neq_numeral)

lemma round_pos_idem:
  assumes "0 < q" and "0 < round_pos q"
  shows "round_pos (round_pos q) = round_pos q"
proof (rule round_pos_fix)
  let ?r = "round_pos q" and ?e = "ulp_exp q"
  obtain j where j: "?r = of_int j * 2 powi ?e" unfolding round_pos_def by blast
  show "\<exists>k. ?r = of_int k * 2 powi ulp_exp ?r"
  proof (cases "ulp_exp ?r \<le> ?e")
    case True
    have "(2 powi ?e :: rat) = of_int (2 ^ nat (?e - ulp_exp ?r)) * 2 powi ulp_exp ?r"
      using powi_multiple [OF True] by (simp add: divide_eq_eq)
    then have "?r = of_int (j * 2 ^ nat (?e - ulp_exp ?r)) * 2 powi ulp_exp ?r" using j by simp
    then show ?thesis by blast
  next
    case False
    then have u: "ulp_exp ?r = ilog2 ?r - 52" "?e + 53 \<le> ilog2 ?r" by (simp_all add: ulp_exp_def split: if_splits)
    have "ilog2 q - 52 \<le> ?e" by (simp add: ulp_exp_def)
    then have "(2 powi (ilog2 q + 1) :: rat) \<le> 2 powi (?e + 53)" by (intro power_int_increasing) simp_all
    then have "q \<le> 2 powi (?e + 53)" using ilog2_bounds(2) [OF assms(1)] by simp
    then have "?r \<le> 2 powi (?e + 53)" by (rule round_pos_le_powi) simp
    moreover have "(2 powi (?e + 53) :: rat) \<le> 2 powi ilog2 ?r" using u(2) by (intro power_int_increasing) simp_all
    ultimately have r: "?r = 2 powi ilog2 ?r" using ilog2_bounds(1) [OF assms(2)] by simp
    have "(2 powi ilog2 ?r :: rat) = of_int (2 ^ 52) * 2 powi ulp_exp ?r"
      using powi_multiple [of "ulp_exp ?r" "ilog2 ?r"] by (simp add: u(1) divide_eq_eq)
    with r have "?r = of_int (2 ^ 52) * 2 powi ulp_exp ?r" by simp
    then show ?thesis by blast
  qed
qed

lemma fval_rnd: "rnd q = Fin r \<Longrightarrow> fval r"
proof -
  have pos: "fval r" if "0 < q" "rnd q = Fin r" for q r
  proof (cases "r = 0")
    case False
    have r: "r = round_pos q" "\<not> overflow_bound \<le> r" using that rnd_pos [OF that(1)] by (auto split: if_splits)
    then have "0 < round_pos q" using False round_pos_nonneg [OF that(1)] by simp
    with r round_pos_idem [OF that(1)] show ?thesis by (simp add: fval_def rnd_pos)
  qed simp
  assume a: "rnd q = Fin r"
  consider "0 < q" | "q = 0" | "0 < - q" by linarith
  then show "fval r"
  proof cases
    case 3
    with pos [of "- q" "- r"] a show ?thesis by (simp add: rnd_minus)
  qed (use pos a in auto)
qed

lemma rnd_finite:
  assumes "\<bar>q\<bar> \<le> 2 powi 1023"
  shows "\<exists>r. rnd q = Fin r"
proof (cases "q = 0")
  case False
  then have p: "0 < \<bar>q\<bar>" by simp
  have "ilog2 \<bar>q\<bar> \<le> 1023"
  proof (rule ccontr)
    assume "\<not> ilog2 \<bar>q\<bar> \<le> 1023"
    then have "(2 powi 1024 :: rat) \<le> 2 powi ilog2 \<bar>q\<bar>" by (intro power_int_increasing) simp_all
    then have "(2 powi 1024 :: rat) \<le> 2 powi 1023" using ilog2_bounds(1) [OF p] assms by linarith
    then show False by simp
  qed
  then have "round_pos \<bar>q\<bar> \<le> 2 powi 1023" using assms by (intro round_pos_le_powi) (simp_all add: ulp_exp_def)
  moreover have "2 powi 1023 < overflow_bound" by (simp add: overflow_bound_def)
  ultimately show ?thesis using False by (auto simp: rnd_def Let_def)
qed simp

lemma ilog2_powi [simp]: "ilog2 (2 powi k) = k"
proof -
  have b: "2 powi ilog2 (2 powi k) \<le> (2 powi k :: rat)" "(2 powi k :: rat) < 2 powi (ilog2 (2 powi k) + 1)"
    using ilog2_bounds [of "2 powi k"] by simp_all
  show ?thesis
  proof (rule antisym)
    show "ilog2 (2 powi k) \<le> k"
    proof (rule ccontr)
      assume "\<not> ilog2 (2 powi k) \<le> k"
      then have "(2 powi k :: rat) < 2 powi ilog2 (2 powi k)" by (intro power_int_strict_increasing) simp_all
      with b(1) show False by simp
    qed
    show "k \<le> ilog2 (2 powi k)"
    proof (rule ccontr)
      assume "\<not> k \<le> ilog2 (2 powi k)"
      then have "(2 powi (ilog2 (2 powi k) + 1) :: rat) \<le> 2 powi k" by (intro power_int_increasing) simp_all
      with b(2) show False by simp
    qed
  qed
qed

lemma fval_powi:
  assumes "- 1074 \<le> k" and "k \<le> 1023"
  shows "fval (2 powi k)"
proof -
  let ?u = "ulp_exp (2 powi k)"
  have u: "?u \<le> k" using assms(1) by (simp add: ulp_exp_def)
  have "(2 powi k :: rat) = of_int (2 ^ nat (k - ?u)) * 2 powi ?u" using powi_multiple [OF u] by (simp add: divide_eq_eq)
  then have r: "round_pos (2 powi k) = 2 powi k" by (intro round_pos_fix) blast
  have "(2 powi k :: rat) < overflow_bound" unfolding overflow_bound_def using assms(2) by (intro power_int_strict_increasing) simp_all
  then show ?thesis by (simp add: fval_def rnd_pos r)
qed

text \<open>A number above a power of two stays above it.\<close>

lemma rnd_ge_powi: "2 powi k \<le> q \<Longrightarrow> - 1074 \<le> k \<Longrightarrow> k \<le> 1023 \<Longrightarrow> fle (Fin (2 powi k)) (rnd q)"
  using rnd_mono [of "2 powi k" q] fval_powi [of k] by (simp add: fval_def)

text \<open>Finite numbers up to a power of two, and how the operations move the power.\<close>

definition upto_powi :: "int \<Rightarrow> f64 \<Rightarrow> bool" where
  "upto_powi k x = (case x of Fin q \<Rightarrow> \<bar>q\<bar> \<le> 2 powi k | _ \<Rightarrow> False)"

lemma upto_powi_Fin [simp]: "upto_powi k (Fin q) \<longleftrightarrow> \<bar>q\<bar> \<le> 2 powi k"
  by (simp add: upto_powi_def)

lemma upto_powiE:
  assumes "upto_powi k x"
  obtains q where "x = Fin q" "\<bar>q\<bar> \<le> 2 powi k"
  using assms by (cases x) (auto simp: upto_powi_def)

lemma upto_powi_mono: "upto_powi j x \<Longrightarrow> j \<le> k \<Longrightarrow> upto_powi k x"
proof (elim upto_powiE)
  fix q
  assume "j \<le> k" and q: "x = Fin q" "\<bar>q\<bar> \<le> 2 powi j"
  then have "(2 powi j :: rat) \<le> 2 powi k" by (intro power_int_increasing) simp_all
  with q show ?thesis by simp
qed

lemma upto_powi_rnd:
  assumes "\<bar>q\<bar> \<le> 2 powi k" and "- 1074 \<le> k" and "k \<le> 1023"
  shows "upto_powi k (rnd q)"
proof -
  have "rnd (2 powi k) = Fin (2 powi k)" "rnd (- (2 powi k)) = Fin (- (2 powi k))"
    using fval_powi [OF assms(2,3)] fval_minus [of "2 powi k"] by (simp_all add: fval_def)
  moreover have "- (2 powi k) \<le> q" "q \<le> 2 powi k" using assms(1) by (simp_all add: abs_le_iff)
  ultimately have "fle (Fin (- (2 powi k))) (rnd q)" "fle (rnd q) (Fin (2 powi k))"
    using rnd_mono [of "- (2 powi k)" q] rnd_mono [of q "2 powi k"] by simp_all
  then show ?thesis by (rule fle_Fin_between) (simp add: abs_le_iff)
qed

lemma upto_powi_neg [simp]: "upto_powi k (fneg x) = upto_powi k x"
  by (cases x) (simp_all add: upto_powi_def)

lemma upto_powi_add:
  assumes "upto_powi k x" and "upto_powi k y" and "- 1074 \<le> k" and "k \<le> 1022"
  shows "upto_powi (k + 1) (fadd x y)" and "upto_powi (k + 1) (fsub x y)"
proof -
  have "upto_powi (k + 1) (fadd x y)" if y: "upto_powi k y" for y
  proof -
    obtain a where a: "x = Fin a" "\<bar>a\<bar> \<le> 2 powi k" using assms(1) by (rule upto_powiE)
    obtain b where b: "y = Fin b" "\<bar>b\<bar> \<le> 2 powi k" using y by (rule upto_powiE)
    have "\<bar>a + b\<bar> \<le> 2 powi k + 2 powi k" using a(2) b(2) abs_triangle_ineq [of a b] by linarith
    then have "\<bar>a + b\<bar> \<le> 2 powi (k + 1)" by (simp add: power_int_add)
    then show ?thesis using upto_powi_rnd [of "a + b" "k + 1"] assms(3,4) a b by simp
  qed
  from this [OF assms(2)] this [of "fneg y"] assms(2) show "upto_powi (k + 1) (fadd x y)" "upto_powi (k + 1) (fsub x y)"
    by (simp_all add: fsub_def)
qed

lemma upto_powi_mul:
  assumes "upto_powi j x" and "upto_powi k y" and "- 1074 \<le> j + k" and "j + k \<le> 1023"
  shows "upto_powi (j + k) (fmul x y)"
proof -
  obtain a where a: "x = Fin a" "\<bar>a\<bar> \<le> 2 powi j" using assms(1) by (rule upto_powiE)
  obtain b where b: "y = Fin b" "\<bar>b\<bar> \<le> 2 powi k" using assms(2) by (rule upto_powiE)
  have "\<bar>a * b\<bar> \<le> 2 powi j * 2 powi k" unfolding abs_mult using a b by (intro mult_mono) simp_all
  then have "\<bar>a * b\<bar> \<le> 2 powi (j + k)" by (simp add: power_int_add)
  then show ?thesis using upto_powi_rnd [of "a * b" "j + k"] assms(3,4) a b by simp
qed

lemma upto_powi_div:
  assumes "upto_powi k x" and "1 \<le> b" and "- 1074 \<le> k" and "k \<le> 1023"
  shows "upto_powi k (fdiv x (Fin b))"
proof -
  obtain a where a: "x = Fin a" "\<bar>a\<bar> \<le> 2 powi k" using assms(1) by (rule upto_powiE)
  have "\<bar>a / b\<bar> \<le> \<bar>a\<bar>" using assms(2) by (simp add: divide_le_eq mult_le_cancel_left1)
  then show ?thesis using upto_powi_rnd [of "a / b" k] assms(2-4) a by simp
qed

text \<open>
  One step of a running mean: the new mean lies between the old one and the value, so the two
  deviations have the same sign.
\<close>

definition step_count :: "f64 \<Rightarrow> bool" where
  "step_count n \<longleftrightarrow> fle (Fin 2) n"

lemma mean_step_up:
  assumes "fval x" and "fval m" and "m < x" and "x - m \<le> 2 powi 1023" and "step_count n"
  shows "\<exists>m' d. fsub (Fin x) (Fin m) = Fin d \<and> 0 \<le> d \<and> fadd (Fin m) (fdiv (Fin d) n) = Fin m' \<and>
    fval m' \<and> m \<le> m' \<and> m' \<le> x"
proof -
  obtain d where d: "rnd (x - m) = Fin d" using rnd_finite [of "x - m"] assms(3,4) by auto
  have d0: "0 \<le> d" using rnd_nonneg [of "x - m"] d assms(3) by simp
  have "\<exists>s. fdiv (Fin d) n = Fin s \<and> 0 \<le> s \<and> s \<le> x - m"
  proof (cases n)
    case (Fin r)
    then have "2 \<le> r" using assms(5) by (simp add: step_count_def)
    with rnd_step_le [OF assms(1-3) d this] Fin show ?thesis by simp
  qed (use assms(3,5) in \<open>simp_all add: step_count_def\<close>)
  then obtain s where s: "fdiv (Fin d) n = Fin s" "0 \<le> s" "s \<le> x - m" by blast
  have "fle (Fin m) (rnd (m + s))" using rnd_mono [of m "m + s"] s(2) assms(2) by (simp add: fval_def)
  moreover have "fle (rnd (m + s)) (Fin x)" using rnd_mono [of "m + s" x] s(3) assms(1) by (simp add: fval_def)
  ultimately obtain m' where "rnd (m + s) = Fin m'" "m \<le> m'" "m' \<le> x" by (rule fle_Fin_between)
  with s d d0 fval_rnd show ?thesis by (auto simp: fsub_def)
qed

lemma mean_step:
  assumes "fval x" and "fval m" and "\<bar>x - m\<bar> \<le> 2 powi 1023" and "step_count n"
  shows "\<exists>m'. fadd (Fin m) (fdiv (fsub (Fin x) (Fin m)) n) = Fin m' \<and> fval m' \<and> min m x \<le> m' \<and> m' \<le> max m x \<and>
    fle (Fin 0) (fmul (fsub (Fin x) (Fin m)) (fsub (Fin x) (Fin m')))"
proof -
  have up: "\<exists>m'. fadd (Fin m) (fdiv (fsub (Fin x) (Fin m)) n) = Fin m' \<and> fval m' \<and> m \<le> m' \<and> m' \<le> x \<and>
      fle (Fin 0) (fmul (fsub (Fin x) (Fin m)) (fsub (Fin x) (Fin m')))"
    if v: "fval x" "fval m" "m < x" "x - m \<le> 2 powi 1023" for x m
  proof -
    obtain m' d where m': "fsub (Fin x) (Fin m) = Fin d" "0 \<le> d" "fadd (Fin m) (fdiv (Fin d) n) = Fin m'"
        "fval m'" "m \<le> m'" "m' \<le> x"
      using mean_step_up [OF v assms(4)] by blast
    have "\<bar>x - m'\<bar> \<le> 2 powi 1023" using m'(5,6) v(4) by simp
    then obtain d2 where d2: "rnd (x - m') = Fin d2" using rnd_finite by blast
    with rnd_nonneg [of "x - m'"] m'(6) have "0 \<le> d2" by simp
    with m'(2) d2 have "fle (Fin 0) (fmul (Fin d) (fsub (Fin x) (Fin m')))" by (simp add: fsub_def rnd_nonneg)
    with m' show ?thesis by auto
  qed
  consider "m < x" | "m = x" | "- m < - x" by linarith
  then show ?thesis
  proof cases
    case 1
    then show ?thesis using up [OF assms(1,2)] assms(3) by auto
  next
    case 2
    have "fdiv (Fin 0) n = Fin 0" using assms(4) by (cases n) (auto simp: step_count_def)
    then show ?thesis using 2 assms(1) by (simp add: fsub_def fval_def)
  next
    case 3
    have "- x - - m \<le> 2 powi 1023" using assms(3) by simp
    from up [of "- x" "- m", OF _ _ 3 this] assms(1,2) obtain m' where
      m': "fadd (Fin (- m)) (fdiv (fsub (Fin (- x)) (Fin (- m))) n) = Fin m'" "fval m'" "- m \<le> m'" "m' \<le> - x"
        "fle (Fin 0) (fmul (fsub (Fin (- x)) (Fin (- m))) (fsub (Fin (- x)) (Fin m')))"
      by auto
    have neg: "fsub (Fin (- a)) (Fin (- b)) = fneg (fsub (Fin a) (Fin b))" for a b
      using rnd_minus [of "a - b"] by (simp add: fsub_def)
    obtain d where d: "fsub (Fin x) (Fin m) = Fin d" using rnd_finite [OF assms(3)] by (auto simp: fsub_def)
    have negd: "fdiv (Fin (- d)) n = fneg (fdiv (Fin d) n)"
      using rnd_minus [of "d / r" for r] by (cases n) auto
    obtain s where s: "fdiv (Fin d) n = Fin s"
      using m'(1) unfolding neg d fneg.simps negd by (cases "fdiv (Fin d) n") auto
    have "fadd (Fin m) (Fin s) = fneg (fadd (Fin (- m)) (Fin (- s)))" using rnd_minus [of "- m - s"] by (simp add: add.commute)
    then have "fadd (Fin m) (fdiv (Fin d) n) = Fin (- m')" using m'(1) by (simp add: neg d negd s)
    moreover obtain d2 where "fsub (Fin x) (Fin (- m')) = Fin d2"
      using rnd_finite [of "x + m'"] m'(3,4) assms(3) by (auto simp: fsub_def)
    then have "fle (Fin 0) (fmul (Fin d) (fsub (Fin x) (Fin (- m'))))"
      using m'(5) neg [of x "- m'"] by (simp add: neg d)
    ultimately show ?thesis using m'(2-4) 3 by (intro exI [of _ "- m'"]) (simp add: d)
  qed
qed

text \<open>\<^verbatim>\<open>math.Sqrt\<close>, correctly rounded.\<close>

fun nsqrt :: "nat \<Rightarrow> nat" where
  "nsqrt n = (if n = 0 then 0 else let r = 2 * nsqrt (n div 4) in if (r + 1) * (r + 1) \<le> n then r + 1 else r)"

declare nsqrt.simps [simp del]

lemma nsqrt_bounds: "nsqrt n * nsqrt n \<le> n \<and> n < (nsqrt n + 1) * (nsqrt n + 1)"
proof (induction n rule: nsqrt.induct)
  case (1 n)
  show ?case
  proof (cases "n = 0")
    case False
    let ?m = "nsqrt (n div 4)"
    from 1 [OF False] have b: "?m * ?m \<le> n div 4" "n div 4 < (?m + 1) * (?m + 1)" by simp_all
    have "4 * (?m * ?m) \<le> n" using b(1) by linarith
    moreover have "n < 4 * ((?m + 1) * (?m + 1))" using b(2) by linarith
    ultimately show ?thesis
      by (subst (1 2 3 4) nsqrt.simps) (simp add: False Let_def algebra_simps)
  qed (simp add: nsqrt.simps)
qed

fun fsqrt :: "f64 \<Rightarrow> f64" where
  "fsqrt (Fin q) =
     (if q < 0 then NaN
      else if q = 0 then Fin 0
      else let e = ilog2 q div 2 - 52;
               s = q / 2 powi (2 * e);
               m = nsqrt (nat \<lfloor>s\<rfloor>);
               h = of_nat (2 * m + 1) * of_nat (2 * m + 1)
           in Fin (of_nat (if h < 4 * s \<or> h = 4 * s \<and> odd m then m + 1 else m) * 2 powi e))"
| "fsqrt (Inf s) = (if s then NaN else Inf False)"
| "fsqrt NaN = NaN"

lemma fsqrt_nonneg:
  assumes "fle (Fin 0) x"
  shows "fle (Fin 0) (fsqrt x)"
proof (cases x)
  case (Fin q)
  then have "0 \<le> q" using assms by simp
  then show ?thesis by (simp add: Fin Let_def)
qed (use assms in auto)

lemma fsqrt_nearest:
  assumes "0 < q"
  shows "\<exists>k. let u = 2 powi (ilog2 q div 2 - 52) in
    fsqrt (Fin q) = Fin (of_nat k * u) \<and> ((of_nat k - 1 / 2) * u)\<^sup>2 \<le> q \<and> q \<le> ((of_nat k + 1 / 2) * u)\<^sup>2"
proof -
  define e where "e = ilog2 q div 2 - 52"
  define u :: rat where "u = 2 powi e"
  define s where "s = q / 2 powi (2 * e)"
  define m where "m = nsqrt (nat \<lfloor>s\<rfloor>)"
  define k where "k = (if of_nat (2 * m + 1) * of_nat (2 * m + 1) < 4 * s \<or> of_nat (2 * m + 1) * of_nat (2 * m + 1) = 4 * s \<and> odd m
    then m + 1 else m)"
  have u2: "(2 powi (2 * e) :: rat) = u\<^sup>2" "0 < u" by (simp_all add: u_def power2_eq_square flip: power_int_add)
  have sq: "q = s * u\<^sup>2" using u2 by (simp add: s_def)
  have s0: "0 < s" using assms u2 by (simp add: s_def)
  have f: "of_nat (nat \<lfloor>s\<rfloor>) \<le> s" "s < of_nat (nat \<lfloor>s\<rfloor> + 1)" using s0 floor_correct [of s] by (simp_all add: of_nat_nat add.commute)
  from nsqrt_bounds [of "nat \<lfloor>s\<rfloor>"] have n: "m * m \<le> nat \<lfloor>s\<rfloor>" "nat \<lfloor>s\<rfloor> + 1 \<le> (m + 1) * (m + 1)"
    by (simp_all add: m_def)
  have "(of_nat (m * m) :: rat) \<le> of_nat (nat \<lfloor>s\<rfloor>)" "(of_nat (nat \<lfloor>s\<rfloor> + 1) :: rat) \<le> of_nat ((m + 1) * (m + 1))"
    using n by (simp_all only: of_nat_le_iff)
  then have lo: "of_nat (m * m) \<le> s" and hi: "s \<le> of_nat ((m + 1) * (m + 1))" using f by linarith+
  have "(2 powi (2 * e) :: rat) \<le> 2 powi ilog2 q" unfolding e_def by (intro power_int_increasing) simp_all
  then have "1 \<le> s" using ilog2_bounds(1) [OF assms] u2 by (simp add: s_def)
  then have "1 \<le> \<lfloor>s\<rfloor>" by simp
  with n(2) have "1 \<le> m" by (cases m) auto
  then have "(1 :: rat) \<le> of_nat m" by simp
  with lo hi have "(of_nat k - 1 / 2)\<^sup>2 \<le> s \<and> s \<le> (of_nat k + 1 / 2)\<^sup>2"
    by (auto simp: k_def power2_eq_square algebra_simps)
  then have "(of_nat k - 1 / 2)\<^sup>2 * u\<^sup>2 \<le> s * u\<^sup>2" "s * u\<^sup>2 \<le> (of_nat k + 1 / 2)\<^sup>2 * u\<^sup>2"
    by (simp_all add: mult_right_mono)
  moreover have "fsqrt (Fin q) = Fin (of_nat k * u)"
    using assms by (simp add: Let_def k_def m_def s_def u_def e_def)
  ultimately show ?thesis unfolding e_def [symmetric] u_def [symmetric] Let_def
    by (intro exI [of _ k]) (simp add: power_mult_distrib sq)
qed

text \<open>\<^verbatim>\<open>math.Abs\<close>.\<close>

fun fabs :: "f64 \<Rightarrow> f64" where
  "fabs NaN = NaN"
| "fabs (Inf _) = Inf False"
| "fabs (Fin q) = Fin \<bar>q\<bar>"

text \<open>\<^verbatim>\<open>math.Min\<close> and \<^verbatim>\<open>math.Max\<close>: an infinity on the winning side decides even against a NaN.\<close>

definition fmin :: "f64 \<Rightarrow> f64 \<Rightarrow> f64" where
  "fmin x y = (if x = Inf True \<or> y = Inf True then Inf True else if x = NaN \<or> y = NaN then NaN else if fle x y then x else y)"

definition fmax :: "f64 \<Rightarrow> f64 \<Rightarrow> f64" where
  "fmax x y = (if x = Inf False \<or> y = Inf False then Inf False else if x = NaN \<or> y = NaN then NaN else if fle y x then x else y)"

lemma clip_range: "x \<noteq> NaN \<Longrightarrow> a \<le> b \<Longrightarrow> fle (Fin a) (fmax (Fin a) (fmin (Fin b) x)) \<and> fle (fmax (Fin a) (fmin (Fin b) x)) (Fin b)"
  by (cases x) (auto simp: fmax_def fmin_def)

lemma fabs_nonneg: "x \<noteq> NaN \<Longrightarrow> fle (Fin 0) (fabs x)"
  by (cases x) auto

lemma f_int_Fin: "0 \<le> n \<Longrightarrow> n < 2 ^ 63 \<Longrightarrow> \<exists>q. f_int n = Fin q \<and> 0 \<le> q"
proof -
  assume n: "0 \<le> n" "n < 2 ^ 63"
  have "(of_int n :: rat) \<le> of_int (2 ^ 63)" using n(2) by (simp only: of_int_le_iff)
  also have "\<dots> \<le> 2 powi 1023" by simp
  finally obtain q where "rnd (of_int n) = Fin q" using rnd_finite [of "of_int n"] n(1) by auto
  with rnd_nonneg [of "of_int n"] n(1) show ?thesis by (simp add: f_int_def)
qed

lemma rnd_not_NaN [simp]: "rnd q \<noteq> NaN"
  by (simp add: rnd_def Let_def)

lemma fle_extremes: "fle (Inf True) x \<longleftrightarrow> x \<noteq> NaN" "fle x (Inf False) \<longleftrightarrow> x \<noteq> NaN"
  by (cases x; simp)+

lemma fle_total: "x \<noteq> NaN \<Longrightarrow> y \<noteq> NaN \<Longrightarrow> fle x y \<or> fle y x"
  by (cases x; cases y) auto

end
