(* ===== verification/Config.thy ===== *)
theory Config
  imports Float64 Prelude
begin

text \<open>
  The broker configuration, \<^verbatim>\<open>pkg/broker/config.go\<close>: the configuration record and its
  defaults, the rule table of \<^verbatim>\<open>Validate\<close>, the per-name setter the optimizer uses and the
  ranges it draws values from. The lemmas show that a value inside the published range of
  a parameter never turns a valid configuration into an invalid one.

  Scheduling modes, sync policies and compression types are the integers of the source,
  because the transport layer casts request fields to them unchecked. The conversion of a
  float that does not fit the integer type is left to the platform by the language, so it
  is the function argument \<^verbatim>\<open>oob\<close>.
\<close>

definition ModeFIFO :: int where "ModeFIFO = 0"
definition ModeStrictPriority :: int where "ModeStrictPriority = 1"
definition ModeDQNAdaptive :: int where "ModeDQNAdaptive = 2"

definition SyncEveryWrite :: int where "SyncEveryWrite = 0"
definition SyncInterval :: int where "SyncInterval = 1"
definition SyncNone :: int where "SyncNone = 2"

record config =
  SegmentMaxBytes :: int
  SegmentMaxCount :: int
  RetentionMaxBytes :: int
  RetentionMaxAge :: int
  FlushIntervalMs :: int
  cfgSyncPolicy :: int
  CompressionType :: int
  MaxConnections :: int
  RecvBufferBytes :: int
  SendBufferBytes :: int
  MaxMessageBytes :: int
  ReadTimeoutMs :: int
  WriteTimeoutMs :: int
  NumNetworkGoroutines :: int
  NumIOGoroutines :: int
  MaxQueuedRequests :: int
  BatchSize :: int
  BatchMemoryBytes :: int
  LingerMs :: int
  FetchMinBytes :: int
  FetchMaxWaitMs :: int
  MaxFetchBytes :: int
  ConsumerSessionTimeoutMs :: int

record topic_config =
  ScheduleMode :: int
  cfgNumPartitions :: int
  PriorityLevels :: int
  AntiStarvationTTL :: int
  DQNThrottleOnLoad :: f64

definition millisecond :: int where "millisecond = 1000000"
definition second :: int where "second = 1000 * millisecond"
definition hour :: int where "hour = 3600 * second"

subsection \<open>Validation\<close>

text \<open>One rule of the table: a field, a lower bound and possibly an upper bound.\<close>

definition configRules :: "((config \<Rightarrow> int) \<times> int \<times> int option) list" where
  "configRules =
     [(SegmentMaxBytes, 2 ^ 20, Some (64 * 2 ^ 20)),
      (SegmentMaxCount, 1, None),
      (RetentionMaxBytes, 2 ^ 20, None),
      (FlushIntervalMs, 1, Some 60000),
      (CompressionType, 0, Some 3),
      (MaxConnections, 1, Some 65535),
      (RecvBufferBytes, 1024, None),
      (SendBufferBytes, 1024, None),
      (MaxMessageBytes, 1024, None),
      (NumNetworkGoroutines, 1, Some 256),
      (NumIOGoroutines, 1, Some 256),
      (MaxQueuedRequests, 1, None),
      (BatchSize, 1, None),
      (BatchMemoryBytes, 1024, Some (64 * 2 ^ 20)),
      (FetchMinBytes, 1, None),
      (FetchMaxWaitMs, 1, None),
      (ConsumerSessionTimeoutMs, 1000, None)]"

definition rule_holds :: "config \<Rightarrow> (config \<Rightarrow> int) \<times> int \<times> int option \<Rightarrow> bool" where
  "rule_holds c r = (case r of (field, lo, hi) \<Rightarrow>
     lo \<le> field c \<and> (case hi of None \<Rightarrow> True | Some h \<Rightarrow> field c \<le> h))"

definition Validate :: "config \<Rightarrow> err option" where
  "Validate c = (if list_all (rule_holds c) configRules then None else Some ErrInvalidConfig)"

definition DefaultConfig :: config where
  "DefaultConfig =
     \<lparr>SegmentMaxBytes = 20 * 1024 * 1024, SegmentMaxCount = 100, RetentionMaxBytes = 2 ^ 30,
      RetentionMaxAge = 168 * hour, FlushIntervalMs = 1000, cfgSyncPolicy = SyncInterval,
      CompressionType = 0, MaxConnections = 1024, RecvBufferBytes = 65536,
      SendBufferBytes = 65536, MaxMessageBytes = 2 ^ 20, ReadTimeoutMs = 30000,
      WriteTimeoutMs = 30000, NumNetworkGoroutines = 4, NumIOGoroutines = 4,
      MaxQueuedRequests = 500, BatchSize = 100, BatchMemoryBytes = 65536, LingerMs = 5,
      FetchMinBytes = 1, FetchMaxWaitMs = 500, MaxFetchBytes = 2 ^ 20,
      ConsumerSessionTimeoutMs = 30000\<rparr>"

definition DefaultTopicConfig :: topic_config where
  "DefaultTopicConfig =
     \<lparr>ScheduleMode = ModeFIFO, cfgNumPartitions = 4, PriorityLevels = 1,
      AntiStarvationTTL = 10 * second, DQNThrottleOnLoad = f_const (9 / 10)\<rparr>"

subsection \<open>Setting a parameter by name\<close>

definition round_away :: "rat \<Rightarrow> int" where
  "round_away q = (if 0 \<le> q then \<lfloor>q + 1 / 2\<rfloor> else - \<lfloor>- q + 1 / 2\<rfloor>)"

fun math_Round :: "f64 \<Rightarrow> f64" where
  "math_Round (Fin q) = Fin (of_int (round_away q))"
| "math_Round x = x"

definition trunc :: "rat \<Rightarrow> int" where
  "trunc q = (if 0 \<le> q then \<lfloor>q\<rfloor> else - \<lfloor>- q\<rfloor>)"

definition f_to_int :: "(f64 \<Rightarrow> int) \<Rightarrow> f64 \<Rightarrow> int" where
  "f_to_int oob x = (case x of
     Fin q \<Rightarrow> if - (2 ^ 63) \<le> trunc q \<and> trunc q < 2 ^ 63 then trunc q else oob x
   | _ \<Rightarrow> oob x)"

text \<open>The switch: \<open>v\<close> is the rounded value, \<open>w\<close> the truncated one.\<close>

definition set_param :: "config \<Rightarrow> string \<Rightarrow> int \<Rightarrow> int \<Rightarrow> config" where
  "set_param cfg name v w =
     (if name = ''SegmentMaxBytes'' then cfg\<lparr>SegmentMaxBytes := v\<rparr>
      else if name = ''SegmentMaxCount'' then cfg\<lparr>SegmentMaxCount := v\<rparr>
      else if name = ''RetentionMaxBytes'' then cfg\<lparr>RetentionMaxBytes := w\<rparr>
      else if name = ''RetentionMaxAge'' then cfg\<lparr>RetentionMaxAge := w\<rparr>
      else if name = ''FlushIntervalMs'' then cfg\<lparr>FlushIntervalMs := v\<rparr>
      else if name = ''CompressionType'' then cfg\<lparr>CompressionType := v\<rparr>
      else if name = ''MaxConnections'' then cfg\<lparr>MaxConnections := v\<rparr>
      else if name = ''RecvBufferBytes'' then cfg\<lparr>RecvBufferBytes := v\<rparr>
      else if name = ''SendBufferBytes'' then cfg\<lparr>SendBufferBytes := v\<rparr>
      else if name = ''MaxMessageBytes'' then cfg\<lparr>MaxMessageBytes := v\<rparr>
      else if name = ''ReadTimeoutMs'' then cfg\<lparr>ReadTimeoutMs := v\<rparr>
      else if name = ''WriteTimeoutMs'' then cfg\<lparr>WriteTimeoutMs := v\<rparr>
      else if name = ''NumNetworkGoroutines'' then cfg\<lparr>NumNetworkGoroutines := v\<rparr>
      else if name = ''NumIOGoroutines'' then cfg\<lparr>NumIOGoroutines := v\<rparr>
      else if name = ''MaxQueuedRequests'' then cfg\<lparr>MaxQueuedRequests := v\<rparr>
      else if name = ''BatchSize'' then cfg\<lparr>BatchSize := v\<rparr>
      else if name = ''BatchMemoryBytes'' then cfg\<lparr>BatchMemoryBytes := v\<rparr>
      else if name = ''LingerMs'' then cfg\<lparr>LingerMs := v\<rparr>
      else if name = ''FetchMinBytes'' then cfg\<lparr>FetchMinBytes := v\<rparr>
      else if name = ''FetchMaxWaitMs'' then cfg\<lparr>FetchMaxWaitMs := v\<rparr>
      else if name = ''MaxFetchBytes'' then cfg\<lparr>MaxFetchBytes := v\<rparr>
      else if name = ''ConsumerSessionTimeoutMs'' then cfg\<lparr>ConsumerSessionTimeoutMs := v\<rparr>
      else cfg)"

definition SetParamByName :: "(f64 \<Rightarrow> int) \<Rightarrow> config \<Rightarrow> string \<Rightarrow> f64 \<Rightarrow> config" where
  "SetParamByName oob cfg name val =
     set_param cfg name (f_to_int oob (math_Round val)) (f_to_int oob val)"

definition NumTunableParams :: nat where "NumTunableParams = 22"

record param_range =
  prName :: string
  prMin :: f64
  prMax :: f64

definition param_int :: "string \<Rightarrow> int \<Rightarrow> int \<Rightarrow> param_range" where
  "param_int name lo hi = \<lparr>prName = name, prMin = f_int lo, prMax = f_int hi\<rparr>"

definition TunableParamRanges :: "param_range list" where
  "TunableParamRanges =
     [param_int ''SegmentMaxBytes'' (2 ^ 20) (64 * 2 ^ 20),
      param_int ''SegmentMaxCount'' 10 500,
      param_int ''RetentionMaxBytes'' (100 * 2 ^ 20) (10 * 2 ^ 30),
      param_int ''RetentionMaxAge'' hour (720 * hour),
      param_int ''FlushIntervalMs'' 100 10000,
      param_int ''CompressionType'' 0 3,
      param_int ''MaxConnections'' 64 8192,
      param_int ''RecvBufferBytes'' 4096 (2 ^ 20),
      param_int ''SendBufferBytes'' 4096 (2 ^ 20),
      param_int ''MaxMessageBytes'' 1024 (10 * 2 ^ 20),
      param_int ''ReadTimeoutMs'' 1000 120000,
      param_int ''WriteTimeoutMs'' 1000 120000,
      param_int ''NumNetworkGoroutines'' 1 32,
      param_int ''NumIOGoroutines'' 1 32,
      param_int ''MaxQueuedRequests'' 50 5000,
      param_int ''BatchSize'' 1 1000,
      param_int ''BatchMemoryBytes'' 1024 (2 ^ 20),
      param_int ''LingerMs'' 0 100,
      param_int ''FetchMinBytes'' 1 (2 ^ 20),
      param_int ''FetchMaxWaitMs'' 10 5000,
      param_int ''MaxFetchBytes'' 1024 (10 * 2 ^ 20),
      param_int ''ConsumerSessionTimeoutMs'' 5000 120000]"

subsection \<open>Rounding stays inside integer bounds\<close>

lemma round_away_bounds:
  assumes "of_int lo \<le> q" and "q \<le> of_int hi"
  shows "lo \<le> round_away q" and "round_away q \<le> hi"
proof -
  show "lo \<le> round_away q" using assms unfolding round_away_def by (cases "0 \<le> q"; simp) linarith+
  show "round_away q \<le> hi" using assms unfolding round_away_def by (cases "0 \<le> q"; simp) linarith+
qed

lemma trunc_bounds:
  assumes "of_int lo \<le> q" and "q \<le> of_int hi"
  shows "lo \<le> trunc q" and "trunc q \<le> hi"
proof -
  show "lo \<le> trunc q" using assms unfolding trunc_def by (cases "0 \<le> q"; simp) linarith+
  show "trunc q \<le> hi" using assms unfolding trunc_def by (cases "0 \<le> q"; simp) linarith+
qed

lemma trunc_int [simp]: "trunc (of_int n) = n"
  by (simp add: trunc_def)

text \<open>A float between two small integers converts to an integer between them, either way.\<close>

lemma converted_bounds:
  assumes "fle (f_int lo) x" and "fle x (f_int hi)" and "\<bar>lo\<bar> \<le> 2 ^ 53" and "\<bar>hi\<bar> \<le> 2 ^ 53"
  shows "lo \<le> f_to_int oob (math_Round x)" and "f_to_int oob (math_Round x) \<le> hi"
    and "lo \<le> f_to_int oob x" and "f_to_int oob x \<le> hi"
proof -
  from assms have "fle (Fin (of_int lo)) x" "fle x (Fin (of_int hi))" by (simp_all add: f_int_def rnd_int)
  then obtain q where q: "x = Fin q" "of_int lo \<le> q" "q \<le> of_int hi" by (rule fle_Fin_between)
  note b = round_away_bounds [OF q(2,3)] trunc_bounds [OF q(2,3)]
  have "- (2 ^ 63) \<le> lo" "hi < 2 ^ 63" using assms(3,4) by simp_all
  with b have "f_to_int oob (math_Round x) = round_away q" "f_to_int oob x = trunc q"
    by (simp_all add: f_to_int_def q(1))
  with b show "lo \<le> f_to_int oob (math_Round x)" "f_to_int oob (math_Round x) \<le> hi"
    "lo \<le> f_to_int oob x" "f_to_int oob x \<le> hi" by simp_all
qed

text \<open>Interpolating between two small integers stays between them.\<close>

lemma interpolate_range:
  assumes "fle (Fin 0) v" and "fle v (Fin 1)" and "lo \<le> hi" and "\<bar>lo\<bar> \<le> 2 ^ 52" and "\<bar>hi\<bar> \<le> 2 ^ 52"
  shows "fle (f_int lo) (fadd (f_int lo) (fmul v (fsub (f_int hi) (f_int lo))))"
    and "fle (fadd (f_int lo) (fmul v (fsub (f_int hi) (f_int lo)))) (f_int hi)"
proof -
  obtain a where a: "v = Fin a" "0 \<le> a" "a \<le> 1" using assms(1,2) by (rule fle_Fin_between)
  have ints: "f_int lo = Fin (of_int lo)" "f_int hi = Fin (of_int hi)" using assms(4,5) by (simp_all add: f_int_def rnd_int)
  let ?w = "of_int (hi - lo) :: rat"
  have w: "0 \<le> ?w" "rnd ?w = Fin ?w" using assms(3-5) rnd_int [of "hi - lo"] by simp_all
  have d: "fsub (Fin (of_int hi)) (Fin (of_int lo)) = Fin ?w" using w(2) by (simp add: fsub_def)
  have "0 \<le> a * ?w" "a * ?w \<le> ?w" using a w(1) by (simp_all only: mult_nonneg_nonneg mult_left_le_one_le)
  then have "fle (Fin 0) (rnd (a * ?w))" "fle (rnd (a * ?w)) (Fin ?w)"
    using rnd_nonneg rnd_mono [of "a * ?w" ?w] w(2) by (simp_all only:)
  then obtain r where r: "rnd (a * ?w) = Fin r" "0 \<le> r" "r \<le> ?w" by (rule fle_Fin_between)
  then have b: "of_int lo \<le> of_int lo + r" "of_int lo + r \<le> (of_int hi :: rat)" by simp_all
  have v: "fadd (f_int lo) (fmul v (fsub (f_int hi) (f_int lo))) = rnd (of_int lo + r)"
    by (simp only: ints d a(1) fmul.simps r(1) fadd.simps)
  show "fle (f_int lo) (fadd (f_int lo) (fmul v (fsub (f_int hi) (f_int lo))))"
    unfolding v by (simp only: f_int_def rnd_mono [OF b(1)])
  show "fle (fadd (f_int lo) (fmul v (fsub (f_int hi) (f_int lo)))) (f_int hi)"
    unfolding v by (simp only: f_int_def rnd_mono [OF b(2)])
qed

lemma set_in_range:
  assumes "r = param_int name lo hi" and "fle (prMin r) val" and "fle val (prMax r)"
    and "\<bar>lo\<bar> \<le> 2 ^ 53" and "\<bar>hi\<bar> \<le> 2 ^ 53"
    and "\<And>v w. lo \<le> v \<Longrightarrow> v \<le> hi \<Longrightarrow> lo \<le> w \<Longrightarrow> w \<le> hi \<Longrightarrow> P (set_param cfg name v w)"
  shows "P (SetParamByName oob cfg (prName r) val)"
proof -
  have "fle (f_int lo) val" "fle val (f_int hi)" using assms(1-3) by (simp_all add: param_int_def)
  from converted_bounds [OF this assms(4,5)] assms(6)
  show ?thesis by (simp add: SetParamByName_def assms(1) param_int_def)
qed

lemma Validate_iff: "Validate c = None \<longleftrightarrow> list_all (rule_holds c) configRules"
  by (simp add: Validate_def)

lemmas validate_simps = Validate_iff configRules_def rule_holds_def

text \<open>
  Tuning is safe: setting any tunable parameter of a valid configuration to a value
  inside its published range leaves the configuration valid, whatever the platform does
  with floats that do not fit.
\<close>

theorem SetParamByName_valid:
  assumes "Validate cfg = None" and "r \<in> set TunableParamRanges"
    and "fle (prMin r) val" and "fle val (prMax r)"
  shows "Validate (SetParamByName oob cfg (prName r) val) = None"
  using assms(2)[unfolded TunableParamRanges_def list.set insert_iff empty_iff]
  by (elim disjE FalseE; elim set_in_range [where P = "\<lambda>c. Validate c = None", OF _ assms(3,4)];
      use assms(1) in \<open>simp add: validate_simps set_param_def hour_def second_def millisecond_def\<close>)

theorem SetParamByName_valid_witness:
  "Validate DefaultConfig = None \<and> param_int ''LingerMs'' 0 100 \<in> set TunableParamRanges \<and>
   Validate (SetParamByName (\<lambda>_. 0) DefaultConfig ''LingerMs'' (Fin (15 / 2))) = None \<and>
   LingerMs (SetParamByName (\<lambda>_. 0) DefaultConfig ''LingerMs'' (Fin (15 / 2))) = 8"
proof -
  have v: "Validate DefaultConfig = None" by (simp add: validate_simps DefaultConfig_def)
  have m: "param_int ''LingerMs'' 0 100 \<in> set TunableParamRanges" by (simp add: TunableParamRanges_def)
  have "fle (prMin (param_int ''LingerMs'' 0 100)) (Fin (15 / 2))"
    "fle (Fin (15 / 2)) (prMax (param_int ''LingerMs'' 0 100))"
    using rnd_int [of 100] by (simp_all add: param_int_def f_int_def)
  from SetParamByName_valid [OF v m this, of "\<lambda>_. 0"] v m show ?thesis
    by (simp add: param_int_def SetParamByName_def set_param_def f_to_int_def round_away_def trunc_def)
qed

end
