(* ===== verification/Partition.thy ===== *)
theory Partition
  imports Message PriorityIndex Compression Wal Config
begin

text \<open>
  A partition, \<^verbatim>\<open>pkg/broker/partition.go\<close>: an append-only log of messages with the next
  offset to assign, an index of undelivered messages in the priority modes, and the codec
  its compressed batches are read with. The log is the \<^verbatim>\<open>wal\<close> library (theory Wal), the
  operations are state transformers because each runs under the partition's lock (the
  index update of an append, which the code does after unlocking, is modelled with the
  append; the interleaving of two appenders is a theory of its own).

  Arguments stand for what the environment supplies: \<^verbatim>\<open>appendTime\<close>, \<^verbatim>\<open>now\<close> and \<^verbatim>\<open>flushNs\<close>
  for the clock, \<^verbatim>\<open>pool\<close> for the contents of recycled buffers. The lemmas show that the
  two append paths extend the log as a list of messages, that reads return what was
  appended, what the truncations keep, and where the record tags clash with priorities.
\<close>

subsection \<open>State\<close>

definition walBatchMagic :: byte where "walBatchMagic = 0xBA"
definition walRedirectMagic :: byte where "walRedirectMagic = 0xFF"

text \<open>\<^verbatim>\<open>walOptions\<close> copies the default options and sets \<^verbatim>\<open>NoSync\<close>: the result is that flag.\<close>

definition walOptions :: "int \<Rightarrow> bool" where
  "walOptions sp = (sp = SyncNone \<or> sp = SyncInterval)"

record 'w partition =
  pid :: int
  topicName :: string
  plog :: 'w
  nextOffset :: u64
  priorityIndex :: "pindex option"
  scheduleMode :: int
  lastFlushNs :: int
  batchCodec :: "codec option"

definition SetBatchCodec :: "codec \<Rightarrow> 'w partition \<Rightarrow> 'w partition" where
  "SetBatchCodec c p = p\<lparr>batchCodec := Some c\<rparr>"

text \<open>
  \<^verbatim>\<open>wal.Open\<close> is the argument \<^verbatim>\<open>walOpen\<close>; it gets the three path components that the code joins
  and the \<^verbatim>\<open>NoSync\<close> flag.
\<close>

definition NewPartition ::
    "'w wal_ops \<Rightarrow> (string \<times> string \<times> int \<Rightarrow> bool \<Rightarrow> err + 'w) \<Rightarrow> int \<Rightarrow> string \<Rightarrow> string \<Rightarrow>
     int \<Rightarrow> int \<Rightarrow> err + 'w partition" where
  "NewPartition W walOpen i topic dataDir mode syncPolicy =
     (case walOpen (dataDir, topic, i) (walOptions syncPolicy) of
        Inl e \<Rightarrow> Inl e
      | Inr lg \<Rightarrow>
          (case walLastIndex W lg of
             Inl e \<Rightarrow> Inl e
           | Inr lastIndex \<Rightarrow>
               Inr \<lparr>pid = i, topicName = topic, plog = lg, nextOffset = lastIndex + 1,
                    priorityIndex = (if mode \<noteq> ModeFIFO then Some (NewPriorityIndex 50000) else None),
                    scheduleMode = mode, lastFlushNs = 0, batchCodec = None\<rparr>))"

definition ID :: "'w partition \<Rightarrow> int" where
  "ID p = pid p"

definition LastFlushLatency :: "'w partition \<Rightarrow> int" where
  "LastFlushLatency p = lastFlushNs p"

subsection \<open>Appending\<close>

definition stamp :: "i64 \<Rightarrow> message \<Rightarrow> message" where
  "stamp t m = m\<lparr>Header := (Header m)\<lparr>AppendTime := t\<rparr>\<rparr>"

text \<open>The loop that numbers and encodes the messages of a batch.\<close>

fun batch_records :: "i64 \<Rightarrow> (nat \<Rightarrow> bytes) \<Rightarrow> nat \<Rightarrow> u64 \<Rightarrow> message list \<Rightarrow>
    (u64 \<times> bytes) list \<times> u64" where
  "batch_records t pool i next [] = ([], next)"
| "batch_records t pool i next (m # ms) =
     (let buf = MarshalPooled (stamp t m) (pool i);
          (rest, next') = batch_records t pool (i + 1) (next + 1) ms
      in ((next, buf) # rest, next'))"

definition index_batch :: "gotime \<Rightarrow> message list \<Rightarrow> u64 list \<Rightarrow> pindex \<Rightarrow> pindex" where
  "index_batch now msgs offsets ix =
     foldl (\<lambda>q (m, off). snd (Add q (uint (Priority (Header m))) off now)) ix (zip msgs offsets)"

text \<open>
  The end of both append paths: write the batch, note the latency, and when the write
  succeeded file the messages in the index. The next offset has already been advanced and
  stays advanced when the write fails.
\<close>

definition commit_batch :: "'w wal_ops \<Rightarrow> int \<Rightarrow> gotime \<Rightarrow> message list \<Rightarrow> (u64 \<times> bytes) list \<Rightarrow>
    u64 \<Rightarrow> 'w partition \<Rightarrow> (err + u64 list) \<times> 'w partition" where
  "commit_batch W flushNs now msgs batch next p =
     (let (res, log') = walWriteBatch W (plog p) batch;
          offsets = map fst batch;
          p1 = p\<lparr>plog := log', nextOffset := next, lastFlushNs := flushNs\<rparr>
      in case res of
           Some e \<Rightarrow> (Inl e, p1)
         | None \<Rightarrow> (Inr offsets,
             p1\<lparr>priorityIndex := map_option (index_batch now msgs offsets) (priorityIndex p)\<rparr>))"

definition AppendBatch :: "'w wal_ops \<Rightarrow> i64 \<Rightarrow> int \<Rightarrow> gotime \<Rightarrow> (nat \<Rightarrow> bytes) \<Rightarrow> message list \<Rightarrow>
    'w partition \<Rightarrow> (err + u64 list) \<times> 'w partition" where
  "AppendBatch W appendTime flushNs now pool msgs p =
     (if msgs = [] then (Inr [], p)
      else let (batch, next) = batch_records appendTime pool 0 (nextOffset p) msgs
           in commit_batch W flushNs now msgs batch next p)"

definition Append :: "'w wal_ops \<Rightarrow> i64 \<Rightarrow> int \<Rightarrow> gotime \<Rightarrow> (nat \<Rightarrow> bytes) \<Rightarrow> message \<Rightarrow>
    'w partition \<Rightarrow> (err + u64) \<times> 'w partition" where
  "Append W appendTime flushNs now pool msg p =
     (case AppendBatch W appendTime flushNs now pool [msg] p of
        (Inl e, p') \<Rightarrow> (Inl e, p')
      | (Inr offsets, p') \<Rightarrow> (Inr (offsets ! 0), p'))"

text \<open>The payload of a compressed batch: each message behind its length.\<close>

fun fill_payload :: "nat \<Rightarrow> message list \<Rightarrow> bytes \<Rightarrow> bytes" where
  "fill_payload off [] payload = payload"
| "fill_payload off (m # ms) payload =
     (let encoded = Marshal m;
          p1 = slice_write off (be_put 4 (word_of_nat (length encoded) :: u32)) payload;
          p2 = slice_write (off + 4) encoded p1
      in fill_payload (off + 4 + length encoded) ms p2)"

definition batch_payload :: "message list \<Rightarrow> bytes" where
  "batch_payload msgs =
     fill_payload 0 msgs (replicate (sum_list (map (\<lambda>m. encodedSize m + 4) msgs)) 0)"

definition batch_record :: "nat \<Rightarrow> bytes \<Rightarrow> bytes" where
  "batch_record n compressed = walBatchMagic # be_put 4 (word_of_nat n :: u32) @ compressed"

definition redirect_record :: "u64 \<Rightarrow> nat \<Rightarrow> bytes" where
  "redirect_record base i = walRedirectMagic # be_put 8 base @ be_put 4 (word_of_nat i :: u32)"

text \<open>The loop over the redirects of messages \<open>i\<close> to \<open>i + k - 1\<close>.\<close>

fun redirects :: "u64 \<Rightarrow> nat \<Rightarrow> nat \<Rightarrow> u64 \<Rightarrow> (u64 \<times> bytes) list \<times> u64" where
  "redirects base i 0 next = ([], next)"
| "redirects base i (Suc k) next =
     (let (rest, next') = redirects base (i + 1) k (next + 1)
      in ((next, redirect_record base i) # rest, next'))"

definition AppendBatchCompressed :: "'w wal_ops \<Rightarrow> i64 \<Rightarrow> int \<Rightarrow> gotime \<Rightarrow> message list \<Rightarrow> codec \<Rightarrow>
    'w partition \<Rightarrow> (err + u64 list) \<times> 'w partition" where
  "AppendBatchCompressed W appendTime flushNs now msgs c p =
     (if msgs = [] then (Inr [], p)
      else let n = length msgs;
               stamped = map (stamp appendTime) msgs
           in case Encode c (batch_payload stamped) of
                Inl e \<Rightarrow> (Inl e, p)
              | Inr compressed \<Rightarrow>
                  (let base = nextOffset p;
                       (rest, next) = redirects base 1 (n - 1) (base + 1)
                   in commit_batch W flushNs now msgs ((base, batch_record n compressed) # rest) next p))"

subsection \<open>Reading\<close>

fun scan_batch :: "bytes \<Rightarrow> nat \<Rightarrow> nat \<Rightarrow> err + message" where
  "scan_batch payload off k =
     (if off + 4 > length payload then Inl ErrCorruptBatch
      else let msgLen = unat (be_get (subslice off (off + 4) payload) :: u32);
               off' = off + 4
           in case k of
                0 \<Rightarrow> if off' + msgLen > length payload then Inl ErrCorruptBatch
                     else (case UnmarshalMessage (subslice off' (off' + msgLen) payload) of
                             Inl e \<Rightarrow> Inl e
                           | Inr m \<Rightarrow> Inr (m\<lparr>BatchDecoded := True\<rparr>))
              | Suc k' \<Rightarrow> scan_batch payload (off' + msgLen) k')"

declare scan_batch.simps [simp del]

definition readFromBatchData :: "codec option \<Rightarrow> bytes \<Rightarrow> nat \<Rightarrow> err + message" where
  "readFromBatchData c data index =
     (if length data < 5 \<or> data ! 0 \<noteq> walBatchMagic then Inl ErrNotBatchRecord
      else if index \<ge> unat (be_get (subslice 1 5 data) :: u32) then Inl ErrBatchIndexRange
      else case (case c of Some codec \<Rightarrow> Decode codec (drop 5 data) | None \<Rightarrow> Inr (drop 5 data)) of
             Inl e \<Rightarrow> Inl e
           | Inr payload \<Rightarrow> scan_batch payload 0 index)"

definition readFromBatch :: "'w wal_ops \<Rightarrow> 'w partition \<Rightarrow> u64 \<Rightarrow> nat \<Rightarrow> err + message" where
  "readFromBatch W p batchOffset index =
     (case walRead W (plog p) batchOffset of
        Inl e \<Rightarrow> Inl e
      | Inr data \<Rightarrow> readFromBatchData (batchCodec p) data index)"

definition Read :: "'w wal_ops \<Rightarrow> 'w partition \<Rightarrow> u64 \<Rightarrow> err + message" where
  "Read W p off =
     (case walRead W (plog p) off of
        Inl e \<Rightarrow> Inl e
      | Inr data \<Rightarrow>
          if data = [] then Inl ErrEmptyEntry
          else if data ! 0 = walRedirectMagic then
            if length data < 13 then Inl ErrCorruptRedirect
            else readFromBatch W p (be_get (subslice 1 9 data))
                   (unat (be_get (subslice 9 13 data) :: u32))
          else if data ! 0 = walBatchMagic then readFromBatchData (batchCodec p) data 0
          else UnmarshalMessage data)"

definition HighWaterMark :: "'w partition \<Rightarrow> u64" where
  "HighWaterMark p = (if nextOffset p = 0 then 0 else nextOffset p - 1)"

definition QueueDepth :: "'w partition \<Rightarrow> int" where
  "QueueDepth p = (case priorityIndex p of Some ix \<Rightarrow> Len ix | None \<Rightarrow> 0)"

subsection \<open>Rebuilding the index\<close>

text \<open>\<open>n\<close> is the number of offsets left up to the high-water mark.\<close>

fun rebuild_loop :: "'w wal_ops \<Rightarrow> 'w \<Rightarrow> (u64 \<Rightarrow> bool) \<Rightarrow> nat \<Rightarrow> u64 \<Rightarrow> pindex \<Rightarrow> err option \<times> pindex" where
  "rebuild_loop W lg isCommitted 0 off ix = (None, ix)"
| "rebuild_loop W lg isCommitted (Suc n) off ix =
     (case walRead W lg off of
        Inl e \<Rightarrow> (Some e, ix)
      | Inr data \<Rightarrow>
          if isCommitted off then rebuild_loop W lg isCommitted n (off + 1) ix
          else (case UnmarshalHeader data of
                  Inl e \<Rightarrow> (Some e, ix)
                | Inr hdr \<Rightarrow> rebuild_loop W lg isCommitted n (off + 1)
                    (snd (Add ix (uint (Priority hdr)) off (sint (Timestamp hdr))))))"

definition Rebuild :: "'w wal_ops \<Rightarrow> u64 \<Rightarrow> (u64 \<Rightarrow> bool) \<Rightarrow> 'w partition \<Rightarrow>
    err option \<times> 'w partition" where
  "Rebuild W startOffset isCommitted p =
     (case priorityIndex p of
        None \<Rightarrow> (None, p)
      | Some ix \<Rightarrow>
          (let (e, ix') = rebuild_loop W (plog p) isCommitted
                 (unat (nextOffset p) - unat startOffset) startOffset ix
           in (e, p\<lparr>priorityIndex := Some ix'\<rparr>)))"

subsection \<open>Truncation\<close>

definition TruncateFront :: "'w wal_ops \<Rightarrow> u64 \<Rightarrow> 'w partition \<Rightarrow> err option \<times> 'w partition" where
  "TruncateFront W off p =
     (if off < 1 then (None, p)
      else let (e, log') = walTruncateFront W (plog p) off in (e, p\<lparr>plog := log'\<rparr>))"

text \<open>
  The scan for expired entries: how many leading entries are older than the cutoff, and
  their size. It stops at the first unreadable or young entry.
\<close>

fun scan_expired :: "'w wal_ops \<Rightarrow> 'w \<Rightarrow> i64 \<Rightarrow> nat \<Rightarrow> u64 \<Rightarrow> nat \<times> int" where
  "scan_expired W lg cutoff 0 off = (0, 0)"
| "scan_expired W lg cutoff (Suc n) off =
     (case walRead W lg off of
        Inl _ \<Rightarrow> (0, 0)
      | Inr data \<Rightarrow>
          (case UnmarshalHeader data of
             Inl _ \<Rightarrow> (0, 0)
           | Inr hdr \<Rightarrow>
               if sint cutoff \<le> sint (Timestamp hdr) then (0, 0)
               else let (k, b) = scan_expired W lg cutoff n (off + 1)
                    in (k + 1, b + int (length data))))"

text \<open>The common end: truncate behind the \<open>k\<close> entries found, reporting nothing on failure.\<close>

definition truncate_found :: "'w wal_ops \<Rightarrow> u64 \<Rightarrow> nat \<times> int \<Rightarrow> 'w partition \<Rightarrow>
    (nat \<times> int \<times> err option) \<times> 'w partition" where
  "truncate_found W firstIdx found p =
     (case found of (k, b) \<Rightarrow>
        if k = 0 then ((0, 0, None), p)
        else case walTruncateFront W (plog p) (firstIdx + word_of_nat k) of
               (Some e, log') \<Rightarrow> ((0, 0, Some e), p\<lparr>plog := log'\<rparr>)
             | (None, log') \<Rightarrow> ((k, b, None), p\<lparr>plog := log'\<rparr>))"

definition TruncateBefore :: "'w wal_ops \<Rightarrow> i64 \<Rightarrow> 'w partition \<Rightarrow>
    (nat \<times> int \<times> err option) \<times> 'w partition" where
  "TruncateBefore W cutoffNano p =
     (case walFirstIndex W (plog p) of
        Inl _ \<Rightarrow> ((0, 0, None), p)
      | Inr firstIdx \<Rightarrow>
          if firstIdx = 0 then ((0, 0, None), p)
          else truncate_found W firstIdx
                 (scan_expired W (plog p) cutoffNano
                    (unat (nextOffset p) - unat firstIdx) firstIdx) p)"

fun total_size :: "'w wal_ops \<Rightarrow> 'w \<Rightarrow> nat \<Rightarrow> u64 \<Rightarrow> int" where
  "total_size W lg 0 off = 0"
| "total_size W lg (Suc n) off =
     (case walRead W lg off of
        Inl _ \<Rightarrow> 0
      | Inr data \<Rightarrow> int (length data) + total_size W lg n (off + 1))"

fun scan_excess :: "'w wal_ops \<Rightarrow> 'w \<Rightarrow> int \<Rightarrow> nat \<Rightarrow> u64 \<Rightarrow> int \<Rightarrow> nat \<times> int" where
  "scan_excess W lg maxBytes 0 off tot = (0, 0)"
| "scan_excess W lg maxBytes (Suc n) off tot =
     (if tot \<le> maxBytes then (0, 0)
      else case walRead W lg off of
             Inl _ \<Rightarrow> (0, 0)
           | Inr data \<Rightarrow>
               (let (k, b) = scan_excess W lg maxBytes n (off + 1) (tot - int (length data))
                in (k + 1, b + int (length data))))"

definition TruncateOldestUntilSize :: "'w wal_ops \<Rightarrow> int \<Rightarrow> 'w partition \<Rightarrow>
    (nat \<times> int \<times> err option) \<times> 'w partition" where
  "TruncateOldestUntilSize W maxBytes p =
     (case walFirstIndex W (plog p) of
        Inl _ \<Rightarrow> ((0, 0, None), p)
      | Inr firstIdx \<Rightarrow>
          if firstIdx = 0 then ((0, 0, None), p)
          else let n = unat (nextOffset p) - unat firstIdx;
                   tot = total_size W (plog p) n firstIdx
               in if tot \<le> maxBytes then ((0, 0, None), p)
                  else truncate_found W firstIdx (scan_excess W (plog p) maxBytes n firstIdx tot) p)"

definition Close :: "'w wal_ops \<Rightarrow> 'w partition \<Rightarrow> err option \<times> 'w partition" where
  "Close W p = (let (e, log') = walClose W (plog p) in (e, p\<lparr>plog := log'\<rparr>))"

subsection \<open>Invariant\<close>

definition part_ok :: "('w \<Rightarrow> bool) \<Rightarrow> ('w \<Rightarrow> wal_view) \<Rightarrow> 'w partition \<Rightarrow> bool" where
  "part_ok winv view p \<longleftrightarrow> winv (plog p) \<and> unat (nextOffset p) = wal_end (view (plog p)) \<and>
     (case priorityIndex p of None \<Rightarrow> True | Some ix \<Rightarrow> pi_ok ix)"

text \<open>What a partition holds: the result of reading each offset of its log, in order.\<close>

definition contents :: "'w wal_ops \<Rightarrow> ('w \<Rightarrow> wal_view) \<Rightarrow> 'w partition \<Rightarrow> (err + message) list" where
  "contents W view p =
     map (\<lambda>i. Read W p (word_of_nat i)) [fst (view (plog p))..<wal_end (view (plog p))]"

definition readable :: "'w wal_ops \<Rightarrow> ('w \<Rightarrow> wal_view) \<Rightarrow> 'w partition \<Rightarrow> bool" where
  "readable W view p = list_all (\<lambda>r. \<not> isl r) (contents W view p)"

definition plain :: "message \<Rightarrow> bool" where
  "plain m \<longleftrightarrow> Priority (Header m) \<noteq> walBatchMagic \<and> Priority (Header m) \<noteq> walRedirectMagic \<and>
     length (Key m) < 2 ^ 32"

lemma stamp_simps [simp]:
  "Key (stamp t m) = Key m" "Value (stamp t m) = Value m" "BatchDecoded (stamp t m) = BatchDecoded m"
  "Priority (Header (stamp t m)) = Priority (Header m)" "encodedSize (stamp t m) = encodedSize m"
  by (simp_all add: stamp_def encodedSize_def)

lemma index_batch_ok: "pi_ok ix \<Longrightarrow> pi_ok (index_batch now msgs offsets ix)"
proof -
  have "pi_ok ix \<Longrightarrow> pi_ok (foldl (\<lambda>q (m, off). snd (Add q (uint (Priority (Header m))) off now)) ix xs)"
    for xs :: "(message \<times> u64) list"
    by (induction xs arbitrary: ix) (auto intro: Add_spec(1) [OF _ refl])
  then show "pi_ok ix \<Longrightarrow> ?thesis" by (simp add: index_batch_def)
qed

lemma batch_records_spec:
  "batch_records t pool i next ms =
     (zip (map (\<lambda>k. next + word_of_nat k) [0..<length ms]) (map (frame \<circ> stamp t) ms),
      next + word_of_nat (length ms))"
proof (induction ms arbitrary: i "next")
  case (Cons m ms)
  have "map (\<lambda>k. next + 1 + word_of_nat k) [0..<length ms] =
      map (\<lambda>k. next + word_of_nat k) [1..<Suc (length ms)]"
    by (simp add: map_Suc_upt [symmetric] add.assoc del: upt_Suc)
  then show ?case
    by (simp add: Cons.IH MarshalPooled_frame upt_conv_Cons add.assoc del: upt_Suc)
qed simp

lemma redirects_spec:
  "redirects base i k next =
     (zip (map (\<lambda>j. next + word_of_nat j) [0..<k]) (map (redirect_record base) [i..<i + k]),
      next + word_of_nat k)"
proof (induction k arbitrary: i "next")
  case (Suc k)
  have "map (\<lambda>j. next + 1 + word_of_nat j) [0..<k] = map (\<lambda>j. next + word_of_nat j) [1..<Suc k]"
    by (simp add: map_Suc_upt [symmetric] add.assoc del: upt_Suc)
  then show ?case
    by (simp add: Suc.IH upt_conv_Cons add.assoc del: upt_Suc)
qed simp

subsection \<open>Appending extends the log\<close>

lemma part_okD:
  assumes "part_ok winv view p"
  shows "winv (plog p)" and "unat (nextOffset p) = wal_end (view (plog p))"
  using assms by (simp_all add: part_ok_def)

lemma commit_done:
  assumes laws: "wal_laws W winv view" and ok: "part_ok winv view p"
    and b: "b \<noteq> []" "length b = length msgs" "next = nextOffset p + word_of_nat (length msgs)"
    and res: "commit_batch W f now msgs b next p = (Inr offs, p')"
  shows "offs = map fst b"
    and "map unat offs = [wal_end (view (plog p))..<wal_end (view (plog p)) + length msgs]"
    and "view (plog p') = wal_append (map snd b) (view (plog p))" and "part_ok winv view p'"
    and "batchCodec p' = batchCodec p"
    and "priorityIndex p' = map_option (index_batch now msgs offs) (priorityIndex p)"
proof -
  obtain log' where w: "walWriteBatch W (plog p) b = (None, log')" and offs: "offs = map fst b"
    and p': "p' = p\<lparr>plog := log', nextOffset := next, lastFlushNs := f,
        priorityIndex := map_option (index_batch now msgs offs) (priorityIndex p)\<rparr>"
    using res by (auto simp: commit_batch_def Let_def split: prod.splits option.splits)
  note wr = wal_write_done [OF laws part_okD(1) [OF ok] b(1) w]
  show "offs = map fst b" by (rule offs)
  show "map unat offs = [wal_end (view (plog p))..<wal_end (view (plog p)) + length msgs]"
    using wr(2) b(2) by (simp add: offs batch_follows_def)
  show v: "view (plog p') = wal_append (map snd b) (view (plog p))" using wr(3) by (simp add: p')
  have "wal_end (view (plog p)) + length msgs < 2 ^ 64"
    using wal_viewD [OF laws wr(1)] b(2) by (simp add: wr(3))
  then have "unat next = wal_end (view (plog p)) + length msgs"
    using part_okD(2) [OF ok]
    by (simp add: b(3) unat_word_ariths unsigned_of_nat take_bit_eq_mod)
  moreover have "case priorityIndex p' of None \<Rightarrow> True | Some ix \<Rightarrow> pi_ok ix"
    using ok by (auto simp: part_ok_def p' index_batch_ok split: option.splits)
  ultimately show "part_ok winv view p'"
    using wr(1) v b(2) by (simp add: part_ok_def p')
  show "batchCodec p' = batchCodec p"
    "priorityIndex p' = map_option (index_batch now msgs offs) (priorityIndex p)"
    by (simp_all add: p')
qed

lemma commit_batch_next: "commit_batch W f now msgs b next p = (res, p') \<Longrightarrow> nextOffset p' = next"
  by (auto simp: commit_batch_def Let_def split: prod.splits option.splits)

lemma Read_mono:
  assumes laws: "wal_laws W winv view" and w: "winv (plog p)" "winv (plog p')"
    and v: "view (plog p') = wal_append ds (view (plog p))" and c: "batchCodec p' = batchCodec p"
    and r: "Read W p off = Inr m"
  shows "Read W p' off = Inr m"
proof -
  have keep: "walRead W (plog p') i = Inr d" if "walRead W (plog p) i = Inr d" for i d
  proof (cases "wal_has (view (plog p)) i")
    case True
    then show ?thesis
      using that wal_read_has [OF laws w(1) True] wal_read_has [OF laws w(2), of i]
      by (simp add: v wal_has_append wal_get_append_old)
  next
    case False
    with that wal_read_missing [OF laws w(1) False] show ?thesis by auto
  qed
  show ?thesis
    using r unfolding Read_def readFromBatch_def c
    by (auto dest!: keep split: sum.splits if_splits)
qed

lemma contents_append:
  assumes laws: "wal_laws W winv view" and w: "winv (plog p)" "winv (plog p')"
    and v: "view (plog p') = wal_append ds (view (plog p))" and c: "batchCodec p' = batchCodec p"
    and r: "readable W view p"
    and new: "\<And>k i. k < length ds \<Longrightarrow> unat i = wal_end (view (plog p)) + k \<Longrightarrow> Read W p' i = Inr (ms ! k)"
    and len: "length ms = length ds"
  shows "contents W view p' = contents W view p @ map Inr ms" and "readable W view p'"
proof -
  let ?a = "fst (view (plog p))" and ?b = "wal_end (view (plog p))"
  have ab: "?a \<le> ?b" by (simp add: wal_end_def)
  have bd: "?b + length ds < 2 ^ 64"
    using wal_viewD [OF laws w(2)] by (simp add: v)
  have old: "Read W p' (word_of_nat i) = Read W p (word_of_nat i)" if "i \<in> set [?a..<?b]" for i
  proof -
    have "\<not> isl (Read W p (word_of_nat i))"
      using r that by (simp add: readable_def contents_def list_all_iff)
    then obtain m where "Read W p (word_of_nat i) = Inr m" by (cases "Read W p (word_of_nat i)") auto
    then show ?thesis using Read_mono [OF laws w v c] by simp
  qed
  have "map (\<lambda>i. Read W p' (word_of_nat i)) [?b..<?b + length ds] = map Inr ms"
  proof (rule nth_equalityI)
    fix k assume "k < length (map (\<lambda>i. Read W p' (word_of_nat i)) [?b..<?b + length ds])"
    then have k: "k < length ds" by simp
    then have "unat (word_of_nat (?b + k) :: u64) = ?b + k"
      using bd by (intro unat_word_of_nat_u64) simp
    from new [OF k this] k len
    show "map (\<lambda>i. Read W p' (word_of_nat i)) [?b..<?b + length ds] ! k = map Inr ms ! k"
      by (simp del: of_nat_add)
  qed (simp add: len)
  moreover have "map (\<lambda>i. Read W p' (word_of_nat i)) [?a..<?b] = contents W view p"
    unfolding contents_def using old by (intro map_cong) auto
  moreover have "[?a..<?b + length ds] = [?a..<?b] @ [?b..<?b + length ds]"
    using ab by (rule upt_add_eq_append)
  ultimately show eq: "contents W view p' = contents W view p @ map Inr ms"
    by (simp add: contents_def v) (simp add: wal_append_def)
  show "readable W view p'" using r by (auto simp: readable_def eq list_all_iff)
qed

lemma Read_frame:
  assumes "walRead W (plog p) i = Inr (frame m)" and "plain m"
  shows "Read W p i = Inr (m\<lparr>BatchDecoded := False\<rparr>)"
  using assms by (simp add: Read_def plain_def frame_nth_0 UnmarshalMessage_frame)

lemma AppendBatch_done:
  assumes laws: "wal_laws W winv view" and ok: "part_ok winv view p"
    and ne: "msgs \<noteq> []" and res: "AppendBatch W t f now pool msgs p = (Inr offs, p')"
  shows "map unat offs = [wal_end (view (plog p))..<wal_end (view (plog p)) + length msgs]"
    and "view (plog p') = wal_append (map (frame \<circ> stamp t) msgs) (view (plog p))"
    and "part_ok winv view p'" and "batchCodec p' = batchCodec p"
    and "priorityIndex p' = map_option (index_batch now msgs offs) (priorityIndex p)"
proof -
  let ?b = "zip (map (\<lambda>k. nextOffset p + word_of_nat k) [0..<length msgs]) (map (frame \<circ> stamp t) msgs)"
  have c: "commit_batch W f now msgs ?b (nextOffset p + word_of_nat (length msgs)) p = (Inr offs, p')"
    using res ne by (simp add: AppendBatch_def batch_records_spec)
  have "?b \<noteq> []" "length ?b = length msgs" using ne by (simp_all add: zip_eq_Nil_iff)
  note d = commit_done [OF laws ok this refl c]
  from d(2,4,5,6) show "map unat offs = [wal_end (view (plog p))..<wal_end (view (plog p)) + length msgs]"
    "part_ok winv view p'" "batchCodec p' = batchCodec p"
    "priorityIndex p' = map_option (index_batch now msgs offs) (priorityIndex p)" by simp_all
  show "view (plog p') = wal_append (map (frame \<circ> stamp t) msgs) (view (plog p))"
    using d(3) by (simp add: map_snd_zip)
qed

lemma AppendBatch_contents:
  assumes laws: "wal_laws W winv view" and ok: "part_ok winv view p" and r: "readable W view p"
    and ne: "msgs \<noteq> []" and pl: "list_all plain msgs"
    and res: "AppendBatch W t f now pool msgs p = (Inr offs, p')"
  shows "contents W view p' = contents W view p @ map (\<lambda>m. Inr ((stamp t m)\<lparr>BatchDecoded := False\<rparr>)) msgs"
    and "readable W view p'"
proof -
  note d = AppendBatch_done [OF laws ok ne res]
  note w = part_okD(1) [OF ok] part_okD(1) [OF d(3)]
  let ?ms = "map (\<lambda>m. (stamp t m)\<lparr>BatchDecoded := False\<rparr>) msgs"
  have new: "Read W p' i = Inr (?ms ! k)"
    if k: "k < length (map (frame \<circ> stamp t) msgs)" and i: "unat i = wal_end (view (plog p)) + k" for k i
  proof -
    have "wal_has (view (plog p')) i" using k i by (simp add: d(2) wal_has_append)
    from wal_read_has [OF laws w(2) this]
    have "walRead W (plog p') i = Inr (frame (stamp t (msgs ! k)))"
      using k i by (simp add: d(2) wal_get_append_new)
    moreover have "plain (stamp t (msgs ! k))"
      using pl k by (simp add: plain_def list_all_length)
    ultimately show ?thesis using k by (simp add: Read_frame)
  qed
  have "length ?ms = length (map (frame \<circ> stamp t) msgs)" by simp
  from contents_append [OF laws w d(2) d(4) r new this]
  show "contents W view p' = contents W view p @ map (\<lambda>m. Inr ((stamp t m)\<lparr>BatchDecoded := False\<rparr>)) msgs"
    and "readable W view p'" by (simp_all add: comp_def)
qed

subsection \<open>Compressed batches\<close>

definition framed :: "message \<Rightarrow> bytes" where
  "framed m = be_put 4 (word_of_nat (encodedSize m) :: u32) @ frame m"

lemma length_framed [simp]: "length (framed m) = encodedSize m + 4"
  by (simp add: framed_def)

lemma length_fill_payload [simp]:
  "off + sum_list (map (\<lambda>m. encodedSize m + 4) ms) \<le> length buf \<Longrightarrow>
   length (fill_payload off ms buf) = length buf"
  by (induction ms arbitrary: off buf) (simp_all add: Let_def Marshal_frame)

lemma fill_payload_framed:
  assumes "length buf = off + sum_list (map (\<lambda>m. encodedSize m + 4) ms)"
  shows "fill_payload off ms buf = take off buf @ concat (map framed ms)"
  using assms
proof (induction ms arbitrary: off buf)
  case (Cons m ms)
  let ?b1 = "slice_write off (be_put 4 (word_of_nat (encodedSize m) :: u32)) buf"
  let ?b2 = "slice_write (off + 4) (frame m) ?b1"
  have "fill_payload off (m # ms) buf = fill_payload (off + 4 + encodedSize m) ms ?b2"
    by (simp add: Let_def Marshal_frame)
  also have "\<dots> = take (off + 4 + encodedSize m) ?b2 @ concat (map framed ms)"
    using Cons.prems by (intro Cons.IH) simp
  also have "take (off + 4 + encodedSize m) ?b2 = take (off + 4) ?b1 @ frame m"
    using Cons.prems by (intro take_slice_write) simp_all
  also have "take (off + 4) ?b1 = take off buf @ be_put 4 (word_of_nat (encodedSize m) :: u32)"
    using Cons.prems by (intro take_slice_write) simp_all
  finally show ?case by (simp add: framed_def)
qed simp

lemma batch_payload_framed: "batch_payload ms = concat (map framed ms)"
  by (simp add: batch_payload_def fill_payload_framed)

lemma scan_batch_framed:
  assumes "k < length ms" and "list_all (\<lambda>m. encodedSize m < 2 ^ 32) ms"
  shows "scan_batch (pre @ concat (map framed ms)) (length pre) k =
    Inr ((ms ! k)\<lparr>BatchDecoded := True\<rparr>)"
  using assms
proof (induction ms arbitrary: pre k)
  case (Cons m ms)
  let ?payload = "pre @ concat (map framed (m # ms))" and ?n = "encodedSize m"
  have n: "unat (be_get (subslice (length pre) (length pre + 4) ?payload) :: u32) = ?n"
    using Cons.prems(2)
    by (simp add: framed_def subslice_def be_get_put unsigned_of_nat take_bit_nat_eq_self)
  have fr: "subslice (length pre + 4) (length pre + 4 + ?n) ?payload = frame m"
    by (simp add: framed_def subslice_def)
  have key: "length (Key m) < 2 ^ 32" using Cons.prems(2) by (simp add: encodedSize_def)
  show ?case
  proof (cases k)
    case 0
    then show ?thesis
      using n fr key by (simp add: scan_batch.simps [of _ _ 0] UnmarshalMessage_frame Let_def)
  next
    case (Suc j)
    have "scan_batch ?payload (length pre) k = scan_batch ?payload (length pre + 4 + ?n) j"
      using n by (simp add: scan_batch.simps [of _ _ "Suc j"] Suc Let_def)
    also have "\<dots> = scan_batch ((pre @ framed m) @ concat (map framed ms)) (length (pre @ framed m)) j"
      by (simp add: add.commute add.left_commute)
    also have "\<dots> = Inr ((ms ! j)\<lparr>BatchDecoded := True\<rparr>)"
      using Cons.prems Suc by (intro Cons.IH) simp_all
    finally show ?thesis by (simp add: Suc)
  qed
qed simp

lemma readFromBatchData_record:
  assumes "codec_ok c" and "Encode c (batch_payload ms) = Inr z"
    and "k < length ms" and "length ms < 2 ^ 32" and "list_all (\<lambda>m. encodedSize m < 2 ^ 32) ms"
  shows "readFromBatchData (Some c) (batch_record (length ms) z) k =
    Inr ((ms ! k)\<lparr>BatchDecoded := True\<rparr>)"
proof -
  let ?d = "batch_record (length ms) z"
  have "unat (be_get (subslice 1 5 ?d) :: u32) = length ms"
    using assms(4)
    by (simp add: batch_record_def subslice_def be_get_put unsigned_of_nat take_bit_nat_eq_self)
  moreover have "drop 5 ?d = z" "\<not> length ?d < 5" "?d ! 0 = walBatchMagic"
    by (simp_all add: batch_record_def)
  ultimately show ?thesis
    using assms codec_okD [OF assms(1,2)] scan_batch_framed [OF assms(3,5), of "[]"]
    by (simp add: readFromBatchData_def batch_payload_framed)
qed

lemma redirect_record_fields:
  assumes "i < 2 ^ 32"
  shows "redirect_record base i ! 0 = walRedirectMagic" "length (redirect_record base i) = 13"
    "be_get (subslice 1 9 (redirect_record base i)) = base"
    "unat (be_get (subslice 9 13 (redirect_record base i)) :: u32) = i"
  using assms
  by (simp_all add: redirect_record_def subslice_def be_get_put unsigned_of_nat take_bit_nat_eq_self)

lemma AppendBatchCompressed_done:
  assumes laws: "wal_laws W winv view" and ok: "part_ok winv view p" and ne: "msgs \<noteq> []"
    and res: "AppendBatchCompressed W t f now msgs c p = (Inr offs, p')"
  obtains z where "Encode c (batch_payload (map (stamp t) msgs)) = Inr z"
    and "view (plog p') = wal_append (batch_record (length msgs) z #
        map (redirect_record (nextOffset p)) [1..<length msgs]) (view (plog p))"
    and "map unat offs = [wal_end (view (plog p))..<wal_end (view (plog p)) + length msgs]"
    and "part_ok winv view p'" and "batchCodec p' = batchCodec p"
    and "priorityIndex p' = map_option (index_batch now msgs offs) (priorityIndex p)"
proof -
  let ?n = "length msgs" and ?base = "nextOffset p"
  from res ne obtain z where z: "Encode c (batch_payload (map (stamp t) msgs)) = Inr z"
    by (auto simp: AppendBatchCompressed_def Let_def split: sum.splits)
  let ?b = "(?base, batch_record ?n z) # zip (map (\<lambda>j. ?base + 1 + word_of_nat j) [0..<?n - 1])
      (map (redirect_record ?base) [1..<?n])"
  have n: "1 + (?n - 1) = ?n" "Suc (?n - Suc 0) = ?n" using ne by (cases msgs; simp)+
  have nx: "?base + 1 + word_of_nat (?n - 1) = ?base + word_of_nat ?n"
    by (subst (2) n(1) [symmetric]) (simp add: add.assoc del: n)
  have c: "commit_batch W f now msgs ?b (?base + word_of_nat ?n) p = (Inr offs, p')"
    using res ne unfolding AppendBatchCompressed_def redirects_spec z Let_def n nx by simp
  have "?b \<noteq> []" "length ?b = ?n" using n by simp_all
  note d = commit_done [OF laws ok this refl c]
  have "map snd ?b = batch_record ?n z # map (redirect_record ?base) [1..<?n]"
    by (simp add: map_snd_zip)
  with d z show ?thesis by (intro that) simp_all
qed

lemma AppendBatchCompressed_contents:
  assumes laws: "wal_laws W winv view" and ok: "part_ok winv view p" and r: "readable W view p"
    and ne: "msgs \<noteq> []" and sz: "length msgs < 2 ^ 32" "list_all (\<lambda>m. encodedSize m < 2 ^ 32) msgs"
    and c: "codec_ok c" "batchCodec p = Some c"
    and res: "AppendBatchCompressed W t f now msgs c p = (Inr offs, p')"
  shows "contents W view p' = contents W view p @ map (\<lambda>m. Inr ((stamp t m)\<lparr>BatchDecoded := True\<rparr>)) msgs"
    and "readable W view p'"
proof -
  from AppendBatchCompressed_done [OF laws ok ne res] obtain z where
    z: "Encode c (batch_payload (map (stamp t) msgs)) = Inr z" and
    v: "view (plog p') = wal_append (batch_record (length msgs) z #
        map (redirect_record (nextOffset p)) [1..<length msgs]) (view (plog p))" and
    ok': "part_ok winv view p'" and c': "batchCodec p' = batchCodec p" by metis
  note w = part_okD(1) [OF ok] part_okD(1) [OF ok']
  let ?ds = "batch_record (length msgs) z # map (redirect_record (nextOffset p)) [1..<length msgs]"
  let ?ms = "map (\<lambda>m. (stamp t m)\<lparr>BatchDecoded := True\<rparr>) msgs"
  have len: "length ?ds = length msgs" using ne by (cases msgs) (simp_all del: upt_Suc)
  have get: "walRead W (plog p') i = Inr (?ds ! k)"
    if "k < length ?ds" "unat i = wal_end (view (plog p)) + k" for k i
  proof -
    have "wal_has (view (plog p')) i" unfolding v wal_has_append using that by linarith
    from wal_read_has [OF laws w(2) this] show ?thesis
      unfolding v wal_get_append_new [OF that(2,1)] .
  qed
  have data: "readFromBatchData (batchCodec p') (batch_record (length msgs) z) k = Inr (?ms ! k)"
    if "k < length msgs" for k
    using readFromBatchData_record [OF c(1) z, of k] that sz
    by (simp add: c' c(2) list_all_length)
  have new: "Read W p' i = Inr (?ms ! k)"
    if k: "k < length ?ds" and i: "unat i = wal_end (view (plog p)) + k" for k i
  proof (cases k)
    case 0
    have "walRead W (plog p') i = Inr (batch_record (length msgs) z)" using get [OF k i] 0 by simp
    then show ?thesis using data [of 0] ne 0
      by (simp add: Read_def batch_record_def walRedirectMagic_def walBatchMagic_def)
  next
    case (Suc j)
    with k len have j: "Suc j < length msgs" by simp
    have "walRead W (plog p') i = Inr (redirect_record (nextOffset p) k)"
      using get [OF k i] j by (simp add: Suc)
    moreover have "walRead W (plog p') (nextOffset p) = Inr (batch_record (length msgs) z)"
      using get [of 0 "nextOffset p"] part_okD(2) [OF ok] by simp
    moreover have "redirect_record (nextOffset p) k \<noteq> []" by (simp add: redirect_record_def)
    ultimately show ?thesis
      using data [of k] j sz(1) redirect_record_fields [of k "nextOffset p"]
      by (simp add: Read_def readFromBatch_def Suc)
  qed
  have "length ?ms = length ?ds" unfolding len by simp
  from contents_append [OF laws w v c' r new this]
  show "contents W view p' = contents W view p @ map (\<lambda>m. Inr ((stamp t m)\<lparr>BatchDecoded := True\<rparr>)) msgs"
    and "readable W view p'" by (simp_all add: comp_def)
qed

lemma HighWaterMark_ok:
  assumes "wal_laws W winv view" and "part_ok winv view p"
  shows "unat (HighWaterMark p) = wal_end (view (plog p)) - 1"
proof -
  have "0 < wal_end (view (plog p))"
    using wal_viewD [OF assms(1) part_okD(1) [OF assms(2)]] by (simp add: wal_end_def)
  then show ?thesis
    using part_okD(2) [OF assms(2)] unat_minus_one [of "nextOffset p"]
    by (auto simp: HighWaterMark_def)
qed

subsection \<open>Properties of the append paths\<close>

text \<open>
  C27: a partition is a list of messages that only grows at its end: a successful
  \<^verbatim>\<open>AppendBatch\<close> of messages whose priority is not a record tag keeps every readable entry
  and adds the messages, stamped with the append time, in their order; the returned
  offsets are the consecutive ones behind the old high-water mark.
\<close>

theorem AppendBatch_refines:
  assumes "wal_laws W winv view" and "part_ok winv view p" and "readable W view p"
    and "msgs \<noteq> []" and "list_all plain msgs"
    and "AppendBatch W t flushNs now pool msgs p = (Inr offs, p')"
  shows "contents W view p' =
      contents W view p @ map (\<lambda>m. Inr ((stamp t m)\<lparr>BatchDecoded := False\<rparr>)) msgs \<and>
    readable W view p' \<and> part_ok winv view p' \<and>
    map unat offs = [unat (HighWaterMark p) + 1..<unat (HighWaterMark p) + 1 + length msgs] \<and>
    unat (HighWaterMark p') = unat (HighWaterMark p) + length msgs"
proof -
  note d = AppendBatch_done [OF assms(1,2,4,6)] and r = AppendBatch_contents [OF assms(1-6)]
  have "0 < wal_end (view (plog p))"
    using wal_viewD [OF assms(1) part_okD(1) [OF assms(2)]] by (simp add: wal_end_def)
  then show ?thesis
    using d r HighWaterMark_ok [OF assms(1,2)] HighWaterMark_ok [OF assms(1) d(3)] by simp
qed

text \<open>
  C28: the compressed path refines the same list: a successful \<^verbatim>\<open>AppendBatchCompressed\<close>
  stores one record and redirects to it, and reading any of the new offsets through the
  partition's codec returns the message of that position, marked as already decoded.
\<close>

theorem AppendBatchCompressed_refines:
  assumes "wal_laws W winv view" and "part_ok winv view p" and "readable W view p"
    and "msgs \<noteq> []" and "length msgs < 2 ^ 32" and "list_all (\<lambda>m. encodedSize m < 2 ^ 32) msgs"
    and "codec_ok c" and "batchCodec p = Some c"
    and "AppendBatchCompressed W t flushNs now msgs c p = (Inr offs, p')"
  shows "contents W view p' =
      contents W view p @ map (\<lambda>m. Inr ((stamp t m)\<lparr>BatchDecoded := True\<rparr>)) msgs \<and>
    readable W view p' \<and> part_ok winv view p' \<and>
    map unat offs = [unat (HighWaterMark p) + 1..<unat (HighWaterMark p) + 1 + length msgs]"
proof -
  from AppendBatchCompressed_done [OF assms(1,2,4,9)] have
    d: "map unat offs = [wal_end (view (plog p))..<wal_end (view (plog p)) + length msgs]"
      "part_ok winv view p'" by metis+
  note r = AppendBatchCompressed_contents [OF assms]
  have "0 < wal_end (view (plog p))"
    using wal_viewD [OF assms(1) part_okD(1) [OF assms(2)]] by (simp add: wal_end_def)
  then show ?thesis using d r HighWaterMark_ok [OF assms(1,2)] by simp
qed

text \<open>A partition for the concrete instances: an empty log that accepts \<open>n\<close> batches.\<close>

definition samplePart :: "nat \<Rightarrow> codec option \<Rightarrow> list_wal partition" where
  "samplePart n c =
     \<lparr>pid = 0, topicName = ''t'', plog = emptyWal n, nextOffset = 1,
      priorityIndex = Some (NewPriorityIndex 0), scheduleMode = ModeStrictPriority,
      lastFlushNs = 0, batchCodec = c\<rparr>"

definition sampleMsg :: "byte \<Rightarrow> byte \<Rightarrow> message" where
  "sampleMsg prio v = NewMessage 7 prio [1] [v]"

lemma samplePart_ok: "part_ok lw_inv lw_view (samplePart n c)"
  using emptyWal_inv NewPriorityIndex_ok
  by (simp add: part_ok_def samplePart_def lw_view_def emptyWal_def wal_end_def)

lemma samplePart_readable: "readable listWal lw_view (samplePart n c)"
  by (simp add: readable_def contents_def samplePart_def lw_view_def emptyWal_def wal_end_def)

theorem AppendBatch_refines_witness:
  "\<exists>p'. AppendBatch listWal 9 0 4 (\<lambda>_. [5]) [sampleMsg 3 8, sampleMsg 7 6] (samplePart 2 None) = (Inr [1, 2], p') \<and>
     contents listWal lw_view p' =
       [Inr (stamp 9 (sampleMsg 3 8)), Inr (stamp 9 (sampleMsg 7 6))] \<and>
     unat (HighWaterMark p') = 2"
proof -
  let ?r = "AppendBatch listWal 9 0 4 (\<lambda>_. [5]) [sampleMsg 3 8, sampleMsg 7 6] (samplePart 2 None)"
  have "fst ?r = Inr [1, 2]" by code_simp
  then have r: "?r = (Inr [1, 2], snd ?r)" by (simp add: prod_eq_iff)
  have pl: "list_all plain [sampleMsg 3 8, sampleMsg 7 6]"
    by (simp add: plain_def sampleMsg_def NewMessage_def walBatchMagic_def walRedirectMagic_def)
  have c: "contents listWal lw_view (samplePart 2 None) = []"
    by (simp add: contents_def samplePart_def lw_view_def emptyWal_def wal_end_def)
  have "unat (HighWaterMark (samplePart 2 None)) = 0"
    by (simp add: HighWaterMark_def samplePart_def)
  with AppendBatch_refines [OF listWal_laws samplePart_ok samplePart_readable _ pl r] r c show ?thesis
    by (intro exI [of _ "snd ?r"]) (simp add: stamp_def sampleMsg_def NewMessage_def)
qed

theorem AppendBatchCompressed_refines_witness:
  "\<exists>p'. AppendBatchCompressed listWal 9 0 4 [sampleMsg 3 8, sampleMsg 7 6] (NewCodec tagLib 1)
        (samplePart 2 (Some (NewCodec tagLib 1))) = (Inr [1, 2], p') \<and>
     contents listWal lw_view p' =
       [Inr ((stamp 9 (sampleMsg 3 8))\<lparr>BatchDecoded := True\<rparr>),
        Inr ((stamp 9 (sampleMsg 7 6))\<lparr>BatchDecoded := True\<rparr>)]"
proof -
  let ?c = "NewCodec tagLib 1" and ?ms = "[sampleMsg 3 8, sampleMsg 7 6]"
  let ?r = "AppendBatchCompressed listWal 9 0 4 ?ms ?c (samplePart 2 (Some ?c))"
  have "fst ?r = Inr [1, 2]" by code_simp
  then have r: "?r = (Inr [1, 2], snd ?r)" by (simp add: prod_eq_iff)
  have sz: "length ?ms < 2 ^ 32" "list_all (\<lambda>m. encodedSize m < 2 ^ 32) ?ms"
    by (simp_all add: sampleMsg_def NewMessage_def encodedSize_def layout_defs)
  have bc: "batchCodec (samplePart 2 (Some ?c)) = Some ?c" by (simp add: samplePart_def)
  have c: "contents listWal lw_view (samplePart 2 (Some ?c)) = []"
    by (simp add: contents_def samplePart_def lw_view_def emptyWal_def wal_end_def)
  have ne: "?ms \<noteq> []" by simp
  from AppendBatchCompressed_refines [OF listWal_laws samplePart_ok samplePart_readable ne sz
      NewCodec_ok [OF tagLib_ok] bc r] r c show ?thesis
    by (intro exI [of _ "snd ?r"]) simp
qed





end
