(* ===== verification/Retention.thy ===== *)
theory Retention
  imports Partition
begin

text \<open>
  What the truncations and the index rebuild of \<^verbatim>\<open>pkg/broker/partition.go\<close> (theory
  Partition) do to the log: the loops are characterised on the list of log entries, and
  the properties state what retention drops, what it keeps and what it reports, and when
  a rebuild restores the index.
\<close>

subsection \<open>Truncation\<close>

definition expired :: "i64 \<Rightarrow> bytes \<Rightarrow> bool" where
  "expired cutoff d = (case UnmarshalHeader d of Inl _ \<Rightarrow> False | Inr h \<Rightarrow> sint (Timestamp h) < sint cutoff)"

definition bytes_of :: "bytes list \<Rightarrow> int" where
  "bytes_of ds = sum_list (map (\<lambda>d. int (length d)) ds)"

lemma bytes_of_simps [simp]:
  "bytes_of [] = 0" "bytes_of (d # ds) = int (length d) + bytes_of ds"
  "bytes_of (ds @ es) = bytes_of ds + bytes_of es"
  by (simp_all add: bytes_of_def)

lemma bytes_of_nonneg: "0 \<le> bytes_of ds"
  by (induction ds) auto

text \<open>Reading the log entry by entry: the next entry is the head of what is left.\<close>

lemma wal_read_at:
  assumes "wal_laws W winv view" and "winv w" and "unat off = fst (view w) + j"
    and "j < length (snd (view w))"
  shows "walRead W w off = Inr (snd (view w) ! j)" and "unat (off + 1) = fst (view w) + Suc j"
proof -
  have "wal_has (view w) off" using assms(3,4) by (simp add: wal_has_def wal_end_def)
  from wal_read_has [OF assms(1,2) this] show "walRead W w off = Inr (snd (view w) ! j)"
    by (simp add: wal_get_def assms(3))
  have "unat off + 1 < 2 ^ 64"
    using wal_viewD [OF assms(1,2)] assms(3,4) unfolding wal_end_def by linarith
  then show "unat (off + 1) = fst (view w) + Suc j"
    using assms(3) by (simp add: unat_word_ariths)
qed

lemma scan_expired_spec:
  assumes "wal_laws W winv view" and "winv w" and "unat off = fst (view w) + j"
    and "n + j = length (snd (view w))"
  shows "scan_expired W w cutoff n off =
     (let ds = takeWhile (expired cutoff) (drop j (snd (view w))) in (length ds, bytes_of ds))"
  using assms(3,4)
proof (induction n arbitrary: off j)
  case (Suc n)
  then have j: "j < length (snd (view w))" by simp
  note at = wal_read_at [OF assms(1,2) Suc.prems(1) j]
  have "n + Suc j = length (snd (view w))" using Suc.prems by simp
  note IH = Suc.IH [OF at(2) this]
  have "drop j (snd (view w)) = snd (view w) ! j # drop (Suc j) (snd (view w))"
    using j by (simp add: Cons_nth_drop_Suc)
  then show ?case
    by (simp add: at(1) IH expired_def not_le Let_def split: sum.splits)
qed simp

lemma total_size_spec:
  assumes "wal_laws W winv view" and "winv w" and "unat off = fst (view w) + j"
    and "n + j = length (snd (view w))"
  shows "total_size W w n off = bytes_of (drop j (snd (view w)))"
  using assms(3,4)
proof (induction n arbitrary: off j)
  case (Suc n)
  then have j: "j < length (snd (view w))" by simp
  note at = wal_read_at [OF assms(1,2) Suc.prems(1) j]
  have "n + Suc j = length (snd (view w))" using Suc.prems by simp
  from Suc.IH [OF at(2) this] j show ?case
    by (simp add: at(1) Cons_nth_drop_Suc [symmetric])
qed simp

lemma scan_excess_spec:
  assumes "wal_laws W winv view" and "winv w" and "unat off = fst (view w) + j"
    and "n + j = length (snd (view w))" and "tot = bytes_of (drop j (snd (view w)))"
    and "scan_excess W w mx n off tot = (k, b)"
  shows "k \<le> n \<and> b = bytes_of (take k (drop j (snd (view w)))) \<and>
    (bytes_of (drop (j + k) (snd (view w))) \<le> mx \<or> k = n) \<and>
    (\<forall>i < k. mx < bytes_of (drop (j + i) (snd (view w))))"
  using assms(3-6)
proof (induction n arbitrary: off j tot k b)
  case (Suc n)
  then have j: "j < length (snd (view w))" by simp
  note at = wal_read_at [OF assms(1,2) Suc.prems(1) j]
  have n: "n + Suc j = length (snd (view w))" using Suc.prems by simp
  have d: "drop j (snd (view w)) = snd (view w) ! j # drop (Suc j) (snd (view w))"
    using j by (simp add: Cons_nth_drop_Suc)
  show ?case
  proof (cases "tot \<le> mx")
    case True
    then show ?thesis using Suc.prems by auto
  next
    case False
    let ?tot = "tot - int (length (snd (view w) ! j))"
    obtain k' b' where r: "scan_excess W w mx n (off + 1) ?tot = (k', b')" by fastforce
    have "?tot = bytes_of (drop (Suc j) (snd (view w)))" using Suc.prems(3) d by simp
    note IH = Suc.IH [OF at(2) n this r]
    have kb: "k = Suc k'" "b = b' + int (length (snd (view w) ! j))"
      using Suc.prems(4) False at(1) r by simp_all
    have "mx < bytes_of (drop (j + i) (snd (view w)))" if "i < k" for i
      using that IH kb False Suc.prems(3) by (cases i) auto
    with IH kb d show ?thesis by simp
  qed
qed simp

text \<open>Both truncations end alike: the entries found are dropped, or the log is unchanged.\<close>

lemma truncate_found_spec:
  assumes laws: "wal_laws W winv view" and ok: "part_ok winv view p"
    and k: "k \<le> length (snd (view (plog p)))"
    and first: "unat firstIdx = fst (view (plog p))"
    and res: "truncate_found W firstIdx (k, b) p = ((segs, bs, e), p')"
  shows "part_ok winv view p' \<and>
    (if e = None
     then segs = k \<and> bs = (if k = 0 then 0 else b) \<and>
          view (plog p') = wal_drop (fst (view (plog p)) + k) (view (plog p))
     else segs = 0 \<and> bs = 0 \<and> view (plog p') = view (plog p) \<and> k = length (snd (view (plog p))))"
proof (cases "k = 0")
  case True
  then show ?thesis using res ok by (auto simp: truncate_found_def wal_drop_def)
next
  case False
  let ?v = "view (plog p)" and ?i = "firstIdx + word_of_nat k :: u64"
  have "fst ?v + k < 2 ^ 64"
    using wal_viewD [OF laws part_okD(1) [OF ok]] k unfolding wal_end_def by linarith
  then have i: "unat ?i = fst ?v + k"
    using first by (simp add: unat_word_ariths unsigned_of_nat take_bit_eq_mod)
  obtain r lg' where tr: "walTruncateFront W (plog p) ?i = (r, lg')" by fastforce
  note t = wal_truncate [OF laws part_okD(1) [OF ok] tr]
  have e: "e = r" "p' = p\<lparr>plog := lg'\<rparr>" "segs = (if r = None then k else 0)"
    "bs = (if r = None then b else 0)"
    using res False tr by (auto simp: truncate_found_def split: option.splits)
  have "k = length (snd ?v)" if "r \<noteq> None"
  proof (rule ccontr)
    assume "k \<noteq> length (snd ?v)"
    then have "wal_has ?v ?i" using k i by (simp add: wal_has_def wal_end_def)
    with t(4) that show False by simp
  qed
  moreover have "wal_end (view lg') = wal_end ?v"
    using t(2,3) i k by (cases r) (simp_all add: wal_drop_def wal_end_def)
  ultimately show ?thesis
    using t i ok False by (auto simp: e part_ok_def)
qed

lemma first_index_cases:
  assumes "wal_laws W winv view" and "part_ok winv view p"
  shows "if snd (view (plog p)) = [] then walFirstIndex W (plog p) = Inr 0
    else \<exists>i. walFirstIndex W (plog p) = Inr i \<and> i \<noteq> 0 \<and> unat i = fst (view (plog p)) \<and>
      unat (nextOffset p) - unat i = length (snd (view (plog p)))"
proof -
  let ?v = "view (plog p)"
  have b: "0 < fst ?v" "fst ?v < 2 ^ 64"
    using wal_viewD [OF assms(1) part_okD(1) [OF assms(2)]] unfolding wal_end_def by linarith+
  have u: "unat (word_of_nat (fst ?v) :: u64) = fst ?v" using b by (simp add: unat_word_of_nat_u64)
  then have "(word_of_nat (fst ?v) :: u64) \<noteq> 0" using b by (metis less_numeral_extra(3) unat_0)
  then show ?thesis
    using wal_first [OF assms(1) part_okD(1) [OF assms(2)]] part_okD(2) [OF assms(2)] u
    by (simp add: wal_end_def)
qed

text \<open>
  C35: time retention deletes exactly the expired prefix: \<^verbatim>\<open>TruncateBefore\<close> drops the
  leading entries whose timestamp lies before the cutoff, reports their number and size,
  and stops at the first entry that is younger or has no readable header, so nothing that
  is still young is lost. When the library refuses the truncation, which it may only do
  when every entry has expired, nothing is dropped and nothing is reported.
\<close>

theorem TruncateBefore_correct:
  assumes "wal_laws W winv view" and "part_ok winv view p"
    and "TruncateBefore W cutoff p = ((segs, bs, e), p')"
  shows "part_ok winv view p' \<and>
    (let es = snd (view (plog p)); old = takeWhile (expired cutoff) es
     in if e = None
        then segs = length old \<and> bs = bytes_of old \<and>
             snd (view (plog p')) = dropWhile (expired cutoff) es \<and>
             fst (view (plog p')) = fst (view (plog p)) + segs
        else segs = 0 \<and> bs = 0 \<and> view (plog p') = view (plog p) \<and> old = es)"
proof (cases "snd (view (plog p)) = []")
  case True
  then show ?thesis
    using first_index_cases [OF assms(1,2)] assms(2,3) by (auto simp: TruncateBefore_def)
next
  case False
  let ?es = "snd (view (plog p))"
  let ?old = "takeWhile (expired cutoff) ?es"
  from first_index_cases [OF assms(1,2)] False obtain i where
    i: "walFirstIndex W (plog p) = Inr i" "i \<noteq> 0" "unat i = fst (view (plog p))"
      "unat (nextOffset p) - unat i = length ?es" by auto
  have "scan_expired W (plog p) cutoff (length ?es) i = (length ?old, bytes_of ?old)"
    using scan_expired_spec [OF assms(1) part_okD(1) [OF assms(2)], of i 0 "length ?es" cutoff] i(3)
    by (simp add: Let_def)
  then have "truncate_found W i (length ?old, bytes_of ?old) p = ((segs, bs, e), p')"
    using assms(3) i by (simp add: TruncateBefore_def)
  from truncate_found_spec [OF assms(1,2) length_takeWhile_le i(3) this]
  have t: "part_ok winv view p'" "e = None \<Longrightarrow> segs = length ?old"
    "e = None \<Longrightarrow> bs = (if length ?old = 0 then 0 else bytes_of ?old)"
    "e = None \<Longrightarrow> view (plog p') = wal_drop (fst (view (plog p)) + length ?old) (view (plog p))"
    "e \<noteq> None \<Longrightarrow> segs = 0 \<and> bs = 0 \<and> view (plog p') = view (plog p) \<and> length ?old = length ?es"
    by (auto split: if_splits)
  have "?old = ?es" if "length ?old = length ?es"
    using that by (metis takeWhile_eq_all_conv takeWhile_eq_take take_all order_refl)
  with t show ?thesis
    by (auto simp: wal_drop_def dropWhile_eq_drop Let_def split: if_splits)
qed

text \<open>
  Size retention: \<^verbatim>\<open>TruncateOldestUntilSize\<close> drops the fewest oldest entries that bring
  the log down to the limit: what remains fits (or is empty), one entry less would not
  have been enough, and the reported bytes are those of the dropped entries. When the
  truncation is refused nothing changes.
\<close>

theorem TruncateOldestUntilSize_correct:
  assumes "wal_laws W winv view" and "part_ok winv view p"
    and "TruncateOldestUntilSize W maxBytes p = ((k, bs, e), p')"
  shows "part_ok winv view p' \<and>
    (let es = snd (view (plog p))
     in if e = None
        then snd (view (plog p')) = drop k es \<and> bs = bytes_of (take k es) \<and>
             (bytes_of (drop k es) \<le> maxBytes \<or> drop k es = []) \<and>
             (\<forall>i < k. maxBytes < bytes_of (drop i es))
        else view (plog p') = view (plog p) \<and> k = 0 \<and> bs = 0)"
proof (cases "snd (view (plog p)) = []")
  case True
  then show ?thesis
    using first_index_cases [OF assms(1,2)] assms(2,3) by (auto simp: TruncateOldestUntilSize_def)
next
  case False
  let ?es = "snd (view (plog p))"
  from first_index_cases [OF assms(1,2)] False obtain i where
    i: "walFirstIndex W (plog p) = Inr i" "i \<noteq> 0" "unat i = fst (view (plog p))"
      "unat (nextOffset p) - unat i = length ?es" by auto
  note w = part_okD(1) [OF assms(2)]
  have tot: "total_size W (plog p) (length ?es) i = bytes_of ?es"
    using total_size_spec [OF assms(1) w, of i 0 "length ?es"] i(3) by simp
  show ?thesis
  proof (cases "bytes_of ?es \<le> maxBytes")
    case True
    then show ?thesis using assms(2,3) i tot by (auto simp: TruncateOldestUntilSize_def)
  next
    case False
    obtain n b where r: "scan_excess W (plog p) maxBytes (length ?es) i (bytes_of ?es) = (n, b)"
      by fastforce
    have sp: "n \<le> length ?es" "b = bytes_of (take n ?es)"
      "bytes_of (drop n ?es) \<le> maxBytes \<or> n = length ?es" "\<forall>i < n. maxBytes < bytes_of (drop i ?es)"
      using scan_excess_spec [OF assms(1) w, of i 0 "length ?es", OF _ _ _ r] i(3) by simp_all
    have "truncate_found W i (n, b) p = ((k, bs, e), p')"
      using assms(3) i tot False r by (simp add: TruncateOldestUntilSize_def Let_def)
    from truncate_found_spec [OF assms(1,2) sp(1) i(3) this] sp show ?thesis
      by (auto simp: wal_drop_def Let_def split: if_splits)
  qed
qed

text \<open>Three entries with timestamps 1, 2 and 9, for the concrete instances.\<close>

definition agedPart :: "list_wal partition" where
  "agedPart = (samplePart 2 None)\<lparr>
     plog := \<lparr>lwBase = 1, lwEntries = map (\<lambda>t. Marshal (NewMessage t 3 [1] [2])) [1, 2, 9], lwBudget = Some 2\<rparr>,
     nextOffset := 4\<rparr>"

lemma agedPart_ok: "part_ok lw_inv lw_view agedPart"
  using NewPriorityIndex_ok
  by (simp add: part_ok_def agedPart_def samplePart_def lw_inv_def lw_view_def wal_view_ok_def wal_end_def)

theorem TruncateBefore_correct_witness:
  "\<exists>p'. TruncateBefore listWal 5 agedPart = ((2, 62, None), p') \<and> part_ok lw_inv lw_view p' \<and>
     fst (lw_view (plog p')) = 3"
proof -
  have f: "fst (TruncateBefore listWal 5 agedPart) = (2, 62, None)" by code_simp
  then have r: "TruncateBefore listWal 5 agedPart = ((2, 62, None), snd (TruncateBefore listWal 5 agedPart))"
    by (simp add: prod_eq_iff)
  have "fst (lw_view (plog agedPart)) = 1" by (simp add: agedPart_def lw_view_def)
  with TruncateBefore_correct [OF listWal_laws agedPart_ok r] r show ?thesis
    by (intro exI [of _ "snd (TruncateBefore listWal 5 agedPart)"]) (simp add: Let_def)
qed

theorem TruncateOldestUntilSize_correct_witness:
  "\<exists>p'. TruncateOldestUntilSize listWal 40 agedPart = ((2, 62, None), p') \<and>
     bytes_of (snd (lw_view (plog p'))) \<le> 40"
proof -
  let ?r = "TruncateOldestUntilSize listWal 40 agedPart"
  have f: "fst ?r = (2, 62, None)" by code_simp
  then have r: "?r = ((2, 62, None), snd ?r)" by (simp add: prod_eq_iff)
  have "length (snd (lw_view (plog agedPart))) = 3" by (simp add: agedPart_def lw_view_def)
  with TruncateOldestUntilSize_correct [OF listWal_laws agedPart_ok r] r show ?thesis
    by (intro exI [of _ "snd ?r"]) (auto simp: Let_def)
qed

subsection \<open>Rebuild\<close>

definition rebuild_add :: "pindex \<Rightarrow> nat \<times> message \<Rightarrow> pindex" where
  "rebuild_add ix im = snd (Add ix (uint (Priority (Header (snd im)))) (word_of_nat (fst im))
     (sint (Timestamp (Header (snd im)))))"

lemma rebuild_loop_spec:
  assumes laws: "wal_laws W winv view" and w: "winv w" and es: "snd (view w) = map frame ms"
    and "unat off = fst (view w) + j" and "n + j = length ms"
  shows "rebuild_loop W w isCommitted n off ix =
    (None, foldl rebuild_add ix (filter (\<lambda>(i, m). \<not> isCommitted (word_of_nat i))
       (zip [fst (view w) + j..<wal_end (view w)] (drop j ms))))"
  using assms(4,5)
proof (induction n arbitrary: off j ix)
  case 0
  then show ?case by simp
next
  case (Suc n)
  have j: "j < length (snd (view w))" "j < length ms" using Suc.prems es by simp_all
  note at = wal_read_at [OF laws w Suc.prems(1) j(1)]
  have "n + Suc j = length ms" using Suc.prems by simp
  note IH = Suc.IH [OF at(2) this]
  have off: "off = word_of_nat (fst (view w) + j)"
    unfolding Suc.prems(1) [symmetric] by simp
  have d: "drop j ms = ms ! j # drop (Suc j) ms" using j(2) by (simp add: Cons_nth_drop_Suc)
  have u: "[fst (view w) + j..<wal_end (view w)] =
      (fst (view w) + j) # [fst (view w) + Suc j..<wal_end (view w)]"
    using j(1) by (simp add: wal_end_def upt_conv_Cons)
  show ?case
    using at(1) j es IH
    by (simp add: d u UnmarshalHeader_frame rebuild_add_def off [symmetric] del: of_nat_add)
qed

text \<open>
  A rebuild restores the index: on a log of plainly written messages \<^verbatim>\<open>Rebuild\<close>
  succeeds and files, in log order, exactly the messages from the start offset on that are
  not committed, each under its own priority, offset and timestamp.
\<close>

theorem Rebuild_correct:
  assumes "wal_laws W winv view" and "part_ok winv view p" and "priorityIndex p = Some ix"
    and "snd (view (plog p)) = map frame ms"
    and "fst (view (plog p)) \<le> unat start" and "unat start \<le> wal_end (view (plog p))"
  shows "Rebuild W start isCommitted p =
    (None, p\<lparr>priorityIndex := Some (foldl rebuild_add ix
       (filter (\<lambda>(i, m). \<not> isCommitted (word_of_nat i))
          (zip [unat start..<wal_end (view (plog p))] (drop (unat start - fst (view (plog p))) ms))))\<rparr>)"
proof -
  let ?j = "unat start - fst (view (plog p))"
  have len: "length ms = length (snd (view (plog p)))" using assms(4) by simp
  have n: "unat (nextOffset p) - unat start + ?j = length ms"
    using part_okD(2) [OF assms(2)] assms(5,6) by (simp add: len wal_end_def)
  have j: "unat start = fst (view (plog p)) + ?j" using assms(5) by simp
  from rebuild_loop_spec [OF assms(1) part_okD(1) [OF assms(2)] assms(4) j n] assms(5)
  show ?thesis by (simp add: Rebuild_def assms(3))
qed

theorem Rebuild_correct_witness:
  "Rebuild listWal 2 (\<lambda>off. off = 3) agedPart =
     (None, agedPart\<lparr>priorityIndex := Some (snd (Add (NewPriorityIndex 0) 3 2 2))\<rparr>)"
proof -
  let ?ms = "map (\<lambda>t. NewMessage t 3 [1] [2]) [1, 2, 9]"
  have a: "priorityIndex agedPart = Some (NewPriorityIndex 0)"
    "snd (lw_view (plog agedPart)) = map frame ?ms" "fst (lw_view (plog agedPart)) = 1"
    "wal_end (lw_view (plog agedPart)) = 4"
    by (simp_all add: agedPart_def samplePart_def lw_view_def wal_end_def Marshal_frame)
  have b: "fst (lw_view (plog agedPart)) \<le> unat (2 :: u64)"
    "unat (2 :: u64) \<le> wal_end (lw_view (plog agedPart))" using a by simp_all
  have "[2..<4] = [2, 3 :: nat]" by code_simp
  then show ?thesis
    using Rebuild_correct [OF listWal_laws agedPart_ok a(1,2) b, of "\<lambda>off. off = 3"]
    by (simp add: a(3,4) rebuild_add_def NewMessage_def)
qed

text \<open>
  Compressed batches cannot be rebuilt: an uncommitted redirect record is shorter than
  a message header, so \<^verbatim>\<open>Rebuild\<close> stops there with an error and the messages behind it never
  reach the index.
\<close>

theorem Rebuild_stops_at_redirect:
  assumes "wal_laws W winv view" and "part_ok winv view p" and "priorityIndex p = Some ix"
    and "wal_has (view (plog p)) start" and "wal_get (view (plog p)) start = redirect_record base i"
    and "\<not> isCommitted start"
  shows "Rebuild W start isCommitted p = (Some ErrDataTooShort, p)"
proof -
  have "unat start < unat (nextOffset p)"
    using assms(4) part_okD(2) [OF assms(2)] by (simp add: wal_has_def)
  then obtain n where n: "unat (nextOffset p) - unat start = Suc n"
    by (metis Suc_diff_Suc)
  have "walRead W (plog p) start = Inr (redirect_record base i)"
    using wal_read_has [OF assms(1) part_okD(1) [OF assms(2)] assms(4)] assms(5) by simp
  moreover have "UnmarshalHeader (redirect_record base i) = Inl ErrDataTooShort"
    by (simp add: UnmarshalHeader_def redirect_record_def layout_defs)
  ultimately show ?thesis using n assms(3,6) by (cases p) (simp add: Rebuild_def)
qed

theorem Rebuild_stops_at_redirect_witness:
  "wal_get (lw_view (plog (agedPart\<lparr>plog := \<lparr>lwBase = 1,
     lwEntries = [[], redirect_record 1 1, []], lwBudget = Some 2\<rparr>\<rparr>))) 2 = redirect_record 1 1 \<and>
   fst (Rebuild listWal 2 (\<lambda>_. False) (agedPart\<lparr>plog := \<lparr>lwBase = 1,
     lwEntries = [[], redirect_record 1 1, []], lwBudget = Some 2\<rparr>\<rparr>)) = Some ErrDataTooShort"
proof -
  let ?p = "agedPart\<lparr>plog := \<lparr>lwBase = 1, lwEntries = [[], redirect_record 1 1, []], lwBudget = Some 2\<rparr>\<rparr>"
  have ok: "part_ok lw_inv lw_view ?p"
    using agedPart_ok
    by (simp add: part_ok_def agedPart_def samplePart_def lw_inv_def lw_view_def wal_view_ok_def wal_end_def)
  have g: "priorityIndex ?p = Some (NewPriorityIndex 0)" "wal_has (lw_view (plog ?p)) 2"
    "wal_get (lw_view (plog ?p)) 2 = redirect_record 1 1"
    by (simp_all add: agedPart_def samplePart_def wal_has_def wal_get_def lw_view_def wal_end_def)
  from Rebuild_stops_at_redirect [OF listWal_laws ok g, of "\<lambda>_. False"] g(3) show ?thesis by simp
qed

end
