(* ===== verification/Topic.thy ===== *)
theory Topic
  imports Partition
begin

text \<open>
  Topics, \<^verbatim>\<open>pkg/broker/topic.go\<close>: a name, its partitions and its configuration. The lemmas
  show that a new topic has one partition per id, each consistent with its reopened log,
  and that lookups by id are exact.
\<close>

record 'w topic =
  tname :: string
  partitions :: "'w partition list"
  tconfig :: topic_config
  tclosed :: bool

text \<open>
  \<^verbatim>\<open>Close\<close> of a topic marks it and closes every partition, keeping the first error. A nil
  slot of a half-built topic is skipped by the code; here a half-built topic has only the
  partitions built so far.
\<close>

fun close_partitions :: "'w wal_ops \<Rightarrow> 'w partition list \<Rightarrow> err option \<times> 'w partition list" where
  "close_partitions W [] = (None, [])"
| "close_partitions W (p # ps) =
     (let (e, p') = Close W p; (e', ps') = close_partitions W ps
      in (case e of Some x \<Rightarrow> Some x | None \<Rightarrow> e', p' # ps'))"

definition CloseTopic :: "'w wal_ops \<Rightarrow> 'w topic \<Rightarrow> err option \<times> 'w topic" where
  "CloseTopic W t = (let (e, ps) = close_partitions W (partitions t)
                     in (e, t\<lparr>partitions := ps, tclosed := True\<rparr>))"

text \<open>
  The loop of \<^verbatim>\<open>NewTopic\<close> opens partitions \<open>i\<close> to \<open>i + n - 1\<close>; on an error the partitions
  opened so far are returned with it, because the code closes them.
\<close>

fun open_partitions :: "(int \<Rightarrow> err + 'w partition) \<Rightarrow> int \<Rightarrow> nat \<Rightarrow> 'w partition list \<Rightarrow>
    (err \<times> 'w partition list) + 'w partition list" where
  "open_partitions mk i 0 acc = Inr acc"
| "open_partitions mk i (Suc n) acc =
     (case mk i of Inl e \<Rightarrow> Inl (e, acc) | Inr p \<Rightarrow> open_partitions mk (i + 1) n (acc @ [p]))"

definition effectivePartitions :: "topic_config \<Rightarrow> topic_config" where
  "effectivePartitions cfg =
     (if cfgNumPartitions cfg \<le> 0 then cfg\<lparr>cfgNumPartitions := 4\<rparr> else cfg)"

definition NewTopic ::
    "'w wal_ops \<Rightarrow> (string \<times> string \<times> int \<Rightarrow> bool \<Rightarrow> err + 'w) \<Rightarrow> string \<Rightarrow> string \<Rightarrow> topic_config \<Rightarrow>
     int \<Rightarrow> (err \<times> 'w topic) + 'w topic" where
  "NewTopic W walOpen name dataDir cfg0 syncPolicy =
     (let cfg = effectivePartitions cfg0;
          mk = (\<lambda>i. NewPartition W walOpen i name dataDir (ScheduleMode cfg) syncPolicy)
      in case open_partitions mk 0 (nat (cfgNumPartitions cfg)) [] of
           Inr ps \<Rightarrow> Inr \<lparr>tname = name, partitions = ps, tconfig = cfg, tclosed = False\<rparr>
         | Inl (e, ps) \<Rightarrow>
             Inl (e, snd (CloseTopic W \<lparr>tname = name, partitions = ps, tconfig = cfg, tclosed = False\<rparr>)))"

definition Name :: "'w topic \<Rightarrow> string" where
  "Name t = tname t"

definition NumPartitions :: "'w topic \<Rightarrow> int" where
  "NumPartitions t = int (length (partitions t))"

definition topicPartition :: "'w topic \<Rightarrow> int \<Rightarrow> err + 'w partition" where
  "topicPartition t i =
     (if i < 0 \<or> i \<ge> int (length (partitions t)) then Inl ErrPartitionRange
      else Inr (partitions t ! nat i))"

definition setPartition :: "'w topic \<Rightarrow> int \<Rightarrow> 'w partition \<Rightarrow> 'w topic" where
  "setPartition t i p = t\<lparr>partitions := (partitions t)[nat i := p]\<rparr>"

definition IsClosed :: "'w topic \<Rightarrow> bool" where
  "IsClosed t = tclosed t"

subsection \<open>New topics\<close>

lemma open_partitions_spec:
  assumes "open_partitions mk i n acc = Inr ps"
  shows "\<exists>qs. ps = acc @ qs \<and> length qs = n \<and> (\<forall>k < n. mk (i + int k) = Inr (qs ! k))"
  using assms
proof (induction n arbitrary: i acc)
  case (Suc n)
  then obtain p where p: "mk i = Inr p" "open_partitions mk (i + 1) n (acc @ [p]) = Inr ps"
    by (auto split: sum.splits)
  from Suc.IH [OF p(2)] obtain qs where
    qs: "ps = acc @ p # qs" "length qs = n" "\<forall>k < n. mk (i + 1 + int k) = Inr (qs ! k)" by auto
  have "mk (i + int k) = Inr ((p # qs) ! k)" if "k < Suc n" for k
    using that qs(3) p(1) by (cases k) (auto simp: algebra_simps)
  with qs show ?case by (intro exI [of _ "p # qs"]) auto
qed simp

text \<open>
  What reopening relies on: a log the library opens satisfies its invariant, and an empty
  log starts at index 1.
\<close>

definition open_ok :: "('w \<Rightarrow> bool) \<Rightarrow> ('w \<Rightarrow> wal_view) \<Rightarrow>
    (string \<times> string \<times> int \<Rightarrow> bool \<Rightarrow> err + 'w) \<Rightarrow> bool" where
  "open_ok winv view walOpen \<longleftrightarrow> (\<forall>path sync w. walOpen path sync = Inr w \<longrightarrow>
     winv w \<and> (snd (view w) = [] \<longrightarrow> fst (view w) = 1))"

lemma NewPartition_ok:
  assumes "wal_laws W winv view" and "open_ok winv view walOpen"
    and "NewPartition W walOpen i topic dataDir mode sync = Inr p"
  shows "part_ok winv view p" and "walOpen (dataDir, topic, i) (walOptions sync) = Inr (plog p)"
    and "pid p = i" and "scheduleMode p = mode" and "batchCodec p = None"
    and "priorityIndex p = (if mode = ModeFIFO then None else Some (NewPriorityIndex 50000))"
proof -
  obtain w li where o: "walOpen (dataDir, topic, i) (walOptions sync) = Inr w"
    and li: "walLastIndex W w = Inr li"
    and p: "p = \<lparr>pid = i, topicName = topic, plog = w, nextOffset = li + 1,
        priorityIndex = (if mode \<noteq> ModeFIFO then Some (NewPriorityIndex 50000) else None),
        scheduleMode = mode, lastFlushNs = 0, batchCodec = None\<rparr>"
    using assms(3) by (auto simp: NewPartition_def split: sum.splits)
  have w: "winv w" "snd (view w) = [] \<Longrightarrow> fst (view w) = 1"
    using assms(2) o by (auto simp: open_ok_def)
  have v: "0 < fst (view w)" "wal_end (view w) < 2 ^ 64" using wal_viewD [OF assms(1) w(1)] by simp_all
  have "li + 1 = word_of_nat (wal_end (view w))"
  proof (cases "snd (view w) = []")
    case True
    then show ?thesis using wal_last [OF assms(1) w(1)] li w(2) by (simp add: wal_end_def)
  next
    case False
    then have "Suc (wal_end (view w) - 1) = wal_end (view w)" using v by (simp add: wal_end_def)
    moreover have "li = word_of_nat (wal_end (view w) - 1)"
      using wal_last [OF assms(1) w(1)] li False by simp
    ultimately show ?thesis by (metis add.commute of_nat_Suc)
  qed
  then have "unat (li + 1) = wal_end (view w)" using v(2) by (simp add: unat_word_of_nat_u64)
  then show "part_ok winv view p" using w(1) NewPriorityIndex_ok by (simp add: p part_ok_def)
  show "walOpen (dataDir, topic, i) (walOptions sync) = Inr (plog p)" "pid p = i"
    "scheduleMode p = mode" "batchCodec p = None"
    "priorityIndex p = (if mode = ModeFIFO then None else Some (NewPriorityIndex 50000))"
    using o by (simp_all add: p)
qed

definition topic_ok :: "('w \<Rightarrow> bool) \<Rightarrow> ('w \<Rightarrow> wal_view) \<Rightarrow> 'w topic \<Rightarrow> bool" where
  "topic_ok winv view t \<longleftrightarrow> partitions t \<noteq> [] \<and> list_all (part_ok winv view) (partitions t) \<and>
     map pid (partitions t) = map int [0..<length (partitions t)]"

lemma NewTopic_spec:
  assumes "wal_laws W winv view" and "open_ok winv view walOpen"
    and "NewTopic W walOpen name dataDir cfg sync = Inr t"
  shows "topic_ok winv view t" and "tname t = name" and "\<not> tclosed t"
    and "NumPartitions t = (if cfgNumPartitions cfg \<le> 0 then 4 else cfgNumPartitions cfg)"
    and "\<And>k. k < length (partitions t) \<Longrightarrow>
      NewPartition W walOpen (int k) name dataDir (ScheduleMode cfg) sync = Inr (partitions t ! k)"
proof -
  let ?cfg = "effectivePartitions cfg"
  let ?mk = "\<lambda>i. NewPartition W walOpen i name dataDir (ScheduleMode ?cfg) sync"
  obtain ps where ps: "open_partitions ?mk 0 (nat (cfgNumPartitions ?cfg)) [] = Inr ps"
    and t: "t = \<lparr>tname = name, partitions = ps, tconfig = ?cfg, tclosed = False\<rparr>"
    using assms(3) by (auto simp: NewTopic_def Let_def split: sum.splits)
  have m: "ScheduleMode ?cfg = ScheduleMode cfg"
    and n: "cfgNumPartitions ?cfg = (if cfgNumPartitions cfg \<le> 0 then 4 else cfgNumPartitions cfg)"
    by (simp_all add: effectivePartitions_def)
  from open_partitions_spec [OF ps]
  have len: "length ps = nat (cfgNumPartitions ?cfg)" and mk: "\<forall>k < length ps. ?mk (int k) = Inr (ps ! k)"
    by auto
  then show "\<And>k. k < length (partitions t) \<Longrightarrow>
      NewPartition W walOpen (int k) name dataDir (ScheduleMode cfg) sync = Inr (partitions t ! k)"
    by (simp add: t m)
  have each: "part_ok winv view (ps ! k)" "pid (ps ! k) = int k" if "k < length ps" for k
    using NewPartition_ok(1,3) [OF assms(1,2) mk [rule_format, OF that]] by simp_all
  have "map pid ps = map int [0..<length ps]" by (rule nth_equalityI) (auto simp: each)
  moreover have "0 < length ps" using len n by simp
  ultimately show "topic_ok winv view t" using each by (simp add: t topic_ok_def list_all_length)
  show "tname t = name" "\<not> tclosed t" by (simp_all add: t)
  show "NumPartitions t = (if cfgNumPartitions cfg \<le> 0 then 4 else cfgNumPartitions cfg)"
    using len n by (simp add: t NumPartitions_def)
qed

lemma topicPartition_cases:
  "topicPartition t i = (if 0 \<le> i \<and> i < NumPartitions t then Inr (partitions t ! nat i)
     else Inl ErrPartitionRange)"
  by (simp add: topicPartition_def NumPartitions_def)

text \<open>
  Restart recovery of a topic: every partition of a topic that \<^verbatim>\<open>NewTopic\<close> opens is
  consistent with its log (the next offset is the one behind the last entry, so appends
  continue where the log ends), there are as many as configured or four, and in the
  priority modes each starts with an empty index: entries that were in the log before the
  restart are not pending any more.
\<close>

theorem NewTopic_recovers:
  assumes "wal_laws W winv view" and "open_ok winv view walOpen"
    and "NewTopic W walOpen name dataDir cfg sync = Inr t"
  shows "topic_ok winv view t \<and>
    NumPartitions t = (if cfgNumPartitions cfg \<le> 0 then 4 else cfgNumPartitions cfg) \<and>
    (\<forall>i. 0 \<le> i \<and> i < NumPartitions t \<longrightarrow> (\<exists>p. topicPartition t i = Inr p \<and> pid p = i \<and>
       walOpen (dataDir, name, i) (walOptions sync) = Inr (plog p) \<and>
       QueueDepth p = 0 \<and> (priorityIndex p = None \<longleftrightarrow> ScheduleMode cfg = ModeFIFO)))"
proof (intro conjI allI impI)
  note sp = NewTopic_spec [OF assms]
  show "topic_ok winv view t" "NumPartitions t = (if cfgNumPartitions cfg \<le> 0 then 4 else cfgNumPartitions cfg)"
    by (rule sp)+
  fix i assume i: "0 \<le> i \<and> i < NumPartitions t"
  then have "nat i < length (partitions t)" by (simp add: NumPartitions_def nat_less_iff)
  from sp(5) [OF this] i
  have "NewPartition W walOpen i name dataDir (ScheduleMode cfg) sync = Inr (partitions t ! nat i)" by simp
  from NewPartition_ok [OF assms(1,2) this] i
  show "\<exists>p. topicPartition t i = Inr p \<and> pid p = i \<and>
      walOpen (dataDir, name, i) (walOptions sync) = Inr (plog p) \<and>
      QueueDepth p = 0 \<and> (priorityIndex p = None \<longleftrightarrow> ScheduleMode cfg = ModeFIFO)"
    by (intro exI [of _ "partitions t ! nat i"])
      (simp add: topicPartition_cases QueueDepth_def Len_def NewPriorityIndex_def)
qed

definition memOpen :: "string \<times> string \<times> int \<Rightarrow> bool \<Rightarrow> err + list_wal" where
  "memOpen path sync = Inr (emptyWal 3)"

lemma memOpen_ok: "open_ok lw_inv lw_view memOpen"
  using emptyWal_inv by (auto simp: open_ok_def memOpen_def lw_view_def emptyWal_def)

theorem NewTopic_recovers_witness:
  "\<exists>t. NewTopic listWal memOpen ''orders'' ''/data'' DefaultTopicConfig SyncNone = Inr t \<and>
     topic_ok lw_inv lw_view t \<and> NumPartitions t = 4"
proof -
  have "open_partitions (\<lambda>i. NewPartition listWal memOpen i ''orders'' ''/data'' ModeFIFO SyncNone) j n acc
      \<noteq> Inl e" for j n acc e
    by (induction n arbitrary: j acc)
      (simp_all add: NewPartition_def memOpen_def listWal_def)
  then obtain ps where "open_partitions
      (\<lambda>i. NewPartition listWal memOpen i ''orders'' ''/data'' ModeFIFO SyncNone) 0 4 [] = Inr ps"
    by (metis sum.exhaust)
  then obtain t where t: "NewTopic listWal memOpen ''orders'' ''/data'' DefaultTopicConfig SyncNone = Inr t"
    by (simp add: NewTopic_def Let_def effectivePartitions_def DefaultTopicConfig_def)
  from NewTopic_recovers [OF listWal_laws memOpen_ok t] t show ?thesis
    by (simp add: DefaultTopicConfig_def)
qed

end
