(* ===== verification/OffsetStore.thy ===== *)
theory OffsetStore
  imports Prelude "HOL-Library.AList" "HOL-Library.Sublist"
begin

text \<open>
  Consumer offsets, \<^verbatim>\<open>pkg/broker/offset_store.go\<close>: an in-memory cache in front of a
  key-value database. The database (BadgerDB) is a parameter: its operations are a record,
  what the store relies on is the predicate \<^verbatim>\<open>kv_laws\<close> over a view of the database as a
  partial map. The two concurrent maps are association lists with distinct keys whose
  order stands for the iteration order; each method is a state transformer and the
  background loop calls \<^verbatim>\<open>dump\<close> between them.

  The lemmas show that commits and loads behave like a map indexed by group, topic and
  partition as long as topic names have no slash, that the commit floor is the minimum
  over the groups, and what survives a restart.
\<close>

subsection \<open>The database\<close>

record 'd kv_ops =
  kvUpdate :: "'d \<Rightarrow> string \<Rightarrow> bytes \<Rightarrow> err option \<times> 'd"
  kvWriteBatch :: "'d \<Rightarrow> (string \<times> bytes option) list \<Rightarrow> err option \<times> 'd"
  kvScan :: "'d \<Rightarrow> string \<Rightarrow> err + (string \<times> bytes) list"
  kvClose :: "'d \<Rightarrow> err option \<times> 'd"

text \<open>The effect of a write batch on a partial map: sets and deletes in order.\<close>

definition apply_batch :: "(string \<times> 'v option) list \<Rightarrow> (string \<rightharpoonup> 'v) \<Rightarrow> (string \<rightharpoonup> 'v)" where
  "apply_batch b m = foldl (\<lambda>m' (k, v). m'(k := v)) m b"

definition kv_laws :: "'d kv_ops \<Rightarrow> ('d \<Rightarrow> (string \<rightharpoonup> bytes)) \<Rightarrow> bool" where
  "kv_laws K view \<longleftrightarrow>
     (\<forall>d k v r d'. kvUpdate K d k v = (r, d') \<longrightarrow>
        view d' = (if r = None then (view d)(k \<mapsto> v) else view d)) \<and>
     (\<forall>d b d'. kvWriteBatch K d b = (None, d') \<longrightarrow> view d' = apply_batch b (view d)) \<and>
     (\<forall>d p xs. kvScan K d p = Inr xs \<longrightarrow> distinct (map fst xs) \<and>
        map_of xs = (\<lambda>k. if prefix p k then view d k else None))"

subsection \<open>The store\<close>

record 'd ostore =
  odb :: 'd
  ocache :: "(string \<times> i64) list"
  lastCommit :: "(string \<times> gotime) list"
  dumpInterval :: int

definition offsetsPrefix :: string where "offsetsPrefix = ''off/''"

definition badgerKey :: "string \<Rightarrow> string" where
  "badgerKey cacheKey = offsetsPrefix @ cacheKey"

text \<open>Decimal printing of an integer (\<^verbatim>\<open>%d\<close>).\<close>

definition digit :: "nat \<Rightarrow> char" where
  "digit d = char_of (48 + d)"

fun nat_dec :: "nat \<Rightarrow> string" where
  "nat_dec n = (if n < 10 then [digit n] else nat_dec (n div 10) @ [digit (n mod 10)])"

declare nat_dec.simps [simp del]

definition int_dec :: "int \<Rightarrow> string" where
  "int_dec i = (if i < 0 then ''-'' @ nat_dec (nat (- i)) else nat_dec (nat i))"

definition bucketKey :: "string \<Rightarrow> int \<Rightarrow> string \<Rightarrow> string" where
  "bucketKey topic part grp = topic @ ''/'' @ int_dec part @ ''/'' @ grp"

text \<open>Warming the cache from the scanned entries; values of another length are skipped.\<close>

definition warm :: "(string \<times> bytes) list \<Rightarrow> (string \<times> i64) list" where
  "warm xs = foldl (\<lambda>c (k, v). if length v = 8 then AList.update (drop (length offsetsPrefix) k) (be_get v) c
                                else c) [] xs"

definition NewOffsetStore :: "'d kv_ops \<Rightarrow> err + 'd \<Rightarrow> int option \<Rightarrow> err + 'd ostore" where
  "NewOffsetStore K opened interval =
     (case opened of
        Inl e \<Rightarrow> Inl e
      | Inr d \<Rightarrow>
          (case kvScan K d offsetsPrefix of
             Inl e \<Rightarrow> Inl e
           | Inr xs \<Rightarrow>
               Inr \<lparr>odb = d, ocache = warm xs, lastCommit = [],
                    dumpInterval = (case interval of Some i \<Rightarrow> if i > 0 then i else 0 | None \<Rightarrow> 0)\<rparr>))"

definition writeOne :: "'d kv_ops \<Rightarrow> string \<Rightarrow> i64 \<Rightarrow> 'd ostore \<Rightarrow> err option \<times> 'd ostore" where
  "writeOne K key off s =
     (let (e, d) = kvUpdate K (odb s) (badgerKey key) (be_put 8 off) in (e, s\<lparr>odb := d\<rparr>))"

definition Commit :: "'d kv_ops \<Rightarrow> gotime \<Rightarrow> string \<Rightarrow> string \<Rightarrow> int \<Rightarrow> i64 \<Rightarrow> 'd ostore \<Rightarrow>
    err option \<times> 'd ostore" where
  "Commit K now grp topic part off s =
     (let key = bucketKey topic part grp;
          s1 = s\<lparr>ocache := AList.update key off (ocache s), lastCommit := AList.update key now (lastCommit s)\<rparr>
      in if dumpInterval s > 0 then (None, s1) else writeOne K key off s1)"

definition Load :: "string \<Rightarrow> string \<Rightarrow> int \<Rightarrow> 'd ostore \<Rightarrow> err + i64" where
  "Load grp topic part s =
     (case map_of (ocache s) (bucketKey topic part grp) of
        Some v \<Rightarrow> Inr v
      | None \<Rightarrow> Inl ErrOffsetNotFound)"

definition floorPrefix :: "string \<Rightarrow> int \<Rightarrow> string" where
  "floorPrefix topic part = topic @ ''/'' @ int_dec part @ ''/''"

definition MaxInt64 :: i64 where "MaxInt64 = 0x7FFFFFFFFFFFFFFF"

definition CommitFloor :: "string \<Rightarrow> int \<Rightarrow> 'd ostore \<Rightarrow> i64" where
  "CommitFloor topic part s =
     (let (minOffset, found) =
        foldl (\<lambda>(m, found) (key, off).
                 if prefix (floorPrefix topic part) key
                 then (if sint off < sint m then off else m, True) else (m, found))
              (MaxInt64, False) (ocache s)
      in if found then minOffset else 0)"

definition DeleteTopicOffsets :: "'d kv_ops \<Rightarrow> string \<Rightarrow> 'd ostore \<Rightarrow> 'd ostore" where
  "DeleteTopicOffsets K topic s =
     (let ks = filter (prefix (topic @ ''/'')) (map fst (ocache s));
          c = foldl (\<lambda>c k. AList.delete k c) (ocache s) ks;
          (_, d) = kvWriteBatch K (odb s) (map (\<lambda>k. (badgerKey k, None)) ks)
      in s\<lparr>ocache := c, odb := d\<rparr>)"

definition dump :: "'d kv_ops \<Rightarrow> 'd ostore \<Rightarrow> err option \<times> 'd ostore" where
  "dump K s =
     (if ocache s = [] then (None, s)
      else let (e, d) = kvWriteBatch K (odb s) (map (\<lambda>(k, v). (badgerKey k, Some (be_put 8 v))) (ocache s))
           in (e, s\<lparr>odb := d\<rparr>))"

definition ExpireSessions :: "gotime \<Rightarrow> int \<Rightarrow> 'd ostore \<Rightarrow> 'd ostore" where
  "ExpireSessions now timeout s =
     (let gone = map fst (filter (\<lambda>(k, t). t < now - timeout) (lastCommit s))
      in s\<lparr>ocache := foldl (\<lambda>c k. AList.delete k c) (ocache s) gone,
           lastCommit := foldl (\<lambda>c k. AList.delete k c) (lastCommit s) gone\<rparr>)"

definition CloseStore :: "'d kv_ops \<Rightarrow> 'd ostore \<Rightarrow> err option \<times> 'd ostore" where
  "CloseStore K s =
     (let s1 = (if dumpInterval s > 0 then snd (dump K s) else s);
          (e, d) = kvClose K (odb s1)
      in (e, s1\<lparr>odb := d\<rparr>))"

subsection \<open>Keys\<close>

lemma of_char_digit: "d < 10 \<Longrightarrow> (of_char (digit d) :: nat) = 48 + d"
  by (simp add: digit_def of_char_of)

definition dec_value :: "string \<Rightarrow> nat" where
  "dec_value s = foldl (\<lambda>a c. 10 * a + (of_char c - 48)) 0 s"

lemma dec_value_nat_dec: "dec_value (nat_dec n) = n"
proof (induction n rule: nat_dec.induct)
  case (1 n)
  show ?case
  proof (cases "n < 10")
    case True
    then show ?thesis by (simp add: nat_dec.simps [of n] dec_value_def of_char_digit)
  next
    case False
    then have "dec_value (nat_dec n) = 10 * dec_value (nat_dec (n div 10)) + n mod 10"
      by (simp add: nat_dec.simps [of n] dec_value_def of_char_digit)
    with 1 [OF False] show ?thesis by simp
  qed
qed

lemma set_nat_dec: "set (nat_dec n) \<subseteq> digit ` {..<10}"
proof (induction n rule: nat_dec.induct)
  case (1 n)
  show ?case
  proof (cases "n < 10")
    case True
    then show ?thesis by (simp add: nat_dec.simps [of n])
  next
    case False
    then have "set (nat_dec n) = insert (digit (n mod 10)) (set (nat_dec (n div 10)))"
      by (simp add: nat_dec.simps [of n])
    moreover have "digit (n mod 10) \<in> digit ` {..<10}" by simp
    ultimately show ?thesis using 1 [OF False] by simp
  qed
qed

lemma digit_distinct: "d < 10 \<Longrightarrow> digit d \<noteq> CHR ''/''" "d < 10 \<Longrightarrow> digit d \<noteq> CHR ''-''"
  using of_char_digit [of d] by auto

lemma nat_dec_chars: "CHR ''/'' \<notin> set (nat_dec n)" "CHR ''-'' \<notin> set (nat_dec n)"
proof -
  have "c \<notin> set (nat_dec n)" if "\<And>d. d < 10 \<Longrightarrow> digit d \<noteq> c" for c
    using set_nat_dec [of n] that by blast
  then show "CHR ''/'' \<notin> set (nat_dec n)" "CHR ''-'' \<notin> set (nat_dec n)"
    using digit_distinct by blast+
qed

lemma int_dec_no_slash: "CHR ''/'' \<notin> set (int_dec i)"
  using nat_dec_chars by (simp add: int_dec_def)

lemma int_dec_inj: "int_dec i = int_dec j \<Longrightarrow> i = j"
proof -
  assume eq: "int_dec i = int_dec j"
  have val: "nat a = nat b" if "nat_dec (nat a) = nat_dec (nat b)" for a b
    using arg_cong [OF that, of dec_value] by (simp add: dec_value_nat_dec)
  have "(i < 0) = (j < 0)"
  proof (rule ccontr)
    assume "(i < 0) \<noteq> (j < 0)"
    then have "CHR ''-'' \<in> set (nat_dec (nat i)) \<or> CHR ''-'' \<in> set (nat_dec (nat j))"
      using arg_cong [OF eq, of set] by (auto simp: int_dec_def split: if_splits)
    with nat_dec_chars(2) show False by blast
  qed
  then show "i = j"
    using eq val [of "- i" "- j"] val [of i j] by (auto simp: int_dec_def split: if_splits)
qed

lemma split_at_slash:
  assumes "CHR ''/'' \<notin> set a" and "CHR ''/'' \<notin> set b" and "a @ CHR ''/'' # x = b @ CHR ''/'' # y"
  shows "a = b \<and> x = y"
proof -
  have "takeWhile (\<lambda>c. c \<noteq> CHR ''/'') (a @ CHR ''/'' # x) = a"
    "takeWhile (\<lambda>c. c \<noteq> CHR ''/'') (b @ CHR ''/'' # y) = b"
    using assms(1,2) by (simp_all add: takeWhile_append takeWhile_eq_all_conv [THEN iffD2] in_set_conv_decomp)
  with assms(3) show ?thesis by auto
qed

lemma bucketKey_inj:
  assumes "CHR ''/'' \<notin> set topic" and "CHR ''/'' \<notin> set topic'"
    and "bucketKey topic part grp = bucketKey topic' part' grp'"
  shows "topic = topic' \<and> part = part' \<and> grp = grp'"
proof -
  from assms(3) have "topic @ CHR ''/'' # (int_dec part @ CHR ''/'' # grp) =
      topic' @ CHR ''/'' # (int_dec part' @ CHR ''/'' # grp')" by (simp add: bucketKey_def)
  from split_at_slash [OF assms(1,2) this] have t: "topic = topic'"
    and "int_dec part @ CHR ''/'' # grp = int_dec part' @ CHR ''/'' # grp'" by auto
  from split_at_slash [OF int_dec_no_slash int_dec_no_slash this(2)] t int_dec_inj
  show ?thesis by auto
qed

subsection \<open>Association lists\<close>

lemma map_of_update [simp]: "map_of (AList.update k v xs) = (map_of xs)(k \<mapsto> v)"
  by (rule AList.update_conv')

lemma map_of_delete [simp]: "map_of (AList.delete k xs) = (map_of xs)(k := None)"
  by (rule AList.delete_conv')

lemma map_of_deletes:
  "map_of (foldl (\<lambda>c k. AList.delete k c) xs ks) k = (if k \<in> set ks then None else map_of xs k)"
  by (induction ks arbitrary: xs) auto

definition store_ok :: "'d ostore \<Rightarrow> bool" where
  "store_ok s \<longleftrightarrow> distinct (map fst (ocache s)) \<and> distinct (map fst (lastCommit s))"

lemma distinct_deletes:
  "distinct (map fst xs) \<Longrightarrow> distinct (map fst (foldl (\<lambda>c k. AList.delete k c) xs ks))"
  by (induction ks arbitrary: xs) (auto simp: AList.distinct_delete)

subsection \<open>Commits and loads\<close>

lemma Commit_cache:
  "ocache (snd (Commit K now grp topic part off s)) = AList.update (bucketKey topic part grp) off (ocache s)"
  "lastCommit (snd (Commit K now grp topic part off s)) =
     AList.update (bucketKey topic part grp) now (lastCommit s)"
  by (simp_all add: Commit_def writeOne_def Let_def split: prod.splits)

lemma Commit_ok: "store_ok s \<Longrightarrow> store_ok (snd (Commit K now grp topic part off s))"
  by (simp add: store_ok_def Commit_cache AList.distinct_update)

text \<open>
  The store is a map from group, topic and partition to offsets: a load returns the
  last offset committed under the same three names, whether or not the database write
  succeeded, and a commit changes no other entry as long as topic names have no slash.
\<close>

theorem Load_Commit:
  assumes "CHR ''/'' \<notin> set topic" and "CHR ''/'' \<notin> set topic'"
  shows "Load grp' topic' part' (snd (Commit K now grp topic part off s)) =
    (if grp' = grp \<and> topic' = topic \<and> part' = part then Inr off else Load grp' topic' part' s)"
  using bucketKey_inj [OF assms(2,1), of part' grp' part grp]
  by (auto simp: Load_def Commit_cache)

lemma prefix_floor_iff:
  "prefix (floorPrefix topic part) key \<longleftrightarrow> (\<exists>grp. key = bucketKey topic part grp)"
  by (auto simp: prefix_def floorPrefix_def bucketKey_def)

definition floor_step :: "string \<Rightarrow> i64 \<times> bool \<Rightarrow> string \<times> i64 \<Rightarrow> i64 \<times> bool" where
  "floor_step pre = (\<lambda>(m, found) (key, off).
     if prefix pre key then (if sint off < sint m then off else m, True) else (m, found))"

lemma floor_fold:
  assumes "foldl (floor_step pre) (m0, f0) xs = (m, f)"
  shows "sint m \<le> sint m0" and "\<And>key off. (key, off) \<in> set xs \<Longrightarrow> prefix pre key \<Longrightarrow> sint m \<le> sint off"
    and "m = m0 \<or> (\<exists>key. (key, m) \<in> set xs \<and> prefix pre key)"
    and "f \<longleftrightarrow> f0 \<or> (\<exists>(key, off) \<in> set xs. prefix pre key)"
proof -
  have "sint m \<le> sint m0 \<and> (\<forall>(key, off) \<in> set xs. prefix pre key \<longrightarrow> sint m \<le> sint off) \<and>
      (m = m0 \<or> (\<exists>key. (key, m) \<in> set xs \<and> prefix pre key)) \<and>
      (f \<longleftrightarrow> f0 \<or> (\<exists>(key, off) \<in> set xs. prefix pre key))"
    using assms
  proof (induction xs arbitrary: m0 f0)
    case (Cons x xs)
    obtain key off where x: "x = (key, off)" by (cases x)
    let ?m1 = "if prefix pre key \<and> sint off < sint m0 then off else m0"
    have "foldl (floor_step pre) (?m1, f0 \<or> prefix pre key) xs = (m, f)"
      using Cons.prems by (auto simp: x floor_step_def split: if_splits)
    from Cons.IH [OF this] show ?case by (fastforce simp: x split: if_splits)
  qed auto
  then show "sint m \<le> sint m0" "\<And>key off. (key, off) \<in> set xs \<Longrightarrow> prefix pre key \<Longrightarrow> sint m \<le> sint off"
    "m = m0 \<or> (\<exists>key. (key, m) \<in> set xs \<and> prefix pre key)"
    "f \<longleftrightarrow> f0 \<or> (\<exists>(key, off) \<in> set xs. prefix pre key)" by auto
qed

lemma sint_le_MaxInt64: "sint (x :: i64) \<le> sint MaxInt64"
  using sint_lt [of x] by (simp add: MaxInt64_def)

lemma Load_in_cache:
  assumes "store_ok s"
  shows "Load grp topic part s = Inr off \<longleftrightarrow> (bucketKey topic part grp, off) \<in> set (ocache s)"
proof -
  have "Load grp topic part s = Inr off \<longleftrightarrow> map_of (ocache s) (bucketKey topic part grp) = Some off"
    by (auto simp: Load_def split: option.splits)
  then show ?thesis using assms by (simp add: store_ok_def map_of_eq_Some_iff)
qed

text \<open>
  The commit floor is the smallest offset any group has committed for the partition,
  and 0 when no group has: truncating before it never removes an entry that some group
  has still to read.
\<close>

theorem CommitFloor_least:
  assumes "store_ok s"
  shows "(\<forall>grp off. Load grp topic part s = Inr off \<longrightarrow> sint (CommitFloor topic part s) \<le> sint off) \<and>
    (if \<exists>grp off. Load grp topic part s = Inr off
     then \<exists>grp. Load grp topic part s = Inr (CommitFloor topic part s)
     else CommitFloor topic part s = 0)"
proof -
  let ?pre = "floorPrefix topic part"
  obtain m f where r: "foldl (floor_step ?pre) (MaxInt64, False) (ocache s) = (m, f)" by fastforce
  note sp = floor_fold [OF r]
  have cf: "CommitFloor topic part s = (if f then m else 0)"
    using r by (simp add: CommitFloor_def floor_step_def)
  have ex: "f \<longleftrightarrow> (\<exists>grp off. Load grp topic part s = Inr off)"
    using sp(4) by (auto simp: Load_in_cache [OF assms] prefix_floor_iff)
  have least: "sint m \<le> sint off" if "Load grp topic part s = Inr off" for grp off
    using sp(2) that by (auto simp: Load_in_cache [OF assms] prefix_floor_iff)
  have "\<exists>grp. Load grp topic part s = Inr m" if "Load grp0 topic part s = Inr off" for grp0 off
  proof (cases "m = MaxInt64")
    case True
    with least [OF that] sint_le_MaxInt64 [of off] have "sint off = sint m" by simp
    then have "off = m" by (simp add: signed_word_eqI)
    with that show ?thesis by blast
  next
    case False
    with sp(3) show ?thesis by (auto simp: Load_in_cache [OF assms] prefix_floor_iff)
  qed
  with cf ex least show ?thesis by auto
qed

subsection \<open>Restart\<close>

lemma warm_fold:
  assumes "distinct (map fst xs)" and "\<forall>k \<in> set (map fst xs). prefix offsetsPrefix k"
  shows "map_of (foldl (\<lambda>c (k, v). if length v = 8
      then AList.update (drop (length offsetsPrefix) k) (be_get v) c else c) c xs) key =
    (case map_of xs (badgerKey key) of
       Some v \<Rightarrow> if length v = 8 then Some (be_get v) else map_of c key
     | None \<Rightarrow> map_of c key)"
  using assms
proof (induction xs arbitrary: c)
  case (Cons x xs)
  obtain k v where x: "x = (k, v)" by (cases x)
  have kp: "k = badgerKey (drop (length offsetsPrefix) k)"
    using Cons.prems(2) by (auto simp: x badgerKey_def prefix_def)
  have nk: "k \<notin> set (map fst xs)" using Cons.prems(1) by (simp add: x)
  then have none: "map_of xs k = None" by (simp add: map_of_eq_None_iff)
  show ?case
  proof (cases "badgerKey key = k")
    case True
    then have "drop (length offsetsPrefix) k = key" by (auto simp: badgerKey_def)
    with Cons True none show ?thesis by (simp add: x)
  next
    case False
    then have "drop (length offsetsPrefix) k \<noteq> key" using kp by auto
    with Cons False show ?thesis by (auto simp: x split: option.splits)
  qed
qed simp

lemma NewOffsetStore_cache:
  assumes "kv_laws K view" and "NewOffsetStore K (Inr d) i = Inr s"
  shows "map_of (ocache s) key =
    (case view d (badgerKey key) of
       Some v \<Rightarrow> if length v = 8 then Some (be_get v) else None | None \<Rightarrow> None)" and "odb s = d"
proof -
  from assms(2) obtain xs where xs: "kvScan K d offsetsPrefix = Inr xs" and s: "ocache s = warm xs" "odb s = d"
    by (auto simp: NewOffsetStore_def split: sum.splits)
  then show "odb s = d" by simp
  from assms(1) xs have x: "distinct (map fst xs)"
    "map_of xs = (\<lambda>k. if prefix offsetsPrefix k then view d k else None)" by (auto simp: kv_laws_def)
  have "prefix offsetsPrefix k" if "k \<in> set (map fst xs)" for k
  proof -
    from that have "map_of xs k \<noteq> None" by (simp add: map_of_eq_None_iff)
    then show ?thesis by (simp add: x(2) split: if_splits)
  qed
  then show "map_of (ocache s) key = (case view d (badgerKey key) of
       Some v \<Rightarrow> if length v = 8 then Some (be_get v) else None | None \<Rightarrow> None)"
    using warm_fold [OF x(1), of "[]" key]
    by (auto simp: s warm_def x(2) badgerKey_def split: option.splits)
qed

lemma apply_batch_sets:
  assumes "distinct (map fst b)"
  shows "apply_batch b m k = (case map_of b k of Some v \<Rightarrow> v | None \<Rightarrow> m k)"
  using assms
proof (induction b arbitrary: m)
  case (Cons x b)
  then have "map_of b (fst x) = None" by (simp add: map_of_eq_None_iff)
  with Cons show ?case
    by (cases x) (auto simp: apply_batch_def split: option.splits)
qed (simp add: apply_batch_def)

lemma badgerKey_inj [simp]: "badgerKey k = badgerKey k' \<longleftrightarrow> k = k'"
  by (simp add: badgerKey_def)

lemma dump_view:
  assumes "kv_laws K view" and "store_ok s" and "dump K s = (None, s')"
    and "map_of (ocache s) key = Some off"
  shows "view (odb s') (badgerKey key) = Some (be_put 8 off)"
proof -
  let ?b = "map (\<lambda>(k, v). (badgerKey k, Some (be_put 8 v))) (ocache s)"
  from assms(4) have "ocache s \<noteq> []" by auto
  with assms(1,3) have v: "view (odb s') = apply_batch ?b (view (odb s))"
    by (auto simp: dump_def kv_laws_def Let_def split: prod.splits)
  have keys: "map fst ?b = map badgerKey (map fst (ocache s))" by (simp add: case_prod_unfold comp_def)
  have "distinct (map fst ?b)"
    unfolding keys using assms(2) by (simp add: store_ok_def distinct_map inj_on_def)
  moreover from assms(4) have "(badgerKey key, Some (be_put 8 off)) \<in> set ?b"
    by (force dest: map_of_SomeD)
  ultimately show ?thesis by (simp add: v apply_batch_sets map_of_eq_Some_iff [THEN iffD2])
qed


lemma ExpireSessions_cache:
  "map_of (ocache (ExpireSessions now timeout s)) key =
     (if \<exists>t. (key, t) \<in> set (lastCommit s) \<and> t < now - timeout then None else map_of (ocache s) key)"
  "odb (ExpireSessions now timeout s) = odb s"
  by (force simp: ExpireSessions_def Let_def map_of_deletes)+

lemma ExpireSessions_ok: "store_ok s \<Longrightarrow> store_ok (ExpireSessions now timeout s)"
  by (simp add: store_ok_def ExpireSessions_def Let_def distinct_deletes)

text \<open>
  Session expiry is only in memory: an offset that was flushed and whose session then
  expires is no longer found, but the database still has it, so a restart brings the
  expired offset back.
\<close>

theorem expired_offset_returns:
  assumes "kv_laws K view" and "store_ok s" and "dump K s = (None, s1)"
    and "Load grp topic part s = Inr off"
    and "(bucketKey topic part grp, t) \<in> set (lastCommit s)" and "t < now - timeout"
    and "NewOffsetStore K (Inr (odb (ExpireSessions now timeout s1))) interval = Inr s2"
  shows "Load grp topic part (ExpireSessions now timeout s1) = Inl ErrOffsetNotFound \<and>
    Load grp topic part s2 = Inr off"
proof -
  have m: "map_of (ocache s) (bucketKey topic part grp) = Some off"
    using assms(4) by (auto simp: Load_def split: option.splits)
  have same: "ocache s1 = ocache s" "lastCommit s1 = lastCommit s"
    using assms(3) by (auto simp: dump_def Let_def split: if_splits prod.splits)
  have "Load grp topic part (ExpireSessions now timeout s1) = Inl ErrOffsetNotFound"
    using assms(5,6) by (auto simp: Load_def ExpireSessions_cache same)
  with dump_view [OF assms(1-3) m] NewOffsetStore_cache(1) [OF assms(1,7)] show ?thesis
    by (simp add: Load_def be_get_put ExpireSessions_cache(2))
qed

text \<open>
  Deleting a topic removes every offset whose key starts with the topic name and a
  slash, from the cache and, when the database accepts the batch, from the database, and
  keeps every other offset. For a topic name without slashes these are its own offsets;
  a topic called \<^verbatim>\<open>a/b\<close> loses its offsets when the topic \<^verbatim>\<open>a\<close> is deleted.
\<close>

theorem DeleteTopicOffsets_exact:
  assumes "store_ok s"
  shows "Load grp topic' part (DeleteTopicOffsets K topic s) =
      (if prefix (topic @ ''/'') (bucketKey topic' part grp) then Inl ErrOffsetNotFound
       else Load grp topic' part s) \<and>
    (CHR ''/'' \<notin> set topic \<longrightarrow> CHR ''/'' \<notin> set topic' \<longrightarrow>
       (prefix (topic @ ''/'') (bucketKey topic' part grp) \<longleftrightarrow> topic' = topic)) \<and>
    store_ok (DeleteTopicOffsets K topic s)"
proof -
  let ?ks = "filter (prefix (topic @ ''/'')) (map fst (ocache s))"
  have c: "ocache (DeleteTopicOffsets K topic s) = foldl (\<lambda>c k. AList.delete k c) (ocache s) ?ks"
    "lastCommit (DeleteTopicOffsets K topic s) = lastCommit s"
    by (simp_all add: DeleteTopicOffsets_def Let_def split: prod.splits)
  have "map_of (ocache s) key = None" if "key \<notin> set (map fst (ocache s))" for key
    using that by (simp add: map_of_eq_None_iff)
  then have "Load grp topic' part (DeleteTopicOffsets K topic s) =
      (if prefix (topic @ ''/'') (bucketKey topic' part grp) then Inl ErrOffsetNotFound
       else Load grp topic' part s)"
    by (auto simp: Load_def c map_of_deletes split: option.splits)
  moreover have "topic' = topic"
    if "CHR ''/'' \<notin> set topic" "CHR ''/'' \<notin> set topic'"
      "prefix (topic @ ''/'') (bucketKey topic' part grp)"
  proof -
    from that(3) obtain z where "topic' @ CHR ''/'' # (int_dec part @ ''/'' @ grp) = topic @ CHR ''/'' # z"
      by (auto simp: prefix_def bucketKey_def)
    from split_at_slash [OF that(2,1) this] show ?thesis by simp
  qed
  moreover have "prefix (topic @ ''/'') (bucketKey topic part grp)"
    by (simp add: bucketKey_def prefix_def)
  moreover have "store_ok (DeleteTopicOffsets K topic s)"
    using assms by (simp add: store_ok_def c distinct_deletes)
  ultimately show ?thesis by blast
qed

subsection \<open>Concrete instances\<close>

text \<open>A database kept in an association list satisfies the laws.\<close>

definition listKV :: "(string \<times> bytes) list kv_ops" where
  "listKV =
     \<lparr>kvUpdate = \<lambda>d k v. (None, AList.update k v d),
      kvWriteBatch = \<lambda>d b. (None, foldl (\<lambda>c (k, v). case v of Some x \<Rightarrow> AList.update k x c
                                                        | None \<Rightarrow> AList.delete k c) d b),
      kvScan = \<lambda>d p. Inr (AList.clearjunk (filter (\<lambda>(k, v). prefix p k) d)),
      kvClose = \<lambda>d. (None, d)\<rparr>"

lemma map_of_filter_fst: "map_of (filter (\<lambda>(k, v). P k) xs) = (\<lambda>k. if P k then map_of xs k else None)"
  by (induction xs) auto

lemma listKV_laws: "kv_laws listKV map_of"
proof -
  have "map_of (foldl (\<lambda>c (k, v). case v of Some x \<Rightarrow> AList.update k x c | None \<Rightarrow> AList.delete k c) d b) =
      apply_batch b (map_of d)" for d :: "(string \<times> bytes) list" and b
  proof (induction b arbitrary: d)
    case (Cons x b)
    obtain k v where "x = (k, v)" by (cases x)
    with Cons show ?case by (cases v) (simp_all add: apply_batch_def)
  qed (simp add: apply_batch_def)
  then show ?thesis
    by (auto simp: kv_laws_def listKV_def map_of_clearjunk distinct_clearjunk map_of_filter_fst)
qed

definition sampleStore :: "(string \<times> bytes) list ostore" where
  "sampleStore = snd (Commit listKV 3 ''h'' ''t'' 0 9 (snd (Commit listKV 2 ''g'' ''t'' 0 5
     \<lparr>odb = [], ocache = [], lastCommit = [], dumpInterval = 10\<rparr>)))"

lemma sampleStore_ok: "store_ok sampleStore"
  unfolding sampleStore_def by (intro Commit_ok) (simp add: store_ok_def)

theorem Load_Commit_witness:
  "CHR ''/'' \<notin> set ''t'' \<and> Load ''g'' ''t'' 0 (snd (Commit listKV 4 ''g'' ''t'' 0 7 sampleStore)) = Inr 7 \<and>
   Load ''h'' ''t'' 0 (snd (Commit listKV 4 ''g'' ''t'' 0 7 sampleStore)) = Inr 9"
proof -
  have "Load ''h'' ''t'' 0 sampleStore = Inr 9" by code_simp
  then show ?thesis
    using Load_Commit [of "''t''" "''t''" "''g''" 0 listKV 4 "''g''" 0 7 sampleStore]
      Load_Commit [of "''t''" "''t''" "''h''" 0 listKV 4 "''g''" 0 7 sampleStore] by simp
qed

theorem CommitFloor_least_witness:
  "store_ok sampleStore \<and> CommitFloor ''t'' 0 sampleStore = 5 \<and>
   sint (CommitFloor ''t'' 0 sampleStore) \<le> sint (9 :: i64)"
proof -
  have v: "Load ''h'' ''t'' 0 sampleStore = Inr 9" "CommitFloor ''t'' 0 sampleStore = 5" by code_simp+
  then show ?thesis using CommitFloor_least [OF sampleStore_ok, of "''t''" 0] sampleStore_ok by blast
qed

lemma sampleStore_restart:
  "fst (dump listKV sampleStore) = None" "Load ''g'' ''t'' 0 sampleStore = Inr 5"
  by code_simp+


theorem expired_offset_returns_witness:
  "Load ''g'' ''t'' 0 (ExpireSessions 20 5 (snd (dump listKV sampleStore))) = Inl ErrOffsetNotFound \<and>
   (\<exists>s2. NewOffsetStore listKV (Inr (odb (ExpireSessions 20 5 (snd (dump listKV sampleStore))))) None = Inr s2 \<and>
     Load ''g'' ''t'' 0 s2 = Inr 5)"
proof -
  let ?s1 = "snd (dump listKV sampleStore)"
  have d: "dump listKV sampleStore = (None, ?s1)"
    using sampleStore_restart(1) by (simp add: prod_eq_iff)
  obtain s2 where s2: "NewOffsetStore listKV (Inr (odb (ExpireSessions 20 5 ?s1))) None = Inr s2"
    by (simp add: NewOffsetStore_def listKV_def)
  have t: "(bucketKey ''t'' 0 ''g'', 2) \<in> set (lastCommit sampleStore)" "(2 :: int) < 20 - 5"
    by code_simp+
  from expired_offset_returns [OF listKV_laws sampleStore_ok d sampleStore_restart(2) t s2] s2
  show ?thesis by blast
qed

theorem DeleteTopicOffsets_exact_witness:
  "store_ok sampleStore \<and> Load ''g'' ''t'' 0 (DeleteTopicOffsets listKV ''t'' sampleStore) = Inl ErrOffsetNotFound \<and>
   Load ''g'' ''t'' 0 (DeleteTopicOffsets listKV ''u'' sampleStore) = Inr 5"
proof -
  have p: "prefix (''t'' @ ''/'') (bucketKey ''t'' 0 ''g'')" "\<not> prefix (''u'' @ ''/'') (bucketKey ''t'' 0 ''g'')"
    by (simp_all add: bucketKey_def)
  show ?thesis
    using DeleteTopicOffsets_exact [OF sampleStore_ok, of "''g''" "''t''" 0 listKV "''t''"]
      DeleteTopicOffsets_exact [OF sampleStore_ok, of "''g''" "''t''" 0 listKV "''u''"]
      sampleStore_ok sampleStore_restart(2) p by simp
qed

end
