(* ===== verification/Backpressure.thy ===== *)
theory Backpressure
  imports Float64
begin

text \<open>
  The backpressure controller, \<^verbatim>\<open>pkg/broker/backpressure.go\<close> with the constants of
  \<^verbatim>\<open>pkg/broker/const.go\<close>. The atomics are fields of a record; partition ids are naturals
  (every balancer returns one). The lemmas show when producers are throttled, that the
  decision is monotone in the predicted loads, that each check is counted once, and that
  a slow log masks an overloaded partition.
\<close>

datatype bp_state = BPOpen | BPWarn | BPClosed

fun bp_rank :: "bp_state \<Rightarrow> nat" where
  "bp_rank BPOpen = 0"
| "bp_rank BPWarn = 1"
| "bp_rank BPClosed = 2"

text \<open>The states are ordered by severity, as the source numbers them.\<close>

instantiation bp_state :: linorder
begin

definition less_eq_bp_state :: "bp_state \<Rightarrow> bp_state \<Rightarrow> bool" where
  "less_eq_bp_state a b \<longleftrightarrow> bp_rank a \<le> bp_rank b"

definition less_bp_state :: "bp_state \<Rightarrow> bp_state \<Rightarrow> bool" where
  "less_bp_state a b \<longleftrightarrow> bp_rank a < bp_rank b"

instance
proof
  fix x y :: bp_state
  show "x \<le> y \<Longrightarrow> y \<le> x \<Longrightarrow> x = y" by (cases x; cases y) (simp_all add: less_eq_bp_state_def)
qed (auto simp: less_eq_bp_state_def less_bp_state_def)

end

definition DefaultBPThreshold :: f64 where "DefaultBPThreshold = f_const (85 / 100)"
definition bpWarnRatio :: f64 where "bpWarnRatio = f_const (9 / 10)"
definition bpFlushLatencyWarnMs :: f64 where "bpFlushLatencyWarnMs = f_const 100"

record system_signal =
  AvgPredictedLoad :: f64
  WALFlushLatencyMs :: f64

record bp_controller =
  threshold :: f64
  predicted :: "f64 list option"
  systemSignal :: "system_signal option"
  bpClosed :: int
  bpWarn :: int
  bpOpen :: int

definition NewBackpressureController :: "f64 \<Rightarrow> bp_controller" where
  "NewBackpressureController t =
     \<lparr>threshold = (if fle t (Fin 0) then DefaultBPThreshold else t), predicted = None,
      systemSignal = None, bpClosed = 0, bpWarn = 0, bpOpen = 0\<rparr>"

definition UpdatePredictions :: "f64 list \<Rightarrow> bp_controller \<Rightarrow> bp_controller" where
  "UpdatePredictions ps bp = bp\<lparr>predicted := Some ps\<rparr>"

definition UpdateSystem :: "system_signal \<Rightarrow> bp_controller \<Rightarrow> bp_controller" where
  "UpdateSystem sig bp = bp\<lparr>systemSignal := Some sig\<rparr>"

definition evaluate :: "bp_controller \<Rightarrow> nat \<Rightarrow> bp_state" where
  "evaluate bp partitionID =
     (let fromLoads =
        (case predicted bp of
           None \<Rightarrow> BPOpen
         | Some loads \<Rightarrow>
             if partitionID \<ge> length loads then BPOpen
             else let load = loads ! partitionID
                  in if flt (threshold bp) load then BPClosed
                     else if flt (fmul (threshold bp) bpWarnRatio) load then BPWarn
                     else BPOpen)
      in case systemSignal bp of
           None \<Rightarrow> fromLoads
         | Some sig \<Rightarrow>
             if flt (threshold bp) (AvgPredictedLoad sig) then BPClosed
             else if flt bpFlushLatencyWarnMs (WALFlushLatencyMs sig) then BPWarn
             else fromLoads)"

definition Check :: "nat \<Rightarrow> bp_controller \<Rightarrow> bp_state \<times> bp_controller" where
  "Check partitionID bp =
     (let state = evaluate bp partitionID
      in (state, case state of
                   BPClosed \<Rightarrow> bp\<lparr>bpClosed := bpClosed bp + 1\<rparr>
                 | BPWarn \<Rightarrow> bp\<lparr>bpWarn := bpWarn bp + 1\<rparr>
                 | BPOpen \<Rightarrow> bp\<lparr>bpOpen := bpOpen bp + 1\<rparr>))"

definition ClosedCount :: "bp_controller \<Rightarrow> int" where "ClosedCount bp = bpClosed bp"
definition WarnCount :: "bp_controller \<Rightarrow> int" where "WarnCount bp = bpWarn bp"
definition OpenCount :: "bp_controller \<Rightarrow> int" where "OpenCount bp = bpOpen bp"

subsection \<open>Decisions\<close>

lemma flt_fle_trans: "flt x y \<Longrightarrow> fle y z \<Longrightarrow> flt x z"
  unfolding flt_def using fle_trans by blast

lemma Check_evaluate: "fst (Check i bp) = evaluate bp i"
  by (simp add: Check_def Let_def)

lemma evaluate_Check: "evaluate (snd (Check i bp)) j = evaluate bp j"
proof -
  have f: "threshold (snd (Check i bp)) = threshold bp" "predicted (snd (Check i bp)) = predicted bp"
    "systemSignal (snd (Check i bp)) = systemSignal bp"
    by (simp_all add: Check_def Let_def split: bp_state.splits)
  show ?thesis unfolding evaluate_def f ..
qed

lemma flt_total: "x \<noteq> NaN \<Longrightarrow> y \<noteq> NaN \<Longrightarrow> \<not> flt x y \<Longrightarrow> fle y x"
  by (cases x; cases y) (auto simp: flt_def)

text \<open>
  Throttling is monotone: for a fixed system signal, raising predicted loads never
  makes the controller more permissive for any partition.
\<close>

theorem evaluate_mono:
  assumes "predicted bp = Some loads" and "predicted bp' = Some loads'"
    and "threshold bp' = threshold bp" and "systemSignal bp' = systemSignal bp"
    and "list_all2 fle loads loads'"
  shows "evaluate bp i \<le> evaluate bp' i"
proof (cases "i < length loads")
  case True
  then have "fle (loads ! i) (loads' ! i)" and "length loads' = length loads"
    using assms(5) by (auto simp: list_all2_conv_all_nth)
  moreover have "flt t (loads ! i) \<Longrightarrow> flt t (loads' ! i)" for t
    using flt_fle_trans calculation(1) by blast
  ultimately show ?thesis
    using True assms(1-4) by (auto simp: evaluate_def Let_def less_eq_bp_state_def split: option.splits)
next
  case False
  then show ?thesis
    using assms list_all2_lengthD [OF assms(5)]
    by (auto simp: evaluate_def less_eq_bp_state_def split: option.splits)
qed

definition sampleBP :: "rat \<Rightarrow> bp_controller" where
  "sampleBP load = UpdatePredictions [Fin load] (NewBackpressureController (Fin (1 / 2)))"

theorem evaluate_mono_witness:
  "list_all2 fle [Fin (1 / 4)] [Fin (3 / 4)] \<and> evaluate (sampleBP (1 / 4)) 0 \<le> evaluate (sampleBP (3 / 4)) 0 \<and>
   evaluate (sampleBP (3 / 4)) 0 = BPClosed"
proof -
  have l: "list_all2 fle [Fin (1 / 4)] [Fin (3 / 4)]" by simp
  have "evaluate (sampleBP (3 / 4)) 0 = BPClosed"
    by (simp add: sampleBP_def evaluate_def UpdatePredictions_def NewBackpressureController_def)
  then show ?thesis
    using evaluate_mono [of "sampleBP (1 / 4)" _ "sampleBP (3 / 4)" _ 0, OF _ _ _ _ l] l
    unfolding sampleBP_def UpdatePredictions_def NewBackpressureController_def by fastforce
qed

text \<open>
  A slow log masks overload: a partition whose predicted load is above the threshold,
  and is therefore closed, is reported as a warning as soon as the flush latency passes
  its warning level, so its producers are admitted again.
\<close>

theorem slow_flush_reopens:
  assumes "predicted bp = Some loads" and "i < length loads" and "flt (threshold bp) (loads ! i)"
    and "systemSignal bp = None"
    and "\<not> flt (threshold bp) (AvgPredictedLoad sig)"
    and "flt bpFlushLatencyWarnMs (WALFlushLatencyMs sig)"
  shows "evaluate bp i = BPClosed \<and> evaluate (UpdateSystem sig bp) i = BPWarn"
  using assms by (simp add: evaluate_def UpdateSystem_def Let_def)

theorem slow_flush_reopens_witness:
  "evaluate (sampleBP (3 / 4)) 0 = BPClosed \<and>
   evaluate (UpdateSystem \<lparr>AvgPredictedLoad = Fin 0, WALFlushLatencyMs = Fin 200\<rparr> (sampleBP (3 / 4))) 0 = BPWarn"
proof -
  have "flt bpFlushLatencyWarnMs (Fin 200)"
    using rnd_int [of 100] by (simp add: bpFlushLatencyWarnMs_def f_const_def)
  then show ?thesis
    using slow_flush_reopens [of "sampleBP (3 / 4)" "[Fin (3 / 4)]" 0
        "\<lparr>AvgPredictedLoad = Fin 0, WALFlushLatencyMs = Fin 200\<rparr>"]
    by (simp add: sampleBP_def UpdatePredictions_def NewBackpressureController_def)
qed

text \<open>Every check is counted exactly once.\<close>

lemma Check_counts:
  "ClosedCount (snd (Check i bp)) + WarnCount (snd (Check i bp)) + OpenCount (snd (Check i bp)) =
   ClosedCount bp + WarnCount bp + OpenCount bp + 1"
  by (simp add: Check_def Let_def ClosedCount_def WarnCount_def OpenCount_def split: bp_state.splits)

end
