(* ===== verification/LoadPredictor.thy ===== *)
theory LoadPredictor
  imports Float64 Prelude "HOL-Library.AList"
begin

text \<open>
  Load prediction, \<^verbatim>\<open>pkg/broker/load_predictor.go\<close>: a ring buffer of load samples per
  partition and an autoregressive forecast with Yule-Walker coefficients (Levinson-Durbin
  recursion), all in \<^verbatim>\<open>float64\<close>. The scratch buffers the code preallocates are rewritten
  before they are read, so the definitions work on lists.

  The concurrent map of histories is an association list; the order in which \<^verbatim>\<open>Range\<close>
  visits it is the argument \<^verbatim>\<open>order\<close>. \<^verbatim>\<open>int(math.Sqrt(float64(n)))\<close> is the integer root,
  which is what the correctly rounded root truncates to for every \<open>n\<close> below \<open>2^52\<close>.
  The lemmas show that the ring keeps the newest samples in order, that forecasts stay
  between 0 and 1, and that the published vector follows the visiting order.
\<close>

subsection \<open>Ring buffer\<close>

record ring_buffer =
  rdata :: "f64 list"
  writeIdx :: nat

definition NewRingBuffer :: "nat \<Rightarrow> ring_buffer" where
  "NewRingBuffer sz = \<lparr>rdata = replicate sz (Fin 0), writeIdx = 0\<rparr>"

definition Push :: "f64 \<Rightarrow> ring_buffer \<Rightarrow> ring_buffer" where
  "Push v rb = rb\<lparr>rdata := (rdata rb)[writeIdx rb mod length (rdata rb) := v],
                  writeIdx := writeIdx rb + 1\<rparr>"

definition copyInto :: "ring_buffer \<Rightarrow> f64 list \<Rightarrow> nat \<Rightarrow> nat \<Rightarrow> nat \<Rightarrow> f64 list" where
  "copyInto rb dst w sz n =
     (if w \<le> sz then slice_write 0 (take n (rdata rb)) dst
      else let start = w mod sz;
               tail = min (sz - start) n;
               d1 = slice_write 0 (subslice start (start + tail) (rdata rb)) dst
           in if tail < n then slice_write tail (take (n - tail) (rdata rb)) d1 else d1)"

definition Values :: "ring_buffer \<Rightarrow> f64 list" where
  "Values rb =
     (let w = writeIdx rb; sz = length (rdata rb); n = min w sz
      in if w = 0 then [] else copyInto rb (replicate n (Fin 0)) w sz n)"

text \<open>\<^verbatim>\<open>ValuesInto\<close> returns the destination and how many of its cells it wrote.\<close>

definition ValuesInto :: "ring_buffer \<Rightarrow> f64 list \<Rightarrow> f64 list \<times> nat" where
  "ValuesInto rb dst =
     (let w = writeIdx rb; sz = length (rdata rb)
      in if w = 0 then (dst, 0)
         else let n = min (min w sz) (length dst)
              in (copyInto rb (take n dst) w sz n @ drop n dst, n))"

definition rb_ok :: "ring_buffer \<Rightarrow> bool" where
  "rb_ok rb \<longleftrightarrow> rdata rb \<noteq> []"

definition samples :: "ring_buffer \<Rightarrow> f64 list" where
  "samples rb = (if writeIdx rb \<le> length (rdata rb) then take (writeIdx rb) (rdata rb)
                 else circ (rdata rb) (writeIdx rb mod length (rdata rb)) (length (rdata rb)))"

lemma samples_ring: "samples rb = ring_items (rdata rb) (writeIdx rb)"
  by (simp add: samples_def ring_items_def)

lemma samples_Push: "rb_ok rb \<Longrightarrow> samples (Push v rb) = keep_last (length (rdata rb)) (samples rb @ [v])"
  using ring_items_put [of "rdata rb" "writeIdx rb" v] by (simp add: samples_ring Push_def rb_ok_def)

lemma length_samples [simp]: "rb_ok rb \<Longrightarrow> length (samples rb) = min (writeIdx rb) (length (rdata rb))"
  by (simp add: samples_def)

interpretation load_ring: bounded_log Push samples "\<lambda>rb. length (rdata rb)" rb_ok
proof
  fix r x assume ok: "rb_ok r"
  show "rb_ok (Push x r)" using ok by (simp add: rb_ok_def Push_def)
  show "length (rdata (Push x r)) = length (rdata r)" by (simp add: Push_def)
  show "samples (Push x r) = keep_last (length (rdata r)) (samples r @ [x])"
    by (rule samples_Push [OF ok])
  show "length (samples r) \<le> length (rdata r)" if "0 < length (rdata r)" using ok by simp
qed

text \<open>Both readers return the samples in chronological order.\<close>

lemma slice_write_all: "length src = length dst \<Longrightarrow> slice_write 0 src dst = src"
  by (simp add: slice_write_def)

lemma copyInto_samples:
  assumes "rb_ok rb" and "0 < writeIdx rb" and "length dst = min (writeIdx rb) (length (rdata rb))"
  shows "copyInto rb dst (writeIdx rb) (length (rdata rb)) (length dst) = samples rb"
proof (cases "writeIdx rb \<le> length (rdata rb)")
  case True
  then show ?thesis using assms by (simp add: copyInto_def samples_def slice_write_all)
next
  case False
  let ?xs = "rdata rb" and ?h = "writeIdx rb mod length (rdata rb)"
  have n: "length dst = length ?xs" using assms False by simp
  have h: "?h < length ?xs" using assms(1) by (simp add: rb_ok_def)
  let ?d1 = "slice_write 0 (subslice ?h (length ?xs) ?xs) dst"
  have sub: "subslice ?h (length ?xs) ?xs = drop ?h ?xs" by (simp add: subslice_def)
  have "copyInto rb dst (writeIdx rb) (length ?xs) (length dst) =
      (if ?h = 0 then ?d1 else slice_write (length ?xs - ?h) (take ?h ?xs) ?d1)"
  proof (cases "?h = 0")
    case hpos: False
    then have "length ?xs - ?h < length ?xs" "?h + (length ?xs - ?h) = length ?xs"
      "length ?xs - (length ?xs - ?h) = ?h" using h by simp_all
    with False n show ?thesis by (simp add: copyInto_def Let_def hpos)
  qed (use False n in \<open>simp add: copyInto_def Let_def\<close>)
  also have "\<dots> = drop ?h ?xs @ take ?h ?xs"
    unfolding sub using n h by (simp add: slice_write_def)
  also have "\<dots> = samples rb" using False h by (simp add: samples_def circ_split)
  finally show ?thesis .
qed

lemma Values_samples: "rb_ok rb \<Longrightarrow> Values rb = samples rb"
  using copyInto_samples [of rb "replicate (min (writeIdx rb) (length (rdata rb))) (Fin 0)"]
  by (auto simp: Values_def Let_def samples_def)

lemma ValuesInto_samples:
  assumes "rb_ok rb" and "length (rdata rb) \<le> length dst"
  shows "take (snd (ValuesInto rb dst)) (fst (ValuesInto rb dst)) = samples rb"
proof (cases "writeIdx rb = 0")
  case True
  then show ?thesis by (simp add: ValuesInto_def samples_def)
next
  case False
  let ?n = "min (writeIdx rb) (length (rdata rb))"
  have n: "min ?n (length dst) = ?n" using assms(2) by simp
  have l: "length (take ?n dst) = ?n" using assms(2) by simp
  from False have "copyInto rb (take ?n dst) (writeIdx rb) (length (rdata rb)) ?n = samples rb"
    using copyInto_samples [OF assms(1), of "take ?n dst"] unfolding l by simp
  with False assms show ?thesis unfolding ValuesInto_def Let_def n by simp
qed

subsection \<open>Forecast\<close>

fun isqrt :: "nat \<Rightarrow> nat" where
  "isqrt 0 = 0"
| "isqrt (Suc n) = (let m = isqrt n in if (m + 1) * (m + 1) \<le> Suc n then m + 1 else m)"

definition eps15 :: f64 where "eps15 = f_const (1 / 10 ^ 15)"

definition mean_of :: "f64 list \<Rightarrow> f64" where
  "mean_of vals = fdiv (fsum vals) (f_int (int (length vals)))"

definition autocorr :: "f64 list \<Rightarrow> f64 \<Rightarrow> nat \<Rightarrow> f64" where
  "autocorr vals mean lag =
     fdiv (foldl (\<lambda>s i. fadd s (fmul (fsub (vals ! i) mean) (fsub (vals ! (i - lag)) mean)))
                 (Fin 0) [lag..<length vals])
          (f_int (int (length vals)))"

text \<open>
  The Levinson-Durbin loop: \<open>a\<close> holds the coefficients found so far (its length is the
  loop counter), \<open>k\<close> counts the iterations left.
\<close>

fun levinson :: "nat \<Rightarrow> f64 list \<Rightarrow> f64 list \<Rightarrow> f64 \<Rightarrow> f64 list" where
  "levinson 0 r a e = a"
| "levinson (Suc k) r a e =
     (if flt e eps15 then a
      else let m = length a;
               s = foldl (\<lambda>s j. fsub s (fmul (a ! j) (r ! (m - j)))) (r ! (m + 1)) [0..<m];
               q = fdiv s e;
               a' = map (\<lambda>j. fsub (a ! j) (fmul q (a ! (m - 1 - j)))) [0..<m] @ [q]
           in levinson k r a' (fmul e (fsub (Fin 1) (fmul q q))))"

definition yuleWalker :: "f64 list \<Rightarrow> f64 \<Rightarrow> nat \<Rightarrow> f64 list option" where
  "yuleWalker vals mean p =
     (let r = map (autocorr vals mean) [0..<p + 1]
      in if flt (r ! 0) eps15 then None
         else let a0 = fdiv (r ! 1) (r ! 0);
                  e = fmul (r ! 0) (fsub (Fin 1) (fmul a0 a0))
              in Some (levinson (p - 1) r [a0] e))"

definition clamp01 :: "f64 \<Rightarrow> f64" where
  "clamp01 x = (let y = (if flt x (Fin 0) then Fin 0 else x) in if flt (Fin 1) y then Fin 1 else y)"

text \<open>The forecasting loop; \<open>buf\<close> is the centred series with the forecasts appended.\<close>

fun forecast :: "nat \<Rightarrow> f64 list \<Rightarrow> f64 \<Rightarrow> f64 list \<Rightarrow> f64 list" where
  "forecast 0 coeffs mean buf = []"
| "forecast (Suc k) coeffs mean buf =
     (let idx = length buf;
          pred = foldl (\<lambda>s j. fadd s (fmul (coeffs ! j) (buf ! (idx - 1 - j)))) (Fin 0) [0..<length coeffs]
      in clamp01 (fadd pred mean) # forecast k coeffs mean (buf @ [pred]))"

definition arPredict :: "nat \<Rightarrow> f64 list \<Rightarrow> nat \<Rightarrow> f64 list" where
  "arPredict window vals horizon =
     (let n = length vals
      in if n = 0 then replicate horizon (Fin 0)
         else let mean = mean_of vals;
                  p = min (isqrt n) (max 1 (window div 4))
              in if p < 1 \<or> n < 2 * p then replicate horizon mean
                 else case yuleWalker vals mean p of
                        None \<Rightarrow> replicate horizon mean
                      | Some coeffs \<Rightarrow> forecast horizon coeffs mean (map (\<lambda>v. fsub v mean) vals))"

subsection \<open>The predictor\<close>

record prediction =
  PartitionID :: nat
  Current :: f64
  Predicted :: "f64 list"

record load_predictor =
  predictions :: "prediction list"
  history :: "(nat \<times> ring_buffer) list"
  window :: nat
  horizon :: nat

definition NewLoadPredictor :: "nat \<Rightarrow> nat \<Rightarrow> load_predictor" where
  "NewLoadPredictor w h = \<lparr>predictions = [], history = [], window = w, horizon = h\<rparr>"

definition push_load :: "nat \<Rightarrow> nat \<times> f64 \<Rightarrow> (nat \<times> ring_buffer) list \<Rightarrow> (nat \<times> ring_buffer) list" where
  "push_load w il hist =
     (case il of (i, load) \<Rightarrow>
        AList.update i (Push load (case map_of hist i of Some rb \<Rightarrow> rb | None \<Rightarrow> NewRingBuffer w)) hist)"

definition predict_one :: "load_predictor \<Rightarrow> nat \<times> ring_buffer \<Rightarrow> prediction" where
  "predict_one lp ib =
     (case ib of (i, rb) \<Rightarrow>
        (let (buf, n) = ValuesInto rb (replicate (window lp) (Fin 0)); vals = take n buf
         in \<lparr>PartitionID = i,
             Current = (if n > 0 then vals ! (n - 1) else Fin 0),
             Predicted = arPredict (window lp) vals (horizon lp)\<rparr>))"

text \<open>\<open>order\<close> rearranges the histories into the order in which \<^verbatim>\<open>Range\<close> visits them.\<close>

definition predict :: "((nat \<times> ring_buffer) list \<Rightarrow> (nat \<times> ring_buffer) list) \<Rightarrow>
    load_predictor \<Rightarrow> load_predictor" where
  "predict order lp = lp\<lparr>predictions := map (predict_one lp) (order (history lp))\<rparr>"

definition UpdateLoads :: "((nat \<times> ring_buffer) list \<Rightarrow> (nat \<times> ring_buffer) list) \<Rightarrow>
    f64 list \<Rightarrow> load_predictor \<Rightarrow> load_predictor" where
  "UpdateLoads order loads lp =
     predict order (lp\<lparr>history := foldl (\<lambda>h il. push_load (window lp) il h) (history lp)
                                    (zip [0..<length loads] loads)\<rparr>)"

definition PredictAll :: "load_predictor \<Rightarrow> f64 list" where
  "PredictAll lp =
     map (\<lambda>p. if Predicted p \<noteq> [] then Predicted p ! 0 else Current p) (predictions lp)"

definition RemovePartitionHistory :: "nat \<Rightarrow> load_predictor \<Rightarrow> load_predictor" where
  "RemovePartitionHistory i lp = lp\<lparr>history := AList.delete i (history lp)\<rparr>"

subsection \<open>Ranges\<close>

definition unit_load :: "f64 \<Rightarrow> bool" where
  "unit_load x = (case x of Fin q \<Rightarrow> 0 \<le> q \<and> q \<le> 1 | _ \<Rightarrow> False)"

lemma unit_loadE: "unit_load x \<Longrightarrow> (\<And>q. x = Fin q \<Longrightarrow> 0 \<le> q \<Longrightarrow> q \<le> 1 \<Longrightarrow> P) \<Longrightarrow> P"
  by (cases x) (auto simp: unit_load_def)

lemma fsum_snoc: "fsum (xs @ [x]) = fadd (fsum xs) x"
  by (simp add: fsum_def)

lemma fsum_unit:
  assumes "list_all unit_load vals" and "int (length vals) \<le> 2 ^ 53"
  obtains q where "fsum vals = Fin q" "0 \<le> q" "q \<le> of_nat (length vals)"
  using assms
proof (induction vals arbitrary: thesis rule: rev_induct)
  case Nil
  then show ?case by (simp add: fsum_def)
next
  case (snoc v vals)
  from snoc.prems obtain b where b: "v = Fin b" "0 \<le> b" "b \<le> 1" by (auto elim: unit_loadE)
  from snoc.IH snoc.prems(2,3) obtain a where
    a: "fsum vals = Fin a" "0 \<le> a" "a \<le> of_nat (length vals)" by auto
  let ?n = "int (length vals) + 1"
  have up: "fle (rnd (a + b)) (rnd (of_int ?n))" using a b by (intro rnd_mono) simp
  have ex: "rnd (of_int ?n) = Fin (of_int ?n)" using snoc.prems(3) by (intro rnd_int) simp
  have "fle (Fin 0) (rnd (a + b))" using a b by (intro rnd_nonneg) simp
  from fle_Fin_between [OF this up [unfolded ex]]
  obtain q where "rnd (a + b) = Fin q" "0 \<le> q" "q \<le> of_int ?n" by blast
  then show ?case using a b by (intro snoc.prems(1)) (simp_all add: fsum_snoc add.commute)
qed

lemma mean_of_unit:
  assumes "list_all unit_load vals" and "vals \<noteq> []" and "int (length vals) \<le> 2 ^ 53"
  shows "unit_load (mean_of vals)"
proof -
  from fsum_unit [OF assms(1,3)] obtain q where
    q: "fsum vals = Fin q" "0 \<le> q" "q \<le> of_nat (length vals)" .
  have n: "f_int (int (length vals)) = Fin (of_nat (length vals))"
    using rnd_int [of "int (length vals)"] assms(3) by (simp add: f_int_def)
  have "0 < (of_nat (length vals) :: rat)" using assms(2) by simp
  from fdiv_unit [OF q(2,3) this] show ?thesis
    by (metis f64.case(3) mean_of_def n q(1) unit_load_def)
qed

definition load_or_nan :: "f64 \<Rightarrow> bool" where
  "load_or_nan x \<longleftrightarrow> x = NaN \<or> unit_load x"

lemma clamp01_range: "load_or_nan (clamp01 x)"
  by (cases x) (auto simp: clamp01_def load_or_nan_def unit_load_def flt_def)

lemma forecast_range: "length (forecast k c m b) = k \<and> list_all load_or_nan (forecast k c m b)"
  by (induction k arbitrary: b) (simp_all add: Let_def clamp01_range)

lemma arPredict_range:
  assumes "list_all unit_load vals" and "int (length vals) \<le> 2 ^ 53"
  shows "length (arPredict w vals h) = h \<and> list_all load_or_nan (arPredict w vals h)"
proof (cases "vals = []")
  case True
  then show ?thesis by (simp add: arPredict_def load_or_nan_def unit_load_def list_all_iff)
next
  case False
  have "load_or_nan (mean_of vals)"
    using mean_of_unit [OF assms(1) False assms(2)] by (simp add: load_or_nan_def)
  then have "list_all load_or_nan (replicate h (mean_of vals))" by (simp add: list_all_iff)
  with False show ?thesis
    by (simp add: arPredict_def Let_def forecast_range split: option.splits)
qed

definition hist_ok :: "nat \<Rightarrow> (nat \<times> ring_buffer) list \<Rightarrow> bool" where
  "hist_ok w hist \<longleftrightarrow>
     (\<forall>(i, rb) \<in> set hist. length (rdata rb) = w \<and> list_all unit_load (samples rb))"

lemma set_update_subset: "set (AList.update k v xs) \<subseteq> insert (k, v) (set xs)"
  by (induction xs) auto

definition predictor_ok :: "load_predictor \<Rightarrow> bool" where
  "predictor_ok lp \<longleftrightarrow> 0 < window lp \<and> int (window lp) \<le> 2 ^ 53 \<and>
     hist_ok (window lp) (history lp)"

lemma NewLoadPredictor_ok: "0 < w \<Longrightarrow> int w \<le> 2 ^ 53 \<Longrightarrow> predictor_ok (NewLoadPredictor w h)"
  by (simp add: predictor_ok_def NewLoadPredictor_def hist_ok_def)

lemma Push_unit:
  assumes "0 < w" and "length (rdata rb) = w" and "list_all unit_load (samples rb)" and "unit_load v"
  shows "length (rdata (Push v rb)) = w \<and> list_all unit_load (samples (Push v rb))"
proof -
  have ok: "rb_ok rb" using assms by (auto simp: rb_ok_def)
  have "set (keep_last w (samples rb @ [v])) \<subseteq> set (samples rb @ [v])" by (rule set_keep_last)
  then show ?thesis
    using load_ring.items_put [OF ok, of v] load_ring.bound_put [OF ok, of v] assms
    by (auto simp: list_all_iff)
qed

lemma push_load_ok:
  assumes "0 < w" and "unit_load v"
    and "hist_ok w hist"
  shows "hist_ok w (push_load w (k, v) hist)"
proof -
  let ?rb = "case map_of hist k of Some rb \<Rightarrow> rb | None \<Rightarrow> NewRingBuffer w"
  have "length (rdata ?rb) = w \<and> list_all unit_load (samples ?rb)"
  proof (cases "map_of hist k")
    case None
    then show ?thesis by (simp add: NewRingBuffer_def samples_def)
  next
    case (Some rb)
    then show ?thesis using assms(3) map_of_SomeD [OF Some] by (fastforce simp: hist_ok_def)
  qed
  then have "length (rdata (Push v ?rb)) = w \<and> list_all unit_load (samples (Push v ?rb))"
    using Push_unit assms(1,2) by blast
  moreover have "set (push_load w (k, v) hist) \<subseteq> insert (k, Push v ?rb) (set hist)"
    using set_update_subset [of k "Push v ?rb" hist] by (simp add: push_load_def)
  ultimately show ?thesis using assms(3) unfolding hist_ok_def by blast
qed

lemma UpdateLoads_ok:
  assumes "predictor_ok lp" and "list_all unit_load loads"
  shows "predictor_ok (UpdateLoads order loads lp)"
proof -
  have "hist_ok (window lp) (foldl (\<lambda>h il. push_load (window lp) il h) hist (zip ids loads))"
    if "hist_ok (window lp) hist" for hist ids
    using assms(2) that
  proof (induction loads arbitrary: hist ids)
    case (Cons l loads)
    show ?case
    proof (cases ids)
      case Nil
      then show ?thesis using Cons.prems by simp
    next
      case (Cons i js)
      have "0 < window lp" using assms(1) by (simp add: predictor_ok_def)
      with Cons.prems(2) push_load_ok [OF _ _ Cons.prems(2), of l i] Cons.prems(1) Cons.IH
      show ?thesis by (simp add: Cons)
    qed
  qed simp
  with assms(1) show ?thesis by (simp add: predictor_ok_def UpdateLoads_def predict_def)
qed

lemma predict_one_range:
  assumes "0 < w" and "int w \<le> 2 ^ 53" and "window lp = w"
    and "length (rdata rb) = w" and "list_all unit_load (samples rb)"
  shows "list_all load_or_nan (Predicted (predict_one lp (i, rb)))"
    and "length (Predicted (predict_one lp (i, rb))) = horizon lp"
    and "load_or_nan (Current (predict_one lp (i, rb)))"
proof -
  have ok: "rb_ok rb" using assms(1,4) by (auto simp: rb_ok_def)
  obtain buf n where v: "ValuesInto rb (replicate w (Fin 0)) = (buf, n)" by fastforce
  with ValuesInto_samples [OF ok, of "replicate w (Fin 0)"] assms(4)
  have vals: "take n buf = samples rb" by simp
  have len: "int (length (samples rb)) \<le> 2 ^ 53" using ok assms(2,4) by simp
  note ar = arPredict_range [OF assms(5) len, of w "horizon lp"]
  then show "list_all load_or_nan (Predicted (predict_one lp (i, rb)))"
    "length (Predicted (predict_one lp (i, rb))) = horizon lp"
    by (simp_all add: predict_one_def assms(3) v vals Let_def)
  show "load_or_nan (Current (predict_one lp (i, rb)))"
  proof (cases "0 < n \<and> samples rb \<noteq> []")
    case True
    have "n \<le> w" using v assms(4) by (auto simp: ValuesInto_def Let_def split: if_splits)
    moreover have "length buf = w"
      using v assms(4) copyInto_samples [OF ok, of "take n (replicate w (Fin 0))"] ok
      by (auto simp: ValuesInto_def Let_def split: if_splits)
    ultimately have "length (samples rb) = n" using arg_cong [OF vals, of length] by simp
    with True have "samples rb ! (n - 1) \<in> set (samples rb)" by simp
    then show ?thesis using True assms(5)
      by (simp add: predict_one_def assms(3) v vals load_or_nan_def list_all_iff Let_def)
  next
    case False
    have "n = 0" if "samples rb = []"
    proof -
      from that length_samples [OF ok] assms(1,4) have "writeIdx rb = 0" by simp
      with v show "n = 0" by (simp add: ValuesInto_def)
    qed
    with False show ?thesis
      by (auto simp: predict_one_def assms(3) v vals load_or_nan_def unit_load_def Let_def)
  qed
qed

text \<open>
  Forecasts are loads: as long as the observed loads lie between 0 and 1, every value
  the predictor publishes lies between 0 and 1 or is not a number, under IEEE rounding and
  for every visiting order; with a positive horizon there is one per recorded partition.
\<close>

theorem PredictAll_range:
  assumes "predictor_ok lp" and "list_all unit_load loads"
    and "set (order (history (UpdateLoads order loads lp))) \<subseteq> set (history (UpdateLoads order loads lp))"
  shows "list_all load_or_nan (PredictAll (UpdateLoads order loads lp)) \<and>
    predictor_ok (UpdateLoads order loads lp)"
proof -
  let ?lp = "UpdateLoads order loads lp"
  let ?h = "history ?lp" and ?base = "lp\<lparr>history := history ?lp\<rparr>"
  note ok = UpdateLoads_ok [OF assms(1,2), of order]
  define H where "H = foldl (\<lambda>h il. push_load (window lp) il h) (history lp) (zip [0..<length loads] loads)"
  have eq: "?lp = lp\<lparr>history := H, predictions := map (predict_one (lp\<lparr>history := H\<rparr>)) (order H)\<rparr>"
    by (simp add: UpdateLoads_def predict_def H_def)
  have w: "window ?lp = window lp" "window ?base = window lp" unfolding eq by simp_all
  have preds: "predictions ?lp = map (predict_one ?base) (order ?h)"
    unfolding eq by simp
  have "load_or_nan (if Predicted p \<noteq> [] then Predicted p ! 0 else Current p)"
    if "p \<in> set (predictions ?lp)" for p
  proof -
    from that preds assms(3) obtain i rb where
      p: "p = predict_one ?base (i, rb)" and "(i, rb) \<in> set ?h" by auto
    then have "length (rdata rb) = window lp" "list_all unit_load (samples rb)"
      using ok by (auto simp: predictor_ok_def hist_ok_def w)
    moreover have "0 < window lp" "int (window lp) \<le> 2 ^ 53" using assms(1) by (simp_all add: predictor_ok_def)
    ultimately have "list_all load_or_nan (Predicted p)" "load_or_nan (Current p)"
      unfolding p using predict_one_range [OF _ _ w(2)] by blast+
    then show ?thesis by (simp add: list_all_length)
  qed
  then have "list_all load_or_nan (PredictAll ?lp)"
    unfolding PredictAll_def list_all_iff set_map by blast
  with ok show ?thesis by simp
qed

theorem PredictAll_range_witness:
  "predictor_ok (NewLoadPredictor 4 2) \<and> list_all unit_load [Fin 0, Fin 1] \<and>
   list_all load_or_nan (PredictAll (UpdateLoads id [Fin 0, Fin 1] (NewLoadPredictor 4 2)))"
proof -
  have h: "predictor_ok (NewLoadPredictor 4 2)" "list_all unit_load [Fin 0, Fin 1]"
    by (simp_all add: NewLoadPredictor_ok unit_load_def)
  show ?thesis using PredictAll_range [OF h, of id] h by simp
qed

text \<open>
  The published vector follows the map, not the partitions: when the concurrent map
  happens to be visited in reverse, the forecast at position 0 is that of partition 1.
  The backpressure controller and the balancers index this vector by partition.
\<close>

theorem predictions_follow_visit_order:
  assumes "0 < w" and "0 < h"
  shows "PredictAll (UpdateLoads id [Fin 0, Fin 1] (NewLoadPredictor w h)) = [Fin 0, Fin 1] \<and>
    PredictAll (UpdateLoads rev [Fin 0, Fin 1] (NewLoadPredictor w h)) = [Fin 1, Fin 0]"
proof -
  have one: "Predicted (predict_one lp (i, Push (Fin q) (NewRingBuffer w))) = replicate h (mean_of [Fin q])"
    if "window lp = w" "horizon lp = h" for lp i q
  proof -
    have ok: "rb_ok (Push (Fin q) (NewRingBuffer w))" using assms by (simp add: rb_ok_def Push_def NewRingBuffer_def)
    have s: "samples (Push (Fin q) (NewRingBuffer w)) = [Fin q]"
      using assms(1) by (cases w) (simp_all add: samples_def Push_def NewRingBuffer_def)
    obtain buf n where v: "ValuesInto (Push (Fin q) (NewRingBuffer w)) (replicate w (Fin 0)) = (buf, n)"
      by fastforce
    with ValuesInto_samples [OF ok, of "replicate w (Fin 0)"] s
    have "take n buf = [Fin q]" by (simp add: Push_def NewRingBuffer_def)
    moreover from this have "0 < n" "buf \<noteq> []" by (cases n; cases buf; simp)+
    ultimately show ?thesis
      by (simp add: predict_one_def that v arPredict_def Let_def min_def)
  qed
  have m: "mean_of [Fin 0] = Fin 0" "mean_of [Fin 1] = Fin 1"
    using rnd_int [of 1] by (simp_all add: mean_of_def fsum_def f_int_def)
  have r: "replicate h x \<noteq> []" "replicate h x ! 0 = x" for x :: f64 using assms(2) by simp_all
  show ?thesis
    by (simp add: PredictAll_def UpdateLoads_def predict_def push_load_def NewLoadPredictor_def
        one m r upt_rec [of 0]) (use assms(2) in simp)
qed

theorem predictions_follow_visit_order_witness:
  "(0 :: nat) < 100 \<and> PredictAll (UpdateLoads rev [Fin 0, Fin 1] (NewLoadPredictor 100 8)) = [Fin 1, Fin 0]"
  using predictions_follow_visit_order [of 100 8] by simp

end
