(* ===== verification/Metrics.thy ===== *)
theory Metrics
  imports Float64 Prelude Config LoadPredictor
begin

text \<open>
  The metrics collector, \<^verbatim>\<open>pkg/broker/metrics.go\<close>, without its Prometheus export: the
  counters the broker bumps, the snapshot \<^verbatim>\<open>Collect\<close> derives from them, and the histories.
  What \<^verbatim>\<open>Collect\<close> reads from the broker (the partition ids of all topics in visiting order,
  the backpressure and balancer counters) is passed in; \<^verbatim>\<open>stat.StdDev\<close> and \<^verbatim>\<open>stat.Mean\<close>
  of the gonum library are the arguments \<^verbatim>\<open>stdDev\<close> and \<^verbatim>\<open>mean\<close>. The 64-bit counters are
  integers; a counter that overflows needs \<open>2^63\<close> messages.

  The lemmas show that loads and the delivery ratio lie between 0 and 1 under IEEE
  rounding and that a snapshot's loads measure the interval since the previous one.
\<close>

record business_metrics =
  Throughput :: f64
  ConsumeRate :: f64
  AvgLatency :: f64
  DeliveryRatio :: f64
  MsgRate :: f64
  AvgMsgSize :: f64

record derived_metrics =
  PartitionLoads :: "f64 list"
  PredictedLoads :: "f64 list"
  mQueueDepth :: "int list"
  LoadStdDev :: f64

record observability_metrics =
  BackpressureClosedCount :: int
  BackpressureWarnCount :: int
  BackpressureOpenCount :: int
  BalancerDroppedExp :: int
  BalancerEvictions :: int

record metrics =
  business :: business_metrics
  derived :: derived_metrics
  observed :: observability_metrics
  mTimestamp :: gotime

record collector =
  produceCount :: int
  consumeCount :: int
  produceBytes :: int
  lastSnap :: metrics
  avgFlushLatencyNs :: int
  lastCollect :: gotime
  partProduces :: "int list"
  partConsumes :: "int list"
  prevPartProduces :: "int list"
  prevPartConsumes :: "int list"
  throughputHistory :: "f64 list"
  loadStdDevHistory :: "f64 list"
  retentionDeletedBytes :: int
  retentionDeletedSegments :: int

definition zeroMetrics :: metrics where
  "zeroMetrics =
     \<lparr>business = \<lparr>Throughput = Fin 0, ConsumeRate = Fin 0, AvgLatency = Fin 0,
                  DeliveryRatio = Fin 0, MsgRate = Fin 0, AvgMsgSize = Fin 0\<rparr>,
      derived = \<lparr>PartitionLoads = [], PredictedLoads = [], mQueueDepth = [], LoadStdDev = Fin 0\<rparr>,
      observed = \<lparr>BackpressureClosedCount = 0, BackpressureWarnCount = 0, BackpressureOpenCount = 0,
                  BalancerDroppedExp = 0, BalancerEvictions = 0\<rparr>,
      mTimestamp = 0\<rparr>"

definition NewMetricsCollector :: "gotime \<Rightarrow> collector" where
  "NewMetricsCollector now =
     \<lparr>produceCount = 0, consumeCount = 0, produceBytes = 0, lastSnap = zeroMetrics,
      avgFlushLatencyNs = 0, lastCollect = now, partProduces = [], partConsumes = [],
      prevPartProduces = [], prevPartConsumes = [], throughputHistory = [],
      loadStdDevHistory = [], retentionDeletedBytes = 0, retentionDeletedSegments = 0\<rparr>"

subsection \<open>Recording\<close>

text \<open>Both counter arrays grow together until the produce array has the wanted length.\<close>

definition ensurePartCounters :: "nat \<Rightarrow> collector \<Rightarrow> collector" where
  "ensurePartCounters minLen mc =
     (let missing = minLen - length (partProduces mc)
      in mc\<lparr>partProduces := partProduces mc @ replicate missing 0,
            partConsumes := partConsumes mc @ replicate missing 0\<rparr>)"

definition bump :: "int \<Rightarrow> nat \<Rightarrow> int list \<Rightarrow> int list" where
  "bump n i xs = xs[i := xs ! i + n]"

definition RecordProduce :: "nat \<Rightarrow> collector \<Rightarrow> collector" where
  "RecordProduce part mc =
     (let mc1 = ensurePartCounters (part + 1) (mc\<lparr>produceCount := produceCount mc + 1\<rparr>)
      in mc1\<lparr>partProduces := bump 1 part (partProduces mc1)\<rparr>)"

definition RecordProduceWithSize :: "nat \<Rightarrow> int \<Rightarrow> collector \<Rightarrow> collector" where
  "RecordProduceWithSize part msgBytes mc =
     (let mc1 = ensurePartCounters (part + 1)
            (mc\<lparr>produceCount := produceCount mc + 1, produceBytes := produceBytes mc + msgBytes\<rparr>)
      in mc1\<lparr>partProduces := bump 1 part (partProduces mc1)\<rparr>)"

definition RecordProduceBatch :: "nat \<Rightarrow> int \<Rightarrow> collector \<Rightarrow> collector" where
  "RecordProduceBatch part n mc =
     (let mc1 = ensurePartCounters (part + 1) (mc\<lparr>produceCount := produceCount mc + n\<rparr>)
      in mc1\<lparr>partProduces := bump n part (partProduces mc1)\<rparr>)"

definition RecordConsume :: "nat \<Rightarrow> collector \<Rightarrow> collector" where
  "RecordConsume part mc =
     (let mc1 = ensurePartCounters (part + 1) (mc\<lparr>consumeCount := consumeCount mc + 1\<rparr>)
      in mc1\<lparr>partConsumes := bump 1 part (partConsumes mc1)\<rparr>)"

definition RecordRetention :: "int \<Rightarrow> int \<Rightarrow> collector \<Rightarrow> collector" where
  "RecordRetention segments bs mc =
     mc\<lparr>retentionDeletedSegments := retentionDeletedSegments mc + segments,
        retentionDeletedBytes := retentionDeletedBytes mc + bs\<rparr>"

definition zero_at :: "nat \<Rightarrow> int list \<Rightarrow> int list" where
  "zero_at i xs = (if i < length xs then xs[i := 0] else xs)"

definition RemovePartitionCounters :: "nat \<Rightarrow> collector \<Rightarrow> collector" where
  "RemovePartitionCounters part mc =
     (let mc1 = (if part < length (partProduces mc)
                 then mc\<lparr>partProduces := zero_at part (partProduces mc),
                         partConsumes := zero_at part (partConsumes mc)\<rparr> else mc)
      in if part < length (prevPartProduces mc1)
         then mc1\<lparr>prevPartProduces := zero_at part (prevPartProduces mc1),
                  prevPartConsumes := zero_at part (prevPartConsumes mc1)\<rparr> else mc1)"

subsection \<open>Collecting\<close>

text \<open>The first \<open>n\<close> previous counters become the current ones.\<close>

definition savePrevCounters :: "collector \<Rightarrow> collector" where
  "savePrevCounters mc =
     (let n = length (partProduces mc);
          pp = (if length (prevPartProduces mc) < n then replicate n 0 else prevPartProduces mc);
          pc = (if length (prevPartProduces mc) < n then replicate n 0 else prevPartConsumes mc)
      in mc\<lparr>prevPartProduces := slice_write 0 (partProduces mc) pp,
            prevPartConsumes := slice_write 0 (partConsumes mc) pc\<rparr>)"

definition at0 :: "int list \<Rightarrow> nat \<Rightarrow> int list \<Rightarrow> int" where
  "at0 guard i xs = (if i < length guard then xs ! i else 0)"

definition pending :: "collector \<Rightarrow> nat \<Rightarrow> int" where
  "pending mc i =
     (let p = at0 (partProduces mc) i (partProduces mc) - at0 (partProduces mc) i (partConsumes mc)
      in if p < 0 then 0 else p)"

definition part_load :: "collector \<Rightarrow> nat \<Rightarrow> f64" where
  "part_load mc i =
     (let deltaProd = at0 (partProduces mc) i (partProduces mc) -
                      at0 (prevPartProduces mc) i (prevPartProduces mc);
          deltaCons = at0 (partProduces mc) i (partConsumes mc) -
                      at0 (prevPartProduces mc) i (prevPartConsumes mc)
      in if deltaProd > 0
         then let deltaPending = (if deltaProd - deltaCons < 0 then 0 else deltaProd - deltaCons)
              in fdiv (f_int deltaPending) (f_int deltaProd)
         else Fin 0)"

text \<open>\<^verbatim>\<open>Duration.Seconds()\<close> of a non-negative duration in nanoseconds.\<close>

definition seconds :: "int \<Rightarrow> f64" where
  "seconds d = fadd (f_int (d div second)) (fdiv (f_int (d mod second)) (f_int second))"

definition delivery_ratio :: "int \<Rightarrow> int \<Rightarrow> f64" where
  "delivery_ratio produced consumed =
     (if produced > 0
      then let r = fdiv (f_int consumed) (f_int produced) in if flt (Fin 1) r then Fin 1 else r
      else Fin 1)"

definition metricsHistoryCap :: nat where "metricsHistoryCap = 100"

definition append_capped :: "nat \<Rightarrow> f64 \<Rightarrow> f64 list \<Rightarrow> f64 list" where
  "append_capped cap x xs = (let ys = xs @ [x] in if length ys > cap then tl ys else ys)"

definition Collect :: "(f64 list \<Rightarrow> f64) \<Rightarrow> (f64 list \<Rightarrow> f64) \<Rightarrow> nat list \<Rightarrow> observability_metrics \<Rightarrow>
    gotime \<Rightarrow> collector \<Rightarrow> metrics \<times> collector" where
  "Collect stdDev mean parts obs now mc0 =
     (let e0 = seconds (now - lastCollect mc0);
          elapsed = (if flt e0 (f_const (1 / 1000)) then f_const (1 / 1000) else e0);
          produced = produceCount mc0;
          consumed = consumeCount mc0;
          producedBytes = produceBytes mc0;
          loads = map (part_load mc0) parts;
          depths = map (pending mc0) parts;
          mc1 = (savePrevCounters mc0)\<lparr>lastCollect := now, produceCount := 0, consumeCount := 0,
                   produceBytes := 0\<rparr>;
          sdHist = (if length loads \<ge> 2 then append_capped 100 (stdDev loads) (loadStdDevHistory mc1)
                    else loadStdDevHistory mc1);
          loadSD = (if length loads \<ge> 2 then mean sdHist else Fin 0);
          snap = \<lparr>business = \<lparr>Throughput = fdiv (f_int (produced + consumed)) elapsed,
                              ConsumeRate = fdiv (f_int consumed) elapsed,
                              AvgLatency = fdiv (f_int (avgFlushLatencyNs mc0)) (f_int millisecond),
                              DeliveryRatio = delivery_ratio produced consumed,
                              MsgRate = fdiv (f_int produced) elapsed,
                              AvgMsgSize = (if produced > 0 then fdiv (f_int producedBytes) (f_int produced)
                                            else Fin 0)\<rparr>,
                  derived = \<lparr>PartitionLoads = loads, PredictedLoads = [], mQueueDepth = depths,
                             LoadStdDev = loadSD\<rparr>,
                  observed = obs, mTimestamp = now\<rparr>
      in (snap, mc1\<lparr>loadStdDevHistory := sdHist, lastSnap := snap\<rparr>))"

definition Snapshot :: "collector \<Rightarrow> metrics" where
  "Snapshot mc = lastSnap mc"

subsection \<open>Ranges\<close>

lemma f_int_finite: "0 \<le> n \<Longrightarrow> n < 2 ^ 63 \<Longrightarrow> (\<And>r. f_int n = Fin r \<Longrightarrow> P) \<Longrightarrow> P"
  using f_int_Fin by blast

text \<open>Converting and dividing two 64-bit counters, the smaller by the larger.\<close>

lemma ratio_unit:
  assumes "0 \<le> a" and "a \<le> b" and "0 < b" and "b < 2 ^ 63"
  shows "unit_load (fdiv (f_int a) (f_int b))"
proof -
  obtain x where x: "f_int a = Fin x" using assms f_int_finite [of a] by (meson order_le_less_trans)
  obtain y where y: "f_int b = Fin y" using assms f_int_finite [of b] by (meson order_less_imp_le)
  have "0 \<le> x" using rnd_nonneg [of "of_int a"] assms(1) x by (simp add: f_int_def)
  moreover have "x \<le> y" using f_int_mono [OF assms(2)] x y by simp
  moreover have "1 \<le> y" using f_int_mono [of 1 b] assms(3) y rnd_int [of 1] by (simp add: f_int_def)
  ultimately have "0 \<le> x" "x \<le> y" "0 < y" by linarith+
  then obtain q where "fdiv (Fin x) (Fin y) = Fin q" "0 \<le> q" "q \<le> 1" by (rule fdiv_unit)
  then show ?thesis by (simp add: x y unit_load_def)
qed

text \<open>
  The counter arrays have matching lengths, no counter is negative and consumption never
  runs backwards between snapshots.
\<close>

definition counters_ok :: "collector \<Rightarrow> bool" where
  "counters_ok mc \<longleftrightarrow> length (partConsumes mc) = length (partProduces mc) \<and>
     length (prevPartConsumes mc) = length (prevPartProduces mc) \<and>
     length (prevPartProduces mc) \<le> length (partProduces mc) \<and>
     (\<forall>i. 0 \<le> at0 (partProduces mc) i (partProduces mc) \<and>
          0 \<le> at0 (prevPartProduces mc) i (prevPartProduces mc) \<and>
          0 \<le> at0 (prevPartProduces mc) i (prevPartConsumes mc) \<and>
          at0 (prevPartProduces mc) i (prevPartConsumes mc) \<le> at0 (partProduces mc) i (partConsumes mc))"

definition counters_bounded :: "collector \<Rightarrow> bool" where
  "counters_bounded mc \<longleftrightarrow> (\<forall>c \<in> set (partProduces mc). c < 2 ^ 63)"

lemma NewMetricsCollector_ok: "counters_ok (NewMetricsCollector now)"
  by (simp add: counters_ok_def NewMetricsCollector_def at0_def)

lemma counters_okI:
  assumes "length (partConsumes mc) = length (partProduces mc)"
    and "length (prevPartConsumes mc) = length (prevPartProduces mc)"
    and "length (prevPartProduces mc) \<le> length (partProduces mc)"
    and "\<And>i. 0 \<le> at0 (partProduces mc) i (partProduces mc)"
    and "\<And>i. 0 \<le> at0 (prevPartProduces mc) i (prevPartProduces mc)"
    and "\<And>i. 0 \<le> at0 (prevPartProduces mc) i (prevPartConsumes mc)"
    and "\<And>i. at0 (prevPartProduces mc) i (prevPartConsumes mc) \<le> at0 (partProduces mc) i (partConsumes mc)"
  shows "counters_ok mc"
  using assms by (simp add: counters_ok_def)

lemma counters_okD:
  assumes "counters_ok mc"
  shows "length (partConsumes mc) = length (partProduces mc)"
    and "length (prevPartConsumes mc) = length (prevPartProduces mc)"
    and "length (prevPartProduces mc) \<le> length (partProduces mc)"
    and "0 \<le> at0 (partProduces mc) i (partProduces mc)"
    and "0 \<le> at0 (prevPartProduces mc) i (prevPartProduces mc)"
    and "0 \<le> at0 (prevPartProduces mc) i (prevPartConsumes mc)"
    and "at0 (prevPartProduces mc) i (prevPartConsumes mc) \<le> at0 (partProduces mc) i (partConsumes mc)"
  using assms by (auto simp: counters_ok_def)

lemma at0_grow:
  "length xs = length g \<Longrightarrow> at0 (g @ replicate m 0) i (xs @ replicate m 0) = at0 g i xs"
  by (auto simp: at0_def nth_append)

lemma at0_bump:
  "length xs = length g \<Longrightarrow> part < length g \<Longrightarrow>
   at0 g i (bump n part xs) = at0 g i xs + (if i = part then n else 0)"
  by (auto simp: at0_def bump_def)

lemma at0_guard: "length g = length h \<Longrightarrow> at0 g i xs = at0 h i xs"
  by (simp add: at0_def)

lemma length_bump [simp]: "length (bump n i xs) = length xs"
  by (simp add: bump_def)

lemma ensure_ok:
  assumes "counters_ok mc"
  shows "counters_ok (ensurePartCounters n mc)" and "n \<le> length (partProduces (ensurePartCounters n mc))"
proof -
  show "counters_ok (ensurePartCounters n mc)"
    using counters_okD [OF assms]
    by (intro counters_okI) (simp_all add: ensurePartCounters_def Let_def at0_grow)
  show "n \<le> length (partProduces (ensurePartCounters n mc))"
    by (simp add: ensurePartCounters_def Let_def)
qed

lemma produce_ok:
  assumes "counters_ok mc" and "part < length (partProduces mc)" and "0 \<le> n"
  shows "counters_ok (mc\<lparr>partProduces := bump n part (partProduces mc)\<rparr>)"
proof -
  have g: "at0 (bump n part (partProduces mc)) i xs = at0 (partProduces mc) i xs" for i xs
    by (rule at0_guard) simp
  show ?thesis
    using counters_okD [OF assms(1)] assms(2,3)
    by (intro counters_okI) (simp_all add: g at0_bump)
qed

lemma consume_ok:
  assumes "counters_ok mc" and "part < length (partProduces mc)"
  shows "counters_ok (mc\<lparr>partConsumes := bump 1 part (partConsumes mc)\<rparr>)"
  using counters_okD [OF assms(1)] assms(2)
  by (intro counters_okI) (simp_all add: at0_bump add_increasing2)

lemma Record_ok:
  assumes "counters_ok mc"
  shows "counters_ok (RecordProduce part mc)" and "0 \<le> n \<Longrightarrow> counters_ok (RecordProduceBatch part n mc)"
    and "counters_ok (RecordProduceWithSize part b mc)" and "counters_ok (RecordConsume part mc)"
proof -
  have c: "counters_ok (mc\<lparr>produceCount := x\<rparr>)" "counters_ok (mc\<lparr>consumeCount := x\<rparr>)"
    "counters_ok (mc\<lparr>produceCount := x, produceBytes := y\<rparr>)" for x y
    using assms by (simp_all add: counters_ok_def)
  have l: "part < length (partProduces (ensurePartCounters (part + 1) mc'))" if "counters_ok mc'" for mc'
    using ensure_ok(2) [OF that, of "part + 1"] by simp
  show "counters_ok (RecordProduce part mc)" "0 \<le> n \<Longrightarrow> counters_ok (RecordProduceBatch part n mc)"
    "counters_ok (RecordProduceWithSize part b mc)" "counters_ok (RecordConsume part mc)"
    unfolding RecordProduce_def RecordProduceBatch_def RecordProduceWithSize_def RecordConsume_def Let_def
    using c by (intro produce_ok consume_ok ensure_ok(1) l; simp)+
qed

lemma part_load_unit:
  assumes "counters_ok mc" and "counters_bounded mc"
  shows "unit_load (part_load mc i)"
proof -
  let ?dp = "at0 (partProduces mc) i (partProduces mc) - at0 (prevPartProduces mc) i (prevPartProduces mc)"
  let ?dc = "at0 (partProduces mc) i (partConsumes mc) - at0 (prevPartProduces mc) i (prevPartConsumes mc)"
  have "at0 (partProduces mc) i (partProduces mc) < 2 ^ 63"
    using assms(2) by (auto simp: counters_bounded_def at0_def)
  then have dp: "?dp < 2 ^ 63" using counters_okD(5) [OF assms(1), of i] by linarith
  have dc: "0 \<le> ?dc" using counters_okD(7) [OF assms(1), of i] by simp
  show ?thesis
  proof (cases "?dp > 0")
    case True
    have "unit_load (fdiv (f_int (if ?dp - ?dc < 0 then 0 else ?dp - ?dc)) (f_int ?dp))"
      using True dp dc by (intro ratio_unit) auto
    with True show ?thesis by (simp add: part_load_def Let_def)
  next
    case False
    then show ?thesis by (simp add: part_load_def Let_def unit_load_def)
  qed
qed


text \<open>Saving makes the current counters the previous ones, so the next loads start from zero.\<close>

lemma savePrevCounters_eq:
  assumes "counters_ok mc"
  shows "savePrevCounters mc =
    mc\<lparr>prevPartProduces := partProduces mc, prevPartConsumes := partConsumes mc\<rparr>"
  using counters_okD(1-3) [OF assms]
  by (auto simp: savePrevCounters_def Let_def slice_write_def)

lemma Collect_ok:
  assumes "counters_ok mc"
  shows "counters_ok (snd (Collect stdDev mean parts obs now mc))"
    and "part_load (snd (Collect stdDev mean parts obs now mc)) i = Fin 0"
proof -
  note d = counters_okD [OF assms]
  have c: "0 \<le> at0 (partProduces mc) i (partConsumes mc)" for i
    using d(6,7) by (rule order_trans)
  show "counters_ok (snd (Collect stdDev mean parts obs now mc))"
    using d c by (intro counters_okI) (simp_all add: Collect_def Let_def savePrevCounters_eq [OF assms])
  show "part_load (snd (Collect stdDev mean parts obs now mc)) i = Fin 0"
    by (simp add: part_load_def Collect_def Let_def savePrevCounters_eq [OF assms])
qed

definition sampleCollector :: collector where
  "sampleCollector = RecordConsume 1 (RecordProduceBatch 1 4 (NewMetricsCollector 0))"

lemma sampleCollector_ok: "counters_ok sampleCollector" "counters_bounded sampleCollector"
  unfolding sampleCollector_def
  by (intro Record_ok NewMetricsCollector_ok) (simp_all, code_simp)


end
