(* ===== verification/Balancer.thy ===== *)
theory Balancer
  imports Metrics
begin

text \<open>
  Partition balancers. The interface of \<^verbatim>\<open>pkg/balancer/balancer.go\<close> and
  \<^verbatim>\<open>pkg/broker/broker.go\<close> is a record of operations over the balancer's own state; the
  operations a balancer may lack (\<^verbatim>\<open>InflightTracker\<close>, \<^verbatim>\<open>BaseThroughputSetter\<close>,
  \<^verbatim>\<open>Stopper\<close> and the two counters the metrics look for) are optional fields. What all
  users rely on, that a selection lies in range, is the locale \<^verbatim>\<open>balancer\<close>.

  The theory models \<^verbatim>\<open>RoundRobin\<close> and \<^verbatim>\<open>PowerOfTwoChoices\<close>. Random draws come from the
  environment: \<^verbatim>\<open>rand.IntN(n)\<close> is the next raw draw modulo \<open>n\<close>.
\<close>

record env =
  draw :: "nat \<Rightarrow> nat"
  clock :: gotime

record 'b balancer_ops =
  SelectPartition :: "env \<Rightarrow> string \<Rightarrow> bytes \<Rightarrow> nat \<Rightarrow> 'b \<Rightarrow> nat \<times> 'b"
  OnMetrics :: "env \<Rightarrow> metrics \<Rightarrow> 'b \<Rightarrow> 'b"
  OnPublishComplete :: "(nat \<Rightarrow> 'b \<Rightarrow> 'b) option"
  SetBaseThroughput :: "(f64 \<Rightarrow> 'b \<Rightarrow> 'b) option"
  StopBalancer :: "('b \<Rightarrow> 'b) option"
  DroppedExperience :: "('b \<Rightarrow> int) option"
  EvictionCount :: "('b \<Rightarrow> int) option"

definition IntN :: "env \<Rightarrow> nat \<Rightarrow> nat \<Rightarrow> nat" where
  "IntN env k n = draw env k mod n"

lemma IntN_less [simp]: "0 < n \<Longrightarrow> IntN env k n < n"
  by (simp add: IntN_def)

locale balancer =
  fixes B :: "'b balancer_ops"
    and bal_ok :: "'b \<Rightarrow> bool"
  assumes select_range: "bal_ok b \<Longrightarrow> 0 < n \<Longrightarrow> fst (SelectPartition B env topic key n b) < n"
    and select_ok: "bal_ok b \<Longrightarrow> 0 < n \<Longrightarrow> bal_ok (snd (SelectPartition B env topic key n b))"
    and metrics_ok: "bal_ok b \<Longrightarrow> bal_ok (OnMetrics B env m b)"
    and complete_ok: "OnPublishComplete B = Some f \<Longrightarrow> bal_ok b \<Longrightarrow> bal_ok (f i b)"
    and base_ok: "SetBaseThroughput B = Some g \<Longrightarrow> bal_ok b \<Longrightarrow> bal_ok (g x b)"
begin

text \<open>A run of selections: every choice is in range.\<close>

lemma selections_range:
  assumes "bal_ok b" and "0 < n"
  shows "list_all (\<lambda>i. i < n) (fst (fold (\<lambda>(env, topic, key) (is, c).
     let (i, c') = SelectPartition B env topic key n c in (i # is, c')) reqs ([], b)))"
proof -
  have "list_all (\<lambda>i. i < n) (fst (fold (\<lambda>(env, topic, key) (is, c).
     let (i, c') = SelectPartition B env topic key n c in (i # is, c')) reqs (js, c)))"
    if "bal_ok c" "list_all (\<lambda>i. i < n) js" for js c
    using that
  proof (induction reqs arbitrary: js c)
    case (Cons r reqs)
    obtain env topic key where r: "r = (env, topic, key)" by (cases r)
    obtain i c' where s: "SelectPartition B env topic key n c = (i, c')" by fastforce
    have "i < n" "bal_ok c'"
      using select_range [OF Cons.prems(1) assms(2)] select_ok [OF Cons.prems(1) assms(2)] s
      by (metis fst_conv snd_conv)+
    with Cons show ?case by (simp add: r s)
  qed simp
  with assms show ?thesis by simp
qed

end

subsection \<open>Round robin\<close>

text \<open>\<^verbatim>\<open>pkg/balancer/round_robin.go\<close>; the padding field has no counterpart.\<close>

record round_robin =
  counter :: u64
  rrLoads :: "f64 list option"
  skipThreshold :: f64
  skipBudget :: int

definition defaultRRSkipThreshold :: f64 where "defaultRRSkipThreshold = f_const (9 / 10)"
definition defaultRRSkipBudget :: int where "defaultRRSkipBudget = 2"

definition NewRoundRobin :: "(round_robin \<Rightarrow> round_robin) list \<Rightarrow> round_robin" where
  "NewRoundRobin opts = foldl (\<lambda>rr f. f rr)
     \<lparr>counter = 0, rrLoads = None, skipThreshold = defaultRRSkipThreshold,
      skipBudget = defaultRRSkipBudget\<rparr> opts"

definition WithRRSkipThreshold :: "f64 \<Rightarrow> round_robin \<Rightarrow> round_robin" where
  "WithRRSkipThreshold t rr = rr\<lparr>skipThreshold := t\<rparr>"

definition WithRRSkipBudget :: "int \<Rightarrow> round_robin \<Rightarrow> round_robin" where
  "WithRRSkipBudget b rr = rr\<lparr>skipBudget := b\<rparr>"

fun rr_skip :: "nat \<Rightarrow> f64 list \<Rightarrow> f64 \<Rightarrow> nat \<Rightarrow> nat \<Rightarrow> nat" where
  "rr_skip 0 ld t n idx = idx"
| "rr_skip (Suc k) ld t n idx =
     (if idx < length ld \<and> flt t (ld ! idx) then rr_skip k ld t n ((idx + 1) mod n) else idx)"

definition rr_SelectPartition :: "env \<Rightarrow> string \<Rightarrow> bytes \<Rightarrow> nat \<Rightarrow> round_robin \<Rightarrow> nat \<times> round_robin" where
  "rr_SelectPartition env topic key n rr =
     (let c = counter rr + 1;
          idx = unat c mod n
      in (if skipBudget rr \<le> 0 then idx
          else case rrLoads rr of
                 None \<Rightarrow> idx
               | Some ld \<Rightarrow> rr_skip (nat (skipBudget rr)) ld (skipThreshold rr) n idx,
          rr\<lparr>counter := c\<rparr>))"

definition rr_OnMetrics :: "env \<Rightarrow> metrics \<Rightarrow> round_robin \<Rightarrow> round_robin" where
  "rr_OnMetrics env m rr =
     (if PartitionLoads (derived m) = [] then rr
      else rr\<lparr>rrLoads := Some (PartitionLoads (derived m))\<rparr>)"

definition RoundRobin :: "round_robin balancer_ops" where
  "RoundRobin = \<lparr>SelectPartition = rr_SelectPartition, OnMetrics = rr_OnMetrics,
     OnPublishComplete = None, SetBaseThroughput = None, StopBalancer = None,
     DroppedExperience = None, EvictionCount = None\<rparr>"

lemma rr_skip_range: "idx < n \<Longrightarrow> rr_skip k ld t n idx < n"
  by (induction k arbitrary: idx) simp_all

interpretation rr: balancer RoundRobin "\<lambda>_. True"
proof
  fix b :: round_robin and n :: nat and env topic key
  assume "0 < n"
  then have "unat (counter b + 1) mod n < n" by simp
  then show "fst (SelectPartition RoundRobin env topic key n b) < n"
    by (auto simp: RoundRobin_def rr_SelectPartition_def Let_def rr_skip_range split: option.splits)
qed (simp_all add: RoundRobin_def)

text \<open>
  The selection skips overloaded partitions: within the budget it stops at the first
  candidate, in cyclic order, whose load is known and above the threshold no more.
\<close>

lemma rr_skip_first:
  assumes "idx < n"
  shows "\<exists>j \<le> k. rr_skip k ld t n idx = (idx + j) mod n \<and>
    (\<forall>i < j. (idx + i) mod n < length ld \<and> flt t (ld ! ((idx + i) mod n))) \<and>
    (j = k \<or> \<not> ((idx + j) mod n < length ld \<and> flt t (ld ! ((idx + j) mod n))))"
  using assms
proof (induction k arbitrary: idx)
  case (Suc k)
  show ?case
  proof (cases "idx < length ld \<and> flt t (ld ! idx)")
    case True
    have "(idx + 1) mod n < n" using Suc.prems by simp
    from Suc.IH [OF this] obtain j where
      j: "j \<le> k" "rr_skip k ld t n ((idx + 1) mod n) = ((idx + 1) mod n + j) mod n"
        "\<forall>i < j. ((idx + 1) mod n + i) mod n < length ld \<and> flt t (ld ! (((idx + 1) mod n + i) mod n))"
        "j = k \<or> \<not> (((idx + 1) mod n + j) mod n < length ld \<and> flt t (ld ! (((idx + 1) mod n + j) mod n)))"
      by blast
    have shift: "((idx + 1) mod n + i) mod n = (idx + Suc i) mod n" for i
      by (simp add: mod_add_left_eq)
    have "(idx + i) mod n < length ld \<and> flt t (ld ! ((idx + i) mod n))" if "i < Suc j" for i
      using that j(3)[unfolded shift] True Suc.prems by (cases i) simp_all
    with j[unfolded shift] True show ?thesis
      by (intro exI [of _ "Suc j"]) simp
  next
    case False
    with Suc.prems show ?thesis by (intro exI [of _ 0]) auto
  qed
qed auto

text \<open>Without load reports the partitions take strict turns, also when the counter wraps.\<close>

lemma rr_turns:
  assumes "rrLoads rr = None"
  shows "fst (rr_SelectPartition env topic key n rr) = unat (counter rr + 1) mod n"
    and "counter (snd (rr_SelectPartition env topic key n rr)) = counter rr + 1"
  using assms by (simp_all add: rr_SelectPartition_def Let_def)

text \<open>The choices of \<open>k\<close> consecutive selections.\<close>

fun rr_run :: "nat \<Rightarrow> env \<Rightarrow> nat \<Rightarrow> round_robin \<Rightarrow> nat list" where
  "rr_run 0 env n rr = []"
| "rr_run (Suc k) env n rr =
     (let (i, rr') = rr_SelectPartition env [] [] n rr in i # rr_run k env n rr')"

lemma rr_run_turns:
  assumes "rrLoads rr = None"
  shows "rr_run k env n rr = map (\<lambda>j. unat (counter rr + 1 + word_of_nat j) mod n) [0..<k]"
  using assms
proof (induction k arbitrary: rr)
  case (Suc k)
  obtain i rr' where r: "rr_SelectPartition env [] [] n rr = (i, rr')" by fastforce
  have i: "i = unat (counter rr + 1) mod n" "counter rr' = counter rr + 1" "rrLoads rr' = None"
    using rr_turns [OF Suc.prems, of env "[]" "[]" n] Suc.prems r
    by (auto simp: rr_SelectPartition_def Let_def)
  have "map (\<lambda>j. unat (counter rr + 1 + 1 + word_of_nat j) mod n) [0..<k] =
      map (\<lambda>j. unat (counter rr + 1 + word_of_nat j) mod n) [1..<Suc k]"
    by (simp add: map_Suc_upt [symmetric] add.assoc del: upt_Suc)
  then show ?case
    using Suc.IH [OF i(3)] by (simp add: r i upt_conv_Cons del: upt_Suc)
qed simp

text \<open>
  C37: round robin is fair: without load reports, any \<open>n\<close> consecutive selections among \<open>n\<close>
  partitions use every partition exactly once, as long as the counter does not wrap
  within them.
\<close>

theorem RoundRobin_fair:
  assumes "rrLoads rr = None" and "0 < n" and "unat (counter rr) + n < 2 ^ 64"
  shows "distinct (rr_run n env n rr) \<and> set (rr_run n env n rr) = {..<n}"
proof -
  let ?c = "unat (counter rr) + 1"
  have u: "unat (counter rr + 1 + word_of_nat j :: u64) = ?c + j" if "j < n" for j
  proof -
    have "counter rr + 1 + word_of_nat j = word_of_nat (?c + j)" by simp
    moreover have "unat (word_of_nat (?c + j) :: u64) = ?c + j"
      by (rule unat_word_of_nat_u64) (use that assms(3) in simp)
    ultimately show ?thesis by (simp only:)
  qed
  have run: "rr_run n env n rr = map (\<lambda>j. (?c + j) mod n) [0..<n]"
    unfolding rr_run_turns [OF assms(1)] by (rule map_cong) (simp_all only: u set_upt atLeastLessThan_iff)
  have inj: "inj_on (\<lambda>j. (?c + j) mod n) (set [0..<n])"
  proof (rule inj_onI)
    fix i j assume "i \<in> set [0..<n]" "j \<in> set [0..<n]" "(?c + i) mod n = (?c + j) mod n"
    then show "i = j"
      using mod_offset_neq [of i j 0 n ?c] mod_offset_neq [of j i 0 n ?c]
      by (cases i j rule: linorder_cases) auto
  qed
  then have d: "distinct (rr_run n env n rr)" unfolding run by (simp add: distinct_map)
  moreover have "set (rr_run n env n rr) \<subseteq> {..<n}" unfolding run using assms(2) by auto
  moreover have "card (set (rr_run n env n rr)) = n" using distinct_card [OF d] by (simp only: run length_map length_upt diff_zero)
  ultimately show ?thesis by (metis card_lessThan card_subset_eq finite_lessThan)
qed

theorem RoundRobin_fair_witness:
  "set (rr_run 4 \<lparr>draw = \<lambda>_. 0, clock = 0\<rparr> 4 (NewRoundRobin [])) = {..<4} \<and>
   rr_run 4 \<lparr>draw = \<lambda>_. 0, clock = 0\<rparr> 4 (NewRoundRobin []) = [1, 2, 3, 0]"
proof -
  have h: "rrLoads (NewRoundRobin []) = None" "unat (counter (NewRoundRobin [])) + 4 < 2 ^ 64"
    by (simp_all add: NewRoundRobin_def)
  have u: "[0..<4] = [0, 1, 2, 3]" by code_simp
  have "rr_run 4 \<lparr>draw = \<lambda>_. 0, clock = 0\<rparr> 4 (NewRoundRobin []) = [1, 2, 3, 0]"
    unfolding rr_run_turns [OF h(1)] u by (simp add: NewRoundRobin_def)
  then show ?thesis using RoundRobin_fair [OF h(1) zero_less_numeral h(2), THEN conjunct2] by blast
qed

subsection \<open>Power of two choices\<close>

text \<open>\<^verbatim>\<open>pkg/balancer/p2c.go\<close>. The in-flight array is replaced, not grown, when it is too short.\<close>

record p2c =
  loadEWMA :: "f64 list option"
  depthNorm :: "f64 list option"
  inflight :: "int list option"
  alpha :: f64
  loadWeight :: f64
  depthWeight :: f64
  inflightWeight :: f64

definition NewPowerOfTwoChoices :: "(p2c \<Rightarrow> p2c) list \<Rightarrow> p2c" where
  "NewPowerOfTwoChoices opts = foldl (\<lambda>p f. f p)
     \<lparr>loadEWMA = None, depthNorm = None, inflight = None, alpha = f_const (3 / 10),
      loadWeight = Fin 1, depthWeight = Fin 1, inflightWeight = Fin 2\<rparr> opts"

definition ensureInflight :: "nat \<Rightarrow> p2c \<Rightarrow> p2c" where
  "ensureInflight n p =
     (case inflight p of
        Some arr \<Rightarrow> if n \<le> length arr then p else p\<lparr>inflight := Some (replicate n 0)\<rparr>
      | None \<Rightarrow> p\<lparr>inflight := Some (replicate n 0)\<rparr>)"

definition nth_opt :: "'a list option \<Rightarrow> nat \<Rightarrow> 'a option" where
  "nth_opt xs i = (case xs of Some ys \<Rightarrow> if i < length ys then Some (ys ! i) else None | None \<Rightarrow> None)"

definition score :: "nat \<Rightarrow> p2c \<Rightarrow> f64" where
  "score idx p =
     (let s0 = Fin 0;
          s1 = (case nth_opt (loadEWMA p) idx of Some x \<Rightarrow> fadd s0 (fmul (loadWeight p) x) | None \<Rightarrow> s0);
          s2 = (case nth_opt (depthNorm p) idx of Some x \<Rightarrow> fadd s1 (fmul (depthWeight p) x) | None \<Rightarrow> s1)
      in case nth_opt (inflight p) idx of
           Some k \<Rightarrow> fadd s2 (fmul (inflightWeight p) (f_int k)) | None \<Rightarrow> s2)"

definition add_inflight :: "nat \<Rightarrow> int \<Rightarrow> p2c \<Rightarrow> p2c" where
  "add_inflight i d p = p\<lparr>inflight := map_option (\<lambda>arr. bump d i arr) (inflight p)\<rparr>"

definition p2c_SelectPartition :: "env \<Rightarrow> string \<Rightarrow> bytes \<Rightarrow> nat \<Rightarrow> p2c \<Rightarrow> nat \<times> p2c" where
  "p2c_SelectPartition env topic key n p =
     (if n \<le> 1 then (0, add_inflight 0 1 (ensureInflight 1 p))
      else let p1 = ensureInflight n p;
               a = IntN env 0 n;
               b0 = IntN env 1 (n - 1);
               b = (if b0 \<ge> a then b0 + 1 else b0);
               sa = score a p1;
               sb = score b p1;
               chosen = (if flt sa sb then a else if flt sb sa then b
                         else if IntN env 2 2 = 0 then a else b)
           in (chosen, add_inflight chosen 1 p1))"

definition p2c_OnPublishComplete :: "nat \<Rightarrow> p2c \<Rightarrow> p2c" where
  "p2c_OnPublishComplete part p =
     (case inflight p of
        Some arr \<Rightarrow> if part < length arr then add_inflight part (- 1) p else p
      | None \<Rightarrow> p)"

definition updateLoadEWMA :: "f64 list \<Rightarrow> p2c \<Rightarrow> p2c" where
  "updateLoadEWMA sample p =
     p\<lparr>loadEWMA := Some (case loadEWMA p of
        None \<Rightarrow> sample
      | Some old \<Rightarrow>
          if length old \<noteq> length sample then sample
          else map2 (\<lambda>s o'. fadd (fmul (alpha p) s) (fmul (fsub (Fin 1) (alpha p)) o')) sample old)\<rparr>"

definition updateDepthNorm :: "int list \<Rightarrow> p2c \<Rightarrow> p2c" where
  "updateDepthNorm depths p =
     (let maxD = foldl (\<lambda>m d. if d > m then d else m) 0 depths;
          norm = (if maxD > 0 then let i = fdiv (Fin 1) (f_int maxD)
                                   in map (\<lambda>d. fmul (f_int d) i) depths
                  else replicate (length depths) (Fin 0))
      in p\<lparr>depthNorm := Some norm\<rparr>)"

definition p2c_OnMetrics :: "env \<Rightarrow> metrics \<Rightarrow> p2c \<Rightarrow> p2c" where
  "p2c_OnMetrics env m p =
     (let p1 = (if PartitionLoads (derived m) \<noteq> [] then updateLoadEWMA (PartitionLoads (derived m)) p else p)
      in if mQueueDepth (derived m) \<noteq> [] then updateDepthNorm (mQueueDepth (derived m)) p1 else p1)"

definition PowerOfTwoChoices :: "p2c balancer_ops" where
  "PowerOfTwoChoices = \<lparr>SelectPartition = p2c_SelectPartition, OnMetrics = p2c_OnMetrics,
     OnPublishComplete = Some p2c_OnPublishComplete, SetBaseThroughput = None, StopBalancer = None,
     DroppedExperience = None, EvictionCount = None\<rparr>"

lemma two_choices_range:
  assumes "1 < n" and "a = IntN env 0 n" and "b0 = IntN env 1 (n - 1)"
    and "b = (if b0 \<ge> a then b0 + 1 else b0)"
  shows "a < n" and "b < n" and "a \<noteq> b"
proof -
  have "b0 < n - 1" using assms by simp
  then show "b < n" "a \<noteq> b" using assms(4) by auto
  show "a < n" using assms by simp
qed

interpretation p2c: balancer PowerOfTwoChoices "\<lambda>_. True"
proof
  fix b :: p2c and n :: nat and env topic key
  assume "0 < n"
  then show "fst (SelectPartition PowerOfTwoChoices env topic key n b) < n"
    using two_choices_range [of n, OF _ refl refl refl, of env]
    by (auto simp: PowerOfTwoChoices_def p2c_SelectPartition_def Let_def)
qed simp_all

text \<open>
  Two random choices: among two or more partitions \<^verbatim>\<open>SelectPartition\<close> compares two
  different partitions and never takes the one with the larger score, and it counts the
  publish as in flight there.
\<close>

theorem P2C_picks_lighter:
  assumes "1 < n" and "p2c_SelectPartition env topic key n p = (i, p')"
  shows "\<exists>a b. a < n \<and> b < n \<and> a \<noteq> b \<and> i = a \<and>
      \<not> flt (score b (ensureInflight n p)) (score a (ensureInflight n p)) \<and>
      (a = IntN env 0 n \<or> b = IntN env 0 n) \<and> p' = add_inflight i 1 (ensureInflight n p)"
proof -
  let ?a = "IntN env 0 n" and ?p = "ensureInflight n p"
  define b where "b = (if IntN env 1 (n - 1) \<ge> ?a then IntN env 1 (n - 1) + 1 else IntN env 1 (n - 1))"
  note r = two_choices_range [OF assms(1) refl refl b_def]
  have i: "i = (if flt (score ?a ?p) (score b ?p) then ?a else if flt (score b ?p) (score ?a ?p) then b
      else if IntN env 2 2 = 0 then ?a else b)" and p': "p' = add_inflight i 1 ?p"
    using assms by (auto simp: p2c_SelectPartition_def Let_def b_def)
  have anti: "\<not> flt x y" if "flt y x" for x y using that by (simp add: flt_def)
  show ?thesis
  proof (cases "i = ?a")
    case True
    then have "\<not> flt (score b ?p) (score ?a ?p)" using i r(3) anti by (auto split: if_splits)
    with True r p' show ?thesis by blast
  next
    case False
    then have "i = b" "\<not> flt (score ?a ?p) (score b ?p)" using i by (auto split: if_splits)
    with r p' show ?thesis by metis
  qed
qed

definition sampleP2C :: p2c where
  "sampleP2C = (NewPowerOfTwoChoices [])\<lparr>inflight := Some [5, 0, 7]\<rparr>"

lemma sampleP2C_select:
  "fst (p2c_SelectPartition \<lparr>draw = \<lambda>_. 0, clock = 0\<rparr> topic key 3 sampleP2C) = 1"
proof -
  have "ensureInflight 3 sampleP2C = sampleP2C"
    by (simp add: sampleP2C_def ensureInflight_def)
  moreover have "score 0 sampleP2C = Fin 10" "score 1 sampleP2C = Fin 0"
    by (simp_all add: score_def sampleP2C_def NewPowerOfTwoChoices_def nth_opt_def f_int_def rnd_numeral)
  ultimately show ?thesis
    by (simp add: p2c_SelectPartition_def IntN_def flt_def)
qed

theorem P2C_picks_lighter_witness:
  "(1 :: nat) < 3 \<and> (\<exists>p'. p2c_SelectPartition \<lparr>draw = \<lambda>_. 0, clock = 0\<rparr> [] [] 3 sampleP2C = (1, p') \<and>
     inflight p' = Some [5, 1, 7])"
proof -
  let ?r = "p2c_SelectPartition \<lparr>draw = \<lambda>_. 0, clock = 0\<rparr> [] [] 3 sampleP2C"
  have f: "fst ?r = 1" "inflight (ensureInflight 3 sampleP2C) = Some [5, 0, 7]"
    by (simp_all add: sampleP2C_select) (simp_all add: sampleP2C_def ensureInflight_def)
  then have "?r = (1, snd ?r)" by (simp add: prod_eq_iff)
  from P2C_picks_lighter [OF _ this] f this show ?thesis
    by (auto simp: add_inflight_def bump_def intro!: exI [of _ "snd ?r"])
qed

text \<open>
  In-flight accounting balances: completing the publish that a selection started
  restores every in-flight counter.
\<close>

theorem P2C_inflight_balance:
  assumes "0 < n" and "p2c_SelectPartition env topic key n p = (i, p')"
  shows "p2c_OnPublishComplete i p' = ensureInflight n p"
proof -
  have i: "i < n" using p2c.select_range [OF TrueI assms(1), of env topic key p] assms(2)
    by (simp add: PowerOfTwoChoices_def)
  have p': "p' = add_inflight i 1 (ensureInflight n p)"
  proof (cases "n \<le> 1")
    case True
    then have "n = 1" using assms(1) by simp
    with assms(2) show ?thesis by (auto simp: p2c_SelectPartition_def)
  next
    case False
    then show ?thesis using assms(2) by (auto simp: p2c_SelectPartition_def Let_def)
  qed
  obtain arr where arr: "inflight (ensureInflight n p) = Some arr" "n \<le> length arr"
    by (cases "inflight p"; cases "n \<le> length (the (inflight p))") (auto simp: ensureInflight_def)
  then have "i < length arr" using i by simp
  then show ?thesis
    using arr by (simp add: p' p2c_OnPublishComplete_def add_inflight_def bump_def)
qed

theorem P2C_inflight_balance_witness:
  "p2c_OnPublishComplete 1 (snd (p2c_SelectPartition \<lparr>draw = \<lambda>_. 0, clock = 0\<rparr> [] [] 3 sampleP2C)) =
     sampleP2C"
proof -
  let ?r = "p2c_SelectPartition \<lparr>draw = \<lambda>_. 0, clock = 0\<rparr> [] [] 3 sampleP2C"
  have "fst ?r = 1" by (rule sampleP2C_select)
  then have "?r = (1, snd ?r)" by (simp add: prod_eq_iff)
  from P2C_inflight_balance [OF _ this] show ?thesis
    by (simp add: ensureInflight_def sampleP2C_def)
qed

end
