(* ===== verification/PSA.thy ===== *)
theory PSA
  imports Balancer
begin

text \<open>
  The key-affinity balancer of \<^verbatim>\<open>pkg/balancer/psa.go\<close>. A key is bound to a partition in an LRU
  cache and, in reverse, listed in the shard of that partition; partitions nobody uses are in
  the free set and are handed out by load.

  The LRU cache \<^verbatim>\<open>github.com/hashicorp/golang-lru/v2\<close> is a parameter: a record of the
  operations used, whose laws say that the cache is a finite map that may drop one other entry
  when a new key is added. The eviction callback runs for the dropped entry and, as documented
  for \<^verbatim>\<open>NewWithEvict\<close>, also for an entry that \<^verbatim>\<open>Remove\<close> takes out; the operations return that
  entry and the balancer's code below runs its callback on it.

  A Go string is its bytes. The key set of a shard and the free set are lists without a
  fixed order: where the code iterates in map order and the order matters, it is drawn from the
  environment. Index expressions that panic and divisions by zero make the result \<^const>\<open>None\<close>.
  Each method is one atomic step.
\<close>

unbundle bit_operations_syntax

subsection \<open>The cache\<close>

record 'c lru_ops =
  lruGet :: "bytes \<Rightarrow> 'c \<Rightarrow> nat option \<times> 'c"
  lruPeek :: "bytes \<Rightarrow> 'c \<Rightarrow> nat option"
  lruAdd :: "bytes \<Rightarrow> nat \<Rightarrow> 'c \<Rightarrow> (bytes \<times> nat) option \<times> 'c"
  lruRemove :: "bytes \<Rightarrow> 'c \<Rightarrow> (bytes \<times> nat) option \<times> 'c"

definition add_law :: "'c lru_ops \<Rightarrow> ('c \<Rightarrow> bool) \<Rightarrow> ('c \<Rightarrow> bytes \<Rightarrow> nat option) \<Rightarrow> 'c \<Rightarrow> bool" where
  "add_law L linv view c \<longleftrightarrow>
     (\<forall>k v ev c'. lruAdd L k v c = (ev, c') \<longrightarrow> linv c' \<and>
        (case ev of None \<Rightarrow> view c' = (view c)(k \<mapsto> v)
         | Some (k', v') \<Rightarrow> k' \<noteq> k \<and> view c k' = Some v' \<and> view c' = (view c)(k' := None, k \<mapsto> v)))"

definition lru_laws :: "'c lru_ops \<Rightarrow> ('c \<Rightarrow> bool) \<Rightarrow> ('c \<Rightarrow> bytes \<Rightarrow> nat option) \<Rightarrow> bool" where
  "lru_laws L linv view \<longleftrightarrow>
     (\<forall>c. linv c \<longrightarrow>
        (\<forall>k. fst (lruGet L k c) = view c k \<and> linv (snd (lruGet L k c)) \<and> view (snd (lruGet L k c)) = view c) \<and>
        (\<forall>k. lruPeek L k c = view c k) \<and>
        (\<forall>k. fst (lruRemove L k c) = map_option (Pair k) (view c k) \<and> linv (snd (lruRemove L k c)) \<and>
             view (snd (lruRemove L k c)) = (view c)(k := None)) \<and>
        add_law L linv view c)"

subsection \<open>State\<close>

definition defaultPSAMaxBindings :: nat where "defaultPSAMaxBindings = 100000"
definition psaGracePeriod :: int where "psaGracePeriod = 500 * millisecond"
definition psaRebalanceStealFactor :: f64 where "psaRebalanceStealFactor = f_const (3 / 2)"
definition PSARebalanceLoadFactor :: f64 where "PSARebalanceLoadFactor = Fin 2"

record psa_shard =
  skeys :: "bytes list"
  lastBindTime :: gotime

record 'c psa =
  bindings :: 'c
  shards :: "psa_shard list"
  free :: "nat list"
  loads :: "f64 list option"
  numPartitions :: nat
  evictionCount :: int

definition NewPSA :: "'c \<Rightarrow> nat \<Rightarrow> 'c psa" where
  "NewPSA emptyCache n =
     \<lparr>bindings = emptyCache, shards = replicate n \<lparr>skeys = [], lastBindTime = 0\<rparr>, free = [0..<n],
      loads = None, numPartitions = n, evictionCount = 0\<rparr>"

definition store_free :: "nat \<Rightarrow> 'c psa \<Rightarrow> 'c psa" where
  "store_free i p = p\<lparr>free := List.insert i (free p)\<rparr>"

definition set_keys :: "nat \<Rightarrow> bytes list \<Rightarrow> 'c psa \<Rightarrow> 'c psa" where
  "set_keys i ks p = p\<lparr>shards := (shards p)[i := (shards p ! i)\<lparr>skeys := ks\<rparr>]\<rparr>"

definition removeFromReverseIndex :: "bytes \<Rightarrow> nat \<Rightarrow> 'c psa \<Rightarrow> 'c psa" where
  "removeFromReverseIndex key partID p =
     (if partID \<ge> length (shards p) then p
      else let ks = removeAll key (skeys (shards p ! partID));
               p1 = set_keys partID ks p
           in if ks = [] then store_free partID p1 else p1)"

definition on_evict :: "(bytes \<times> nat) option \<Rightarrow> 'c psa \<Rightarrow> 'c psa" where
  "on_evict ev p =
     (case ev of None \<Rightarrow> p
      | Some (key, partID) \<Rightarrow> removeFromReverseIndex key partID (p\<lparr>evictionCount := evictionCount p + 1\<rparr>))"

definition cache_add :: "'c lru_ops \<Rightarrow> bytes \<Rightarrow> nat \<Rightarrow> 'c psa \<Rightarrow> 'c psa" where
  "cache_add L key part p =
     (let (ev, c) = lruAdd L key part (bindings p) in on_evict ev (p\<lparr>bindings := c\<rparr>))"

definition cache_remove :: "'c lru_ops \<Rightarrow> bytes \<Rightarrow> 'c psa \<Rightarrow> 'c psa" where
  "cache_remove L key p =
     (let (ev, c) = lruRemove L key (bindings p) in on_evict ev (p\<lparr>bindings := c\<rparr>))"

subsection \<open>Selection\<close>

definition MaxFloat64 :: f64 where
  "MaxFloat64 = Fin (of_int ((2 ^ 53 - 1) * 2 ^ 971))"

definition free_load :: "f64 list option \<Rightarrow> nat \<Rightarrow> f64" where
  "free_load ld i =
     (case ld of None \<Rightarrow> MaxFloat64 | Some xs \<Rightarrow> if i < length xs then xs ! i else MaxFloat64)"

fun claim_scan :: "f64 list option \<Rightarrow> nat list \<Rightarrow> f64 \<times> nat option \<Rightarrow> f64 \<times> nat option" where
  "claim_scan ld [] best = best"
| "claim_scan ld (i # is) (bestLoad, bestPart) =
     claim_scan ld is (if flt (free_load ld i) bestLoad then (free_load ld i, Some i)
                       else (bestLoad, bestPart))"

text \<open>The order in which a map with these keys is visited, read off the draws from \<open>k\<close> on.\<close>

definition visit :: "env \<Rightarrow> nat \<Rightarrow> 'a list \<Rightarrow> 'a list" where
  "visit env k xs = map snd (sort_key (\<lambda>(i, _). draw env (k + i)) (zip [0..<length xs] xs))"

definition claimFreePartition :: "env \<Rightarrow> 'c psa \<Rightarrow> (nat \<times> 'c psa) option" where
  "claimFreePartition env p =
     (let skip = IntN env 0 (numPartitions p);
          best = claim_scan (loads p) (drop skip (visit env 1 (free p))) (MaxFloat64, None);
          best' = (if snd best = None
                   then claim_scan (loads p) (visit env (1 + length (free p)) (free p)) best else best)
      in case snd best' of
           None \<Rightarrow> None
         | Some i \<Rightarrow> if i \<in> set (free p) then Some (i, p\<lparr>free := removeAll i (free p)\<rparr>) else None)"

definition bind_at :: "'c lru_ops \<Rightarrow> gotime \<Rightarrow> bytes \<Rightarrow> nat \<Rightarrow> 'c psa \<Rightarrow> 'c psa" where
  "bind_at L now key part p0 =
     (let p = cache_add L key part p0
      in p\<lparr>shards := (shards p)[part :=
             \<lparr>skeys = List.insert key (skeys (shards p ! part)), lastBindTime = now\<rparr>]\<rparr>)"

definition psa_bind :: "'c lru_ops \<Rightarrow> gotime \<Rightarrow> bytes \<Rightarrow> nat \<Rightarrow> 'c psa \<Rightarrow> 'c psa option" where
  "psa_bind L now key part p =
     (if part < length (shards p) then Some (bind_at L now key part p) else None)"

definition fnv_step :: "u64 \<Rightarrow> byte \<Rightarrow> u64" where
  "fnv_step h b = (h XOR ucast b) * 1099511628211"

definition hashKey :: "bytes \<Rightarrow> u64" where
  "hashKey key = foldl fnv_step 14695981039346656037 key"

definition psa_SelectPartition ::
    "'c lru_ops \<Rightarrow> env \<Rightarrow> string \<Rightarrow> bytes \<Rightarrow> nat \<Rightarrow> 'c psa \<Rightarrow> (nat \<times> 'c psa) option" where
  "psa_SelectPartition L env topic key n p =
     (let (got, c) = lruGet L key (bindings p); p0 = p\<lparr>bindings := c\<rparr>
      in case got of
           Some part \<Rightarrow> Some (part, p0)
         | None \<Rightarrow>
             if numPartitions p0 = 0 then None
             else (case claimFreePartition env p0 of
                     Some (part, p1) \<Rightarrow> map_option (Pair part) (psa_bind L (clock env) key part p1)
                   | None \<Rightarrow>
                       if n = 0 then None
                       else let part = unat (hashKey key) mod n
                            in map_option (Pair part) (psa_bind L (clock env) key part p0)))"

subsection \<open>Metrics\<close>

definition avgLoad :: "f64 list \<Rightarrow> f64" where
  "avgLoad ld = (if ld = [] then Fin 0 else fdiv (fsum ld) (f_int (int (length ld))))"

definition release_key :: "'c lru_ops \<Rightarrow> nat \<Rightarrow> bytes \<Rightarrow> 'c psa \<Rightarrow> 'c psa" where
  "release_key L i k p = (if lruPeek L k (bindings p) = Some i then cache_remove L k p else p)"

definition releasePartition :: "'c lru_ops \<Rightarrow> gotime \<Rightarrow> nat \<Rightarrow> 'c psa \<Rightarrow> 'c psa" where
  "releasePartition L now i p =
     (if i \<ge> length (shards p) then p
      else let sh = shards p ! i
           in if lastBindTime sh > 0 \<and> now - lastBindTime sh < psaGracePeriod then p
              else if skeys sh = [] then store_free i p
              else store_free i (fold (release_key L i) (skeys sh) (set_keys i [] p)))"

definition stealOneBinding :: "'c lru_ops \<Rightarrow> gotime \<Rightarrow> nat \<Rightarrow> nat \<Rightarrow> nat \<Rightarrow> 'c psa \<Rightarrow> 'c psa" where
  "stealOneBinding L now pick src dst p =
     (if src \<ge> length (shards p) \<or> dst \<ge> length (shards p) then p
      else let ks = skeys (shards p ! src);
               victim = (if ks = [] then [] else ks ! (pick mod length ks))
           in if victim = [] then p
              else bind_at L now victim dst
                     (release_key L src victim (set_keys src (removeAll victim ks) p)))"

definition release_idle :: "'c lru_ops \<Rightarrow> gotime \<Rightarrow> int list \<Rightarrow> 'c psa \<Rightarrow> 'c psa" where
  "release_idle L now depths =
     fold (\<lambda>(i, depth) p. if depth = 0 then releasePartition L now i p else p) (enumerate 0 depths)"

definition release_hot :: "'c lru_ops \<Rightarrow> gotime \<Rightarrow> f64 \<Rightarrow> f64 list \<Rightarrow> 'c psa \<Rightarrow> 'c psa" where
  "release_hot L now avg ld =
     fold (\<lambda>(i, load) p. if flt (Fin 0) avg \<and> flt (fmul PSARebalanceLoadFactor avg) load
                         then releasePartition L now i p else p) (enumerate 0 ld)"

definition steal_source :: "f64 \<Rightarrow> f64 list \<Rightarrow> nat \<Rightarrow> nat option" where
  "steal_source avg ld i =
     map_option fst (List.find (\<lambda>(j, jLoad). \<not> (j = i \<or> feq avg (Fin 0)) \<and>
        flt (fmul psaRebalanceStealFactor avg) jLoad) (enumerate 0 ld))"

definition steal_idle :: "'c lru_ops \<Rightarrow> env \<Rightarrow> f64 \<Rightarrow> int list \<Rightarrow> f64 list \<Rightarrow> 'c psa \<Rightarrow> 'c psa" where
  "steal_idle L env avg depths ld =
     fold (\<lambda>(i, load) p.
        if flt (Fin 0) load then p
        else if i < length depths \<and> depths ! i > 0 then p
        else case steal_source avg ld i of
               Some j \<Rightarrow> stealOneBinding L (clock env) (draw env i) j i p
             | None \<Rightarrow> p) (enumerate 0 ld)"

definition psa_OnMetrics :: "'c lru_ops \<Rightarrow> env \<Rightarrow> metrics \<Rightarrow> 'c psa \<Rightarrow> 'c psa" where
  "psa_OnMetrics L env m p =
     (let ld = PartitionLoads (derived m);
          depths = mQueueDepth (derived m);
          p1 = release_idle L (clock env) depths (p\<lparr>loads := Some ld\<rparr>)
      in if length ld > 1
         then let avg = avgLoad ld
              in steal_idle L env avg depths ld (release_hot L (clock env) avg ld p1)
         else p1)"

subsection \<open>The invariant\<close>

text \<open>
  The shards are the exact reverse of the cache: a key is bound to a partition iff it is
  listed in that partition's shard. Inside an operation some bindings are pending, that is
  in the cache and not (yet, or any more) in a shard.
\<close>

definition listed :: "'c psa \<Rightarrow> bytes \<Rightarrow> nat \<Rightarrow> bool" where
  "listed p k i \<longleftrightarrow> i < length (shards p) \<and> k \<in> set (skeys (shards p ! i))"

definition psa_inv :: "('c \<Rightarrow> bool) \<Rightarrow> ('c \<Rightarrow> bytes \<Rightarrow> nat option) \<Rightarrow> (bytes \<times> nat) set \<Rightarrow> 'c psa \<Rightarrow> bool" where
  "psa_inv linv view pend p \<longleftrightarrow>
     linv (bindings p) \<and> length (shards p) = numPartitions p \<and> set (free p) \<subseteq> {..<numPartitions p} \<and>
     (\<forall>k i. view (bindings p) k = Some i \<longleftrightarrow> listed p k i \<or> (k, i) \<in> pend) \<and>
     (\<forall>(k, i) \<in> pend. \<not> listed p k i)"

definition psa_ok :: "('c \<Rightarrow> bool) \<Rightarrow> ('c \<Rightarrow> bytes \<Rightarrow> nat option) \<Rightarrow> 'c psa \<Rightarrow> bool" where
  "psa_ok linv view p \<longleftrightarrow> psa_inv linv view {} p"

lemma psa_invD:
  assumes "psa_inv linv view pend p"
  shows "linv (bindings p)" and "length (shards p) = numPartitions p"
    and "set (free p) \<subseteq> {..<numPartitions p}"
    and "view (bindings p) k = Some i \<longleftrightarrow> listed p k i \<or> (k, i) \<in> pend"
    and "(k, i) \<in> pend \<Longrightarrow> \<not> listed p k i"
  using assms unfolding psa_inv_def by blast+

lemma store_free_simps [simp]:
  "bindings (store_free i p) = bindings p" "shards (store_free i p) = shards p"
  "numPartitions (store_free i p) = numPartitions p" "set (free (store_free i p)) = insert i (set (free p))"
  "loads (store_free i p) = loads p"
  by (simp_all add: store_free_def)

lemma set_keys_simps [simp]:
  "bindings (set_keys i ks p) = bindings p" "length (shards (set_keys i ks p)) = length (shards p)"
  "numPartitions (set_keys i ks p) = numPartitions p" "free (set_keys i ks p) = free p"
  "loads (set_keys i ks p) = loads p"
  by (simp_all add: set_keys_def)

lemma listed_store_free [simp]: "listed (store_free i p) = listed p"
  by (simp add: listed_def fun_eq_iff)

lemma listed_set_keys [simp]:
  "i < length (shards p) \<Longrightarrow>
   listed (set_keys i ks p) k j \<longleftrightarrow> (if j = i then k \<in> set ks else listed p k j)"
  by (auto simp: listed_def set_keys_def nth_list_update)

lemma listed_update [simp]:
  "listed (p\<lparr>bindings := c\<rparr>) = listed p" "listed (p\<lparr>evictionCount := n\<rparr>) = listed p"
  "listed (p\<lparr>free := fs\<rparr>) = listed p" "listed (p\<lparr>loads := ld\<rparr>) = listed p"
  by (simp_all add: listed_def fun_eq_iff)

lemma store_free_inv: "psa_inv linv view pend p \<Longrightarrow> i < length (shards p) \<Longrightarrow> psa_inv linv view pend (store_free i p)"
  by (simp add: psa_inv_def)

lemma reverse_remove:
  assumes "i < length (shards p)"
  shows "listed (removeFromReverseIndex k i p) k' j \<longleftrightarrow> listed p k' j \<and> (k', j) \<noteq> (k, i)"
    and "bindings (removeFromReverseIndex k i p) = bindings p"
    and "length (shards (removeFromReverseIndex k i p)) = length (shards p)"
    and "numPartitions (removeFromReverseIndex k i p) = numPartitions p"
    and "set (free (removeFromReverseIndex k i p)) \<subseteq> insert i (set (free p))"
    and "loads (removeFromReverseIndex k i p) = loads p"
proof -
  have "removeAll k xs = [] \<longleftrightarrow> set xs \<subseteq> {k}" for xs by (induction xs) auto
  then show "listed (removeFromReverseIndex k i p) k' j \<longleftrightarrow> listed p k' j \<and> (k', j) \<noteq> (k, i)"
    using assms by (auto simp: removeFromReverseIndex_def Let_def) (auto simp: listed_def)
qed (use assms in \<open>auto simp: removeFromReverseIndex_def Let_def\<close>)

lemma lru_lawsD:
  assumes "lru_laws L linv view" and "linv c"
  shows "fst (lruGet L k c) = view c k" and "linv (snd (lruGet L k c))" and "view (snd (lruGet L k c)) = view c"
    and "lruPeek L k c = view c k"
    and "fst (lruRemove L k c) = map_option (Pair k) (view c k)" and "linv (snd (lruRemove L k c))"
    and "view (snd (lruRemove L k c)) = (view c)(k := None)"
    and "add_law L linv view c"
  using assms unfolding lru_laws_def by blast+

text \<open>Both cache operations keep the invariant, up to the binding they add or remove.\<close>

lemma cache_add_inv:
  assumes "lru_laws L linv view" and "psa_inv linv view {} p" and "view (bindings p) key = None"
  shows "psa_inv linv view {(key, part)} (cache_add L key part p)"
    and "view (bindings (cache_add L key part p)) key = Some part"
    and "k \<noteq> key \<Longrightarrow> view (bindings (cache_add L key part p)) k \<in> {view (bindings p) k, None}"
    and "numPartitions (cache_add L key part p) = numPartitions p"
    and "loads (cache_add L key part p) = loads p"
proof -
  note inv = psa_invD [OF assms(2)]
  obtain ev c where a: "lruAdd L key part (bindings p) = (ev, c)" by fastforce
  have law: "linv c" "case ev of None \<Rightarrow> view c = (view (bindings p))(key \<mapsto> part)
      | Some (k', v') \<Rightarrow> k' \<noteq> key \<and> view (bindings p) k' = Some v' \<and>
          view c = (view (bindings p))(k' := None, key \<mapsto> part)"
    using lru_lawsD(8) [OF assms(1) inv(1)] a unfolding add_law_def by blast+
  have nl: "\<not> listed p key i" for i using inv(4) [of key i] assms(3) by simp
  have "psa_inv linv view {(key, part)} (cache_add L key part p) \<and>
    view (bindings (cache_add L key part p)) key = Some part \<and>
    (\<forall>k. k \<noteq> key \<longrightarrow> view (bindings (cache_add L key part p)) k \<in> {view (bindings p) k, None}) \<and>
    numPartitions (cache_add L key part p) = numPartitions p \<and> loads (cache_add L key part p) = loads p"
  proof (cases ev)
    case None
    then have v: "view c = (view (bindings p))(key \<mapsto> part)" using law(2) by simp
    have "psa_inv linv view {(key, part)} (p\<lparr>bindings := c\<rparr>)"
      using inv nl law(1) unfolding psa_inv_def by (auto simp: v)
    then show ?thesis by (simp add: cache_add_def a None on_evict_def v)
  next
    case (Some kv)
    then obtain k' v' where kv: "ev = Some (k', v')" by (cases kv) auto
    then have v: "k' \<noteq> key" "view (bindings p) k' = Some v'"
        "view c = (view (bindings p))(k' := None, key \<mapsto> part)"
      using law(2) by auto
    let ?q = "p\<lparr>bindings := c, evictionCount := evictionCount p + 1\<rparr>"
    have l: "listed p k' v'" using inv(4) v(2) by blast
    then have len: "v' < length (shards ?q)" by (simp add: listed_def)
    have uniq: "listed p k' j \<longleftrightarrow> j = v'" for j using inv(4) [of k' j] v(2) by auto
    note r = reverse_remove [OF len, of k']
    have eq: "cache_add L key part p = removeFromReverseIndex k' v' ?q"
      by (simp add: cache_add_def a kv on_evict_def)
    have lq: "listed ?q = listed p" by (simp add: listed_def fun_eq_iff)
    have "psa_inv linv view {(key, part)} (removeFromReverseIndex k' v' ?q)"
      unfolding psa_inv_def
    proof (intro conjI allI ballI)
      show "linv (bindings (removeFromReverseIndex k' v' ?q))" using law(1) r(2) by simp
      show "length (shards (removeFromReverseIndex k' v' ?q)) = numPartitions (removeFromReverseIndex k' v' ?q)"
        using r(3,4) inv(2) by simp
      show "set (free (removeFromReverseIndex k' v' ?q)) \<subseteq> {..<numPartitions (removeFromReverseIndex k' v' ?q)}"
        using r(4,5) inv(2,3) len by auto
    next
      fix k i
      show "view (bindings (removeFromReverseIndex k' v' ?q)) k = Some i \<longleftrightarrow>
        listed (removeFromReverseIndex k' v' ?q) k i \<or> (k, i) \<in> {(key, part)}"
        using inv(4) [of k i] nl v(1) uniq by (auto simp: r(1,2) lq v(3))
    next
      fix x assume "x \<in> {(key, part)}"
      then show "case x of (k, i) \<Rightarrow> \<not> listed (removeFromReverseIndex k' v' ?q) k i"
        using nl by (auto simp: r(1) lq)
    qed
    then show ?thesis using v(1) r(2,4,6) by (simp add: eq v(3))
  qed
  then show "psa_inv linv view {(key, part)} (cache_add L key part p)"
    and "view (bindings (cache_add L key part p)) key = Some part"
    and "k \<noteq> key \<Longrightarrow> view (bindings (cache_add L key part p)) k \<in> {view (bindings p) k, None}"
    and "numPartitions (cache_add L key part p) = numPartitions p"
    and "loads (cache_add L key part p) = loads p" by blast+
qed

lemma cache_remove_inv:
  assumes "lru_laws L linv view" and "psa_inv linv view pend p" and "(k, i) \<in> pend"
    and "i < length (shards p)"
  shows "psa_inv linv view (pend - {(k, i)}) (cache_remove L k p)"
    and "view (bindings (cache_remove L k p)) = (view (bindings p))(k := None)"
    and "numPartitions (cache_remove L k p) = numPartitions p"
    and "loads (cache_remove L k p) = loads p"
proof -
  note inv = psa_invD [OF assms(2)]
  obtain ev c where a: "lruRemove L k (bindings p) = (ev, c)" by fastforce
  have vk: "view (bindings p) k = Some i" using inv(4) assms(3) by blast
  have law: "ev = Some (k, i)" "linv c" "view c = (view (bindings p))(k := None)"
    using lru_lawsD(5-7) [OF assms(1) inv(1), of k] a vk by simp_all
  let ?q = "p\<lparr>bindings := c, evictionCount := evictionCount p + 1\<rparr>"
  have len: "i < length (shards ?q)" using assms(4) by simp
  note r = reverse_remove [OF len, of k]
  have eq: "cache_remove L k p = removeFromReverseIndex k i ?q"
    by (simp add: cache_remove_def a law(1) on_evict_def)
  have lq: "listed ?q = listed p" by (simp add: listed_def fun_eq_iff)
  show "psa_inv linv view (pend - {(k, i)}) (cache_remove L k p)"
    unfolding psa_inv_def eq
  proof (intro conjI allI ballI)
    show "linv (bindings (removeFromReverseIndex k i ?q))" using law(2) r(2) by simp
    show "length (shards (removeFromReverseIndex k i ?q)) = numPartitions (removeFromReverseIndex k i ?q)"
      using r(3,4) inv(2) by simp
    show "set (free (removeFromReverseIndex k i ?q)) \<subseteq> {..<numPartitions (removeFromReverseIndex k i ?q)}"
      using r(4,5) inv(2,3) len by auto
  next
    fix k' j
    show "view (bindings (removeFromReverseIndex k i ?q)) k' = Some j \<longleftrightarrow>
      listed (removeFromReverseIndex k i ?q) k' j \<or> (k', j) \<in> pend - {(k, i)}"
      using inv(4) [of k' j] vk by (auto simp: r(1,2) lq law(3))
  next
    fix x assume "x \<in> pend - {(k, i)}"
    then show "case x of (k', j) \<Rightarrow> \<not> listed (removeFromReverseIndex k i ?q) k' j"
      using inv(5) by (auto simp: r(1) lq)
  qed
  show "view (bindings (cache_remove L k p)) = (view (bindings p))(k := None)"
    and "numPartitions (cache_remove L k p) = numPartitions p"
    and "loads (cache_remove L k p) = loads p" by (simp_all add: eq r law(3))
qed

lemma bind_at_ok:
  assumes "lru_laws L linv view" and "psa_ok linv view p" and "view (bindings p) key = None"
    and "part < length (shards p)"
  shows "psa_ok linv view (bind_at L now key part p)"
    and "view (bindings (bind_at L now key part p)) key = Some part"
    and "k \<noteq> key \<Longrightarrow> view (bindings (bind_at L now key part p)) k \<in> {view (bindings p) k, None}"
    and "numPartitions (bind_at L now key part p) = numPartitions p"
proof -
  note a = cache_add_inv [OF assms(1) assms(2) [unfolded psa_ok_def] assms(3), where part = part]
  let ?q = "cache_add L key part p"
  note inv = psa_invD [OF a(1)]
  have len: "part < length (shards ?q)"
    using assms(4) inv(2) a(4) psa_invD(2) [OF assms(2) [unfolded psa_ok_def]] by simp
  have l: "listed (bind_at L now key part p) k i \<longleftrightarrow> listed ?q k i \<or> (k, i) = (key, part)" for k i
    using len by (auto simp: bind_at_def Let_def listed_def nth_list_update)
  show "psa_ok linv view (bind_at L now key part p)"
    using inv unfolding psa_ok_def psa_inv_def l by (simp add: bind_at_def Let_def)
  show "view (bindings (bind_at L now key part p)) key = Some part"
    and "k \<noteq> key \<Longrightarrow> view (bindings (bind_at L now key part p)) k \<in> {view (bindings p) k, None}"
    and "numPartitions (bind_at L now key part p) = numPartitions p"
    using a by (simp_all add: bind_at_def Let_def)
qed

text \<open>Releasing the keys a cleared shard had, in any order and with any duplicates.\<close>

lemma release_keys_inv:
  assumes "lru_laws L linv view" and "i < numPartitions p"
    and "psa_inv linv view (A \<times> {i}) p" and "\<And>k. \<not> listed p k i" and "A \<subseteq> set ks"
  shows "psa_ok linv view (fold (release_key L i) ks p) \<and>
    view (bindings (fold (release_key L i) ks p)) = (\<lambda>k. if k \<in> A then None else view (bindings p) k) \<and>
    numPartitions (fold (release_key L i) ks p) = numPartitions p"
  using assms(2-5)
proof (induction ks arbitrary: p A)
  case Nil
  then show ?case by (simp add: psa_ok_def)
next
  case (Cons k ks)
  note inv = psa_invD [OF Cons.prems(2)]
  have peek: "lruPeek L k (bindings p) = Some i \<longleftrightarrow> k \<in> A"
    using lru_lawsD(4) [OF assms(1) inv(1), of k] inv(4) [of k i] Cons.prems(3) by auto
  show ?case
  proof (cases "k \<in> A")
    case True
    have len: "i < length (shards p)" using Cons.prems(1) inv(2) by simp
    note r = cache_remove_inv [OF assms(1) Cons.prems(2) _ len, of k]
    have in_pend: "(k, i) \<in> A \<times> {i}" using True by simp
    let ?q = "cache_remove L k p"
    have pend: "A \<times> {i} - {(k, i)} = (A - {k}) \<times> {i}" by auto
    have q: "psa_inv linv view ((A - {k}) \<times> {i}) ?q" using r(1) [OF in_pend] by (simp only: pend)
    have nl: "\<not> listed ?q k' i" for k'
    proof
      assume l: "listed ?q k' i"
      then have "view (bindings ?q) k' = Some i" using psa_invD(4) [OF q] by blast
      then have "k' \<noteq> k" "view (bindings p) k' = Some i" using r(2) [OF in_pend] by (auto split: if_splits)
      then have "(k', i) \<in> (A - {k}) \<times> {i}" using inv(4) [of k' i] Cons.prems(3) by auto
      with psa_invD(5) [OF q] l show False by blast
    qed
    have "A - {k} \<subseteq> set ks" using Cons.prems(4) by auto
    from Cons.IH [OF _ q nl this] r(3) [OF in_pend] Cons.prems(1) r(2) [OF in_pend] show ?thesis
      by (auto simp: release_key_def peek True fun_eq_iff)
  next
    case False
    then have "A \<subseteq> set ks" using Cons.prems(4) by auto
    from Cons.IH [OF Cons.prems(1,2,3) this] False show ?thesis by (simp add: release_key_def peek)
  qed
qed

lemma releasePartition_ok:
  assumes "lru_laws L linv view" and "psa_ok linv view p"
  shows "psa_ok linv view (releasePartition L now i p)"
    and "numPartitions (releasePartition L now i p) = numPartitions p"
proof -
  note inv = psa_invD [OF assms(2) [unfolded psa_ok_def]]
  let ?ks = "skeys (shards p ! i)"
  have "psa_ok linv view (releasePartition L now i p) \<and>
    numPartitions (releasePartition L now i p) = numPartitions p"
  proof (cases "i < length (shards p)")
    case True
    then have lt: "i < numPartitions (set_keys i [] p)" using inv(2) by simp
    have v: "view (bindings p) k = Some j \<longleftrightarrow> (if j = i then k \<in> set ?ks else listed p k j)" for k j
      using inv(4) [of k j] True by (auto simp: listed_def)
    have "psa_inv linv view (set ?ks \<times> {i}) (set_keys i [] p)"
      using inv(1-3) True unfolding psa_inv_def by (auto simp: v)
    note r = release_keys_inv [OF assms(1) lt this _ subset_refl]
    have "\<not> listed (set_keys i [] p) k i" for k using True by simp
    note r = r [OF this]
    have "i < length (shards (fold (release_key L i) ?ks (set_keys i [] p)))"
      using r psa_invD(2) lt unfolding psa_ok_def by metis
    with r have "psa_ok linv view (store_free i (fold (release_key L i) ?ks (set_keys i [] p)))"
      unfolding psa_ok_def by (blast intro: store_free_inv)
    moreover have "psa_ok linv view (store_free i p)"
      using assms(2) True unfolding psa_ok_def by (rule store_free_inv)
    ultimately show ?thesis using assms(2) r by (auto simp: releasePartition_def Let_def)
  qed (simp add: releasePartition_def assms(2))
  then show "psa_ok linv view (releasePartition L now i p)"
    and "numPartitions (releasePartition L now i p) = numPartitions p" by blast+
qed

lemma stealOneBinding_ok:
  assumes "lru_laws L linv view" and "psa_ok linv view p"
  shows "psa_ok linv view (stealOneBinding L now pick src dst p)"
    and "numPartitions (stealOneBinding L now pick src dst p) = numPartitions p"
proof -
  note inv = psa_invD [OF assms(2) [unfolded psa_ok_def]]
  let ?ks = "skeys (shards p ! src)"
  let ?v = "?ks ! (pick mod length ?ks)"
  have "psa_ok linv view (stealOneBinding L now pick src dst p) \<and>
    numPartitions (stealOneBinding L now pick src dst p) = numPartitions p"
  proof (cases "src < length (shards p) \<and> dst < length (shards p) \<and> ?ks \<noteq> []")
    case True
    then have src: "src < length (shards p)" and dst: "dst < length (shards p)" and ne: "?ks \<noteq> []" by auto
    have mem: "?v \<in> set ?ks" using ne by simp
    let ?p = "set_keys src (removeAll ?v ?ks) p"
    have v: "view (bindings p) k = Some j \<longleftrightarrow> (if j = src then k \<in> set ?ks else listed p k j)" for k j
      using inv(4) [of k j] src by (auto simp: listed_def)
    have pi: "psa_inv linv view ({?v} \<times> {src}) ?p"
      using inv(1-3) src mem unfolding psa_inv_def by (auto simp: v)
    have in_pend: "(?v, src) \<in> {?v} \<times> {src}" by simp
    have len: "src < length (shards ?p)" using src by simp
    note r = cache_remove_inv [OF assms(1) pi in_pend len]
    let ?q = "cache_remove L ?v ?p"
    have q: "psa_ok linv view ?q" using r(1) by (simp add: psa_ok_def)
    have "view (bindings ?q) ?v = None" using r(2) by simp
    moreover have "dst < length (shards ?q)"
      using dst r(3) psa_invD(2) [OF q [unfolded psa_ok_def]] inv(2) by simp
    ultimately have b: "psa_ok linv view (bind_at L now ?v dst ?q)"
        "numPartitions (bind_at L now ?v dst ?q) = numPartitions p"
      using bind_at_ok(1,4) [OF assms(1) q, where key = ?v and part = dst and now = now] r(3) by simp_all
    have "lruPeek L ?v (bindings ?p) = Some src"
      using lru_lawsD(4) [OF assms(1) inv(1), of ?v] v [of ?v src] mem by simp
    then have "release_key L src ?v ?p = ?q" by (simp add: release_key_def)
    with b assms(2) src dst ne show ?thesis by (simp add: stealOneBinding_def Let_def)
  qed (auto simp: stealOneBinding_def assms(2))
  then show "psa_ok linv view (stealOneBinding L now pick src dst p)"
    and "numPartitions (stealOneBinding L now pick src dst p) = numPartitions p" by blast+
qed

lemma fold_keeps:
  assumes "\<And>x p. x \<in> set xs \<Longrightarrow> Q p \<Longrightarrow> Q (f x p)" and "Q p"
  shows "Q (fold f xs p)"
  using assms by (induction xs arbitrary: p) auto

lemma OnMetrics_ok:
  assumes "lru_laws L linv view" and "psa_ok linv view p"
  shows "psa_ok linv view (psa_OnMetrics L env m p) \<and> numPartitions (psa_OnMetrics L env m p) = numPartitions p"
proof -
  define Q where "Q q \<longleftrightarrow> psa_ok linv view q \<and> numPartitions q = numPartitions p" for q
  have rel: "Q (releasePartition L now i q)" if "Q q" for q now i
    using that releasePartition_ok [OF assms(1)] by (simp add: Q_def)
  have steal: "Q (stealOneBinding L now pick src dst q)" if "Q q" for q now pick src dst
    using that stealOneBinding_ok [OF assms(1)] by (simp add: Q_def)
  have start: "Q (p\<lparr>loads := ld\<rparr>)" for ld
    using assms(2) by (simp add: Q_def psa_ok_def psa_inv_def)
  have idle: "Q (release_idle L now depths q)" if "Q q" for now depths q
    unfolding release_idle_def by (rule fold_keeps [where Q = Q]) (simp_all add: that rel split: prod.split)
  have hot: "Q (release_hot L now avg ld q)" if "Q q" for now avg ld q
    unfolding release_hot_def by (rule fold_keeps [where Q = Q]) (simp_all add: that rel split: prod.split)
  have thief: "Q (steal_idle L env avg depths ld q)" if "Q q" for avg depths ld q
    unfolding steal_idle_def
    by (rule fold_keeps [where Q = Q]) (simp_all add: that steal split: prod.split option.split)
  have "Q (psa_OnMetrics L env m p)"
    unfolding psa_OnMetrics_def Let_def by (simp add: start idle hot thief)
  then show ?thesis by (simp add: Q_def)
qed

lemma NewPSA_ok: "linv c \<Longrightarrow> view c = Map.empty \<Longrightarrow> psa_ok linv view (NewPSA c n)"
  by (auto simp: psa_ok_def psa_inv_def NewPSA_def listed_def)

lemma select_ok:
  assumes "lru_laws L linv view" and "psa_ok linv view p" and "n = numPartitions p" and "0 < n"
  shows "\<exists>i p'. psa_SelectPartition L env topic key n p = Some (i, p') \<and> i < n \<and> psa_ok linv view p' \<and>
    numPartitions p' = n \<and> view (bindings p') key = Some i \<and> view (bindings p) key \<in> {None, Some i} \<and>
    (\<forall>k. k \<noteq> key \<longrightarrow> view (bindings p') k \<in> {view (bindings p) k, None})"
proof -
  note inv = psa_invD [OF assms(2) [unfolded psa_ok_def]]
  obtain got c where g: "lruGet L key (bindings p) = (got, c)" by fastforce
  have law: "got = view (bindings p) key" "linv c" "view c = view (bindings p)"
    using lru_lawsD(1-3) [OF assms(1) inv(1), of key] g by simp_all
  let ?p = "p\<lparr>bindings := c\<rparr>"
  have ok: "psa_ok linv view (?p\<lparr>free := fs\<rparr>)" if "set fs \<subseteq> set (free p)" for fs
    using inv that law(2,3) by (auto simp: psa_ok_def psa_inv_def)
  have p0: "psa_ok linv view ?p" using ok [of "free p"] by simp
  have bound: "\<exists>i p'. map_option (Pair part) (psa_bind L now key part q) = Some (i, p') \<and> i < n \<and>
      psa_ok linv view p' \<and> numPartitions p' = n \<and> view (bindings p') key = Some i \<and>
      (\<forall>k. k \<noteq> key \<longrightarrow> view (bindings p') k \<in> {view (bindings p) k, None})"
    if "psa_ok linv view q" "part < n" "numPartitions q = n" "view (bindings q) = view (bindings p)" "got = None"
    for now part q
  proof -
    have len: "part < length (shards q)" using psa_invD(2) [OF that(1) [unfolded psa_ok_def]] that(2,3) by simp
    have "view (bindings q) key = None" using that(4,5) law(1) by simp
    note b = bind_at_ok [OF assms(1) that(1) this len, where now = now]
    show ?thesis using b that(2-4) len by (auto simp: psa_bind_def)
  qed
  show ?thesis
  proof (cases got)
    case (Some i)
    then have "listed p key i" using law(1) inv(4) by simp
    then have "i < n" using inv(2) assms(3) by (simp add: listed_def)
    with Some p0 law assms(3) show ?thesis by (auto simp: psa_SelectPartition_def g)
  next
    case None
    have v: "view (bindings p) key \<in> {None, Some i}" for i using None law(1) by simp
    have n0: "numPartitions ?p \<noteq> 0" using assms(3,4) by simp
    have "\<exists>part q. psa_SelectPartition L env topic key n p = map_option (Pair part) (psa_bind L (clock env) key part q) \<and>
      psa_ok linv view q \<and> part < n \<and> numPartitions q = n \<and> view (bindings q) = view (bindings p)"
    proof (cases "claimFreePartition env ?p")
      case None
      then have "psa_SelectPartition L env topic key n p =
          map_option (Pair (unat (hashKey key) mod n)) (psa_bind L (clock env) key (unat (hashKey key) mod n) ?p)"
        using n0 assms(4) \<open>got = None\<close> by (simp add: psa_SelectPartition_def g Let_def)
      moreover have "unat (hashKey key) mod n < n" using assms(4) by simp
      moreover have "numPartitions ?p = n" "view (bindings ?p) = view (bindings p)" using assms(3) law(3) by simp_all
      ultimately show ?thesis using p0 by blast
    next
      case (Some iq)
      then obtain i where iq: "iq = (i, ?p\<lparr>free := removeAll i (free p)\<rparr>)" "i \<in> set (free p)"
        by (auto simp: claimFreePartition_def Let_def split: option.splits if_splits)
      let ?q = "?p\<lparr>free := removeAll i (free p)\<rparr>"
      have "psa_SelectPartition L env topic key n p = map_option (Pair i) (psa_bind L (clock env) key i ?q)"
        using n0 Some \<open>got = None\<close> iq(1) by (simp add: psa_SelectPartition_def g)
      moreover have "i < n" using iq(2) inv(3) assms(3) by auto
      moreover have "psa_ok linv view ?q" by (rule ok) auto
      moreover have "numPartitions ?q = n" "view (bindings ?q) = view (bindings p)" using assms(3) law(3) by simp_all
      ultimately show ?thesis by blast
    qed
    then obtain part q where sel: "psa_SelectPartition L env topic key n p = map_option (Pair part) (psa_bind L (clock env) key part q)"
      and q: "psa_ok linv view q" "part < n" "numPartitions q = n" "view (bindings q) = view (bindings p)"
      by blast
    show ?thesis unfolding sel using bound [OF q \<open>got = None\<close>] v by blast
  qed
qed

subsection \<open>Reachable states\<close>

inductive psa_step :: "'c lru_ops \<Rightarrow> 'c psa \<Rightarrow> 'c psa \<Rightarrow> bool" for L where
  select: "psa_SelectPartition L env topic key (numPartitions p) p = Some (i, p') \<Longrightarrow> psa_step L p p'"
| metrics: "psa_step L p (psa_OnMetrics L env m p)"

inductive_cases psa_stepE: "psa_step L p p'"

lemma psa_step_ok:
  assumes "psa_step L p p'" and "lru_laws L linv view" and "psa_ok linv view p" and "0 < numPartitions p"
  shows "psa_ok linv view p' \<and> numPartitions p' = numPartitions p"
  using assms(1)
proof cases
  case (select env topic key i)
  with select_ok [OF assms(2,3) refl assms(4), of env topic key] show ?thesis by auto
next
  case (metrics env m)
  then show ?thesis using OnMetrics_ok [OF assms(2,3)] by simp
qed

lemma psa_steps_ok:
  assumes "(psa_step L)\<^sup>*\<^sup>* p p'" and "lru_laws L linv view" and "psa_ok linv view p" and "0 < numPartitions p"
  shows "psa_ok linv view p' \<and> numPartitions p' = numPartitions p"
  using assms
proof (induction rule: rtranclp_induct)
  case (step q r)
  then have "psa_ok linv view q" "0 < numPartitions q" by auto
  with psa_step_ok [OF step.hyps(2) assms(2)] step show ?case by simp
qed simp

text \<open>
  C9: key affinity: in every state a balancer for \<open>n\<close> partitions can reach, a selection among
  \<open>n\<close> partitions does not panic, lies in range, and returns the partition the key is bound to
  when it has one; afterwards the key is bound to the partition returned, and no other key's
  binding has changed except that the cache may have dropped it.
\<close>

theorem PSA_affinity:
  assumes "lru_laws L linv view" and "linv c" and "view c = Map.empty" and "0 < n"
    and "(psa_step L)\<^sup>*\<^sup>* (NewPSA c n) p"
  shows "\<exists>i p'. psa_SelectPartition L env topic key n p = Some (i, p') \<and> i < n \<and>
    view (bindings p') key = Some i \<and> view (bindings p) key \<in> {None, Some i} \<and>
    (\<forall>k. k \<noteq> key \<longrightarrow> view (bindings p') k \<in> {view (bindings p) k, None})"
proof -
  have "psa_ok linv view p" "numPartitions p = n"
    using psa_steps_ok [OF assms(5,1) NewPSA_ok [of linv c view, OF assms(2,3)]] assms(4) by (simp_all add: NewPSA_def)
  with select_ok [OF assms(1) this(1) this(2) [symmetric] assms(4), of env topic key] show ?thesis by blast
qed

text \<open>Without load reports every free partition looks infinitely loaded, so none is claimed.\<close>

lemma claim_scan_unknown: "claim_scan None is (MaxFloat64, None) = (MaxFloat64, None)"
  by (induction "is") (simp_all add: free_load_def flt_def)

lemma cold_claim: "loads p = None \<Longrightarrow> claimFreePartition env p = None"
  by (simp add: claimFreePartition_def claim_scan_unknown)

text \<open>
  A cold balancer does not use its free set: before the first load report an unbound key
  goes to the partition its hash names, whether that partition is free or not, and the call
  panics when the topic has more partitions than the balancer was made for and the hash names
  one of the others.
\<close>

theorem PSA_cold_start:
  assumes "lru_laws L linv view" and "psa_ok linv view p" and "view (bindings p) key = None"
    and "loads p = None" and "0 < numPartitions p" and "0 < n"
  shows "(if unat (hashKey key) mod n < numPartitions p
    then \<exists>p'. psa_SelectPartition L env topic key n p = Some (unat (hashKey key) mod n, p')
    else psa_SelectPartition L env topic key n p = None)"
proof -
  note inv = psa_invD [OF assms(2) [unfolded psa_ok_def]]
  obtain got c where g: "lruGet L key (bindings p) = (got, c)" by fastforce
  have "got = None" using lru_lawsD(1) [OF assms(1) inv(1), of key] g assms(3) by simp
  then show ?thesis
    using assms(4-6) inv(2) by (simp add: psa_SelectPartition_def g cold_claim psa_bind_def Let_def)
qed

subsection \<open>A reference cache\<close>

text \<open>The laws hold of a list of at most \<open>cap\<close> bindings, most recently used first.\<close>

definition drop_key :: "bytes \<Rightarrow> (bytes \<times> nat) list \<Rightarrow> (bytes \<times> nat) list" where
  "drop_key k c = filter (\<lambda>e. fst e \<noteq> k) c"

definition listLRU :: "nat \<Rightarrow> (bytes \<times> nat) list lru_ops" where
  "listLRU cap =
     \<lparr>lruGet = \<lambda>k c. (map_of c k, case map_of c k of Some v \<Rightarrow> (k, v) # drop_key k c | None \<Rightarrow> c),
      lruPeek = \<lambda>k c. map_of c k,
      lruAdd = \<lambda>k v c. if map_of c k \<noteq> None then (None, (k, v) # drop_key k c)
                       else if length c \<ge> cap then (Some (last c), (k, v) # butlast c)
                       else (None, (k, v) # c),
      lruRemove = \<lambda>k c. (map_option (Pair k) (map_of c k), drop_key k c)\<rparr>"

definition lru_ok :: "nat \<Rightarrow> (bytes \<times> nat) list \<Rightarrow> bool" where
  "lru_ok cap c \<longleftrightarrow> distinct (map fst c) \<and> length c \<le> cap"

lemma drop_key_ok:
  "distinct (map fst c) \<Longrightarrow> distinct (map fst (drop_key k c))" "k \<notin> fst ` set (drop_key k c)"
  "map_of (drop_key k c) = (map_of c)(k := None)" "length (drop_key k c) \<le> length c"
  by (induction c) (auto simp: drop_key_def fun_eq_iff le_SucI)

lemma drop_key_shorter: "map_of c k \<noteq> None \<Longrightarrow> length (drop_key k c) < length c"
  by (induction c) (auto simp: drop_key_def less_Suc_eq_le split: if_splits)

lemma map_of_butlast:
  assumes "distinct (map fst c)" and "c \<noteq> []"
  shows "map_of (butlast c) = (map_of c)(fst (last c) := None)"
    and "map_of c (fst (last c)) = Some (snd (last c))" and "distinct (map fst (butlast c))"
proof -
  define xs x where "xs = butlast c" and "x = last c"
  then have c: "c = xs @ [x]" using assms(2) by simp
  have "fst x \<notin> fst ` set xs" "distinct (map fst xs)" using assms(1) by (auto simp: c)
  then have "map_of xs (fst x) = None" by (simp add: map_of_eq_None_iff)
  then show "map_of (butlast c) = (map_of c)(fst (last c) := None)"
    and "map_of c (fst (last c)) = Some (snd (last c))" and "distinct (map fst (butlast c))"
    using \<open>distinct (map fst xs)\<close> by (auto simp: c map_add_def fun_eq_iff split: option.split)
qed

lemma listLRU_add:
  assumes "0 < cap" and "lru_ok cap c"
  shows "add_law (listLRU cap) (lru_ok cap) map_of c"
  unfolding add_law_def
proof (intro allI impI)
  fix k v ev c' assume a: "lruAdd (listLRU cap) k v c = (ev, c')"
  have d: "distinct (map fst c)" and len: "length c \<le> cap" using assms(2) by (simp_all add: lru_ok_def)
  consider (upd) "map_of c k \<noteq> None" "ev = None" "c' = (k, v) # drop_key k c"
    | (evict) "map_of c k = None" "length c \<ge> cap" "ev = Some (last c)" "c' = (k, v) # butlast c"
    | (new) "map_of c k = None" "length c < cap" "ev = None" "c' = (k, v) # c"
    using a by (auto simp: listLRU_def split: if_splits)
  then show "lru_ok cap c' \<and> (case ev of None \<Rightarrow> map_of c' = (map_of c)(k \<mapsto> v)
      | Some (k', v') \<Rightarrow> k' \<noteq> k \<and> map_of c k' = Some v' \<and> map_of c' = (map_of c)(k' := None, k \<mapsto> v))"
  proof cases
    case upd
    have l: "length (drop_key k c) < cap" using drop_key_shorter [OF upd(1)] len by simp
    show ?thesis unfolding upd(2,3) lru_ok_def
      using drop_key_ok(1) [OF d, of k] drop_key_ok(2) [of k c] l by (simp add: drop_key_ok(3))
  next
    case evict
    have "c \<noteq> []" using evict(2) assms(1) by auto
    note b = map_of_butlast [OF d this]
    have "fst (last c) \<noteq> k" using evict(1) b(2) by auto
    moreover have "k \<notin> fst ` set (butlast c)"
      using evict(1) by (auto simp: map_of_eq_None_iff dest: in_set_butlastD)
    ultimately show ?thesis using b len evict(2) assms(1)
      by (simp add: evict(3,4) lru_ok_def split: prod.split) (metis fst_conv snd_conv)
  next
    case new
    then show ?thesis using d by (simp add: lru_ok_def map_of_eq_None_iff)
  qed
qed

lemma listLRU_laws:
  assumes "0 < cap"
  shows "lru_laws (listLRU cap) (lru_ok cap) map_of"
  unfolding lru_laws_def
proof (intro allI impI conjI)
  fix c :: "(bytes \<times> nat) list" and k :: bytes assume c: "lru_ok cap c"
  then have d: "distinct (map fst c)" and len: "length c \<le> cap" by (simp_all add: lru_ok_def)
  show "fst (lruGet (listLRU cap) k c) = map_of c k" and "lruPeek (listLRU cap) k c = map_of c k"
    and "fst (lruRemove (listLRU cap) k c) = map_option (Pair k) (map_of c k)"
    and "map_of (snd (lruRemove (listLRU cap) k c)) = (map_of c)(k := None)"
    by (simp_all add: listLRU_def drop_key_ok)
  show "lru_ok cap (snd (lruRemove (listLRU cap) k c))"
    using drop_key_ok(1) [OF d, of k] drop_key_ok(4) [of k c] len by (simp add: listLRU_def lru_ok_def)
  show "add_law (listLRU cap) (lru_ok cap) map_of c" using assms c by (rule listLRU_add)
  show "lru_ok cap (snd (lruGet (listLRU cap) k c))"
  proof (cases "map_of c k")
    case (Some v)
    then have "length (drop_key k c) < cap" using drop_key_shorter [of c k] len by simp
    then show ?thesis using drop_key_ok(1) [OF d, of k] drop_key_ok(2) [of k c] Some
      by (simp add: listLRU_def lru_ok_def)
  qed (use c in \<open>simp add: listLRU_def\<close>)
  show "map_of (snd (lruGet (listLRU cap) k c)) = map_of c"
    by (cases "map_of c k") (auto simp: listLRU_def drop_key_ok)
qed

abbreviation env0 :: env where
  "env0 \<equiv> \<lparr>draw = \<lambda>_. 0, clock = 7\<rparr>"

text \<open>After a load report, two keys get the two free partitions, the lighter one first.\<close>

definition warmPSA :: "(bytes \<times> nat) list psa" where
  "warmPSA = psa_OnMetrics (listLRU 2) env0
     (zeroMetrics\<lparr>derived := (derived zeroMetrics)\<lparr>PartitionLoads := [Fin 1, Fin 0]\<rparr>\<rparr>) (NewPSA [] 2)"

theorem PSA_affinity_witness:
  "\<exists>i p'. psa_SelectPartition (listLRU 2) env0 ''t'' [5] 2 warmPSA = Some (i, p') \<and> i < 2 \<and>
     map_of (bindings p') [5] = Some i"
proof -
  have "(psa_step (listLRU 2))\<^sup>*\<^sup>* (NewPSA [] 2) warmPSA"
    unfolding warmPSA_def by (intro r_into_rtranclp psa_step.metrics)
  from PSA_affinity [OF listLRU_laws _ _ _ this, of env0 "''t''" "[5]"] show ?thesis
    by (auto simp: lru_ok_def)
qed

theorem PSA_cold_start_witness:
  "psa_SelectPartition (listLRU 2) env0 ''t'' [3] 4 (NewPSA [] 2) = None"
proof -
  have h: "unat (hashKey [3]) mod 4 = 2" by (simp add: hashKey_def fnv_step_def)
  have "psa_ok (lru_ok 2) map_of (NewPSA [] 2)" by (rule NewPSA_ok) (simp_all add: lru_ok_def)
  from PSA_cold_start [OF listLRU_laws this, of "[3]" 4 env0 "''t''"] h show ?thesis
    by (simp add: NewPSA_def)
qed

end
