(* ===== verification/Scheduler.thy ===== *)
theory Scheduler
  imports Partition Balancer
begin

text \<open>
  Delivery order, \<^verbatim>\<open>pkg/scheduler\<close>. A scheduler is a record of operations over its own state;
  \<^verbatim>\<open>Next\<close> takes a partition and a consumer offset and returns a message with the offset to
  continue at, or an error. Popping the index changes the partition, so the partition is
  returned as well.

  What the broker relies on is the locale \<^verbatim>\<open>scheduler\<close>: \<^verbatim>\<open>Next\<close> changes nothing of a
  partition but its index, and what it delivers was read from the log. \<^verbatim>\<open>FIFO\<close> and
  \<^verbatim>\<open>StrictPriority\<close> are modelled here, the learning scheduler in its own theory.
\<close>

record ('w, 's) sched_ops =
  SchedNext :: "env \<Rightarrow> 'w partition \<Rightarrow> u64 \<Rightarrow> 's \<Rightarrow> (err + message \<times> u64) \<times> 'w partition \<times> 's"
  Enqueue :: "message \<Rightarrow> i64 \<Rightarrow> 's \<Rightarrow> 's"
  StopSched :: "('s \<Rightarrow> 's) option"

text \<open>\<open>n\<close> calls of \<^verbatim>\<open>Next\<close>, each with its own draws and clock and at the offset the one before it returned.\<close>

fun sched_run :: "('w, 's) sched_ops \<Rightarrow> (nat \<Rightarrow> env) \<Rightarrow> nat \<Rightarrow> 'w partition \<Rightarrow> u64 \<Rightarrow> 's \<Rightarrow>
    (err + message \<times> u64) list \<times> 'w partition \<times> 's" where
  "sched_run S envs 0 p off s = ([], p, s)"
| "sched_run S envs (Suc n) p off s =
     (let (r, p1, s1) = SchedNext S (envs 0) p off s;
          off1 = (case r of Inr (_, o') \<Rightarrow> o' | Inl _ \<Rightarrow> off);
          (rs, p2, s2) = sched_run S (envs \<circ> Suc) n p1 off1 s1
      in (r # rs, p2, s2))"

lemma Read_index [simp]: "Read W (p\<lparr>priorityIndex := ix\<rparr>) off = Read W p off"
proof -
  have "readFromBatch W (p\<lparr>priorityIndex := ix\<rparr>) = readFromBatch W p"
    by (auto simp: readFromBatch_def fun_eq_iff split: sum.split)
  then show ?thesis by (simp add: Read_def split: sum.split)
qed

locale scheduler =
  fixes S :: "('w, 's) sched_ops"
    and W :: "'w wal_ops"
    and winv :: "'w \<Rightarrow> bool"
    and view :: "'w \<Rightarrow> wal_view"
    and sched_ok :: "'s \<Rightarrow> bool"
  assumes next_keeps: "part_ok winv view p \<Longrightarrow> sched_ok s \<Longrightarrow> SchedNext S env p off s = (r, p', s') \<Longrightarrow>
      part_ok winv view p' \<and> sched_ok s' \<and> (\<exists>ix. p' = p\<lparr>priorityIndex := ix\<rparr>)"
    and next_reads: "part_ok winv view p \<Longrightarrow> sched_ok s \<Longrightarrow>
      SchedNext S env p off s = (Inr (m, o'), p', s') \<Longrightarrow> \<exists>off'. Read W p off' = Inr m"
begin

lemma run_keeps:
  assumes "part_ok winv view p" and "sched_ok s" and "sched_run S envs n p off s = (rs, p', s')"
  shows "part_ok winv view p' \<and> sched_ok s' \<and> (\<exists>ix. p' = p\<lparr>priorityIndex := ix\<rparr>) \<and>
    (\<forall>m o'. Inr (m, o') \<in> set rs \<longrightarrow> (\<exists>off'. Read W p off' = Inr m))"
  using assms
proof (induction n arbitrary: envs p off s rs)
  case 0
  then have "p' = p\<lparr>priorityIndex := priorityIndex p\<rparr>" by simp
  then have "\<exists>ix. p' = p\<lparr>priorityIndex := ix\<rparr>" by blast
  with 0 show ?case by simp
next
  case (Suc n)
  obtain r p1 s1 where step: "SchedNext S (envs 0) p off s = (r, p1, s1)" by (metis prod_cases3)
  obtain rs2 where rest: "sched_run S (envs \<circ> Suc) n p1 (case r of Inr (_, o') \<Rightarrow> o' | Inl _ \<Rightarrow> off) s1 = (rs2, p', s')"
    and rs: "rs = r # rs2"
    using Suc.prems(3) by (auto simp: step Let_def split: prod.splits)
  from next_keeps [OF Suc.prems(1,2) step] obtain ix where
    k: "part_ok winv view p1" "sched_ok s1" "p1 = p\<lparr>priorityIndex := ix\<rparr>" by blast
  from Suc.IH [OF k(1,2) rest] obtain ix' where
    i: "part_ok winv view p'" "sched_ok s'" "p' = p1\<lparr>priorityIndex := ix'\<rparr>"
      "\<forall>m o'. Inr (m, o') \<in> set rs2 \<longrightarrow> (\<exists>off'. Read W p1 off' = Inr m)" by blast
  have "\<exists>off'. Read W p off' = Inr m" if "Inr (m, o') \<in> set rs" for m o'
  proof (cases "r = Inr (m, o')")
    case True
    then show ?thesis using next_reads [OF Suc.prems(1,2)] step by blast
  next
    case False
    with that rs have "Inr (m, o') \<in> set rs2" by auto
    then show ?thesis using i(4) k(3) by auto
  qed
  moreover have "\<exists>ix. p' = p\<lparr>priorityIndex := ix\<rparr>" using i(3) k(3) by auto
  ultimately show ?case using i(1,2) by blast
qed

end

subsection \<open>FIFO\<close>

definition fifo_Next :: "'w wal_ops \<Rightarrow> 'w partition \<Rightarrow> u64 \<Rightarrow> err + message \<times> u64" where
  "fifo_Next W p consumerOffset =
     (if consumerOffset > HighWaterMark p then Inl ErrNoMessages
      else case Read W p consumerOffset of
             Inl e \<Rightarrow> Inl e
           | Inr msg \<Rightarrow> Inr (msg, consumerOffset + 1))"

definition FIFO :: "'w wal_ops \<Rightarrow> ('w, unit) sched_ops" where
  "FIFO W = \<lparr>SchedNext = \<lambda>env p off s. (fifo_Next W p off, p, s),
     Enqueue = \<lambda>msg off s. s, StopSched = None\<rparr>"

lemma fifo_scheduler: "scheduler (FIFO W) W winv view (\<lambda>_. True)"
proof
  fix p p' :: "'a partition" and env off r s s'
  assume "part_ok winv view p" "SchedNext (FIFO W) env p off s = (r, p', s')"
  then show "part_ok winv view p' \<and> True \<and> (\<exists>ix. p' = p\<lparr>priorityIndex := ix\<rparr>)"
    by (auto simp: FIFO_def intro: exI [of _ "priorityIndex p"])
next
  fix p p' :: "'a partition" and env off m o' s s'
  assume "SchedNext (FIFO W) env p off s = (Inr (m, o'), p', s')"
  then show "\<exists>off'. Read W p off' = Inr m"
    by (auto simp: FIFO_def fifo_Next_def split: if_splits sum.splits)
qed

interpretation fifo: scheduler "FIFO W" W winv view "\<lambda>_. True" for W winv view
  by (rule fifo_scheduler)

text \<open>
  Within the log one call reads the entry at the offset; behind it there is nothing; below
  the first retained entry the call fails and keeps failing.
\<close>

lemma fifo_Next_within:
  assumes "wal_laws W winv view" and "part_ok winv view p" and "Read W p off = Inr m"
  shows "fifo_Next W p off = Inr (m, off + 1)"
proof -
  have "\<exists>d. walRead W (plog p) off = Inr d" using assms(3) by (auto simp: Read_def split: sum.splits)
  then have "wal_has (view (plog p)) off"
    using wal_read_missing [OF assms(1) part_okD(1) [OF assms(2)]] by fastforce
  then have "unat off \<le> unat (HighWaterMark p)"
    using HighWaterMark_ok [OF assms(1,2)] by (auto simp: wal_has_def)
  then have "\<not> off > HighWaterMark p" by (simp add: word_less_nat_alt)
  with assms(3) show ?thesis by (simp add: fifo_Next_def)
qed

lemma fifo_Next_end:
  assumes "wal_laws W winv view" and "part_ok winv view p" and "wal_end (view (plog p)) \<le> unat off"
  shows "fifo_Next W p off = Inl ErrNoMessages"
proof -
  have "0 < wal_end (view (plog p))"
    using wal_viewD [OF assms(1) part_okD(1) [OF assms(2)]] by (simp add: wal_end_def)
  then have "unat (HighWaterMark p) < unat off"
    using HighWaterMark_ok [OF assms(1,2)] assms(3) by linarith
  then show ?thesis by (simp add: fifo_Next_def word_less_nat_alt)
qed

lemma fifo_Next_truncated:
  assumes "wal_laws W winv view" and "part_ok winv view p" and "unat off < fst (view (plog p))"
  shows "\<exists>e. fifo_Next W p off = Inl e"
proof -
  have "\<not> wal_has (view (plog p)) off" using assms(3) by (simp add: wal_has_def)
  from wal_read_missing [OF assms(1) part_okD(1) [OF assms(2)] this] show ?thesis
    by (auto simp: fifo_Next_def Read_def)
qed

text \<open>A run from an offset of a readable log delivers the log from there on, in order.\<close>

lemma fifo_run:
  assumes laws: "wal_laws W winv view" and ok: "part_ok winv view p" and r: "readable W view p"
    and lo: "fst (view (plog p)) \<le> unat off" and hi: "unat off + n \<le> wal_end (view (plog p))"
  shows "sched_run (FIFO W) envs n p off () =
    (map (\<lambda>i. Inr (projr (contents W view p ! (i - fst (view (plog p)))), word_of_nat (i + 1)))
       [unat off..<unat off + n], p, ())"
  using lo hi
proof (induction n arbitrary: envs off)
  case (Suc n)
  let ?a = "fst (view (plog p))" and ?b = "wal_end (view (plog p))"
  have b64: "?b < 2 ^ 64" using wal_viewD [OF laws part_okD(1) [OF ok]] by simp
  have at: "contents W view p ! (unat off - ?a) = Read W p off"
    using Suc.prems nth_upt [of ?a "unat off - ?a" ?b] by (simp add: contents_def)
  have "contents W view p ! (unat off - ?a) \<in> set (contents W view p)"
    using Suc.prems by (intro nth_mem) (simp add: contents_def)
  then obtain m where m: "Read W p off = Inr m"
    using r at unfolding readable_def by (metis list_all_iff sum.collapse(2))
  have succ: "off + 1 = word_of_nat (unat off + 1)" by (simp add: add.commute)
  have next_off: "unat (off + 1) = unat off + 1"
    unfolding succ by (rule unat_word_of_nat_u64) (use Suc.prems(2) b64 in simp)
  from Suc.IH [of "off + 1" "envs \<circ> Suc"] have rest:
    "sched_run (FIFO W) (envs \<circ> Suc) n p (off + 1) () =
      (map (\<lambda>i. Inr (projr (contents W view p ! (i - ?a)), word_of_nat (i + 1)))
        [unat off + 1..<unat off + 1 + n], p, ())"
    using Suc.prems by (simp only: next_off)
  have step: "SchedNext (FIFO W) (envs 0) p off () = (Inr (m, off + 1), p, ())"
    using fifo_Next_within [OF laws ok m] by (simp add: FIFO_def)
  have upt: "[unat off..<unat off + Suc n] = unat off # [unat off + 1..<unat off + 1 + n]"
    by (simp add: upt_conv_Cons del: upt_Suc)
  show ?case unfolding upt by (simp add: step rest at m)
qed simp

subsection \<open>Strict priority\<close>

definition strict_Next :: "'w wal_ops \<Rightarrow> 'w partition \<Rightarrow> (err + message \<times> u64) \<times> 'w partition" where
  "strict_Next W p =
     (case priorityIndex p of
        None \<Rightarrow> (Inl ErrNoPriorityIndex, p)
      | Some ix \<Rightarrow>
          (let ((entry, ok), ix') = PopHighest ix; p1 = p\<lparr>priorityIndex := Some ix'\<rparr>
           in if \<not> ok then (Inl ErrNoMessages, p1)
              else case Read W p1 (WalOffset entry) of
                     Inl e \<Rightarrow> (Inl e, p1)
                   | Inr msg \<Rightarrow> (Inr (msg, WalOffset entry), p1)))"

definition StrictPriority :: "'w wal_ops \<Rightarrow> ('w, unit) sched_ops" where
  "StrictPriority W = \<lparr>SchedNext = \<lambda>env p off s. (let (r, p') = strict_Next W p in (r, p', s)),
     Enqueue = \<lambda>msg off s. s, StopSched = None\<rparr>"

lemma PopHighest_ok: "pi_ok ix \<Longrightarrow> PopHighest ix = (eo, ix') \<Longrightarrow> pi_ok ix'"
  using pop_down_spec [of ix 0] by (auto simp: PopHighest_def)

lemma strict_scheduler: "scheduler (StrictPriority W) W winv view (\<lambda>_. True)"
proof
  fix p p' :: "'a partition" and env off r s s'
  assume "part_ok winv view p" "SchedNext (StrictPriority W) env p off s = (r, p', s')"
  then show "part_ok winv view p' \<and> True \<and> (\<exists>ix. p' = p\<lparr>priorityIndex := ix\<rparr>)"
    by (auto simp: StrictPriority_def strict_Next_def part_ok_def Let_def
          intro: exI [of _ "priorityIndex p"] dest: PopHighest_ok
          split: prod.splits option.splits sum.splits if_splits)
next
  fix p p' :: "'a partition" and env off m o' s s'
  assume "SchedNext (StrictPriority W) env p off s = (Inr (m, o'), p', s')"
  then show "\<exists>off'. Read W p off' = Inr m"
    by (auto simp: StrictPriority_def strict_Next_def Let_def split: prod.splits option.splits sum.splits if_splits)
qed

interpretation strict: scheduler "StrictPriority W" W winv view "\<lambda>_. True" for W winv view
  by (rule strict_scheduler)

text \<open>The order of a drain: highest level first, and each level from its oldest entry on.\<close>

definition drain_order :: "(nat \<Rightarrow> pending_entry list) \<Rightarrow> pending_entry list" where
  "drain_order L = concat (map L (rev [0..<MaxPriority]))"

lemma drain_order_split:
  assumes "p < MaxPriority"
  shows "drain_order L = concat (map L (rev [Suc p..<MaxPriority])) @ L p @ concat (map L (rev [0..<p]))"
proof -
  have "[0..<MaxPriority] = [0..<p] @ p # [Suc p..<MaxPriority]"
    using assms upt_add_eq_append [of 0 p "MaxPriority - p"] by (simp add: upt_conv_Cons)
  then show ?thesis by (simp add: drain_order_def)
qed

lemma drain_order_delivers:
  assumes "delivers L p e L'" and "\<forall>q. p < q \<and> q < MaxPriority \<longrightarrow> L q = []"
  shows "drain_order L = e # drain_order L'"
proof -
  have p: "p < MaxPriority" using delivers_head(1) [OF assms(1)] .
  have L': "\<And>q. q \<noteq> p \<Longrightarrow> L' q = L q" and head: "L p = e # L' p"
    using assms(1) unfolding delivers_def by (metis fun_upd_other)+
  have "concat (map L (rev [Suc p..<MaxPriority])) = []" "concat (map L' (rev [Suc p..<MaxPriority])) = []"
    using assms(2) L' by auto
  moreover have "map L' (rev [0..<p]) = map L (rev [0..<p])" by (rule map_cong) (auto simp: L')
  ultimately show ?thesis
    unfolding drain_order_split [OF p, of L] drain_order_split [OF p, of L'] head by (simp only: append_Nil append_Cons)
qed

lemma strict_Next_pop:
  assumes "part_ok winv view p" and "priorityIndex p = Some ix" and "drain_order (level_items ix) = e # es"
  obtains ix' where "pi_ok ix'" and "drain_order (level_items ix') = es"
    and "strict_Next W p = (case Read W p (WalOffset e) of Inl x \<Rightarrow> Inl x | Inr m \<Rightarrow> Inr (m, WalOffset e),
      p\<lparr>priorityIndex := Some ix'\<rparr>)"
proof -
  have ok: "pi_ok ix" using assms(1,2) by (simp add: part_ok_def)
  have ne: "\<not> (\<forall>q. 0 \<le> q \<and> q < MaxPriority \<longrightarrow> level_items ix q = [])"
  proof
    assume "\<forall>q. 0 \<le> q \<and> q < MaxPriority \<longrightarrow> level_items ix q = []"
    then have "drain_order (level_items ix) = []" by (simp add: drain_order_def)
    with assms(3) show False by simp
  qed
  with pop_down_spec [OF ok, of 0] obtain q e' ix' where
    pop: "pop_levels (rev [0..<MaxPriority]) ix = ((e', True), ix')" "pi_ok ix'"
      "delivers (level_items ix) q e' (level_items ix')"
      "\<forall>r. q < r \<and> r < MaxPriority \<longrightarrow> level_items ix r = []" by blast
  have d: "e' = e" "drain_order (level_items ix') = es"
    using drain_order_delivers [OF pop(3,4)] assms(3) by simp_all
  show ?thesis
    by (rule that [OF pop(2) d(2)])
      (simp add: strict_Next_def assms(2) PopHighest_def pop(1) d(1) split: sum.split)
qed

lemma strict_Next_empty:
  assumes "part_ok winv view p" and "priorityIndex p = Some ix" and "drain_order (level_items ix) = []"
  shows "strict_Next W p = (Inl ErrNoMessages, p)"
proof -
  have ok: "pi_ok ix" using assms(1,2) by (simp add: part_ok_def)
  have "\<forall>q < MaxPriority. level_items ix q = []" using assms(3) by (auto simp: drain_order_def)
  moreover have "pop_levels (rev [0..<MaxPriority]) ix = ((zeroEntry, False), ix)"
    using pop_down_spec [OF ok, of 0] delivers_head calculation by blast
  ultimately show ?thesis using assms(2) by (simp add: strict_Next_def PopHighest_def)
qed

text \<open>
  C8: strict priority: as long as nothing is appended, repeated \<^verbatim>\<open>Next\<close> calls deliver exactly the
  pending entries, from the highest priority level down and in arrival order within a level,
  each with the message its offset has in the log, and then report that there is nothing left.
\<close>

theorem StrictPriority_drains:
  assumes "part_ok winv view p" and "priorityIndex p = Some ix"
    and "\<forall>e \<in> set (drain_order (level_items ix)). \<exists>m. Read W p (WalOffset e) = Inr m"
  shows "fst (sched_run (StrictPriority W) envs (length (drain_order (level_items ix)) + 1) p off ()) =
    map (\<lambda>e. Inr (projr (Read W p (WalOffset e)), WalOffset e)) (drain_order (level_items ix)) @ [Inl ErrNoMessages]"
  using assms
proof (induction "drain_order (level_items ix)" arbitrary: envs p ix off)
  case Nil
  then show ?case using strict_Next_empty [OF Nil(2,3)] by (simp add: StrictPriority_def)
next
  case (Cons e es)
  from Cons.hyps(2) have ord: "drain_order (level_items ix) = e # es" by simp
  from strict_Next_pop [OF Cons.prems(1,2) ord, of W] obtain ix' where
    ix': "pi_ok ix'" "drain_order (level_items ix') = es"
      "strict_Next W p = (case Read W p (WalOffset e) of Inl x \<Rightarrow> Inl x | Inr m \<Rightarrow> Inr (m, WalOffset e),
        p\<lparr>priorityIndex := Some ix'\<rparr>)" by blast
  from Cons.prems(3) ord obtain m where m: "Read W p (WalOffset e) = Inr m" by auto
  let ?p = "p\<lparr>priorityIndex := Some ix'\<rparr>"
  have "part_ok winv view ?p" using Cons.prems(1) ix'(1) by (simp add: part_ok_def)
  from Cons.hyps(1) [OF ix'(2) [symmetric] this] Cons.prems(3) ord ix'(2)
  have rest: "fst (sched_run (StrictPriority W) envs' (length es + 1) ?p o' ()) =
      map (\<lambda>e. Inr (projr (Read W p (WalOffset e)), WalOffset e)) es @ [Inl ErrNoMessages]" for o' envs'
    by simp
  have step: "SchedNext (StrictPriority W) (envs 0) p off () = (Inr (m, WalOffset e), ?p, ())"
    by (simp add: StrictPriority_def ix'(3) m)
  have "fst (sched_run (StrictPriority W) envs (Suc n) p off ()) =
      Inr (m, WalOffset e) # fst (sched_run (StrictPriority W) (envs \<circ> Suc) n ?p (WalOffset e) ())" for n
    by (simp add: step split: prod.split)
  from this [of "length es + 1"] show ?case
    using rest [of "envs \<circ> Suc" "WalOffset e"] m unfolding ord by (simp del: sched_run.simps)
qed

definition samplePending :: "list_wal partition" where
  "samplePending =
     snd (AppendBatch listWal 9 0 4 (\<lambda>_. []) [sampleMsg 3 8, sampleMsg 7 6, sampleMsg 3 5] (samplePart 2 None))"

lemma samplePending_ok: "part_ok lw_inv lw_view samplePending"
proof -
  let ?r = "AppendBatch listWal 9 0 4 (\<lambda>_. []) [sampleMsg 3 8, sampleMsg 7 6, sampleMsg 3 5] (samplePart 2 None)"
  have "fst ?r = Inr [1, 2, 3]" by code_simp
  then have "?r = (Inr [1, 2, 3], samplePending)" by (simp add: samplePending_def prod_eq_iff)
  from AppendBatch_done(3) [OF listWal_laws samplePart_ok _ this] show ?thesis by simp
qed

lemma samplePending_index:
  obtains ix where "priorityIndex samplePending = Some ix" "map WalOffset (drain_order (level_items ix)) = [2, 1, 3]"
    "\<forall>e \<in> set (drain_order (level_items ix)). \<exists>m. Read listWal samplePending (WalOffset e) = Inr m"
proof -
  have "map_option (\<lambda>ix. map WalOffset (drain_order (level_items ix))) (priorityIndex samplePending) = Some [2, 1, 3]"
    by code_simp
  then obtain ix where ix: "priorityIndex samplePending = Some ix"
    and d: "map WalOffset (drain_order (level_items ix)) = [2, 1, 3]" by auto
  have rd: "list_all (\<lambda>off. \<not> isl (Read listWal samplePending off)) [2, 1, 3]" by code_simp
  have "\<exists>m. Read listWal samplePending (WalOffset e) = Inr m" if e: "e \<in> set (drain_order (level_items ix))" for e
  proof -
    have "WalOffset e \<in> set (map WalOffset (drain_order (level_items ix)))" using e by simp
    then have "WalOffset e \<in> set [2, 1, 3]" by (simp only: d)
    with rd have "\<not> isl (Read listWal samplePending (WalOffset e))" unfolding list_all_iff by blast
    then show ?thesis by (metis sum.collapse(2))
  qed
  then show ?thesis by (intro that [OF ix d] ballI)
qed

theorem StrictPriority_drains_witness:
  "map (map_sum id snd) (fst (sched_run (StrictPriority listWal) (\<lambda>_. \<lparr>draw = \<lambda>_. 0, clock = 0\<rparr>) 4 samplePending 1 ())) =
     [Inr 2, Inr 1, Inr 3, Inl ErrNoMessages]"
proof -
  obtain ix where ix: "priorityIndex samplePending = Some ix" "map WalOffset (drain_order (level_items ix)) = [2, 1, 3]"
    "\<forall>e \<in> set (drain_order (level_items ix)). \<exists>m. Read listWal samplePending (WalOffset e) = Inr m"
    by (rule samplePending_index)
  from StrictPriority_drains [OF samplePending_ok ix(1,3), of "\<lambda>_. \<lparr>draw = \<lambda>_. 0, clock = 0\<rparr>" 1]
  have "map (map_sum id snd) (fst (sched_run (StrictPriority listWal) (\<lambda>_. \<lparr>draw = \<lambda>_. 0, clock = 0\<rparr>)
      (length (map WalOffset (drain_order (level_items ix))) + 1) samplePending 1 ())) =
    map Inr (map WalOffset (drain_order (level_items ix))) @ [Inl ErrNoMessages]"
    by (simp del: sched_run.simps)
  then show ?thesis unfolding ix(2) by (simp add: numeral_eq_Suc del: sched_run.simps)
qed

end
