(* ===== verification/Broker.thy ===== *)
theory Broker
  imports Topic Retention OffsetStore Backpressure LoadPredictor Scheduler "HOL-Library.Signed_Division"
begin

text \<open>
  The broker, \<^verbatim>\<open>pkg/broker/broker.go\<close>: topics and their schedulers, the balancer and the
  backpressure controller, the configuration snapshot, metrics, predictor and offset store,
  and the operations on them. The parameters are those of the parts: the log library \<open>W\<close>, the
  key-value store \<open>K\<close>, the compression libraries, the balancer operations \<open>B\<close> and the
  scheduler operations \<open>S\<close>.

  The concurrent maps are association lists; their order stands for the order in which
  \<^verbatim>\<open>Range\<close> visits them. Every operation is one atomic step. The goroutines of \<^verbatim>\<open>PublishBatch\<close>
  work on different partitions and are run one after the other in an order that is an
  argument; the tickers of the three loops call the tick operations below. A nil balancer is
  \<^const>\<open>None\<close> and calling it is the panic it is in Go. What the environment supplies to a
  publish (clock, flush latency, buffers) is the record \<^verbatim>\<open>pub_io\<close>.
\<close>

record pub_io =
  ienv :: env
  produceNs :: i64
  appendNs :: i64
  flushNs :: int
  indexNow :: gotime
  bufPool :: "nat \<Rightarrow> bytes"

record ('w, 'd, 'b, 's) broker =
  snapCfg :: config
  snapCodec :: codec
  snapGate :: int
  rtBalancer :: "'b option"
  rtBackpressure :: "bp_controller option"
  rtFactory :: "(topic_config \<Rightarrow> 's) option"
  dataDir :: string
  topics :: "(string \<times> 'w topic) list"
  schedulers :: "(string \<times> 's) list"
  bmetrics :: collector
  bpredictor :: load_predictor
  offsetStore :: "'d ostore option"

definition gate_size :: "config \<Rightarrow> int" where
  "gate_size cfg = (if NumIOGoroutines cfg \<le> 0 then 4 else NumIOGoroutines cfg)"

definition New :: "('g, 'l) compress_lib \<Rightarrow> config \<Rightarrow> string \<Rightarrow> 'b option \<Rightarrow> 'd ostore option \<Rightarrow> gotime \<Rightarrow>
    ('w, 'd, 'b, 's) broker" where
  "New lib cfg dir bal store now =
     \<lparr>snapCfg = cfg, snapCodec = NewCodec lib (CompressionType cfg), snapGate = gate_size cfg,
      rtBalancer = bal, rtBackpressure = Some (NewBackpressureController DefaultBPThreshold),
      rtFactory = None, dataDir = dir, topics = [], schedulers = [],
      bmetrics = NewMetricsCollector now, bpredictor = NewLoadPredictor 100 8, offsetStore = store\<rparr>"

text \<open>The old balancer is stopped in the background; nothing refers to it any more.\<close>

definition SetBalancer :: "'b option \<Rightarrow> ('w, 'd, 'b, 's) broker \<Rightarrow> ('w, 'd, 'b, 's) broker" where
  "SetBalancer bal b = b\<lparr>rtBalancer := bal\<rparr>"

definition stopScheduler :: "string \<Rightarrow> ('w, 'd, 'b, 's) broker \<Rightarrow> ('w, 'd, 'b, 's) broker" where
  "stopScheduler name b = b\<lparr>schedulers := AList.delete name (schedulers b)\<rparr>"

definition SetScheduler :: "string \<Rightarrow> 's \<Rightarrow> ('w, 'd, 'b, 's) broker \<Rightarrow> ('w, 'd, 'b, 's) broker" where
  "SetScheduler name sched b =
     (let b1 = stopScheduler name b in b1\<lparr>schedulers := AList.update name sched (schedulers b1)\<rparr>)"

definition SetSchedulerFactory :: "(topic_config \<Rightarrow> 's) option \<Rightarrow> ('w, 'd, 'b, 's) broker \<Rightarrow>
    ('w, 'd, 'b, 's) broker" where
  "SetSchedulerFactory fn b = b\<lparr>rtFactory := fn\<rparr>"

definition SetBackpressure :: "bp_controller option \<Rightarrow> ('w, 'd, 'b, 's) broker \<Rightarrow> ('w, 'd, 'b, 's) broker" where
  "SetBackpressure bp b = b\<lparr>rtBackpressure := bp\<rparr>"

subsection \<open>Topics\<close>

definition CreateTopic :: "'w wal_ops \<Rightarrow> (string \<times> string \<times> int \<Rightarrow> bool \<Rightarrow> err + 'w) \<Rightarrow> string \<Rightarrow>
    topic_config \<Rightarrow> ('w, 'd, 'b, 's) broker \<Rightarrow> err option \<times> ('w, 'd, 'b, 's) broker" where
  "CreateTopic W walOpen name cfg b =
     (case NewTopic W walOpen name (dataDir b) cfg (cfgSyncPolicy (snapCfg b)) of
        Inl (e, _) \<Rightarrow> (Some e, b)
      | Inr t0 \<Rightarrow>
          (let t = (if CompressionType (snapCfg b) \<noteq> CompressionNone
                    then t0\<lparr>partitions := map (SetBatchCodec (snapCodec b)) (partitions t0)\<rparr> else t0)
           in if map_of (topics b) name \<noteq> None then (Some ErrTopicAlreadyExists, b)
              else (None, b\<lparr>topics := AList.update name t (topics b),
                            schedulers := (case rtFactory b of
                                             Some fn \<Rightarrow> AList.update name (fn cfg) (schedulers b)
                                           | None \<Rightarrow> schedulers b)\<rparr>)))"

definition forget_partition :: "nat \<Rightarrow> ('w, 'd, 'b, 's) broker \<Rightarrow> ('w, 'd, 'b, 's) broker" where
  "forget_partition i b =
     b\<lparr>bpredictor := RemovePartitionHistory i (bpredictor b),
       bmetrics := RemovePartitionCounters i (bmetrics b)\<rparr>"

definition DeleteTopic :: "'w wal_ops \<Rightarrow> 'd kv_ops \<Rightarrow> err option \<Rightarrow> string \<Rightarrow> ('w, 'd, 'b, 's) broker \<Rightarrow>
    err option \<times> ('w, 'd, 'b, 's) broker" where
  "DeleteTopic W K removeAllErr name b =
     (case map_of (topics b) name of
        None \<Rightarrow> (Some ErrTopicNotFound, b)
      | Some t \<Rightarrow>
          (let partIDs = map (nat \<circ> ID) (partitions t);
               b1 = stopScheduler name (b\<lparr>topics := AList.delete name (topics b)\<rparr>)
           in case fst (CloseTopic W t) of
                Some e \<Rightarrow> (Some e, b1)
              | None \<Rightarrow>
                  (let b2 = fold forget_partition partIDs b1
                   in case removeAllErr of
                        Some e \<Rightarrow> (Some e, b2)
                      | None \<Rightarrow> (None, b2\<lparr>offsetStore := map_option (DeleteTopicOffsets K name) (offsetStore b2)\<rparr>))))"

definition GetTopic :: "string \<Rightarrow> ('w, 'd, 'b, 's) broker \<Rightarrow> err + 'w topic" where
  "GetTopic name b = (case map_of (topics b) name of Some t \<Rightarrow> Inr t | None \<Rightarrow> Inl ErrUnknownTopic)"

definition ListTopics :: "('w, 'd, 'b, 's) broker \<Rightarrow> 'w topic list" where
  "ListTopics b = map snd (topics b)"

subsection \<open>Publishing\<close>

definition compressMessage :: "codec \<Rightarrow> message \<Rightarrow> err + message" where
  "compressMessage c msg =
     (case Encode c (Value msg) of Inl e \<Rightarrow> Inl e | Inr v \<Rightarrow> Inr (msg\<lparr>Value := v\<rparr>))"

definition decompressMessage :: "codec \<Rightarrow> message \<Rightarrow> err + message" where
  "decompressMessage c msg =
     (if BatchDecoded msg then Inr msg
      else case Decode c (Value msg) of Inl e \<Rightarrow> Inl e | Inr v \<Rightarrow> Inr (msg\<lparr>Value := v\<rparr>))"

definition too_large :: "config \<Rightarrow> message \<Rightarrow> bool" where
  "too_large cfg msg \<longleftrightarrow>
     MaxMessageBytes cfg > 0 \<and> int (length (Key msg) + length (Value msg)) > MaxMessageBytes cfg"

definition set_produce_time :: "i64 \<Rightarrow> message \<Rightarrow> message" where
  "set_produce_time t msg = msg\<lparr>Header := (Header msg)\<lparr>ProduceTime := t\<rparr>\<rparr>"

definition complete :: "'b balancer_ops \<Rightarrow> nat \<Rightarrow> 'b \<Rightarrow> 'b" where
  "complete B i bl = (case OnPublishComplete B of Some f \<Rightarrow> f i bl | None \<Rightarrow> bl)"

definition check_bp :: "nat \<Rightarrow> bp_controller option \<Rightarrow> bool \<times> bp_controller option" where
  "check_bp i bpo =
     (case bpo of
        None \<Rightarrow> (False, None)
      | Some bp \<Rightarrow> (let (st, bp') = Check i bp in (st = BPClosed, Some bp')))"

definition putPartition :: "string \<Rightarrow> 'w topic \<Rightarrow> int \<Rightarrow> 'w partition \<Rightarrow> ('w, 'd, 'b, 's) broker \<Rightarrow>
    ('w, 'd, 'b, 's) broker" where
  "putPartition name t i p b = b\<lparr>topics := AList.update name (setPartition t i p) (topics b)\<rparr>"

definition Publish :: "'w wal_ops \<Rightarrow> 'b balancer_ops \<Rightarrow> pub_io \<Rightarrow> string \<Rightarrow> message \<Rightarrow> ('w, 'd, 'b, 's) broker \<Rightarrow>
    (err + nat \<times> u64) \<times> ('w, 'd, 'b, 's) broker" where
  "Publish W B io name msg0 b =
     (if too_large (snapCfg b) msg0 then (Inl ErrMessageTooLarge, b)
      else case compressMessage (snapCodec b) msg0 of
        Inl e \<Rightarrow> (Inl e, b)
      | Inr msg \<Rightarrow>
      (case map_of (topics b) name of
        None \<Rightarrow> (Inl ErrUnknownTopic, b)
      | Some t \<Rightarrow>
      (case rtBalancer b of
        None \<Rightarrow> (Inl ErrPanic, b)
      | Some bl \<Rightarrow>
          (let (partIdx, bl1) = SelectPartition B (ienv io) name (Key msg) (nat (NumPartitions t)) bl;
               (closed, bp1) = check_bp partIdx (rtBackpressure b);
               b1 = b\<lparr>rtBalancer := Some bl1, rtBackpressure := bp1\<rparr>
           in if closed then (Inl ErrThrottled, b1)
              else case topicPartition t (int partIdx) of
                Inl e \<Rightarrow> (Inl e, b1)
              | Inr p \<Rightarrow>
                  (let (r, p') = Append W (appendNs io) (flushNs io) (indexNow io) (bufPool io)
                                   (set_produce_time (produceNs io) msg) p;
                       b2 = putPartition name t (int partIdx) p'
                              (b1\<lparr>rtBalancer := Some (complete B partIdx bl1)\<rparr>)
                   in case r of
                        Inl e \<Rightarrow> (Inl e, b2)
                      | Inr off \<Rightarrow> (Inr (partIdx, off), b2\<lparr>bmetrics := RecordProduce partIdx (bmetrics b2)\<rparr>))))))"

record publish_result =
  rPartition :: nat
  rOffset :: u64
  rErr :: "err option"

text \<open>The groups: for each chosen partition its messages with their positions in the request.\<close>

type_synonym groups = "(nat \<times> (message \<times> nat) list) list"

definition group_add :: "nat \<Rightarrow> message \<times> nat \<Rightarrow> groups \<Rightarrow> groups" where
  "group_add i x gs = AList.update i ((case map_of gs i of Some xs \<Rightarrow> xs | None \<Rightarrow> []) @ [x]) gs"

definition assign_one :: "'b balancer_ops \<Rightarrow> env \<Rightarrow> i64 \<Rightarrow> string \<Rightarrow> nat \<Rightarrow> config \<Rightarrow>
    publish_result list \<times> groups \<times> 'b \<times> bp_controller option \<Rightarrow> nat \<times> message \<Rightarrow>
    publish_result list \<times> groups \<times> 'b \<times> bp_controller option" where
  "assign_one B env now name numParts cfg st im =
     (case st of (res, gs, bl, bpo) \<Rightarrow> case im of (i, msg0) \<Rightarrow>
        if too_large cfg msg0 then (res[i := (res ! i)\<lparr>rErr := Some ErrMessageTooLarge\<rparr>], gs, bl, bpo)
        else let msg = set_produce_time now msg0;
                 (partIdx, bl1) = SelectPartition B env name (Key msg) numParts bl;
                 res1 = res[i := (res ! i)\<lparr>rPartition := partIdx\<rparr>];
                 (closed, bpo1) = check_bp partIdx bpo
             in if closed then (res1[i := (res1 ! i)\<lparr>rErr := Some ErrThrottled\<rparr>], gs, complete B partIdx bl1, bpo1)
                else (res1, group_add partIdx (msg, i) gs, bl1, bpo1))"

fun encode_values :: "codec \<Rightarrow> message list \<Rightarrow> err + message list" where
  "encode_values c [] = Inr []"
| "encode_values c (m # ms) =
     (case compressMessage c m of
        Inl e \<Rightarrow> Inl e
      | Inr m' \<Rightarrow> (case encode_values c ms of Inl e \<Rightarrow> Inl e | Inr ms' \<Rightarrow> Inr (m' # ms')))"

definition append_messages :: "'w wal_ops \<Rightarrow> pub_io \<Rightarrow> config \<Rightarrow> codec \<Rightarrow> message list \<Rightarrow> 'w partition \<Rightarrow>
    (err + u64 list) \<times> 'w partition" where
  "append_messages W io cfg c msgs p =
     (if CompressionType cfg \<noteq> CompressionNone \<and> length msgs > 1
      then AppendBatchCompressed W (appendNs io) (flushNs io) (indexNow io) msgs c p
      else case (if CompressionType cfg \<noteq> CompressionNone then encode_values c msgs else Inr msgs) of
             Inl e \<Rightarrow> (Inl e, p)
           | Inr msgs' \<Rightarrow> AppendBatch W (appendNs io) (flushNs io) (indexNow io) (bufPool io) msgs' p)"

definition set_results :: "err + u64 list \<Rightarrow> nat list \<Rightarrow> publish_result list \<Rightarrow> publish_result list" where
  "set_results r idxs res =
     foldl (\<lambda>rs (j, i). rs[i := (case r of Inl e \<Rightarrow> (rs ! i)\<lparr>rErr := Some e\<rparr>
                                  | Inr offs \<Rightarrow> (rs ! i)\<lparr>rOffset := offs ! j\<rparr>)]) res (enumerate 0 idxs)"

definition appendPartitionBatch :: "'w wal_ops \<Rightarrow> 'b balancer_ops \<Rightarrow> pub_io \<Rightarrow> string \<Rightarrow>
    nat \<times> (message \<times> nat) list \<Rightarrow> publish_result list \<times> ('w, 'd, 'b, 's) broker \<Rightarrow>
    publish_result list \<times> ('w, 'd, 'b, 's) broker" where
  "appendPartitionBatch W B io name g rb =
     (case g of (partIdx, batch) \<Rightarrow> case rb of (res, b) \<Rightarrow>
      case map_of (topics b) name of
        None \<Rightarrow> (res, b)
      | Some t \<Rightarrow>
      (case topicPartition t (int partIdx) of
        Inl e \<Rightarrow> (set_results (Inl e) (map snd batch) res, b)
      | Inr p \<Rightarrow>
          (let (r, p') = append_messages W io (snapCfg b) (snapCodec b) (map fst batch) p;
               b1 = putPartition name t (int partIdx) p' b;
               b2 = b1\<lparr>rtBalancer := map_option ((complete B partIdx) ^^ length batch) (rtBalancer b1)\<rparr>
           in (set_results r (map snd batch) res,
               b2\<lparr>bmetrics := RecordProduceBatch partIdx (int (length batch)) (bmetrics b2)\<rparr>))))"

definition gated :: "'w wal_ops \<Rightarrow> 'b balancer_ops \<Rightarrow> pub_io \<Rightarrow> (nat \<Rightarrow> err option) \<Rightarrow> string \<Rightarrow>
    nat \<times> (message \<times> nat) list \<Rightarrow> publish_result list \<times> ('w, 'd, 'b, 's) broker \<Rightarrow>
    publish_result list \<times> ('w, 'd, 'b, 's) broker" where
  "gated W B io acquire name g rb =
     (case acquire (fst g) of
        Some e \<Rightarrow> (set_results (Inl e) (map snd (snd g)) (fst rb), snd rb)
      | None \<Rightarrow> appendPartitionBatch W B io name g rb)"

definition PublishBatch :: "'w wal_ops \<Rightarrow> 'b balancer_ops \<Rightarrow> pub_io \<Rightarrow> (nat \<Rightarrow> err option) \<Rightarrow>
    (groups \<Rightarrow> groups) \<Rightarrow> string \<Rightarrow> message list \<Rightarrow> ('w, 'd, 'b, 's) broker \<Rightarrow>
    (publish_result list \<times> ('w, 'd, 'b, 's) broker) option" where
  "PublishBatch W B io acquire order name msgs b =
     (let results = replicate (length msgs) \<lparr>rPartition = 0, rOffset = 0, rErr = None\<rparr>
      in case map_of (topics b) name of
        None \<Rightarrow> Some (map (\<lambda>r. r\<lparr>rErr := Some ErrUnknownTopic\<rparr>) results, b)
      | Some t \<Rightarrow>
      (case rtBalancer b of
        None \<Rightarrow> if list_all (too_large (snapCfg b)) msgs
                then Some (map (\<lambda>r. r\<lparr>rErr := Some ErrMessageTooLarge\<rparr>) results, b) else None
      | Some bl \<Rightarrow>
          (let (res, gs, bl1, bpo) =
                 foldl (assign_one B (ienv io) (produceNs io) name (nat (NumPartitions t)) (snapCfg b))
                   (results, [], bl, rtBackpressure b) (enumerate 0 msgs);
               b1 = b\<lparr>rtBalancer := Some bl1, rtBackpressure := bpo\<rparr>
           in Some (if length gs = 1 then fold (appendPartitionBatch W B io name) gs (res, b1)
                    else fold (gated W B io acquire name) (order gs) (res, b1)))))"

subsection \<open>Consuming\<close>

definition ConsumeFrom :: "('w, 's) sched_ops \<Rightarrow> env \<Rightarrow> string \<Rightarrow> int \<Rightarrow> u64 \<Rightarrow> ('w, 'd, 'b, 's) broker \<Rightarrow>
    (err + message \<times> u64) \<times> ('w, 'd, 'b, 's) broker" where
  "ConsumeFrom S env name partIdx off b =
     (case map_of (topics b) name of
        None \<Rightarrow> (Inl ErrUnknownTopic, b)
      | Some t \<Rightarrow>
      (case topicPartition t partIdx of
        Inl e \<Rightarrow> (Inl e, b)
      | Inr p \<Rightarrow>
      (case map_of (schedulers b) name of
        None \<Rightarrow> (Inl ErrNoScheduler, b)
      | Some s \<Rightarrow>
          (let (r, p', s') = SchedNext S env p off s;
               b1 = (putPartition name t partIdx p' b)\<lparr>schedulers := AList.update name s' (schedulers b)\<rparr>
           in case r of
                Inl e \<Rightarrow> (Inl e, b1)
              | Inr (msg, next_off) \<Rightarrow>
                  (case decompressMessage (snapCodec b) msg of
                     Inl e \<Rightarrow> (Inl e, b1)
                   | Inr msg' \<Rightarrow> (Inr (msg', next_off),
                       b1\<lparr>bmetrics := RecordConsume (nat partIdx) (bmetrics b1)\<rparr>))))))"

definition start_offset :: "string \<Rightarrow> string \<Rightarrow> int \<Rightarrow> ('w, 'd, 'b, 's) broker \<Rightarrow> u64" where
  "start_offset grp name partIdx b =
     (case offsetStore b of
        None \<Rightarrow> 0
      | Some s \<Rightarrow> (case Load grp name partIdx s of Inl _ \<Rightarrow> 1 | Inr off \<Rightarrow> off))"

definition Consume :: "('w, 's) sched_ops \<Rightarrow> env \<Rightarrow> string \<Rightarrow> string \<Rightarrow> int \<Rightarrow> ('w, 'd, 'b, 's) broker \<Rightarrow>
    (err + message \<times> u64) \<times> ('w, 'd, 'b, 's) broker" where
  "Consume S env name grp partIdx b =
     ConsumeFrom S env name partIdx (start_offset grp name partIdx b) b"

definition brokerCommit :: "'d kv_ops \<Rightarrow> gotime \<Rightarrow> string \<Rightarrow> string \<Rightarrow> int \<Rightarrow> i64 \<Rightarrow> ('w, 'd, 'b, 's) broker \<Rightarrow>
    err option \<times> ('w, 'd, 'b, 's) broker" where
  "brokerCommit K now grp name partIdx off b =
     (case offsetStore b of
        None \<Rightarrow> (None, b)
      | Some s \<Rightarrow> (let (e, s') = Commit K now grp name partIdx off s in (e, b\<lparr>offsetStore := Some s'\<rparr>)))"

text \<open>The batch loop with \<open>n\<close> iterations left; an error is returned only if nothing was read.\<close>

fun consume_loop :: "('w, 's) sched_ops \<Rightarrow> env \<Rightarrow> string \<Rightarrow> int \<Rightarrow> nat \<Rightarrow> u64 \<Rightarrow> message list \<Rightarrow> u64 \<Rightarrow>
    ('w, 'd, 'b, 's) broker \<Rightarrow> (err + message list \<times> u64) \<times> ('w, 'd, 'b, 's) broker" where
  "consume_loop S env name partIdx 0 cur msgs last_off b = (Inr (msgs, last_off), b)"
| "consume_loop S env name partIdx (Suc n) cur msgs last_off b =
     (case ConsumeFrom S env name partIdx cur b of
        (Inl e, b1) \<Rightarrow> if e = ErrNoMessages \<or> msgs \<noteq> [] then (Inr (msgs, last_off), b1) else (Inl e, b1)
      | (Inr (m, next_off), b1) \<Rightarrow> consume_loop S env name partIdx n next_off (msgs @ [m]) next_off b1)"

definition ConsumeBatch :: "('w, 's) sched_ops \<Rightarrow> 'd kv_ops \<Rightarrow> env \<Rightarrow> string \<Rightarrow> string \<Rightarrow> int \<Rightarrow> int \<Rightarrow>
    ('w, 'd, 'b, 's) broker \<Rightarrow> (message list \<times> u64 \<times> err option) \<times> ('w, 'd, 'b, 's) broker" where
  "ConsumeBatch S K env name grp partIdx maxMessages b =
     (case consume_loop S env name partIdx (nat maxMessages) (start_offset grp name partIdx b) [] 0 b of
        (Inl e, b1) \<Rightarrow> (([], 0, Some e), b1)
      | (Inr (msgs, last_off), b1) \<Rightarrow>
          if msgs = [] then (([], 0, Some ErrNoMessages), b1)
          else (let (e, b2) = brokerCommit K (clock env) grp name partIdx last_off b1
                in ((msgs, last_off, e), b2)))"

definition LoadOffset :: "string \<Rightarrow> string \<Rightarrow> int \<Rightarrow> ('w, 'd, 'b, 's) broker \<Rightarrow> u64 \<times> err option" where
  "LoadOffset grp name partIdx b =
     (case offsetStore b of
        None \<Rightarrow> (1, None)
      | Some s \<Rightarrow> (case Load grp name partIdx s of Inl e \<Rightarrow> (1, Some e) | Inr off \<Rightarrow> (off, None)))"

subsection \<open>Configuration\<close>

definition ApplyConfig :: "('g, 'l) compress_lib \<Rightarrow> config \<Rightarrow> ('w, 'd, 'b, 's) broker \<Rightarrow>
    err option \<times> ('w, 'd, 'b, 's) broker" where
  "ApplyConfig lib cfg b =
     (if Validate cfg \<noteq> None then (Validate cfg, b)
      else if snapCfg b = cfg then (None, b)
      else (None, b\<lparr>snapCfg := cfg,
             snapCodec := (if CompressionType cfg \<noteq> CompressionType (snapCfg b)
                           then NewCodec lib (CompressionType cfg) else snapCodec b),
             snapGate := (if NumIOGoroutines cfg \<noteq> NumIOGoroutines (snapCfg b)
                          then gate_size cfg else snapGate b)\<rparr>))"

subsection \<open>Background ticks\<close>

definition all_partitions :: "('w, 'd, 'b, 's) broker \<Rightarrow> 'w partition list" where
  "all_partitions b = concat (map partitions (ListTopics b))"

definition observe :: "'b balancer_ops \<Rightarrow> ('w, 'd, 'b, 's) broker \<Rightarrow> observability_metrics" where
  "observe B b =
     \<lparr>BackpressureClosedCount = (case rtBackpressure b of Some bp \<Rightarrow> ClosedCount bp | None \<Rightarrow> 0),
      BackpressureWarnCount = (case rtBackpressure b of Some bp \<Rightarrow> WarnCount bp | None \<Rightarrow> 0),
      BackpressureOpenCount = (case rtBackpressure b of Some bp \<Rightarrow> OpenCount bp | None \<Rightarrow> 0),
      BalancerDroppedExp = (case (DroppedExperience B, rtBalancer b) of (Some f, Some bl) \<Rightarrow> f bl | _ \<Rightarrow> 0),
      BalancerEvictions = (case (EvictionCount B, rtBalancer b) of (Some f, Some bl) \<Rightarrow> f bl | _ \<Rightarrow> 0)\<rparr>"

definition average :: "f64 list \<Rightarrow> f64" where
  "average xs = fdiv (fsum xs) (f_int (int (length xs)))"

definition system_tick :: "f64 list \<Rightarrow> ('w, 'd, 'b, 's) broker \<Rightarrow> ('w, 'd, 'b, 's) broker" where
  "system_tick preds b =
     (case rtBackpressure b of
        None \<Rightarrow> b
      | Some bp \<Rightarrow>
          (let flushes = map LastFlushLatency (all_partitions b);
               avgPred = (if preds = [] then Fin 0 else average preds);
               maxFlushNs = foldl (\<lambda>m f. if f > m then f else m) 0 flushes;
               mc = (if flushes = [] then bmetrics b
                     else (bmetrics b)\<lparr>avgFlushLatencyNs := sum_list flushes sdiv int (length flushes)\<rparr>);
               sig = \<lparr>AvgPredictedLoad = avgPred, WALFlushLatencyMs = fdiv (f_int maxFlushNs) (f_int millisecond)\<rparr>
           in b\<lparr>rtBackpressure := Some (UpdateSystem sig (UpdatePredictions preds bp)), bmetrics := mc\<rparr>))"

definition metricsWarmupTicks :: nat where "metricsWarmupTicks = 50"

definition throughput_tick :: "'b balancer_ops \<Rightarrow> f64 \<Rightarrow> ('w, 'd, 'b, 's) broker \<Rightarrow> ('w, 'd, 'b, 's) broker" where
  "throughput_tick B tp b =
     (let th = append_capped metricsHistoryCap tp (throughputHistory (bmetrics b));
          b1 = b\<lparr>bmetrics := (bmetrics b)\<lparr>throughputHistory := th\<rparr>\<rparr>
      in if length th \<ge> metricsWarmupTicks
         then (case SetBaseThroughput B of
                 Some f \<Rightarrow> b1\<lparr>rtBalancer := map_option (f (average (take (length th * 4 div 5) th))) (rtBalancer b1)\<rparr>
               | None \<Rightarrow> b1)
         else b1)"

definition metrics_tick :: "'b balancer_ops \<Rightarrow> (f64 list \<Rightarrow> f64) \<Rightarrow> (f64 list \<Rightarrow> f64) \<Rightarrow>
    ((nat \<times> ring_buffer) list \<Rightarrow> (nat \<times> ring_buffer) list) \<Rightarrow> env \<Rightarrow> ('w, 'd, 'b, 's) broker \<Rightarrow>
    ('w, 'd, 'b, 's) broker" where
  "metrics_tick B stdDev mean order env b =
     (let (snap0, mc) = Collect stdDev mean (map (nat \<circ> ID) (all_partitions b)) (observe B b) (clock env) (bmetrics b);
          loads = PartitionLoads (derived snap0);
          lp = (if loads \<noteq> [] then UpdateLoads order loads (bpredictor b) else bpredictor b);
          snap = (if loads \<noteq> [] then snap0\<lparr>derived := (derived snap0)\<lparr>PredictedLoads := PredictAll lp\<rparr>\<rparr> else snap0);
          mc1 = (if loads \<noteq> [] then mc\<lparr>lastSnap := snap\<rparr> else mc);
          b1 = b\<lparr>bmetrics := mc1, bpredictor := lp,
                 rtBalancer := map_option (OnMetrics B env snap) (rtBalancer b)\<rparr>;
          b2 = system_tick (PredictedLoads (derived snap)) b1
      in throughput_tick B (Throughput (business snap)) b2)"

text \<open>One partition of the retention pass; it returns the partition and the collector.\<close>

definition retain :: "'w wal_ops \<Rightarrow> config \<Rightarrow> 'd ostore option \<Rightarrow> gotime \<Rightarrow> string \<Rightarrow> 'w partition \<Rightarrow> collector \<Rightarrow>
    'w partition \<times> collector" where
  "retain W cfg store now tn p mc =
     (let (p1, mc1) =
            (if RetentionMaxAge cfg > 0
             then (case TruncateBefore W (word_of_int (now - RetentionMaxAge cfg)) p of
                     ((segs, bs, _), q) \<Rightarrow> (q, if segs > 0 then RecordRetention (int segs) bs mc else mc))
             else (p, mc));
          (p2, mc2) =
            (if RetentionMaxBytes cfg > 0
             then (case TruncateOldestUntilSize W (RetentionMaxBytes cfg) p1 of
                     ((entries, bs, _), q) \<Rightarrow> (q, if entries > 0 then RecordRetention (int entries) bs mc1 else mc1))
             else (p1, mc1));
          p3 = (case store of
                  Some s \<Rightarrow>
                    if RetentionMaxAge cfg = 0 \<and> RetentionMaxBytes cfg = 0 \<and> sint (CommitFloor tn (ID p) s) > 1
                    then snd (TruncateFront W (CommitFloor tn (ID p) s) p2) else p2
                | None \<Rightarrow> p2)
      in (p3, mc2))"

fun retain_all :: "'w wal_ops \<Rightarrow> config \<Rightarrow> 'd ostore option \<Rightarrow> gotime \<Rightarrow> string \<Rightarrow> 'w partition list \<Rightarrow> collector \<Rightarrow>
    'w partition list \<times> collector" where
  "retain_all W cfg store now tn [] mc = ([], mc)"
| "retain_all W cfg store now tn (p # ps) mc =
     (let (p', mc1) = retain W cfg store now tn p mc;
          (ps', mc2) = retain_all W cfg store now tn ps mc1
      in (p' # ps', mc2))"

fun retain_topics :: "'w wal_ops \<Rightarrow> config \<Rightarrow> 'd ostore option \<Rightarrow> gotime \<Rightarrow> (string \<times> 'w topic) list \<Rightarrow> collector \<Rightarrow>
    (string \<times> 'w topic) list \<times> collector" where
  "retain_topics W cfg store now [] mc = ([], mc)"
| "retain_topics W cfg store now ((n, t) # ts) mc =
     (let (ps, mc1) = (if IsClosed t then (partitions t, mc)
                       else retain_all W cfg store now (Name t) (partitions t) mc);
          (ts', mc2) = retain_topics W cfg store now ts mc1
      in ((n, t\<lparr>partitions := ps\<rparr>) # ts', mc2))"

definition retention_tick :: "'w wal_ops \<Rightarrow> gotime \<Rightarrow> ('w, 'd, 'b, 's) broker \<Rightarrow> ('w, 'd, 'b, 's) broker" where
  "retention_tick W now b =
     (let (ts, mc) = retain_topics W (snapCfg b) (offsetStore b) now (topics b) (bmetrics b)
      in b\<lparr>topics := ts, bmetrics := mc\<rparr>)"

definition session_tick :: "gotime \<Rightarrow> ('w, 'd, 'b, 's) broker \<Rightarrow> ('w, 'd, 'b, 's) broker" where
  "session_tick now b =
     (if ConsumerSessionTimeoutMs (snapCfg b) \<le> 0 then b
      else b\<lparr>offsetStore := map_option
               (ExpireSessions now (ConsumerSessionTimeoutMs (snapCfg b) * millisecond)) (offsetStore b)\<rparr>)"

definition Stop :: "'w wal_ops \<Rightarrow> 'd kv_ops \<Rightarrow> 'b balancer_ops \<Rightarrow> ('w, 'd, 'b, 's) broker \<Rightarrow> ('w, 'd, 'b, 's) broker" where
  "Stop W K B b =
     b\<lparr>rtBalancer := (case StopBalancer B of Some f \<Rightarrow> map_option f (rtBalancer b) | None \<Rightarrow> rtBalancer b),
       schedulers := [],
       topics := map (\<lambda>(n, t). (n, snd (CloseTopic W t))) (topics b),
       offsetStore := map_option (snd \<circ> CloseStore K) (offsetStore b)\<rparr>"

end
