(* ===== verification/BrokerInv.thy ===== *)
theory BrokerInv
  imports Broker "HOL-Library.Multiset"
begin

text \<open>
  Every state the broker can reach is well-formed. The operations and the three background ticks
  are the rules of a step relation; one lemma per operation shows that it keeps \<^verbatim>\<open>broker_ok\<close>, and
  rule induction gives the invariant for every sequence of steps, in any order. The log must not
  fail and must have offsets left for what a step publishes: a failed write leaves a partition
  that is not consistent with its log (theory Partition). \<^verbatim>\<open>Stop\<close> is the end of a broker and is not
  a step.
\<close>

subsection \<open>Association lists\<close>

lemma update_same: "map_of xs k = Some v \<Longrightarrow> AList.update k v xs = xs"
  by (induction xs) (auto split: if_splits)

lemma update_all:
  assumes "\<forall>(k, v) \<in> set xs. Q v" and "Q v"
  shows "\<forall>(k, v) \<in> set (AList.update k v xs). Q v"
  using assms set_update_subset [of k v xs] by blast

lemma delete_all: "\<forall>(k, v) \<in> set xs. Q v \<Longrightarrow> \<forall>(k, v) \<in> set (AList.delete k' xs). Q v"
  by (auto simp: AList.delete_eq)

lemma lookup_all: "\<forall>(k, v) \<in> set xs. Q v \<Longrightarrow> map_of xs k = Some v \<Longrightarrow> Q v"
  by (auto dest: map_of_SomeD)

subsection \<open>Appends\<close>

lemma commit_batch_fields:
  assumes "commit_batch W f now msgs b nxt p = (r, p')"
  shows "pid p' = pid p" and "batchCodec p' = batchCodec p"
  using assms by (auto simp: commit_batch_def Let_def split: prod.splits option.splits)

lemma AppendBatch_fields:
  assumes "AppendBatch W t f now pool msgs p = (r, p')"
  shows "pid p' = pid p" and "batchCodec p' = batchCodec p"
  using assms by (auto simp: AppendBatch_def dest: commit_batch_fields split: if_splits prod.splits)

lemma AppendBatchCompressed_fields:
  assumes "AppendBatchCompressed W t f now msgs c p = (r, p')"
  shows "pid p' = pid p" and "batchCodec p' = batchCodec p"
  using assms
  by (auto simp: AppendBatchCompressed_def Let_def dest: commit_batch_fields split: if_splits prod.splits sum.splits)

text \<open>The offsets an append hands out continue the log.\<close>

lemma offsets_follow:
  assumes "wal_laws W winv view" and "part_ok winv view p" and "length ds = n"
    and "wal_end (view (plog p)) + n < 2 ^ 64"
  shows "batch_follows (view (plog p)) (zip (map (\<lambda>k. nextOffset p + word_of_nat k) [0..<n]) ds)"
proof -
  have "unat (nextOffset p + word_of_nat k) = wal_end (view (plog p)) + k" if "k < n" for k
  proof -
    have "nextOffset p + word_of_nat k = word_of_nat (wal_end (view (plog p)) + k)"
      by (simp add: part_okD(2) [OF assms(2), symmetric])
    also have "unat \<dots> = wal_end (view (plog p)) + k"
      by (rule unat_word_of_nat_u64) (use that assms(4) in simp)
    finally show ?thesis .
  qed
  then have "map (unat \<circ> fst) (zip (map (\<lambda>k. nextOffset p + word_of_nat k) [0..<n]) ds) =
      map (\<lambda>k. wal_end (view (plog p)) + k) [0..<n]"
  proof -
    have "map (unat \<circ> fst) (zip (map (\<lambda>k. nextOffset p + word_of_nat k) [0..<n]) ds) =
        map unat (map fst (zip (map (\<lambda>k. nextOffset p + word_of_nat k) [0..<n]) ds))" by simp
    also have "\<dots> = map (\<lambda>k. unat (nextOffset p + word_of_nat k)) [0..<n]"
      using assms(3) by (simp add: map_fst_zip)
    also have "\<dots> = map (\<lambda>k. wal_end (view (plog p)) + k) [0..<n]"
      by (rule map_cong) (simp_all add: \<open>\<And>k. k < n \<Longrightarrow> unat (nextOffset p + word_of_nat k) = _\<close>)
    finally show ?thesis .
  qed
  then show ?thesis using assms(3) by (simp add: batch_follows_def map_add_upt add.commute)
qed

lemma commit_succeeds:
  assumes "wal_faultless W winv view" and "part_ok winv view p"
    and "batch_follows (view (plog p)) b" and "wal_end (view (plog p)) + length b < 2 ^ 64"
  shows "\<exists>offs p'. commit_batch W f now msgs b nxt p = (Inr offs, p')"
proof -
  have "fst (walWriteBatch W (plog p) b) = None"
    using assms part_okD(1) [OF assms(2)] unfolding wal_faultless_def by blast
  then show ?thesis by (auto simp: commit_batch_def Let_def split: prod.splits)
qed

lemma AppendBatch_succeeds:
  assumes "wal_laws W winv view" and "wal_faultless W winv view" and "part_ok winv view p"
    and "wal_end (view (plog p)) + length msgs < 2 ^ 64"
  shows "\<exists>offs p'. AppendBatch W t f now pool msgs p = (Inr offs, p')"
proof (cases "msgs = []")
  case False
  let ?b = "zip (map (\<lambda>k. nextOffset p + word_of_nat k) [0..<length msgs]) (map (frame \<circ> stamp t) msgs)"
  have "batch_follows (view (plog p)) ?b" by (rule offsets_follow [OF assms(1,3) _ assms(4)]) simp
  from commit_succeeds [OF assms(2,3) this] assms(4) False show ?thesis
    by (simp add: AppendBatch_def batch_records_spec)
qed (simp add: AppendBatch_def)

lemma AppendBatchCompressed_succeeds:
  assumes "wal_laws W winv view" and "wal_faultless W winv view" and "part_ok winv view p"
    and "wal_end (view (plog p)) + length msgs < 2 ^ 64"
    and "Encode c (batch_payload (map (stamp t) msgs)) = Inr z"
  shows "\<exists>offs p'. AppendBatchCompressed W t f now msgs c p = (Inr offs, p')"
proof (cases "msgs = []")
  case False
  let ?n = "length msgs" and ?base = "nextOffset p"
  let ?ds = "batch_record ?n z # map (redirect_record ?base) [1..<?n]"
  have n: "0 < ?n" using False by simp
  have split: "[0..<?n] = 0 # map Suc [0..<?n - 1]"
    using n by (simp add: map_Suc_upt upt_conv_Cons del: upt_Suc)
  have eq: "(?base, batch_record ?n z) #
      zip (map (\<lambda>j. ?base + 1 + word_of_nat j) [0..<?n - 1]) (map (redirect_record ?base) [1..<1 + (?n - 1)]) =
      zip (map (\<lambda>k. ?base + word_of_nat k) [0..<?n]) ?ds"
    using n by (simp add: split comp_def add.assoc)
  have "batch_follows (view (plog p)) (zip (map (\<lambda>k. ?base + word_of_nat k) [0..<?n]) ?ds)"
    by (rule offsets_follow [OF assms(1,3) _ assms(4)]) (use n in simp)
  from commit_succeeds [OF assms(2,3) this] assms(4) n
  have r: "\<exists>offs p'. commit_batch W f now msgs (zip (map (\<lambda>k. ?base + word_of_nat k) [0..<?n]) ?ds) nxt p =
      (Inr offs, p')" for nxt
    by simp
  have "AppendBatchCompressed W t f now msgs c p = commit_batch W f now msgs ((?base, batch_record ?n z) #
      zip (map (\<lambda>j. ?base + 1 + word_of_nat j) [0..<?n - 1]) (map (redirect_record ?base) [1..<1 + (?n - 1)]))
      (?base + 1 + word_of_nat (?n - 1)) p"
    by (simp only: AppendBatchCompressed_def Let_def assms(5) redirects_spec False if_False sum.case prod.case)
  then show ?thesis unfolding eq using r by simp
qed (simp add: AppendBatchCompressed_def)

subsection \<open>The invariant\<close>

definition broker_ok :: "('w \<Rightarrow> bool) \<Rightarrow> ('w \<Rightarrow> wal_view) \<Rightarrow> ('b \<Rightarrow> bool) \<Rightarrow> ('s \<Rightarrow> bool) \<Rightarrow>
    ('w, 'd, 'b, 's) broker \<Rightarrow> bool" where
  "broker_ok winv view bal_ok sched_ok b \<longleftrightarrow>
     distinct (map fst (topics b)) \<and> (\<forall>(n, t) \<in> set (topics b). topic_ok winv view t) \<and>
     pred_option bal_ok (rtBalancer b) \<and> (\<forall>(n, s) \<in> set (schedulers b). sched_ok s) \<and>
     (\<forall>fn cfg. rtFactory b = Some fn \<longrightarrow> sched_ok (fn cfg)) \<and> counters_ok (bmetrics b)"

lemma broker_okD:
  assumes "broker_ok winv view bal_ok sched_ok b"
  shows "distinct (map fst (topics b))" and "\<forall>(n, t) \<in> set (topics b). topic_ok winv view t"
    and "pred_option bal_ok (rtBalancer b)" and "\<forall>(n, s) \<in> set (schedulers b). sched_ok s"
    and "rtFactory b = Some fn \<Longrightarrow> sched_ok (fn cfg)" and "counters_ok (bmetrics b)"
    and "map_of (topics b) name = Some t \<Longrightarrow> topic_ok winv view t"
    and "rtBalancer b = Some bl \<Longrightarrow> bal_ok bl"
    and "map_of (schedulers b) name = Some s \<Longrightarrow> sched_ok s"
proof -
  show t: "\<forall>(n, t) \<in> set (topics b). topic_ok winv view t" and s: "\<forall>(n, s) \<in> set (schedulers b). sched_ok s"
    and bal: "pred_option bal_ok (rtBalancer b)"
    using assms by (simp_all add: broker_ok_def)
  show "distinct (map fst (topics b))" "counters_ok (bmetrics b)"
    and "rtFactory b = Some fn \<Longrightarrow> sched_ok (fn cfg)"
    using assms by (simp_all add: broker_ok_def)
  show "map_of (topics b) name = Some t \<Longrightarrow> topic_ok winv view t" by (rule lookup_all [OF t])
  show "map_of (schedulers b) name = Some s \<Longrightarrow> sched_ok s" by (rule lookup_all [OF s])
  show "rtBalancer b = Some bl \<Longrightarrow> bal_ok bl" using bal by simp
qed

lemma topic_okD:
  assumes "topic_ok winv view t" and "topicPartition t i = Inr p"
  shows "part_ok winv view p" and "0 \<le> i" and "nat i < length (partitions t)" and "p = partitions t ! nat i"
    and "pid p = i"
proof -
  have i: "0 \<le> i" "nat i < length (partitions t)" and p: "p = partitions t ! nat i"
    using assms(2) by (auto simp: topicPartition_def split: if_splits)
  then show "0 \<le> i" "nat i < length (partitions t)" "p = partitions t ! nat i" by blast+
  show "part_ok winv view p" using assms(1) i by (simp add: p topic_ok_def list_all_length)
  have "map pid (partitions t) ! nat i = map int [0..<length (partitions t)] ! nat i"
    using assms(1) by (simp add: topic_ok_def)
  then show "pid p = i" using i by (simp add: p)
qed

lemma setPartition_ok:
  assumes "topic_ok winv view t" and "topicPartition t i = Inr p" and "part_ok winv view p'" and "pid p' = pid p"
  shows "topic_ok winv view (setPartition t i p')"
proof -
  note d = topic_okD [OF assms(1,2)]
  have "map pid ((partitions t)[nat i := p']) = map pid (partitions t)"
    using d(3,4) assms(4) by (metis list_update_id map_update nth_map)
  then show ?thesis
    using assms(1,3) d(3) set_update_subset_insert [of "partitions t" "nat i" p']
    by (auto simp: topic_ok_def setPartition_def list_all_iff)
qed

lemma putPartition_ok:
  assumes "broker_ok winv view bal_ok sched_ok b" and "map_of (topics b) name = Some t"
    and "topicPartition t i = Inr p" and "part_ok winv view p'" and "pid p' = pid p"
  shows "broker_ok winv view bal_ok sched_ok (putPartition name t i p' b)"
proof -
  have "topic_ok winv view (setPartition t i p')"
    by (rule setPartition_ok [OF broker_okD(7) [OF assms(1,2)] assms(3-5)])
  then show ?thesis
    using assms(1) update_all [of "topics b" "topic_ok winv view" "setPartition t i p'" name]
    by (simp add: broker_ok_def putPartition_def distinct_update)
qed

lemma broker_ok_update [simp]:
  "broker_ok winv view bal_ok sched_ok (b\<lparr>rtBackpressure := bp\<rparr>) = broker_ok winv view bal_ok sched_ok b"
  "broker_ok winv view bal_ok sched_ok (b\<lparr>bpredictor := lp\<rparr>) = broker_ok winv view bal_ok sched_ok b"
  "broker_ok winv view bal_ok sched_ok (b\<lparr>offsetStore := st\<rparr>) = broker_ok winv view bal_ok sched_ok b"
  "broker_ok winv view bal_ok sched_ok (b\<lparr>snapCfg := cfg\<rparr>) = broker_ok winv view bal_ok sched_ok b"
  "broker_ok winv view bal_ok sched_ok (b\<lparr>snapCodec := c\<rparr>) = broker_ok winv view bal_ok sched_ok b"
  "broker_ok winv view bal_ok sched_ok (b\<lparr>snapGate := g\<rparr>) = broker_ok winv view bal_ok sched_ok b"
  by (simp_all add: broker_ok_def)

lemma broker_ok_balancer:
  "broker_ok winv view bal_ok sched_ok b \<Longrightarrow> pred_option bal_ok bl \<Longrightarrow>
   broker_ok winv view bal_ok sched_ok (b\<lparr>rtBalancer := bl\<rparr>)"
  by (simp add: broker_ok_def)

lemma broker_ok_metrics:
  "broker_ok winv view bal_ok sched_ok b \<Longrightarrow> counters_ok mc \<Longrightarrow>
   broker_ok winv view bal_ok sched_ok (b\<lparr>bmetrics := mc\<rparr>)"
  by (simp add: broker_ok_def)

subsection \<open>One publish\<close>

lemma Append_done:
  assumes "wal_laws W winv view" and "part_ok winv view p"
    and "Append W t f now pool m p = (Inr off, p')"
  shows "part_ok winv view p'" and "pid p' = pid p" and "unat off = wal_end (view (plog p))"
    and "view (plog p') = wal_append [frame (stamp t m)] (view (plog p))"
    and "batchCodec p' = batchCodec p"
    and "readable W view p \<Longrightarrow> plain m \<Longrightarrow>
      contents W view p' = contents W view p @ [Inr ((stamp t m)\<lparr>BatchDecoded := False\<rparr>)] \<and> readable W view p'"
proof -
  obtain offs where a: "AppendBatch W t f now pool [m] p = (Inr offs, p')" and off: "off = offs ! 0"
    using assms(3) by (auto simp: Append_def split: prod.splits sum.splits)
  note d = AppendBatch_done [OF assms(1,2) _ a]
  show "part_ok winv view p'" "pid p' = pid p" "batchCodec p' = batchCodec p"
    "view (plog p') = wal_append [frame (stamp t m)] (view (plog p))"
    using d AppendBatch_fields [OF a] by simp_all
  have "map unat offs = [wal_end (view (plog p))]" using d(1) by simp
  then show "unat off = wal_end (view (plog p))" by (cases offs) (auto simp: off)
  show "readable W view p \<Longrightarrow> plain m \<Longrightarrow>
      contents W view p' = contents W view p @ [Inr ((stamp t m)\<lparr>BatchDecoded := False\<rparr>)] \<and> readable W view p'"
    using AppendBatch_contents [OF assms(1,2) _ _ _ a] by simp
qed

lemma Append_succeeds:
  assumes "wal_laws W winv view" and "wal_faultless W winv view" and "part_ok winv view p"
    and "wal_end (view (plog p)) + 1 < 2 ^ 64"
  obtains off p' where "Append W t f now pool m p = (Inr off, p')"
  using AppendBatch_succeeds [OF assms(1-3), of "[m]" t f now pool] assms(4) that
  by (auto simp: Append_def split: prod.splits)

lemma plain_compress:
  "compressMessage c msg = Inr m \<Longrightarrow> plain (set_produce_time t m) \<longleftrightarrow> plain msg"
  by (auto simp: compressMessage_def plain_def set_produce_time_def split: sum.splits)

lemma topicPartition_in_range:
  "i < length (partitions t) \<Longrightarrow> topicPartition t (int i) = Inr (partitions t ! i)"
  by (simp add: topicPartition_def)

lemma complete_ok: "balancer B bal_ok \<Longrightarrow> bal_ok bl \<Longrightarrow> bal_ok (complete B i bl)"
  by (auto simp: complete_def balancer_def split: option.splits)

lemma topic_ok_nonempty: "topic_ok winv view t \<Longrightarrow> 0 < nat (NumPartitions t)"
  by (auto simp: topic_ok_def NumPartitions_def)

text \<open>What a publish does once it has passed the checks on size, codec and topic.\<close>

lemma Publish_run:
  assumes "wal_laws W winv view" and "balancer B bal_ok" and ok: "broker_ok winv view bal_ok sched_ok b"
    and t: "map_of (topics b) name = Some t" and bl: "rtBalancer b = Some bl"
    and size: "\<not> too_large (snapCfg b) msg" and enc: "compressMessage (snapCodec b) msg = Inr m"
    and sel: "SelectPartition B (ienv io) name (Key m) (nat (NumPartitions t)) bl = (i, bl1)"
    and bp: "check_bp i (rtBackpressure b) = (shut, bp1)"
  shows "i < length (partitions t)"
    and "shut \<Longrightarrow> Publish W B io name msg b =
      (Inl ErrThrottled, b\<lparr>rtBalancer := Some bl1, rtBackpressure := bp1\<rparr>)"
    and "\<not> shut \<Longrightarrow> Append W (appendNs io) (flushNs io) (indexNow io) (bufPool io)
        (set_produce_time (produceNs io) m) (partitions t ! i) = (Inr off, p') \<Longrightarrow>
      Publish W B io name msg b = (Inr (i, off),
        (putPartition name t (int i) p' (b\<lparr>rtBalancer := Some (complete B i bl1), rtBackpressure := bp1\<rparr>))
          \<lparr>bmetrics := RecordProduce i (bmetrics b)\<rparr>)"
    and "bal_ok bl1"
proof -
  have n: "0 < nat (NumPartitions t)" using topic_ok_nonempty [OF broker_okD(7) [OF ok t]] .
  have bok: "bal_ok bl" using broker_okD(8) [OF ok bl] .
  show i: "i < length (partitions t)"
    using balancer.select_range [OF assms(2) bok n, of "ienv io" name "Key m"] sel by (simp add: NumPartitions_def)
  show "bal_ok bl1" using balancer.select_ok [OF assms(2) bok n, of "ienv io" name "Key m"] sel by simp
  show "shut \<Longrightarrow> Publish W B io name msg b =
      (Inl ErrThrottled, b\<lparr>rtBalancer := Some bl1, rtBackpressure := bp1\<rparr>)"
    using size by (simp add: Publish_def enc t bl sel bp)
  show "\<not> shut \<Longrightarrow> Append W (appendNs io) (flushNs io) (indexNow io) (bufPool io)
        (set_produce_time (produceNs io) m) (partitions t ! i) = (Inr off, p') \<Longrightarrow>
      Publish W B io name msg b = (Inr (i, off),
        (putPartition name t (int i) p' (b\<lparr>rtBalancer := Some (complete B i bl1), rtBackpressure := bp1\<rparr>))
          \<lparr>bmetrics := RecordProduce i (bmetrics b)\<rparr>)"
    using size i by (simp add: Publish_def enc t bl sel bp topicPartition_in_range putPartition_def)
qed

subsection \<open>Truncation\<close>

lemma truncate_part_ok:
  assumes "wal_laws W winv view" and "part_ok winv view p" and "walTruncateFront W (plog p) i = (r, w')"
  shows "part_ok winv view (p\<lparr>plog := w'\<rparr>)"
proof -
  have "truncate_law W winv view (plog p)"
    using assms(1) part_okD(1) [OF assms(2)] by (simp add: wal_laws_def)
  from this [unfolded truncate_law_def, rule_format, OF assms(3)]
  have "winv w'" and "wal_end (view w') = wal_end (view (plog p))"
    by (auto simp: wal_end_drop split: if_splits)
  with assms(2) show ?thesis by (simp add: part_ok_def)
qed

lemma TruncateFront_ok:
  assumes "wal_laws W winv view" and "part_ok winv view p"
  shows "part_ok winv view (snd (TruncateFront W off p))" and "pid (snd (TruncateFront W off p)) = pid p"
  using truncate_part_ok [OF assms] assms(2) by (auto simp: TruncateFront_def split: prod.splits)

lemma truncate_found_ok:
  assumes "wal_laws W winv view" and "part_ok winv view p"
  shows "part_ok winv view (snd (truncate_found W firstIdx found p))" and "pid (snd (truncate_found W firstIdx found p)) = pid p"
  using truncate_part_ok [OF assms] assms(2)
  by (auto simp: truncate_found_def split: prod.splits option.splits)

lemma TruncateBefore_ok:
  assumes "wal_laws W winv view" and "part_ok winv view p"
  shows "part_ok winv view (snd (TruncateBefore W cutoff p))" and "pid (snd (TruncateBefore W cutoff p)) = pid p"
  using truncate_found_ok [OF assms] assms(2) by (auto simp: TruncateBefore_def split: sum.splits)

lemma TruncateOldestUntilSize_ok:
  assumes "wal_laws W winv view" and "part_ok winv view p"
  shows "part_ok winv view (snd (TruncateOldestUntilSize W mx p))" and "pid (snd (TruncateOldestUntilSize W mx p)) = pid p"
  using truncate_found_ok [OF assms] assms(2)
  by (auto simp: TruncateOldestUntilSize_def Let_def split: sum.splits)

lemma RecordRetention_ok: "counters_ok mc \<Longrightarrow> counters_ok (RecordRetention n b mc)"
  by (simp add: counters_ok_def RecordRetention_def)

lemma retain_ok:
  assumes "wal_laws W winv view" and "part_ok winv view p" and "counters_ok mc"
    and "retain W cfg store now tn p mc = (p', mc')"
  shows "part_ok winv view p' \<and> pid p' = pid p \<and> counters_ok mc'"
proof -
  let ?ok = "\<lambda>(q, m). part_ok winv view q \<and> pid q = pid p \<and> counters_ok m"
  define a where "a = (if RetentionMaxAge cfg > 0
    then (case TruncateBefore W (word_of_int (now - RetentionMaxAge cfg)) p of
      ((segs, bs, _), q) \<Rightarrow> (q, if segs > 0 then RecordRetention (int segs) bs mc else mc)) else (p, mc))"
  define c where "c = (if RetentionMaxBytes cfg > 0
    then (case TruncateOldestUntilSize W (RetentionMaxBytes cfg) (fst a) of
      ((n, bs, _), q) \<Rightarrow> (q, if n > 0 then RecordRetention (int n) bs (snd a) else snd a)) else a)"
  have a: "?ok a"
    using TruncateBefore_ok [OF assms(1,2), of "word_of_int (now - RetentionMaxAge cfg)"] assms(2,3)
    by (auto simp: a_def RecordRetention_ok split: prod.splits)
  then have "part_ok winv view (fst a)" by (simp add: case_prod_unfold)
  from TruncateOldestUntilSize_ok [OF assms(1) this, of "RetentionMaxBytes cfg"] a
  have c: "?ok c" by (auto simp: c_def RecordRetention_ok split: prod.splits)
  then have pc: "part_ok winv view (fst c)" by (simp add: case_prod_unfold)
  obtain p1 mc1 where pa: "a = (p1, mc1)" by (cases a)
  obtain p2 mc2 where pc': "c = (p2, mc2)" by (cases c)
  have "(p', mc') = (case store of
        Some s \<Rightarrow> if RetentionMaxAge cfg = 0 \<and> RetentionMaxBytes cfg = 0 \<and> sint (CommitFloor tn (ID p) s) > 1
          then snd (TruncateFront W (CommitFloor tn (ID p) s) (fst c)) else fst c
      | None \<Rightarrow> fst c, snd c)"
    using assms(4) unfolding retain_def a_def [symmetric] pa Let_def prod.case
      c_def [unfolded pa fst_conv snd_conv, symmetric] pc' fst_conv snd_conv by (rule sym)
  then show ?thesis
    using c TruncateFront_ok [OF assms(1) pc] by (auto split: option.splits if_splits)
qed

lemma retain_all_ok:
  assumes "wal_laws W winv view"
  shows "list_all (part_ok winv view) ps \<Longrightarrow> counters_ok mc \<Longrightarrow>
    retain_all W cfg store now tn ps mc = (ps', mc') \<Longrightarrow>
    list_all (part_ok winv view) ps' \<and> map pid ps' = map pid ps \<and> counters_ok mc'"
proof (induction ps arbitrary: mc ps')
  case (Cons p ps)
  obtain q m where q: "retain W cfg store now tn p mc = (q, m)" by fastforce
  obtain qs where qs: "retain_all W cfg store now tn ps m = (qs, mc')" "ps' = q # qs"
    using Cons.prems(3) by (auto simp: q Let_def split: prod.splits)
  have "part_ok winv view q \<and> pid q = pid p \<and> counters_ok m"
    using retain_ok [OF assms _ Cons.prems(2) q] Cons.prems(1) by simp
  with Cons.IH [OF _ _ qs(1)] Cons.prems(1) qs(2) show ?case by simp
qed simp

lemma retain_topics_ok:
  assumes "wal_laws W winv view"
  shows "\<forall>(n, t) \<in> set ts. topic_ok winv view t \<Longrightarrow> counters_ok mc \<Longrightarrow>
    retain_topics W cfg store now ts mc = (ts', mc') \<Longrightarrow>
    (\<forall>(n, t) \<in> set ts'. topic_ok winv view t) \<and> map fst ts' = map fst ts \<and> counters_ok mc'"
proof (induction ts arbitrary: mc ts')
  case (Cons x ts)
  obtain n t where x: "x = (n, t)" by (cases x)
  obtain ps m where ps: "(if IsClosed t then (partitions t, mc)
      else retain_all W cfg store now (Name t) (partitions t) mc) = (ps, m)" by fastforce
  obtain us where us: "retain_topics W cfg store now ts m = (us, mc')" "ts' = (n, t\<lparr>partitions := ps\<rparr>) # us"
    using Cons.prems(3) by (auto simp: x ps Let_def split: prod.splits)
  have t: "topic_ok winv view t" using Cons.prems(1) x by simp
  have "list_all (part_ok winv view) ps \<and> map pid ps = map pid (partitions t) \<and> counters_ok m"
  proof (cases "IsClosed t")
    case False
    with ps retain_all_ok [OF assms _ Cons.prems(2)] t show ?thesis unfolding topic_ok_def if_not_P [OF False] by blast
  qed (use ps t Cons.prems(2) in \<open>simp add: topic_ok_def\<close>)
  moreover from this have "topic_ok winv view (t\<lparr>partitions := ps\<rparr>)"
    using t map_eq_imp_length_eq [of pid ps pid "partitions t"] by (auto simp: topic_ok_def)
  ultimately show ?case using Cons.IH [OF _ _ us(1)] Cons.prems(1) x us(2) by auto
qed simp

subsection \<open>One lemma per operation\<close>

lemma at0_zero:
  "length xs = length g \<Longrightarrow> at0 (zero_at k g) i (zero_at k xs) = (if i = k then 0 else at0 g i xs)"
  by (auto simp: at0_def zero_at_def)

lemma RemovePartitionCounters_eq:
  assumes "counters_ok mc"
  shows "RemovePartitionCounters k mc =
    mc\<lparr>partProduces := zero_at k (partProduces mc), partConsumes := zero_at k (partConsumes mc),
       prevPartProduces := zero_at k (prevPartProduces mc), prevPartConsumes := zero_at k (prevPartConsumes mc)\<rparr>"
  using counters_okD(1-3) [OF assms] by (auto simp: RemovePartitionCounters_def Let_def zero_at_def)

lemma RemovePartitionCounters_ok:
  assumes "counters_ok mc"
  shows "counters_ok (RemovePartitionCounters k mc)"
proof -
  note d = counters_okD [OF assms]
  have len: "length (zero_at k xs) = length xs" for xs by (simp add: zero_at_def)
  show ?thesis unfolding RemovePartitionCounters_eq [OF assms]
    by (rule counters_okI) (use d in \<open>simp_all add: len at0_zero\<close>)
qed

lemma New_ok: "pred_option bal_ok bal \<Longrightarrow> broker_ok winv view bal_ok sched_ok (New lib cfg dir bal store now)"
  by (simp add: broker_ok_def New_def NewMetricsCollector_ok)

lemma schedulers_ok:
  assumes "broker_ok winv view bal_ok sched_ok b" and "\<forall>(n, s) \<in> set ss. sched_ok s"
  shows "broker_ok winv view bal_ok sched_ok (b\<lparr>schedulers := ss\<rparr>)"
  using assms by (simp add: broker_ok_def)

lemma stopScheduler_ok:
  assumes "broker_ok winv view bal_ok sched_ok b"
  shows "broker_ok winv view bal_ok sched_ok (stopScheduler name b)"
  unfolding stopScheduler_def
  by (rule schedulers_ok [OF assms delete_all [of "schedulers b" sched_ok, OF broker_okD(4) [OF assms]]])

lemma SetScheduler_ok:
  assumes "broker_ok winv view bal_ok sched_ok b" and "sched_ok s"
  shows "broker_ok winv view bal_ok sched_ok (SetScheduler name s b)"
proof -
  note ok = stopScheduler_ok [OF assms(1), of name]
  show ?thesis unfolding SetScheduler_def Let_def
    by (rule schedulers_ok [OF ok update_all [of _ sched_ok, OF broker_okD(4) [OF ok] assms(2)]])
qed

lemma topics_ok:
  assumes "broker_ok winv view bal_ok sched_ok b" and "distinct (map fst ts)"
    and "\<forall>(n, t) \<in> set ts. topic_ok winv view t"
  shows "broker_ok winv view bal_ok sched_ok (b\<lparr>topics := ts\<rparr>)"
  using assms by (simp add: broker_ok_def)

lemma SetBatchCodec_ok: "topic_ok winv view t \<Longrightarrow> topic_ok winv view (t\<lparr>partitions := map (SetBatchCodec c) (partitions t)\<rparr>)"
  by (simp add: topic_ok_def list_all_iff SetBatchCodec_def part_ok_def comp_def)

lemma CreateTopic_ok:
  assumes "wal_laws W winv view" and "open_ok winv view walOpen" and ok: "broker_ok winv view bal_ok sched_ok b"
  shows "broker_ok winv view bal_ok sched_ok (snd (CreateTopic W walOpen name cfg b))"
proof (cases "NewTopic W walOpen name (dataDir b) cfg (cfgSyncPolicy (snapCfg b))")
  case (Inr t0)
  define t where "t = (if CompressionType (snapCfg b) \<noteq> CompressionNone
    then t0\<lparr>partitions := map (SetBatchCodec (snapCodec b)) (partitions t0)\<rparr> else t0)"
  have t: "topic_ok winv view t"
    unfolding t_def using SetBatchCodec_ok [OF NewTopic_spec(1) [OF assms(1,2) Inr]] NewTopic_spec(1) [OF assms(1,2) Inr]
    by simp
  let ?ss = "case rtFactory b of Some fn \<Rightarrow> AList.update name (fn cfg) (schedulers b) | None \<Rightarrow> schedulers b"
  have ss: "\<forall>(n, s) \<in> set ?ss. sched_ok s"
    using broker_okD(4) [OF ok] update_all [OF broker_okD(4) [OF ok] broker_okD(5) [OF ok]]
    by (auto split: option.splits)
  have "broker_ok winv view bal_ok sched_ok (b\<lparr>topics := AList.update name t (topics b), schedulers := ?ss\<rparr>)"
    by (intro schedulers_ok topics_ok ok ss update_all [of _ "topic_ok winv view", OF broker_okD(2) [OF ok] t]
      distinct_update broker_okD(1) [OF ok])
  with ok show ?thesis by (simp add: CreateTopic_def Inr t_def [symmetric])
qed (use ok in \<open>auto simp: CreateTopic_def split: prod.splits\<close>)

lemma forget_ok:
  "broker_ok winv view bal_ok sched_ok b \<Longrightarrow> broker_ok winv view bal_ok sched_ok (fold forget_partition is' b)"
  by (induction is' arbitrary: b)
    (simp_all add: forget_partition_def broker_ok_metrics RemovePartitionCounters_ok broker_okD(6))

lemma DeleteTopic_ok:
  assumes "broker_ok winv view bal_ok sched_ok b"
  shows "broker_ok winv view bal_ok sched_ok (snd (DeleteTopic W K re name b))"
proof -
  have "broker_ok winv view bal_ok sched_ok (stopScheduler name (b\<lparr>topics := AList.delete name (topics b)\<rparr>))"
    by (intro stopScheduler_ok topics_ok assms delete_all broker_okD(2) [OF assms] distinct_delete broker_okD(1) [OF assms])
  with assms show ?thesis
    by (auto simp: DeleteTopic_def Let_def forget_ok split: option.splits)
qed

subsection \<open>Publishing keeps the invariant\<close>

text \<open>The offsets a broker has left: every log can take \<open>n\<close> more entries.\<close>

definition roomy :: "('w \<Rightarrow> wal_view) \<Rightarrow> nat \<Rightarrow> ('w, 'd, 'b, 's) broker \<Rightarrow> bool" where
  "roomy view n b \<longleftrightarrow> (\<forall>(name, t) \<in> set (topics b). \<forall>p \<in> set (partitions t). wal_end (view (plog p)) + n < 2 ^ 64)"

lemma roomyD:
  "roomy view n b \<Longrightarrow> map_of (topics b) name = Some t \<Longrightarrow> topicPartition t i = Inr p \<Longrightarrow>
   wal_end (view (plog p)) + n < 2 ^ 64"
  by (auto simp: roomy_def topicPartition_def dest!: map_of_SomeD split: if_splits)

lemma roomy_put:
  assumes "roomy view (k + n) b" and "map_of (topics b) name = Some t" and "topicPartition t i = Inr p"
    and "wal_end (view (plog p')) \<le> wal_end (view (plog p)) + k"
  shows "roomy view n (putPartition name t i p' b)"
proof -
  define Q where "Q = (\<lambda>t :: _ topic. \<forall>p \<in> set (partitions t). wal_end (view (plog p)) + n < 2 ^ 64)"
  have all: "\<forall>(name, t) \<in> set (topics b). Q t" using assms(1) by (fastforce simp: roomy_def Q_def)
  have "Q (setPartition t i p')"
    using lookup_all [OF all assms(2)] roomyD [OF assms(1-3)] assms(4)
      set_update_subset_insert [of "partitions t" "nat i" p']
    by (auto simp: Q_def setPartition_def)
  from update_all [OF all this] show ?thesis by (simp add: roomy_def putPartition_def Q_def)
qed

lemma roomy_mono: "roomy view n b \<Longrightarrow> m \<le> n \<Longrightarrow> roomy view m b"
  by (fastforce simp: roomy_def)

lemma append_messages_ok:
  assumes laws: "wal_laws W winv view" and fl: "wal_faultless W winv view" and ok: "part_ok winv view p"
    and room: "wal_end (view (plog p)) + length msgs < 2 ^ 64"
    and res: "append_messages W io cfg c msgs p = (r, p')"
  shows "part_ok winv view p' \<and> pid p' = pid p \<and> wal_end (view (plog p')) \<le> wal_end (view (plog p)) + length msgs"
proof -
  let ?Q = "\<lambda>q. part_ok winv view q \<and> pid q = pid p \<and> wal_end (view (plog q)) \<le> wal_end (view (plog p)) + length msgs"
  have plain: "?Q p'" if ap: "AppendBatch W (appendNs io) (flushNs io) (indexNow io) (bufPool io) ms p = (r, p')"
      and len: "length ms = length msgs" for ms
  proof (cases "ms = []")
    case False
    obtain offs q where "AppendBatch W (appendNs io) (flushNs io) (indexNow io) (bufPool io) ms p = (Inr offs, q)"
      using AppendBatch_succeeds [OF laws fl ok] room len by metis
    with ap have a: "AppendBatch W (appendNs io) (flushNs io) (indexNow io) (bufPool io) ms p = (Inr offs, p')" by simp
    show ?thesis using AppendBatch_done(2,3) [OF laws ok False a] AppendBatch_fields(1) [OF a] len by simp
  qed (use ap ok in \<open>simp add: AppendBatch_def\<close>)
  have packed: "?Q p'" if a: "AppendBatchCompressed W (appendNs io) (flushNs io) (indexNow io) msgs c p = (r, p')"
      and ne: "msgs \<noteq> []"
  proof (cases "Encode c (batch_payload (map (stamp (appendNs io)) msgs))")
    case (Inr z)
    obtain offs where a: "AppendBatchCompressed W (appendNs io) (flushNs io) (indexNow io) msgs c p = (Inr offs, p')"
      using AppendBatchCompressed_succeeds [OF laws fl ok room Inr] a by (metis prod.inject)
    have "length (x # map g [1..<length msgs]) = length msgs" for x :: bytes and g using ne by simp
    with AppendBatchCompressed_done [OF laws ok ne a] AppendBatchCompressed_fields(1) [OF a]
    show ?thesis by (metis wal_end_append order_refl)
  qed (use a ne ok in \<open>simp add: AppendBatchCompressed_def Let_def\<close>)
  have len: "encode_values c msgs = Inr ms \<Longrightarrow> length ms = length msgs" for ms
    by (induction msgs arbitrary: ms) (auto split: sum.splits)
  show ?thesis
  proof (cases "CompressionType cfg \<noteq> CompressionNone \<and> length msgs > 1")
    case True
    then have "msgs \<noteq> []" by auto
    with packed res True show ?thesis by (simp add: append_messages_def)
  next
    case False
    then show ?thesis using res plain len ok unfolding append_messages_def if_not_P [OF False]
      by (auto split: if_splits sum.splits)
  qed
qed

lemma complete_pow_ok: "balancer B bal_ok \<Longrightarrow> bal_ok bl \<Longrightarrow> bal_ok ((complete B i ^^ n) bl)"
  by (induction n) (simp_all add: complete_ok)

lemma appendPartitionBatch_ok:
  assumes laws: "wal_laws W winv view" "wal_faultless W winv view" "balancer B bal_ok"
    and ok: "broker_ok winv view bal_ok sched_ok b" and room: "roomy view (length (snd g) + n) b"
    and res: "appendPartitionBatch W B io name g (rs, b) = (rs', b')"
  shows "broker_ok winv view bal_ok sched_ok b' \<and> roomy view n b'"
proof -
  obtain i batch where g: "g = (i, batch)" by (cases g)
  have keep: "roomy view n b" by (rule roomy_mono [OF room]) simp
  show ?thesis
  proof (cases "\<exists>t p. map_of (topics b) name = Some t \<and> topicPartition t (int i) = Inr p")
    case True
    then obtain t p where t: "map_of (topics b) name = Some t" and p: "topicPartition t (int i) = Inr p" by blast
    obtain r p' where a: "append_messages W io (snapCfg b) (snapCodec b) (map fst batch) p = (r, p')" by fastforce
    define b1 where "b1 = putPartition name t (int i) p' b"
    have room': "wal_end (view (plog p)) + length (map fst batch) < 2 ^ 64"
      using roomyD [OF room t p] by (simp add: g)
    have q: "part_ok winv view p' \<and> pid p' = pid p \<and> wal_end (view (plog p')) \<le> wal_end (view (plog p)) + length batch"
      using append_messages_ok [OF laws(1,2) topic_okD(1) [OF broker_okD(7) [OF ok t] p] room' a] by simp
    then have b1: "broker_ok winv view bal_ok sched_ok b1" unfolding b1_def
      by (intro putPartition_ok [OF ok t p]) simp_all
    have r1: "roomy view n b1" unfolding b1_def
      by (rule roomy_put [of view "length batch", OF _ t p]) (use q room g in simp_all)
    have b': "b' = b1\<lparr>rtBalancer := map_option ((complete B i) ^^ length batch) (rtBalancer b1),
        bmetrics := RecordProduceBatch i (int (length batch)) (bmetrics b1)\<rparr>"
      using res by (simp add: appendPartitionBatch_def g t p a b1_def Let_def)
    have "pred_option bal_ok (map_option ((complete B i) ^^ length batch) (rtBalancer b1))"
      using broker_okD(3) [OF b1] complete_pow_ok [OF laws(3)] by (cases "rtBalancer b1") simp_all
    from broker_ok_metrics [OF broker_ok_balancer [OF b1 this] Record_ok(2) [OF broker_okD(6) [OF b1]]] r1
    show ?thesis by (simp add: b' roomy_def)
  next
    case False
    then have "b' = b" using res by (auto simp: appendPartitionBatch_def g split: option.splits sum.splits)
    then show ?thesis using ok keep by simp
  qed
qed

lemma groups_ok:
  assumes laws: "wal_laws W winv view" "wal_faultless W winv view" "balancer B bal_ok"
  shows "broker_ok winv view bal_ok sched_ok b \<Longrightarrow> roomy view (sum_list (map (\<lambda>g. length (snd g)) gs)) b \<Longrightarrow>
    broker_ok winv view bal_ok sched_ok (snd (fold (gated W B io acquire name) gs (rs, b)))"
proof (induction gs arbitrary: rs b)
  case (Cons g gs)
  obtain rs1 b1 where s: "gated W B io acquire name g (rs, b) = (rs1, b1)" by fastforce
  have room: "roomy view (length (snd g) + sum_list (map (\<lambda>g. length (snd g)) gs)) b"
    using Cons.prems(2) by (simp add: comp_def)
  have "broker_ok winv view bal_ok sched_ok b1 \<and> roomy view (sum_list (map (\<lambda>g. length (snd g)) gs)) b1"
  proof (cases "acquire (fst g)")
    case None
    then show ?thesis
      using appendPartitionBatch_ok [OF laws Cons.prems(1) room] s by (simp add: gated_def)
  next
    case (Some e)
    then have "b1 = b" using s by (simp add: gated_def)
    with roomy_mono [OF room] Cons.prems(1) show ?thesis by simp
  qed
  with Cons.IH s show ?case by simp
qed simp

text \<open>The assignment keeps the balancer well-formed and never puts a message in two groups.\<close>

lemma group_add_size:
  "sum_list (map (\<lambda>g. length (snd g)) (group_add i x gs)) = Suc (sum_list (map (\<lambda>g. length (snd g)) gs))"
proof (induction gs)
  case (Cons g gs)
  then show ?case by (cases "fst g = i"; cases g) (simp_all add: group_add_def comp_def)
qed (simp add: group_add_def)

lemma assign_ok:
  assumes "balancer B bal_ok" and "0 < n"
  shows "foldl (assign_one B env now name n cfg) (rs, gs, bl, bpo) xs = (rs', gs', bl', bpo') \<Longrightarrow> bal_ok bl \<Longrightarrow>
    bal_ok bl' \<and> sum_list (map (\<lambda>g. length (snd g)) gs') \<le> sum_list (map (\<lambda>g. length (snd g)) gs) + length xs"
proof (induction xs arbitrary: rs gs bl bpo)
  case (Cons x xs)
  obtain rs1 gs1 bl1 bpo1 where s: "assign_one B env now name n cfg (rs, gs, bl, bpo) x = (rs1, gs1, bl1, bpo1)"
    by (metis prod_cases4)
  have sel: "bal_ok (snd (SelectPartition B env name key n bl))" for key
    by (rule balancer.select_ok [OF assms(1) Cons.prems(2) assms(2)])
  then have sel': "SelectPartition B env name key n bl = (i, c) \<Longrightarrow> bal_ok c" for key i c by (metis snd_conv)
  have "bal_ok bl1 \<and> sum_list (map (\<lambda>g. length (snd g)) gs1) \<le> Suc (sum_list (map (\<lambda>g. length (snd g)) gs))"
    using s Cons.prems(2) sel' complete_ok [OF assms(1)]
    by (auto simp: assign_one_def Let_def group_add_size split: prod.splits if_splits)
  with Cons.IH [of rs1 gs1 bl1 bpo1] Cons.prems(1) s show ?case by simp
qed simp

lemma gated_free: "gated W B io (\<lambda>_. None) name = appendPartitionBatch W B io name"
  by (simp add: gated_def fun_eq_iff)

lemma PublishBatch_ok:
  assumes laws: "wal_laws W winv view" "wal_faultless W winv view" "balancer B bal_ok"
    and ok: "broker_ok winv view bal_ok sched_ok b" and room: "roomy view (length msgs) b"
    and order: "\<And>gs. mset (order gs) = mset gs"
    and res: "PublishBatch W B io acquire order name msgs b = Some (rs, b')"
  shows "broker_ok winv view bal_ok sched_ok b'"
proof (cases "\<exists>t bl. map_of (topics b) name = Some t \<and> rtBalancer b = Some bl")
  case True
  then obtain t bl where t: "map_of (topics b) name = Some t" and bl: "rtBalancer b = Some bl" by blast
  let ?rs = "replicate (length msgs) \<lparr>rPartition = 0, rOffset = 0, rErr = None\<rparr>"
  obtain rs1 gs bl1 bpo where a: "foldl (assign_one B (ienv io) (produceNs io) name (nat (NumPartitions t)) (snapCfg b))
      (?rs, [], bl, rtBackpressure b) (enumerate 0 msgs) = (rs1, gs, bl1, bpo)" by (metis prod_cases4)
  have n: "0 < nat (NumPartitions t)" by (rule topic_ok_nonempty [OF broker_okD(7) [OF ok t]])
  have s: "bal_ok bl1 \<and> sum_list (map (\<lambda>g. length (snd g)) gs) \<le> length msgs"
    using assign_ok [OF laws(3) n a broker_okD(8) [OF ok bl]] by simp
  define b1 where "b1 = b\<lparr>rtBalancer := Some bl1, rtBackpressure := bpo\<rparr>"
  have b1: "broker_ok winv view bal_ok sched_ok b1"
    using broker_ok_balancer [OF ok, of "Some bl1"] s by (simp add: b1_def)
  have "sum_list (map (\<lambda>g. length (snd g)) (order gs)) = sum_list (map (\<lambda>g. length (snd g)) gs)"
    by (simp only: sum_mset_sum_list [symmetric] mset_map order)
  moreover have "roomy view (sum_list (map (\<lambda>g. length (snd g)) gs)) b1"
    by (rule roomy_mono [of view "length msgs"]) (use room s in \<open>simp_all add: roomy_def b1_def\<close>)
  ultimately have r: "roomy view (sum_list (map (\<lambda>g. length (snd g)) gs)) b1"
    "roomy view (sum_list (map (\<lambda>g. length (snd g)) (order gs))) b1" by simp_all
  have "(rs, b') = (if length gs = 1 then fold (gated W B io (\<lambda>_. None) name) gs (rs1, b1)
      else fold (gated W B io acquire name) (order gs) (rs1, b1))"
    using res by (simp add: PublishBatch_def t bl a b1_def gated_free Let_def split: if_splits)
  then show ?thesis
    using groups_ok [OF laws b1 r(1), of io "\<lambda>_. None" name rs1] groups_ok [OF laws b1 r(2), of io acquire name rs1]
    by (simp split: if_splits) (metis snd_conv)+
next
  case False
  then have "b' = b" using res by (auto simp: PublishBatch_def Let_def split: option.splits if_splits)
  then show ?thesis using ok by simp
qed

text \<open>
  The outcome of a publish on a log that does not fail: refused by backpressure, or appended to the
  chosen partition. In both cases the invariant holds afterwards.
\<close>

lemma Publish_outcome:
  assumes laws: "wal_laws W winv view" "wal_faultless W winv view" "balancer B bal_ok"
    and ok: "broker_ok winv view bal_ok sched_ok b" and t: "map_of (topics b) name = Some t"
    and bl: "rtBalancer b = Some bl" and size: "\<not> too_large (snapCfg b) msg"
    and enc: "compressMessage (snapCodec b) msg = Inr m"
    and room: "\<And>p. p \<in> set (partitions t) \<Longrightarrow> wal_end (view (plog p)) + 1 < 2 ^ 64"
  obtains i off p' where "i < length (partitions t)"
    and "Append W (appendNs io) (flushNs io) (indexNow io) (bufPool io)
      (set_produce_time (produceNs io) m) (partitions t ! i) = (Inr off, p')"
    and "part_ok winv view (partitions t ! i)"
    and "fst (check_bp i (rtBackpressure b)) \<Longrightarrow>
      fst (Publish W B io name msg b) = Inl ErrThrottled \<and> topics (snd (Publish W B io name msg b)) = topics b"
    and "\<not> fst (check_bp i (rtBackpressure b)) \<Longrightarrow> fst (Publish W B io name msg b) = Inr (i, off) \<and>
      topics (snd (Publish W B io name msg b)) = AList.update name (setPartition t (int i) p') (topics b)"
    and "broker_ok winv view bal_ok sched_ok (snd (Publish W B io name msg b))"
proof -
  obtain i bl1 where sel: "SelectPartition B (ienv io) name (Key m) (nat (NumPartitions t)) bl = (i, bl1)" by fastforce
  obtain shut bp1 where bp: "check_bp i (rtBackpressure b) = (shut, bp1)" by fastforce
  note run = Publish_run [OF laws(1,3) ok t bl size enc sel bp]
  note p = topicPartition_in_range [OF run(1)]
  note pok = topic_okD(1) [OF broker_okD(7) [OF ok t] p]
  obtain off p' where a: "Append W (appendNs io) (flushNs io) (indexNow io) (bufPool io)
      (set_produce_time (produceNs io) m) (partitions t ! i) = (Inr off, p')"
    using Append_succeeds [OF laws(1,2) pok room] run(1) by (metis nth_mem)
  note ad = Append_done(1,2) [OF laws(1) pok a]
  have bl1: "pred_option bal_ok (Some bl1)" "pred_option bal_ok (Some (complete B i bl1))"
    using run(4) complete_ok [OF laws(3)] by simp_all
  have ok1: "broker_ok winv view bal_ok sched_ok (b\<lparr>rtBalancer := Some bl1, rtBackpressure := bp1\<rparr>)"
    and ok2: "broker_ok winv view bal_ok sched_ok (b\<lparr>rtBalancer := Some (complete B i bl1), rtBackpressure := bp1\<rparr>)"
    using broker_ok_balancer [OF ok bl1(1)] broker_ok_balancer [OF ok bl1(2)] by simp_all
  have ok': "broker_ok winv view bal_ok sched_ok (snd (Publish W B io name msg b))"
    using run(2) run(3) [OF _ a] ok1
      broker_ok_metrics [OF putPartition_ok [OF ok2 _ p ad] Record_ok(1) [OF broker_okD(6) [OF ok]]] t
    by (cases shut) simp_all
  show thesis
    by (rule that [OF run(1) a pok _ _ ok']) (use run(2) run(3) [OF _ a] in \<open>simp_all add: bp putPartition_def\<close>)
qed

lemma Publish_ok:
  assumes laws: "wal_laws W winv view" "wal_faultless W winv view" "balancer B bal_ok"
    and ok: "broker_ok winv view bal_ok sched_ok b" and room: "roomy view 1 b"
  shows "broker_ok winv view bal_ok sched_ok (snd (Publish W B io name msg b))"
proof (cases "\<exists>t bl m. map_of (topics b) name = Some t \<and> rtBalancer b = Some bl \<and>
    \<not> too_large (snapCfg b) msg \<and> compressMessage (snapCodec b) msg = Inr m")
  case True
  then obtain t bl m where d: "map_of (topics b) name = Some t" "rtBalancer b = Some bl"
    "\<not> too_large (snapCfg b) msg" "compressMessage (snapCodec b) msg = Inr m" by blast
  have "wal_end (view (plog p)) + 1 < 2 ^ 64" if "p \<in> set (partitions t)" for p
    using room map_of_SomeD [OF d(1)] that by (auto simp: roomy_def)
  from Publish_outcome [OF laws ok d this] show ?thesis by metis
next
  case False
  then have "snd (Publish W B io name msg b) = b"
    by (auto simp: Publish_def split: sum.splits option.splits)
  with ok show ?thesis by simp
qed

subsection \<open>Consuming and the ticks\<close>

lemma ConsumeFrom_ok:
  assumes "scheduler S W winv view sched_ok" and ok: "broker_ok winv view bal_ok sched_ok b"
  shows "broker_ok winv view bal_ok sched_ok (snd (ConsumeFrom S env name i off b))"
proof (cases "\<exists>t p s. map_of (topics b) name = Some t \<and> topicPartition t i = Inr p \<and> map_of (schedulers b) name = Some s")
  case True
  then obtain t p s where d: "map_of (topics b) name = Some t" "topicPartition t i = Inr p"
    "map_of (schedulers b) name = Some s" by blast
  obtain r p' s' where n: "SchedNext S env p off s = (r, p', s')" by (metis prod_cases3)
  note pok = topic_okD(1) [OF broker_okD(7) [OF ok d(1)] d(2)]
  have k: "part_ok winv view p'" "sched_ok s'" "pid p' = pid p"
    using scheduler.next_keeps [OF assms(1) pok broker_okD(9) [OF ok d(3)] n] by auto
  define b1 where "b1 = (putPartition name t i p' b)\<lparr>schedulers := AList.update name s' (schedulers b)\<rparr>"
  have b1: "broker_ok winv view bal_ok sched_ok b1" unfolding b1_def
    by (rule schedulers_ok [OF putPartition_ok [OF ok d(1,2) k(1,3)]
          update_all [of _ sched_ok, OF broker_okD(4) [OF ok] k(2)]])
  have "snd (ConsumeFrom S env name i off b) \<in> {b1, b1\<lparr>bmetrics := RecordConsume (nat i) (bmetrics b1)\<rparr>}"
    by (simp add: ConsumeFrom_def d n b1_def [symmetric] split: sum.split prod.split)
  then show ?thesis using b1 broker_ok_metrics [OF b1 Record_ok(4) [OF broker_okD(6) [OF b1]]] by auto
next
  case False
  then have "snd (ConsumeFrom S env name i off b) = b"
    by (auto simp: ConsumeFrom_def split: option.splits sum.splits)
  with ok show ?thesis by simp
qed

lemma consume_loop_ok:
  assumes "scheduler S W winv view sched_ok"
  shows "broker_ok winv view bal_ok sched_ok b \<Longrightarrow>
    broker_ok winv view bal_ok sched_ok (snd (consume_loop S env name i n cur acc lst b))"
proof (induction n arbitrary: cur acc lst b)
  case (Suc n)
  from ConsumeFrom_ok [OF assms Suc.prems, of env name i cur] Suc.IH show ?case
    by (cases "ConsumeFrom S env name i cur b") (auto split: sum.splits)
qed simp

lemma brokerCommit_ok:
  "broker_ok winv view bal_ok sched_ok (snd (brokerCommit K now grp name i off b)) \<longleftrightarrow>
   broker_ok winv view bal_ok sched_ok b"
  by (auto simp: brokerCommit_def split: option.splits prod.splits)

lemma ConsumeBatch_ok:
  assumes "scheduler S W winv view sched_ok" and "broker_ok winv view bal_ok sched_ok b"
  shows "broker_ok winv view bal_ok sched_ok (snd (ConsumeBatch S K env name grp i n b))"
proof -
  obtain r b1 where l: "consume_loop S env name i (nat n) (start_offset grp name i b) [] 0 b = (r, b1)" by fastforce
  have b1: "broker_ok winv view bal_ok sched_ok b1"
    using consume_loop_ok [OF assms, of env name i "nat n" "start_offset grp name i b" "[]" 0] l by simp
  have "snd (ConsumeBatch S K env name grp i n b) \<in>
      insert b1 (range (\<lambda>off. snd (brokerCommit K (clock env) grp name i off b1)))"
    by (auto simp: ConsumeBatch_def l Let_def case_prod_unfold split: sum.split)
  then show ?thesis using b1 by (elim insertE rangeE) (simp_all add: brokerCommit_ok)
qed

lemma ApplyConfig_ok:
  "broker_ok winv view bal_ok sched_ok b \<Longrightarrow> broker_ok winv view bal_ok sched_ok (snd (ApplyConfig lib cfg b))"
  by (simp add: ApplyConfig_def)

lemma retention_tick_ok:
  assumes "wal_laws W winv view" and ok: "broker_ok winv view bal_ok sched_ok b"
  shows "broker_ok winv view bal_ok sched_ok (retention_tick W now b)"
proof -
  obtain ts mc where r: "retain_topics W (snapCfg b) (offsetStore b) now (topics b) (bmetrics b) = (ts, mc)" by fastforce
  from retain_topics_ok [OF assms(1) broker_okD(2,6) [OF ok] r] ok show ?thesis
    by (simp add: retention_tick_def r broker_ok_def)
qed

lemma session_tick_ok:
  "broker_ok winv view bal_ok sched_ok (session_tick now b) \<longleftrightarrow> broker_ok winv view bal_ok sched_ok b"
  by (simp add: session_tick_def)

lemma counters_ok_update [simp]:
  "counters_ok (mc\<lparr>avgFlushLatencyNs := x\<rparr>) = counters_ok mc"
  "counters_ok (mc\<lparr>throughputHistory := th\<rparr>) = counters_ok mc"
  "counters_ok (mc\<lparr>lastSnap := sn\<rparr>) = counters_ok mc"
  by (simp_all add: counters_ok_def)

lemma system_tick_ok:
  "broker_ok winv view bal_ok sched_ok b \<Longrightarrow> broker_ok winv view bal_ok sched_ok (system_tick preds b)"
  by (auto simp: system_tick_def Let_def broker_ok_metrics broker_okD(6) split: option.split)

lemma throughput_tick_ok:
  assumes "balancer B bal_ok" and ok: "broker_ok winv view bal_ok sched_ok b"
  shows "broker_ok winv view bal_ok sched_ok (throughput_tick B tp b)"
proof -
  define b1 where "b1 = b\<lparr>bmetrics := (bmetrics b)\<lparr>throughputHistory :=
      append_capped metricsHistoryCap tp (throughputHistory (bmetrics b))\<rparr>\<rparr>"
  have b1: "broker_ok winv view bal_ok sched_ok b1"
    using broker_ok_metrics [OF ok] broker_okD(6) [OF ok] by (simp add: b1_def)
  have "pred_option bal_ok (map_option (f x) (rtBalancer b1))" if "SetBaseThroughput B = Some f" for f x
    using broker_okD(3) [OF b1] balancer.base_ok [OF assms(1) that] by (cases "rtBalancer b1") simp_all
  then show ?thesis
    using b1 broker_ok_balancer [OF b1] unfolding throughput_tick_def Let_def b1_def [symmetric]
    by (simp split: option.split)
qed

lemma metrics_tick_ok:
  assumes "balancer B bal_ok" and ok: "broker_ok winv view bal_ok sched_ok b"
  shows "broker_ok winv view bal_ok sched_ok (metrics_tick B stdDev mean order env b)"
proof -
  obtain snap0 mc where c: "Collect stdDev mean (map (nat \<circ> ID) (all_partitions b)) (observe B b) (clock env) (bmetrics b) =
      (snap0, mc)" by fastforce
  have mc: "counters_ok mc" using Collect_ok(1) [OF broker_okD(6) [OF ok]] c by (metis snd_conv)
  have bal: "pred_option bal_ok (map_option (OnMetrics B env sn) (rtBalancer b))" for sn
    using broker_okD(3) [OF ok] balancer.metrics_ok [OF assms(1)] by (cases "rtBalancer b") simp_all
  have "broker_ok winv view bal_ok sched_ok
      (b\<lparr>bmetrics := m, bpredictor := lp, rtBalancer := map_option (OnMetrics B env sn) (rtBalancer b)\<rparr>)"
    if "counters_ok m" for m lp sn
    using broker_ok_balancer [OF broker_ok_metrics [OF ok that] bal] by (simp add: broker_ok_def)
  then show ?thesis
    unfolding metrics_tick_def c Let_def prod.case
    by (intro throughput_tick_ok [OF assms(1)] system_tick_ok) (simp add: mc)
qed

subsection \<open>Reachable states\<close>

text \<open>
  One step of a running broker: an API call, a reconfiguration or a background tick. The arguments
  are arbitrary; a publish needs offsets left in the logs, and the goroutines of a batch may
  run in any order.
\<close>

inductive broker_step :: "'w wal_ops \<Rightarrow> 'd kv_ops \<Rightarrow> 'b balancer_ops \<Rightarrow> ('w, 's) sched_ops \<Rightarrow> ('g, 'l) compress_lib \<Rightarrow>
    (string \<times> string \<times> int \<Rightarrow> bool \<Rightarrow> err + 'w) \<Rightarrow> ('w \<Rightarrow> wal_view) \<Rightarrow> ('b \<Rightarrow> bool) \<Rightarrow> ('s \<Rightarrow> bool) \<Rightarrow>
    ('w, 'd, 'b, 's) broker \<Rightarrow> ('w, 'd, 'b, 's) broker \<Rightarrow> bool"
  for W K B S lib walOpen view bal_ok sched_ok where
  create: "broker_step W K B S lib walOpen view bal_ok sched_ok b (snd (CreateTopic W walOpen name tcfg b))"
| delete: "broker_step W K B S lib walOpen view bal_ok sched_ok b (snd (DeleteTopic W K re name b))"
| publish: "roomy view 1 b \<Longrightarrow>
    broker_step W K B S lib walOpen view bal_ok sched_ok b (snd (Publish W B io name msg b))"
| publish_batch: "roomy view (length msgs) b \<Longrightarrow> (\<And>gs. mset (order gs) = mset gs) \<Longrightarrow>
    PublishBatch W B io acquire order name msgs b = Some (rs, b') \<Longrightarrow>
    broker_step W K B S lib walOpen view bal_ok sched_ok b b'"
| consume: "broker_step W K B S lib walOpen view bal_ok sched_ok b (snd (Consume S env name grp i b))"
| consume_from: "broker_step W K B S lib walOpen view bal_ok sched_ok b (snd (ConsumeFrom S env name i off b))"
| consume_batch: "broker_step W K B S lib walOpen view bal_ok sched_ok b (snd (ConsumeBatch S K env name grp i n b))"
| commit: "broker_step W K B S lib walOpen view bal_ok sched_ok b (snd (brokerCommit K now grp name i off b))"
| configure: "broker_step W K B S lib walOpen view bal_ok sched_ok b (snd (ApplyConfig lib cfg b))"
| set_balancer: "pred_option bal_ok bal \<Longrightarrow>
    broker_step W K B S lib walOpen view bal_ok sched_ok b (SetBalancer bal b)"
| set_scheduler: "sched_ok s \<Longrightarrow>
    broker_step W K B S lib walOpen view bal_ok sched_ok b (SetScheduler name s b)"
| set_factory: "(\<And>fn tcfg. fo = Some fn \<Longrightarrow> sched_ok (fn tcfg)) \<Longrightarrow>
    broker_step W K B S lib walOpen view bal_ok sched_ok b (SetSchedulerFactory fo b)"
| set_backpressure: "broker_step W K B S lib walOpen view bal_ok sched_ok b (SetBackpressure bp b)"
| metrics: "broker_step W K B S lib walOpen view bal_ok sched_ok b (metrics_tick B stdDev mean visit_order env b)"
| retention: "broker_step W K B S lib walOpen view bal_ok sched_ok b (retention_tick W now b)"
| session: "broker_step W K B S lib walOpen view bal_ok sched_ok b (session_tick now b)"

lemma broker_step_ok:
  assumes laws: "wal_laws W winv view" "wal_faultless W winv view" "open_ok winv view walOpen"
    "balancer B bal_ok" "scheduler S W winv view sched_ok"
    and "broker_step W K B S lib walOpen view bal_ok sched_ok b b'" and "broker_ok winv view bal_ok sched_ok b"
  shows "broker_ok winv view bal_ok sched_ok b'"
  using assms(6,7)
proof (induction rule: broker_step.induct)
  case (publish_batch msgs b order io acquire name rs b')
  then show ?case by (metis PublishBatch_ok [OF laws(1,2,4)])
next
  case (set_factory fo b)
  then show ?case by (simp add: SetSchedulerFactory_def broker_ok_def)
qed (simp_all add: CreateTopic_ok [OF laws(1,3)] DeleteTopic_ok Publish_ok [OF laws(1,2,4)] Consume_def
  ConsumeFrom_ok [OF laws(5)] ConsumeBatch_ok [OF laws(5)] brokerCommit_ok ApplyConfig_ok SetBalancer_def
  broker_ok_balancer SetScheduler_ok SetBackpressure_def metrics_tick_ok [OF laws(4)]
  retention_tick_ok [OF laws(1)] session_tick_ok)


subsection \<open>A broker for the concrete instances\<close>

definition sampleOpen :: "string \<times> string \<times> int \<Rightarrow> bool \<Rightarrow> err + list_wal" where
  "sampleOpen path sync = Inr memWal"

lemma sampleOpen_ok: "open_ok mem_inv lw_view sampleOpen"
  using memWal_inv by (auto simp: open_ok_def sampleOpen_def lw_view_def memWal_def)

definition sampleTopicConfig :: topic_config where
  "sampleTopicConfig = DefaultTopicConfig\<lparr>cfgNumPartitions := 2\<rparr>"

definition sampleConfig :: config where
  "sampleConfig = DefaultConfig\<lparr>CompressionType := CompressionGzip\<rparr>"

definition sampleNew :: "'b \<Rightarrow> (list_wal, (string \<times> bytes) list, 'b, unit) broker" where
  "sampleNew bl = New tagLib sampleConfig ''/data'' (Some bl)
     (Some \<lparr>odb = [], ocache = [], lastCommit = [], dumpInterval = 10\<rparr>) 0"

definition sampleBroker :: "'b \<Rightarrow> (list_wal, (string \<times> bytes) list, 'b, unit) broker" where
  "sampleBroker bl = snd (CreateTopic listWal sampleOpen ''t'' sampleTopicConfig
     (SetSchedulerFactory (Some (\<lambda>_. ())) (sampleNew bl)))"

definition sampleParts :: "list_wal partition list" where
  "sampleParts = map (\<lambda>i. \<lparr>pid = i, topicName = ''t'', plog = memWal, nextOffset = 1,
     priorityIndex = None, scheduleMode = ModeFIFO, lastFlushNs = 0,
     batchCodec = Some (NewCodec tagLib CompressionGzip)\<rparr>) [0, 1]"

lemma sampleBroker_steps:
  "(broker_step listWal listKV B (FIFO listWal) tagLib sampleOpen lw_view bal_ok (\<lambda>_. True))\<^sup>*\<^sup>*
     (sampleNew bl) (sampleBroker bl)"
proof -
  let ?step = "broker_step listWal listKV B (FIFO listWal) tagLib sampleOpen lw_view bal_ok (\<lambda>_. True)"
  have "?step (sampleNew bl) (SetSchedulerFactory (Some (\<lambda>_. ())) (sampleNew bl))"
    by (rule broker_step.set_factory) simp
  moreover have "?step (SetSchedulerFactory (Some (\<lambda>_. ())) (sampleNew bl)) (sampleBroker bl)"
    unfolding sampleBroker_def by (rule broker_step.create)
  ultimately show ?thesis by (meson r_into_rtranclp rtranclp.rtrancl_into_rtrancl)
qed

lemma sampleBroker_ok: "bal_ok bl \<Longrightarrow> broker_ok mem_inv lw_view bal_ok (\<lambda>_. True) (sampleBroker bl)"
  unfolding sampleBroker_def sampleNew_def
  by (intro CreateTopic_ok [OF memWal_laws sampleOpen_ok]) (simp add: SetSchedulerFactory_def broker_ok_def New_def NewMetricsCollector_ok)

lemma sampleBroker_topic:
  "topics (sampleBroker bl) = [(''t'', \<lparr>tname = ''t'', partitions = sampleParts, tconfig = sampleTopicConfig, tclosed = False\<rparr>)]"
proof -
  have "NewTopic listWal sampleOpen ''t'' ''/data'' sampleTopicConfig SyncInterval =
      Inr \<lparr>tname = ''t'', partitions = map (\<lambda>p. p\<lparr>batchCodec := None\<rparr>) sampleParts, tconfig = sampleTopicConfig, tclosed = False\<rparr>"
    by (simp add: NewTopic_def sampleTopicConfig_def DefaultTopicConfig_def effectivePartitions_def numeral_2_eq_2
        NewPartition_def sampleOpen_def listWal_def memWal_def sampleParts_def ModeFIFO_def)
  then show ?thesis
    by (simp add: sampleBroker_def sampleNew_def CreateTopic_def SetSchedulerFactory_def New_def sampleConfig_def
        DefaultConfig_def CompressionGzip_def CompressionNone_def SetBatchCodec_def sampleParts_def)
qed

lemma sampleBroker_fields:
  "snapCfg (sampleBroker bl) = sampleConfig" "snapCodec (sampleBroker bl) = NewCodec tagLib CompressionGzip"
  "rtBalancer (sampleBroker bl) = Some bl" "schedulers (sampleBroker bl) = [(''t'', ())]"
  "rtBackpressure (sampleBroker bl) = Some (NewBackpressureController DefaultBPThreshold)"
  "offsetStore (sampleBroker bl) = Some \<lparr>odb = [], ocache = [], lastCommit = [], dumpInterval = 10\<rparr>"
  by (simp_all add: sampleBroker_def sampleNew_def CreateTopic_def SetSchedulerFactory_def New_def sampleConfig_def
      split: sum.splits) (simp_all add: NewTopic_def sampleTopicConfig_def DefaultTopicConfig_def effectivePartitions_def numeral_2_eq_2
        NewPartition_def sampleOpen_def listWal_def memWal_def sampleParts_def ModeFIFO_def)

definition sampleIO :: pub_io where
  "sampleIO = \<lparr>ienv = \<lparr>draw = \<lambda>_. 0, clock = 5\<rparr>, produceNs = 5, appendNs = 6, flushNs = 1, indexNow = 6, bufPool = \<lambda>_. []\<rparr>"

definition sampleRR :: round_robin where
  "sampleRR = \<lparr>counter = 0, rrLoads = None, skipThreshold = Fin 1, skipBudget = 2\<rparr>"

lemma sampleBroker_room: "roomy lw_view 1 (sampleBroker bl)"
  by (simp add: roomy_def sampleBroker_topic sampleParts_def lw_view_def memWal_def wal_end_def)


end
