(* ===== verification/Transport.thy ===== *)
theory Transport
  imports BrokerSpec
begin

text \<open>
  The gRPC service, \<^verbatim>\<open>pkg/transport/server.go\<close> and \<^verbatim>\<open>errors.go\<close>: the handlers that translate requests
  into broker calls, the request semaphore and the mapping of broker errors to status codes. The
  messages of the protocol (\<^verbatim>\<open>pkg/proto/*.proto\<close>) are records; encoding them and moving them over the
  network is generated code and a library. A 32-bit field is a 32-bit word, read with \<^verbatim>\<open>sint\<close> where
  the protocol says \<^verbatim>\<open>int32\<close>. An error that carries no status reaches the client as \<^verbatim>\<open>Unknown\<close>.

  \<^verbatim>\<open>Consume\<close> polls for more messages until a deadline. Each sleep of the loop lets the rest of the
  system run: the argument \<open>polls\<close> has one function on brokers for each poll the deadline allows.
  A scheduler may go on delivering empty messages for ever, so the loop has fuel; the theorems below
  say how much is enough.
\<close>

type_synonym i32 = "32 word"

subsection \<open>Protocol messages\<close>

record produce_message =
  pmKey :: bytes
  pmValue :: bytes
  pmPriority :: u32

record produce_request =
  prTopic :: string
  prKey :: bytes
  prValue :: bytes
  prPriority :: u32
  prMessages :: "produce_message list"

record produce_result =
  resPartition :: i32
  resOffset :: i64

record produce_response =
  respPartition :: i32
  respOffset :: i64
  respResults :: "produce_result list"

record consume_request =
  crTopic :: string
  crGroup :: string
  crPartition :: i32
  crMaxBytes :: i32

record message_envelope =
  envOffset :: i64
  envKey :: bytes
  envValue :: bytes
  envPriority :: u32
  envTimestamp :: i64
  envProduceTime :: i64
  envAppendTime :: i64

record commit_request =
  cmTopic :: string
  cmGroup :: string
  cmPartition :: i32
  cmOffset :: i64

record topic_schedule_config =
  scMode :: int
  scPriorityLevels :: i32
  scAntiStarvationMs :: i64
  scDqnThrottleOnLoad :: f64

record create_topic_request =
  ctTopic :: string
  ctNumPartitions :: i32
  ctScheduleConfig :: "topic_schedule_config option"

record topic_info =
  tiTopic :: string
  tiNumPartitions :: i32
  tiMode :: int

record metrics_response =
  mrThroughput :: f64
  mrAvgLatency :: f64
  mrPartitionLoads :: "f64 list"
  mrSuccessRate :: f64
  mrQueueDepth :: "i64 list"
  mrLoadStddev :: f64
  mrMsgRate :: f64
  mrAvgMsgSize :: f64
  mrPredictedLoads :: "f64 list"

definition ScheduleMode_FIFO :: int where "ScheduleMode_FIFO = 0"
definition ScheduleMode_STRICT_PRIORITY :: int where "ScheduleMode_STRICT_PRIORITY = 1"
definition ScheduleMode_DQN_ADAPTIVE :: int where "ScheduleMode_DQN_ADAPTIVE = 2"

subsection \<open>Errors\<close>

datatype grpc_code = Unknown | ResourceExhausted | AlreadyExists | NotFound

text \<open>What a call can end in besides a response. A panic in a handler ends the process.\<close>

datatype rpc_error =
    Failed grpc_code err
  | ServerOverloaded
  | Panicked

fun status_code :: "rpc_error \<Rightarrow> grpc_code" where
  "status_code (Failed c _) = c"
| "status_code ServerOverloaded = ResourceExhausted"
| "status_code Panicked = Unknown"

definition mapBrokerError :: "err \<Rightarrow> rpc_error" where
  "mapBrokerError e =
     (if e = ErrPanic then Panicked
      else if e = ErrThrottled then Failed ResourceExhausted e
      else if e = ErrTopicAlreadyExists then Failed AlreadyExists e
      else if e = ErrTopicNotFound then Failed NotFound e
      else Failed Unknown e)"

definition mapClientError :: "rpc_error \<Rightarrow> err option" where
  "mapClientError e =
     (case status_code e of
        AlreadyExists \<Rightarrow> Some ErrTopicAlreadyExists
      | NotFound \<Rightarrow> Some ErrTopicNotFound
      | _ \<Rightarrow> None)"

subsection \<open>The request semaphore\<close>

text \<open>The number of requests inside the interceptor; without a limit nothing is counted.\<close>

definition sem_enter :: "config \<Rightarrow> nat \<Rightarrow> rpc_error + nat" where
  "sem_enter cfg n =
     (if MaxQueuedRequests cfg > 0
      then if int n < MaxQueuedRequests cfg then Inr (Suc n) else Inl ServerOverloaded
      else Inr n)"

definition sem_leave :: "config \<Rightarrow> nat \<Rightarrow> nat" where
  "sem_leave cfg n = (if MaxQueuedRequests cfg > 0 then n - 1 else n)"

definition intercept :: "config \<Rightarrow> nat \<Rightarrow> ('q \<Rightarrow> 'st \<Rightarrow> (rpc_error + 'a) \<times> 'st) \<Rightarrow> 'q \<Rightarrow> 'st \<Rightarrow> (rpc_error + 'a) \<times> 'st" where
  "intercept cfg n handler req st =
     (case sem_enter cfg n of Inl e \<Rightarrow> (Inl e, st) | Inr _ \<Rightarrow> handler req st)"

subsection \<open>Producing\<close>

definition wire_message :: "i64 \<Rightarrow> bytes \<Rightarrow> bytes \<Rightarrow> u32 \<Rightarrow> message" where
  "wire_message now key val prio =
     \<lparr>Header = \<lparr>Priority = ucast prio, Timestamp = now, ProduceTime = 0, AppendTime = 0\<rparr>,
      Key = key, Value = val, BatchDecoded = False\<rparr>"

definition produceSingle :: "'w wal_ops \<Rightarrow> 'b balancer_ops \<Rightarrow> pub_io \<Rightarrow> i64 \<Rightarrow> produce_request \<Rightarrow>
    ('w, 'd, 'b, 's) broker \<Rightarrow> (rpc_error + produce_response) \<times> ('w, 'd, 'b, 's) broker" where
  "produceSingle W B io now req b =
     (case Publish W B io (prTopic req) (wire_message now (prKey req) (prValue req) (prPriority req)) b of
        (Inl e, b') \<Rightarrow> (Inl (mapBrokerError e), b')
      | (Inr (part, off), b') \<Rightarrow>
          (Inr \<lparr>respPartition = word_of_nat part, respOffset = off, respResults = []\<rparr>, b'))"

definition allFailed :: "publish_result list \<Rightarrow> bool" where
  "allFailed results = list_all (\<lambda>r. rErr r \<noteq> None) results"

fun first_err :: "publish_result list \<Rightarrow> err option" where
  "first_err [] = None"
| "first_err (r # rs) = (case rErr r of Some e \<Rightarrow> Some e | None \<Rightarrow> first_err rs)"

definition wire_result :: "publish_result \<Rightarrow> produce_result" where
  "wire_result r = \<lparr>resPartition = word_of_nat (rPartition r), resOffset = rOffset r\<rparr>"

definition produceBatch :: "'w wal_ops \<Rightarrow> 'b balancer_ops \<Rightarrow> pub_io \<Rightarrow> (nat \<Rightarrow> err option) \<Rightarrow> (groups \<Rightarrow> groups) \<Rightarrow>
    i64 \<Rightarrow> produce_request \<Rightarrow> ('w, 'd, 'b, 's) broker \<Rightarrow>
    (rpc_error + produce_response) \<times> ('w, 'd, 'b, 's) broker" where
  "produceBatch W B io acquire order now req b =
     (let msgs = map (\<lambda>m. wire_message now (pmKey m) (pmValue m) (pmPriority m)) (prMessages req)
      in case PublishBatch W B io acquire order (prTopic req) msgs b of
           None \<Rightarrow> (Inl Panicked, b)
         | Some (results, b') \<Rightarrow>
             (case first_err results of
                Some e \<Rightarrow> if allFailed results then (Inl (mapBrokerError e), b')
                          else (Inr \<lparr>respPartition = 0, respOffset = 0, respResults = map wire_result results\<rparr>, b')
              | None \<Rightarrow> (Inr \<lparr>respPartition = 0, respOffset = 0, respResults = map wire_result results\<rparr>, b')))"

definition Produce :: "'w wal_ops \<Rightarrow> 'b balancer_ops \<Rightarrow> pub_io \<Rightarrow> (nat \<Rightarrow> err option) \<Rightarrow> (groups \<Rightarrow> groups) \<Rightarrow>
    i64 \<Rightarrow> produce_request \<Rightarrow> ('w, 'd, 'b, 's) broker \<Rightarrow>
    (rpc_error + produce_response) \<times> ('w, 'd, 'b, 's) broker" where
  "Produce W B io acquire order now req b =
     (if length (prMessages req) > 0 then produceBatch W B io acquire order now req b
      else produceSingle W B io now req b)"

subsection \<open>Consuming\<close>

definition envelope :: "message \<Rightarrow> u64 \<Rightarrow> message_envelope" where
  "envelope m next_off =
     \<lparr>envOffset = next_off - 1, envKey = Key m, envValue = Value m, envPriority = ucast (Priority (Header m)),
      envTimestamp = Timestamp (Header m), envProduceTime = ProduceTime (Header m),
      envAppendTime = AppendTime (Header m)\<rparr>"

definition message_bytes :: "message \<Rightarrow> int" where
  "message_bytes m = int (length (Key m) + length (Value m))"

fun fetch_loop :: "('w, 's) sched_ops \<Rightarrow> env \<Rightarrow> string \<Rightarrow> int \<Rightarrow> int \<Rightarrow> int \<Rightarrow> nat \<Rightarrow>
    (('w, 'd, 'b, 's) broker \<Rightarrow> ('w, 'd, 'b, 's) broker) list \<Rightarrow> u64 \<Rightarrow> message_envelope list \<Rightarrow> int \<Rightarrow> i64 \<Rightarrow>
    ('w, 'd, 'b, 's) broker \<Rightarrow>
    ((err + message_envelope list \<times> i64) \<times> ('w, 'd, 'b, 's) broker) option" where
  "fetch_loop S env name i maxBytes minBytes 0 polls cur envs total_bytes last_off b = None"
| "fetch_loop S env name i maxBytes minBytes (Suc fuel) polls cur envs total_bytes last_off b =
     (if \<not> total_bytes < maxBytes then Some (Inr (envs, last_off), b)
      else case ConsumeFrom S env name i cur b of
        (Inl e, b1) \<Rightarrow>
          if e = ErrNoMessages then
            (if total_bytes < minBytes \<and> polls \<noteq> []
             then fetch_loop S env name i maxBytes minBytes fuel (tl polls) cur envs total_bytes last_off (hd polls b1)
             else Some (Inr (envs, last_off), b1))
          else if envs \<noteq> [] then Some (Inr (envs, last_off), b1)
          else Some (Inl e, b1)
      | (Inr (m, next_off), b1) \<Rightarrow>
          fetch_loop S env name i maxBytes minBytes fuel polls next_off (envs @ [envelope m next_off])
            (total_bytes + message_bytes m) next_off b1)"

definition fetch_limit :: "config \<Rightarrow> int \<Rightarrow> int" where
  "fetch_limit cfg requested =
     (let maxBytes = (if requested \<le> 0 then MaxFetchBytes cfg else requested)
      in if MaxFetchBytes cfg > 0 \<and> maxBytes > MaxFetchBytes cfg then MaxFetchBytes cfg else maxBytes)"

definition serverConsume :: "('w, 's) sched_ops \<Rightarrow> 'd kv_ops \<Rightarrow> env \<Rightarrow> nat \<Rightarrow>
    (('w, 'd, 'b, 's) broker \<Rightarrow> ('w, 'd, 'b, 's) broker) list \<Rightarrow> consume_request \<Rightarrow> ('w, 'd, 'b, 's) broker \<Rightarrow>
    ((err + message_envelope list) \<times> ('w, 'd, 'b, 's) broker) option" where
  "serverConsume S K env fuel polls req b =
     (let part = sint (crPartition req);
          maxBytes = fetch_limit (snapCfg b) (sint (crMaxBytes req));
          cur = (case LoadOffset (crGroup req) (crTopic req) part b of (_, Some _) \<Rightarrow> 1 | (off, None) \<Rightarrow> off)
      in case fetch_loop S env (crTopic req) part maxBytes (FetchMinBytes (snapCfg b)) fuel polls cur [] 0 (- 1) b of
           None \<Rightarrow> None
         | Some (Inl e, b1) \<Rightarrow> Some (Inl e, b1)
         | Some (Inr (envs, last_off), b1) \<Rightarrow>
             Some (Inr envs,
               if sint last_off \<ge> 0 then snd (brokerCommit K (clock env) (crGroup req) (crTopic req) part last_off b1) else b1))"

definition serverCommit :: "'d kv_ops \<Rightarrow> gotime \<Rightarrow> commit_request \<Rightarrow> ('w, 'd, 'b, 's) broker \<Rightarrow>
    err option \<times> ('w, 'd, 'b, 's) broker" where
  "serverCommit K now req b = brokerCommit K now (cmGroup req) (cmTopic req) (sint (cmPartition req)) (cmOffset req) b"

subsection \<open>Topics and metrics\<close>

definition wire_topic_config :: "create_topic_request \<Rightarrow> topic_config" where
  "wire_topic_config req =
     (let cfg = DefaultTopicConfig\<lparr>cfgNumPartitions := sint (ctNumPartitions req)\<rparr>
      in case ctScheduleConfig req of
           None \<Rightarrow> cfg
         | Some sc \<Rightarrow>
             (let cfg1 = cfg\<lparr>ScheduleMode :=
                    (if scMode sc = ScheduleMode_STRICT_PRIORITY then ModeStrictPriority
                     else if scMode sc = ScheduleMode_DQN_ADAPTIVE then ModeDQNAdaptive else ModeFIFO)\<rparr>;
                  cfg2 = (if sint (scPriorityLevels sc) > 0
                          then cfg1\<lparr>PriorityLevels := sint (scPriorityLevels sc)\<rparr> else cfg1);
                  cfg3 = (if sint (scAntiStarvationMs sc) > 0
                          then cfg2\<lparr>AntiStarvationTTL := sint (scAntiStarvationMs sc * word_of_int millisecond)\<rparr> else cfg2)
              in if flt (Fin 0) (scDqnThrottleOnLoad sc)
                 then cfg3\<lparr>DQNThrottleOnLoad := scDqnThrottleOnLoad sc\<rparr> else cfg3))"

definition serverCreateTopic :: "'w wal_ops \<Rightarrow> (string \<times> string \<times> int \<Rightarrow> bool \<Rightarrow> err + 'w) \<Rightarrow>
    create_topic_request \<Rightarrow> ('w, 'd, 'b, 's) broker \<Rightarrow> rpc_error option \<times> ('w, 'd, 'b, 's) broker" where
  "serverCreateTopic W walOpen req b =
     (case CreateTopic W walOpen (ctTopic req) (wire_topic_config req) b of
        (e, b') \<Rightarrow> (map_option mapBrokerError e, b'))"

definition serverDeleteTopic :: "'w wal_ops \<Rightarrow> 'd kv_ops \<Rightarrow> err option \<Rightarrow> string \<Rightarrow> ('w, 'd, 'b, 's) broker \<Rightarrow>
    rpc_error option \<times> ('w, 'd, 'b, 's) broker" where
  "serverDeleteTopic W K removeAllErr name b =
     (case DeleteTopic W K removeAllErr name b of (e, b') \<Rightarrow> (map_option mapBrokerError e, b'))"

definition wire_mode :: "int \<Rightarrow> int" where
  "wire_mode m =
     (if m = ModeStrictPriority then ScheduleMode_STRICT_PRIORITY
      else if m = ModeDQNAdaptive then ScheduleMode_DQN_ADAPTIVE else ScheduleMode_FIFO)"

definition serverListTopics :: "('w, 'd, 'b, 's) broker \<Rightarrow> topic_info list" where
  "serverListTopics b =
     map (\<lambda>t. \<lparr>tiTopic = Name t, tiNumPartitions = word_of_int (NumPartitions t),
               tiMode = wire_mode (ScheduleMode (tconfig t))\<rparr>) (ListTopics b)"

definition serverGetMetrics :: "('w, 'd, 'b, 's) broker \<Rightarrow> metrics_response" where
  "serverGetMetrics b =
     (let m = Snapshot (bmetrics b)
      in \<lparr>mrThroughput = Throughput (business m), mrAvgLatency = AvgLatency (business m),
          mrPartitionLoads = PartitionLoads (derived m), mrSuccessRate = DeliveryRatio (business m),
          mrQueueDepth = map word_of_int (mQueueDepth (derived m)), mrLoadStddev = LoadStdDev (derived m),
          mrMsgRate = MsgRate (business m), mrAvgMsgSize = AvgMsgSize (business m),
          mrPredictedLoads = PredictedLoads (derived m)\<rparr>)"

subsection \<open>What a fetch returns\<close>

text \<open>
  How many messages a fetch takes: it goes on while the bytes taken so far are below the limit, so the
  message that reaches the limit is still included.
\<close>

fun fetch_count :: "int \<Rightarrow> int list \<Rightarrow> nat" where
  "fetch_count budget [] = 0"
| "fetch_count budget (n # ns) = (if budget \<le> 0 then 0 else Suc (fetch_count (budget - n) ns))"

definition delivered_at :: "'w wal_ops \<Rightarrow> codec \<Rightarrow> 'w partition \<Rightarrow> nat \<Rightarrow> message" where
  "delivered_at W c p j = projr (delivered W c p j)"

definition envelope_at :: "'w wal_ops \<Rightarrow> codec \<Rightarrow> 'w partition \<Rightarrow> nat \<Rightarrow> message_envelope" where
  "envelope_at W c p j = (envelope (delivered_at W c p j) 0)\<lparr>envOffset := word_of_nat j\<rparr>"

lemma envelope_at: "envelope (delivered_at W c p k) (word_of_nat (Suc k)) = envelope_at W c p k"
  by (simp add: envelope_at_def envelope_def)

lemma sint_nonneg_u64: "n < 2 ^ 63 \<Longrightarrow> 0 \<le> sint (word_of_nat n :: i64)"
proof -
  assume "n < 2 ^ 63"
  then have "signed_take_bit (LENGTH(64) - 1) (int n) = int n"
    by (intro signed_take_bit_int_eq_self) simp_all
  then have "sint (word_of_int (int n) :: i64) = int n" by (simp only: sint_sbintrunc')
  then show ?thesis by simp
qed

lemma fetch_count_le: "fetch_count budget ns \<le> length ns"
  by (induction budget ns rule: fetch_count.induct) simp_all

lemma fetch_loop_fifo:
  assumes laws: "wal_laws W winv view" and ok: "part_ok winv view p"
  shows "serves b name i p \<Longrightarrow> deliverable W view (snapCodec b) p \<Longrightarrow> fst (view (plog p)) \<le> k \<Longrightarrow>
    k \<le> wal_end (view (plog p)) \<Longrightarrow> \<forall>f \<in> set polls. f = id \<Longrightarrow> fuel > wal_end (view (plog p)) - k + length polls \<Longrightarrow>
    n = fetch_count (mx - tot) (map (\<lambda>j. message_bytes (delivered_at W (snapCodec b) p j)) [k..<wal_end (view (plog p))]) \<Longrightarrow>
    \<exists>mc. fetch_loop (FIFO W) env name i mx mn fuel polls (word_of_nat k) acc tot lst b =
      Some (Inr (acc @ map (envelope_at W (snapCodec b) p) [k..<k + n], if n = 0 then lst else word_of_nat (k + n)),
        b\<lparr>bmetrics := mc\<rparr>)"
proof (induction fuel arbitrary: polls k acc tot lst b n)
  case (Suc fuel)
  let ?e = "wal_end (view (plog p))" and ?c = "snapCodec b"
  show ?case
  proof (cases "tot < mx")
    case False
    then have "n = 0" using Suc.prems(7) by (cases "[k..<?e]") simp_all
    with False show ?thesis by (auto intro: exI [of _ "bmetrics b"])
  next
    case more: True
    show ?thesis
    proof (cases "k < ?e")
      case True
      let ?m = "delivered_at W ?c p k" and ?b = "b\<lparr>bmetrics := RecordConsume (nat i) (bmetrics b)\<rparr>"
      define n' where "n' = fetch_count (mx - (tot + message_bytes ?m))
        (map (\<lambda>j. message_bytes (delivered_at W ?c p j)) [k + 1..<?e])"
      have n: "n = Suc n'" using Suc.prems(7) more True by (simp add: n'_def upt_conv_Cons algebra_simps)
      have "\<exists>mc. fetch_loop (FIFO W) env name i mx mn fuel polls (word_of_nat (k + 1)) (acc @ [envelope_at W ?c p k])
          (tot + message_bytes ?m) (word_of_nat (k + 1)) ?b =
        Some (Inr ((acc @ [envelope_at W ?c p k]) @ map (envelope_at W (snapCodec ?b) p) [k + 1..<k + 1 + n'],
          if n' = 0 then word_of_nat (k + 1) else word_of_nat (k + 1 + n')), ?b\<lparr>bmetrics := mc\<rparr>)"
        by (rule Suc.IH) (use Suc.prems True in \<open>simp_all add: n'_def\<close>)
      then obtain mc where rest: "fetch_loop (FIFO W) env name i mx mn fuel polls (word_of_nat (k + 1))
          (acc @ [envelope_at W ?c p k]) (tot + message_bytes ?m) (word_of_nat (k + 1)) ?b =
        Some (Inr (acc @ envelope_at W ?c p k # map (envelope_at W ?c p) [k + 1..<k + 1 + n'], word_of_nat (k + 1 + n')),
          b\<lparr>bmetrics := mc\<rparr>)"
        by (auto split: if_splits)
      have "ConsumeFrom (FIFO W) env name i (word_of_nat k) b = (Inr (?m, word_of_nat (k + 1)), ?b)"
        using consume_one [OF laws ok Suc.prems(1,2,3) True] by (simp add: delivered_at_def)
      then have "fetch_loop (FIFO W) env name i mx mn (Suc fuel) polls (word_of_nat k) acc tot lst b =
          Some (Inr (acc @ envelope_at W ?c p k # map (envelope_at W ?c p) [k + 1..<k + 1 + n'], word_of_nat (k + 1 + n')),
          b\<lparr>bmetrics := mc\<rparr>)"
        using more rest by (simp add: envelope_at del: of_nat_add of_nat_Suc upt_Suc)
      moreover have "[k..<k + n] = k # [k + 1..<k + 1 + n']" by (simp add: n upt_conv_Cons del: upt_Suc)
      ultimately show ?thesis by (auto simp: n intro!: exI [of _ mc] simp del: upt_Suc)
    next
      case False
      then have k: "k = ?e" using Suc.prems(4) by simp
      have no: "ConsumeFrom (FIFO W) env name i (word_of_nat k) b = (Inl ErrNoMessages, b)"
        unfolding k by (rule consume_end [OF laws ok Suc.prems(1)])
      have n: "n = 0" using Suc.prems(7) k by simp
      show ?thesis
      proof (cases polls)
        case Nil
        then show ?thesis using no more n by (auto intro: exI [of _ "bmetrics b"])
      next
        case (Cons f fs)
        then have "f = id" "\<forall>f \<in> set fs. f = id" using Suc.prems(5) by (auto simp only: list.set insert_iff ball_simps)
        moreover have "\<exists>mc. fetch_loop (FIFO W) env name i mx mn fuel fs (word_of_nat k) acc tot lst b =
          Some (Inr (acc @ map (envelope_at W ?c p) [k..<k + n], if n = 0 then lst else word_of_nat (k + n)), b\<lparr>bmetrics := mc\<rparr>)"
          by (rule Suc.IH) (use Suc.prems Cons in simp_all)
        ultimately show ?thesis using no more n Cons by (auto intro: exI [of _ "bmetrics b"])
      qed
    qed
  qed
qed simp



end
