(* ===== verification/Client.thy ===== *)
theory Client
  imports Transport "HOL-Library.Multiset"
begin

text \<open>
  The gRPC client and the buffered producer, \<^verbatim>\<open>pkg/transport/client.go\<close>. A call of the generated stub is
  the parameter \<open>call\<close>: a function of the request and the state of the rest of the world. Waiting
  between two attempts has no effect but the passing of time; whether the context ends during the
  wait is an argument.

  The buffered producer holds its mutex while it takes messages in and cuts batches, and sends a batch
  after releasing it. The locked sections are therefore the operations of the model, each
  answering what has to be sent; \<^verbatim>\<open>Send\<close>, \<^verbatim>\<open>Flush\<close> and \<^verbatim>\<open>Close\<close> put them together for one caller, and a step
  relation interleaves the locked sections of any number of callers and of the linger timer with
  the completion of the batches under way.
\<close>

subsection \<open>Retrying\<close>

datatype client_error =
    CallFailed rpc_error
  | BrokerError err rpc_error
  | RetriesExhausted "rpc_error option"
  | ContextDone
  | ProducerClosed
  | ErrBufferMemoryExceeded

definition produceMaxRetries :: nat where "produceMaxRetries = 3"

fun produce_attempts :: "(produce_request \<Rightarrow> 'st \<Rightarrow> (rpc_error + produce_response) \<times> 'st) \<Rightarrow> (nat \<Rightarrow> bool) \<Rightarrow>
    produce_request \<Rightarrow> nat \<Rightarrow> rpc_error option \<Rightarrow> 'st \<Rightarrow> (client_error + produce_response) \<times> 'st" where
  "produce_attempts call ctxDone req 0 lastErr st = (Inl (RetriesExhausted lastErr), st)"
| "produce_attempts call ctxDone req (Suc n) lastErr st =
     (case call req st of
        (Inr resp, st') \<Rightarrow> (Inr resp, st')
      | (Inl e, st') \<Rightarrow>
          if status_code e \<noteq> ResourceExhausted then (Inl (CallFailed e), st')
          else if ctxDone n then (Inl ContextDone, st')
          else produce_attempts call ctxDone req n (Some e) st')"

definition clientProduce :: "(produce_request \<Rightarrow> 'st \<Rightarrow> (rpc_error + produce_response) \<times> 'st) \<Rightarrow> (nat \<Rightarrow> bool) \<Rightarrow>
    string \<Rightarrow> bytes \<Rightarrow> bytes \<Rightarrow> u32 \<Rightarrow> 'st \<Rightarrow> (client_error + i32 \<times> i64) \<times> 'st" where
  "clientProduce call ctxDone topic key val prio st =
     (case produce_attempts call ctxDone
         \<lparr>prTopic = topic, prKey = key, prValue = val, prPriority = prio, prMessages = []\<rparr> produceMaxRetries None st of
        (Inl e, st') \<Rightarrow> (Inl e, st')
      | (Inr resp, st') \<Rightarrow> (Inr (respPartition resp, respOffset resp), st'))"

definition clientProduceBatch :: "(produce_request \<Rightarrow> 'st \<Rightarrow> (rpc_error + produce_response) \<times> 'st) \<Rightarrow> (nat \<Rightarrow> bool) \<Rightarrow>
    string \<Rightarrow> produce_message list \<Rightarrow> 'st \<Rightarrow> (client_error + produce_result list) \<times> 'st" where
  "clientProduceBatch call ctxDone topic msgs st =
     (case produce_attempts call ctxDone
         \<lparr>prTopic = topic, prKey = [], prValue = [], prPriority = 0, prMessages = msgs\<rparr> produceMaxRetries None st of
        (Inl e, st') \<Rightarrow> (Inl e, st')
      | (Inr resp, st') \<Rightarrow> (Inr (respResults resp), st'))"

subsection \<open>The other calls\<close>

definition clientConsume :: "(consume_request \<Rightarrow> 'st \<Rightarrow> (rpc_error + message_envelope list) \<times> 'st) \<Rightarrow>
    string \<Rightarrow> string \<Rightarrow> i32 \<Rightarrow> i32 \<Rightarrow> 'st \<Rightarrow> (client_error + message_envelope list) \<times> 'st" where
  "clientConsume call topic grp part maxBytes st =
     (case call \<lparr>crTopic = topic, crGroup = grp, crPartition = part, crMaxBytes = maxBytes\<rparr> st of
        (Inl e, st') \<Rightarrow> (Inl (CallFailed e), st')
      | (Inr envs, st') \<Rightarrow> (Inr envs, st'))"

definition clientCommit :: "(commit_request \<Rightarrow> 'st \<Rightarrow> rpc_error option \<times> 'st) \<Rightarrow>
    string \<Rightarrow> string \<Rightarrow> i32 \<Rightarrow> i64 \<Rightarrow> 'st \<Rightarrow> client_error option \<times> 'st" where
  "clientCommit call topic grp part off st =
     (case call \<lparr>cmTopic = topic, cmGroup = grp, cmPartition = part, cmOffset = off\<rparr> st of
        (e, st') \<Rightarrow> (map_option CallFailed e, st'))"

definition joined_error :: "rpc_error \<Rightarrow> client_error" where
  "joined_error e = (case mapClientError e of Some be \<Rightarrow> BrokerError be e | None \<Rightarrow> CallFailed e)"

definition clientCreateTopic :: "(create_topic_request \<Rightarrow> 'st \<Rightarrow> rpc_error option \<times> 'st) \<Rightarrow>
    string \<Rightarrow> i32 \<Rightarrow> int \<Rightarrow> 'st \<Rightarrow> client_error option \<times> 'st" where
  "clientCreateTopic call topic numPartitions mode st =
     (case call \<lparr>ctTopic = topic, ctNumPartitions = numPartitions,
            ctScheduleConfig = Some \<lparr>scMode = mode, scPriorityLevels = 0, scAntiStarvationMs = 0, scDqnThrottleOnLoad = Fin 0\<rparr>\<rparr> st of
        (e, st') \<Rightarrow> (map_option joined_error e, st'))"

definition clientDeleteTopic :: "(string \<Rightarrow> 'st \<Rightarrow> rpc_error option \<times> 'st) \<Rightarrow> string \<Rightarrow> 'st \<Rightarrow> client_error option \<times> 'st" where
  "clientDeleteTopic call topic st = (case call topic st of (e, st') \<Rightarrow> (map_option joined_error e, st'))"

text \<open>The broker's own errors for an unknown and for a duplicate topic survive the way through the wire codes.\<close>

lemma joined_error_mapBrokerError:
  "joined_error (mapBrokerError e) = BrokerError be r \<longleftrightarrow>
     be = e \<and> r = mapBrokerError e \<and> (e = ErrTopicAlreadyExists \<or> e = ErrTopicNotFound)"
  by (auto simp: joined_error_def mapClientError_def mapBrokerError_def)

lemma clientDeleteTopic_unknown:
  assumes "map_of (topics b) t = None"
  shows "clientDeleteTopic (serverDeleteTopic W K re) t b = (Some (BrokerError ErrTopicNotFound (Failed NotFound ErrTopicNotFound)), b)"
  using assms
  by (simp add: clientDeleteTopic_def serverDeleteTopic_def DeleteTopic_def joined_error_def mapClientError_def mapBrokerError_def)

lemma clientCreateTopic_exists:
  assumes "map_of (topics b) t = Some x"
  shows "\<exists>e. clientCreateTopic (serverCreateTopic W op) t n mode b = (Some e, b)"
  using assms
  by (auto simp: clientCreateTopic_def serverCreateTopic_def CreateTopic_def Let_def split: sum.split prod.split)

subsection \<open>The buffered producer\<close>

record buffered_producer =
  bpTopic :: string
  bpBatchSize :: int
  bpMaxMemory :: int
  bpLinger :: int
  bpBuf :: "produce_message list"
  bufBytes :: int
  bpTimer :: bool
  asyncErr :: "client_error option"
  bpStopped :: bool

definition NewBufferedProducer :: "string \<Rightarrow> int \<Rightarrow> int \<Rightarrow> (buffered_producer \<Rightarrow> buffered_producer) list \<Rightarrow> buffered_producer" where
  "NewBufferedProducer topic batchSize linger opts =
     foldl (\<lambda>p f. f p)
       \<lparr>bpTopic = topic, bpBatchSize = batchSize, bpMaxMemory = 0, bpLinger = linger, bpBuf = [], bufBytes = 0,
        bpTimer = False, asyncErr = None, bpStopped = False\<rparr> opts"

definition WithMaxMemoryBytes :: "int \<Rightarrow> buffered_producer \<Rightarrow> buffered_producer" where
  "WithMaxMemoryBytes n p = p\<lparr>bpMaxMemory := n\<rparr>"

text \<open>What a locked section leaves to do: answer, or send a batch and answer, or send a batch and start over.\<close>

datatype outcome =
    Answer "client_error option"
  | Ship "produce_message list"
  | ShipThenRetry "produce_message list"

definition produce_bytes :: "produce_message \<Rightarrow> int" where
  "produce_bytes m = int (length (pmKey m) + length (pmValue m))"

definition cut_batch :: "buffered_producer \<Rightarrow> buffered_producer" where
  "cut_batch p = p\<lparr>bpBuf := [], bufBytes := 0, bpTimer := False\<rparr>"

definition send_locked :: "produce_message \<Rightarrow> buffered_producer \<Rightarrow> outcome \<times> buffered_producer" where
  "send_locked m p =
     (if bpStopped p then (Answer (Some ProducerClosed), p)
      else case asyncErr p of
        Some e \<Rightarrow> (Answer (Some e), p\<lparr>asyncErr := None\<rparr>)
      | None \<Rightarrow>
          if bpMaxMemory p > 0 \<and> bufBytes p + produce_bytes m > bpMaxMemory p \<and> bpBuf p \<noteq> []
          then (ShipThenRetry (bpBuf p), cut_batch p)
          else if bpMaxMemory p > 0 \<and> produce_bytes m > bpMaxMemory p
          then (Answer (Some ErrBufferMemoryExceeded), p)
          else (let p1 = p\<lparr>bpBuf := bpBuf p @ [m], bufBytes := bufBytes p + produce_bytes m\<rparr>
                in if int (length (bpBuf p1)) \<ge> bpBatchSize p1 \<or> bpMaxMemory p1 > 0 \<and> bufBytes p1 \<ge> bpMaxMemory p1
                   then (Ship (bpBuf p1), cut_batch p1)
                   else (Answer None, if \<not> bpTimer p1 \<and> bpLinger p1 > 0 then p1\<lparr>bpTimer := True\<rparr> else p1)))"

definition flush_locked :: "buffered_producer \<Rightarrow> outcome \<times> buffered_producer" where
  "flush_locked p = (if bpBuf p = [] then (Answer None, p) else (Ship (bpBuf p), cut_batch p))"

definition close_locked :: "buffered_producer \<Rightarrow> outcome \<times> buffered_producer" where
  "close_locked p =
     (if bpStopped p then (Answer None, p)
      else (if bpBuf p = [] then Answer None else Ship (bpBuf p), cut_batch (p\<lparr>bpStopped := True\<rparr>)))"

definition timer_error :: "client_error \<Rightarrow> buffered_producer \<Rightarrow> buffered_producer" where
  "timer_error e p = (if asyncErr p = None then p\<lparr>asyncErr := Some e\<rparr> else p)"

definition bp_send :: "(produce_request \<Rightarrow> 'st \<Rightarrow> (rpc_error + produce_response) \<times> 'st) \<Rightarrow> (nat \<Rightarrow> bool) \<Rightarrow>
    string \<Rightarrow> produce_message list \<Rightarrow> 'st \<Rightarrow> client_error option \<times> 'st" where
  "bp_send call ctxDone topic batch st =
     (case clientProduceBatch call ctxDone topic batch st of (Inl e, st') \<Rightarrow> (Some e, st') | (Inr _, st') \<Rightarrow> (None, st'))"

text \<open>\<^verbatim>\<open>Send\<close> calls itself after it has made room; the buffer is empty then.\<close>

function Send :: "(produce_request \<Rightarrow> 'st \<Rightarrow> (rpc_error + produce_response) \<times> 'st) \<Rightarrow> (nat \<Rightarrow> bool) \<Rightarrow>
    produce_message \<Rightarrow> buffered_producer \<Rightarrow> 'st \<Rightarrow> client_error option \<times> buffered_producer \<times> 'st" where
  "Send call ctxDone m p st =
     (case send_locked m p of
        (Answer e, p') \<Rightarrow> (e, p', st)
      | (Ship batch, p') \<Rightarrow> (case bp_send call ctxDone (bpTopic p) batch st of (e, st') \<Rightarrow> (e, p', st'))
      | (ShipThenRetry batch, p') \<Rightarrow>
          (case bp_send call ctxDone (bpTopic p) batch st of
             (Some e, st') \<Rightarrow> (Some e, p', st')
           | (None, st') \<Rightarrow> Send call ctxDone m p' st'))"
  by pat_completeness auto
termination
  by (relation "measure (\<lambda>(_, _, _, p, _). length (bpBuf p))")
    (auto simp: send_locked_def cut_batch_def Let_def split: if_splits option.splits)

definition Flush :: "(produce_request \<Rightarrow> 'st \<Rightarrow> (rpc_error + produce_response) \<times> 'st) \<Rightarrow> (nat \<Rightarrow> bool) \<Rightarrow>
    buffered_producer \<Rightarrow> 'st \<Rightarrow> client_error option \<times> buffered_producer \<times> 'st" where
  "Flush call ctxDone p st =
     (case flush_locked p of
        (Ship batch, p') \<Rightarrow> (case bp_send call ctxDone (bpTopic p) batch st of (e, st') \<Rightarrow> (e, p', st'))
      | (_, p') \<Rightarrow> (None, p', st))"

definition flushFromTimer :: "(produce_request \<Rightarrow> 'st \<Rightarrow> (rpc_error + produce_response) \<times> 'st) \<Rightarrow> (nat \<Rightarrow> bool) \<Rightarrow>
    buffered_producer \<Rightarrow> 'st \<Rightarrow> buffered_producer \<times> 'st" where
  "flushFromTimer call ctxDone p st =
     (case Flush call ctxDone p st of
        (Some e, p', st') \<Rightarrow> (timer_error e p', st')
      | (None, p', st') \<Rightarrow> (p', st'))"

definition CloseProducer :: "(produce_request \<Rightarrow> 'st \<Rightarrow> (rpc_error + produce_response) \<times> 'st) \<Rightarrow> (nat \<Rightarrow> bool) \<Rightarrow>
    buffered_producer \<Rightarrow> 'st \<Rightarrow> client_error option \<times> buffered_producer \<times> 'st" where
  "CloseProducer call ctxDone p st =
     (case close_locked p of
        (Ship batch, p') \<Rightarrow> (case bp_send call ctxDone (bpTopic p) batch st of (e, st') \<Rightarrow> (e, p', st'))
      | (_, p') \<Rightarrow> (None, p', st))"

subsection \<open>No message is lost or sent twice\<close>

text \<open>
  The world of a producer: the batches being sent, the batches the service has taken and those whose
  sending failed. \<^verbatim>\<open>accepted\<close> lists, in order, the messages that a \<^verbatim>\<open>Send\<close> has put into the buffer.
\<close>

record producer_world =
  producer :: buffered_producer
  inflight_batches :: "produce_message list list"
  taken :: "produce_message list list"
  failed :: "produce_message list list"
  accepted :: "produce_message list"

fun shipped :: "outcome \<Rightarrow> produce_message list list" where
  "shipped (Answer _) = []"
| "shipped (Ship b) = [b]"
| "shipped (ShipThenRetry b) = [b]"

fun accepts :: "outcome \<Rightarrow> bool" where
  "accepts (Answer e) \<longleftrightarrow> e = None"
| "accepts (Ship _) \<longleftrightarrow> True"
| "accepts (ShipThenRetry _) \<longleftrightarrow> False"

definition start_world :: "buffered_producer \<Rightarrow> producer_world" where
  "start_world p = \<lparr>producer = p, inflight_batches = [], taken = [], failed = [], accepted = []\<rparr>"

text \<open>
  The locked sections of all callers and the ends of the calls under way, in any order. A failed call is
  reported to the caller, or, if the timer started it, kept for the next \<^verbatim>\<open>Send\<close>.
\<close>

inductive producer_step :: "producer_world \<Rightarrow> producer_world \<Rightarrow> bool" where
  send: "send_locked m (producer w) = (o', p') \<Longrightarrow>
    producer_step w (w\<lparr>producer := p', inflight_batches := inflight_batches w @ shipped o',
      accepted := accepted w @ (if accepts o' then [m] else [])\<rparr>)"
| flush: "flush_locked (producer w) = (o', p') \<Longrightarrow>
    producer_step w (w\<lparr>producer := p', inflight_batches := inflight_batches w @ shipped o'\<rparr>)"
| close: "close_locked (producer w) = (o', p') \<Longrightarrow>
    producer_step w (w\<lparr>producer := p', inflight_batches := inflight_batches w @ shipped o'\<rparr>)"
| took: "inflight_batches w = xs @ b # ys \<Longrightarrow>
    producer_step w (w\<lparr>inflight_batches := xs @ ys, taken := taken w @ [b]\<rparr>)"
| fails: "inflight_batches w = xs @ b # ys \<Longrightarrow>
    producer_step w (w\<lparr>inflight_batches := xs @ ys, failed := failed w @ [b]\<rparr>)"
| timer_fails: "inflight_batches w = xs @ b # ys \<Longrightarrow>
    producer_step w (w\<lparr>inflight_batches := xs @ ys, failed := failed w @ [b], producer := timer_error e (producer w)\<rparr>)"

definition all_bytes :: "produce_message list \<Rightarrow> int" where
  "all_bytes ms = sum_list (map produce_bytes ms)"

definition batch_fits :: "buffered_producer \<Rightarrow> produce_message list \<Rightarrow> bool" where
  "batch_fits p b \<longleftrightarrow> b \<noteq> [] \<and> int (length b) \<le> max 1 (bpBatchSize p) \<and> (bpMaxMemory p > 0 \<longrightarrow> all_bytes b \<le> bpMaxMemory p)"

text \<open>The buffer is below both limits, its byte count is right, and a message in it has its timer running.\<close>

definition producer_ok :: "buffered_producer \<Rightarrow> bool" where
  "producer_ok p \<longleftrightarrow> bufBytes p = all_bytes (bpBuf p) \<and>
     (bpBuf p \<noteq> [] \<longrightarrow> int (length (bpBuf p)) < bpBatchSize p \<and> (bpMaxMemory p > 0 \<longrightarrow> bufBytes p < bpMaxMemory p)) \<and>
     (bpLinger p > 0 \<longrightarrow> (bpTimer p \<longleftrightarrow> bpBuf p \<noteq> []))"

definition world_ok :: "producer_world \<Rightarrow> bool" where
  "world_ok w \<longleftrightarrow> producer_ok (producer w) \<and>
     (\<forall>b \<in> set (inflight_batches w @ taken w @ failed w). batch_fits (producer w) b) \<and>
     mset (accepted w) = mset (bpBuf (producer w)) + mset (concat (inflight_batches w)) +
       mset (concat (taken w)) + mset (concat (failed w))"

lemma all_bytes_simps [simp]:
  "all_bytes [] = 0" "all_bytes (m # ms) = produce_bytes m + all_bytes ms" "all_bytes (ms @ [m]) = all_bytes ms + produce_bytes m"
  by (simp_all add: all_bytes_def)

lemma cut_batch_simps [simp]:
  "bpBuf (cut_batch p) = []" "bufBytes (cut_batch p) = 0" "bpTimer (cut_batch p) = False"
  "bpBatchSize (cut_batch p) = bpBatchSize p" "bpMaxMemory (cut_batch p) = bpMaxMemory p"
  "bpLinger (cut_batch p) = bpLinger p"
  by (simp_all add: cut_batch_def)

text \<open>The limits never change, and what a locked section ships and keeps is what it had.\<close>

definition same_limits :: "buffered_producer \<Rightarrow> buffered_producer \<Rightarrow> bool" where
  "same_limits p p' \<longleftrightarrow> bpBatchSize p' = bpBatchSize p \<and> bpMaxMemory p' = bpMaxMemory p"

lemma batch_fits_same: "same_limits p p' \<Longrightarrow> batch_fits p' b = batch_fits p b"
  by (simp add: same_limits_def batch_fits_def)

definition put_message :: "produce_message \<Rightarrow> buffered_producer \<Rightarrow> buffered_producer" where
  "put_message m p = p\<lparr>bpBuf := bpBuf p @ [m], bufBytes := bufBytes p + produce_bytes m\<rparr>"

lemma put_message_simps [simp]:
  "bpBuf (put_message m p) = bpBuf p @ [m]" "bufBytes (put_message m p) = bufBytes p + produce_bytes m"
  "bpTimer (put_message m p) = bpTimer p" "bpBatchSize (put_message m p) = bpBatchSize p"
  "bpMaxMemory (put_message m p) = bpMaxMemory p" "bpLinger (put_message m p) = bpLinger p"
  by (simp_all add: put_message_def)

lemma send_locked_cases:
  assumes "send_locked m p = (o', p')"
  obtains e where "o' = Answer (Some e)" and "p' = p \<or> p' = p\<lparr>asyncErr := None\<rparr>"
  | "o' = ShipThenRetry (bpBuf p)" and "bpBuf p \<noteq> []" and "p' = cut_batch p"
  | "bpMaxMemory p > 0 \<longrightarrow> (bpBuf p \<noteq> [] \<longrightarrow> bufBytes p + produce_bytes m \<le> bpMaxMemory p) \<and> produce_bytes m \<le> bpMaxMemory p"
    and "o' = Ship (bpBuf p @ [m])" and "p' = cut_batch (put_message m p)"
  | "int (length (bpBuf p)) + 1 < bpBatchSize p" and "bpMaxMemory p > 0 \<longrightarrow> bufBytes p + produce_bytes m < bpMaxMemory p"
    and "o' = Answer None"
    and "p' = (if \<not> bpTimer p \<and> bpLinger p > 0 then (put_message m p)\<lparr>bpTimer := True\<rparr> else put_message m p)"
proof -
  consider (stop) "bpStopped p" | (err) e where "\<not> bpStopped p" "asyncErr p = Some e" | (go) "\<not> bpStopped p" "asyncErr p = None"
    by (cases "asyncErr p") auto
  then show thesis
  proof cases
    case stop
    then show ?thesis using assms that(1) [of ProducerClosed] by (simp add: send_locked_def)
  next
    case (err e)
    then show ?thesis using assms that(1) [of e] by (simp add: send_locked_def)
  next
    case go
    note d = assms [unfolded send_locked_def if_not_P [OF go(1)] go(2) option.case]
    show ?thesis
    proof (cases "bpMaxMemory p > 0 \<and> bufBytes p + produce_bytes m > bpMaxMemory p \<and> bpBuf p \<noteq> []")
      case True
      then show ?thesis using d that(2) by simp
    next
      case np: False
      show ?thesis
      proof (cases "bpMaxMemory p > 0 \<and> produce_bytes m > bpMaxMemory p")
        case True
        with d [unfolded if_not_P [OF np]] show ?thesis by (intro that(1) [of ErrBufferMemoryExceeded]) simp_all
      next
        case False
        note d' = d [unfolded if_not_P [OF np] if_not_P [OF False] put_message_def [symmetric] Let_def]
        show ?thesis
        proof (cases "int (length (bpBuf (put_message m p))) \<ge> bpBatchSize (put_message m p) \<or>
            bpMaxMemory (put_message m p) > 0 \<and> bufBytes (put_message m p) \<ge> bpMaxMemory (put_message m p)")
          case True
          show ?thesis by (rule that(3)) (use d' [unfolded if_P [OF True]] np False in auto)
        next
          case full: False
          show ?thesis by (rule that(4)) (use d' [unfolded if_not_P [OF full]] full in auto)
        qed
      qed
    qed
  qed
qed

lemma send_locked_ok:
  assumes "producer_ok p" and "send_locked m p = (o', p')"
  shows "producer_ok p' \<and> same_limits p p' \<and> (\<forall>b \<in> set (shipped o'). batch_fits p b) \<and>
    bpBuf p @ (if accepts o' then [m] else []) = concat (shipped o') @ bpBuf p'"
  using assms(2)
proof (cases rule: send_locked_cases)
  case (1 e)
  then show ?thesis using assms(1) by (auto simp: producer_ok_def same_limits_def)
next
  case 2
  then show ?thesis using assms(1) by (auto simp: producer_ok_def same_limits_def batch_fits_def)
next
  case 3
  have "int (length (bpBuf p)) + 1 \<le> max 1 (bpBatchSize p)" "bpBuf p = [] \<Longrightarrow> bufBytes p = 0" "bufBytes p = all_bytes (bpBuf p)"
    using assms(1) by (cases "bpBuf p = []"; simp add: producer_ok_def)+
  with 3 show ?thesis by (cases "bpBuf p = []") (simp_all add: producer_ok_def same_limits_def batch_fits_def)
next
  case 4
  then show ?thesis using assms(1) by (auto simp: producer_ok_def same_limits_def)
qed

lemma cut_locked_ok:
  assumes "producer_ok p" and "flush_locked p = (o', p') \<or> close_locked p = (o', p')"
  shows "producer_ok p' \<and> same_limits p p' \<and> (\<forall>b \<in> set (shipped o'). batch_fits p b) \<and>
    bpBuf p = concat (shipped o') @ bpBuf p'"
  using assms
  by (auto simp: flush_locked_def close_locked_def cut_batch_def producer_ok_def same_limits_def batch_fits_def split: if_splits)

lemma producer_step_ok:
  assumes "producer_step w w'" and "world_ok w"
  shows "world_ok w'"
  using assms
proof (induction rule: producer_step.induct)
  case (send m w o' p')
  then have "producer_ok (producer w)" by (simp add: world_ok_def)
  note k = send_locked_ok [OF this send(1)]
  then have "mset (bpBuf (producer w)) + mset (if accepts o' then [m] else []) = mset (concat (shipped o')) + mset (bpBuf p')"
    by (metis mset_append)
  with k send(2) show ?case by (auto simp: world_ok_def batch_fits_same union_ac)
next
  case (flush w o' p')
  then have "producer_ok (producer w)" by (simp add: world_ok_def)
  note k = cut_locked_ok [OF this disjI1 [OF flush(1)]]
  with flush(2) show ?case by (auto simp: world_ok_def batch_fits_same union_ac)
next
  case (close w o' p')
  then have "producer_ok (producer w)" by (simp add: world_ok_def)
  note k = cut_locked_ok [OF this disjI2 [OF close(1)]]
  with close(2) show ?case by (auto simp: world_ok_def batch_fits_same union_ac)
next
  case (timer_fails w xs b ys e)
  have "producer_ok (timer_error e (producer w)) = producer_ok (producer w)"
    "batch_fits (timer_error e (producer w)) = batch_fits (producer w)" "bpBuf (timer_error e (producer w)) = bpBuf (producer w)"
    by (simp_all add: timer_error_def producer_ok_def batch_fits_def fun_eq_iff)
  with timer_fails show ?case by (auto simp: world_ok_def union_ac)
qed (auto simp: world_ok_def union_ac)

text \<open>
  C7: the buffered producer loses nothing and repeats nothing by itself: whatever sends, flushes, timer
  flushes and closes are interleaved with the ends of the calls under way, every message a \<^verbatim>\<open>Send\<close> took in is in
  exactly one place, the buffer, a batch under way, a batch the service took or a batch whose
  call failed; no batch exceeds the batch size or the memory limit, and a message waiting in the
  buffer has its linger timer running. After the close and the end of the last call, the
  messages taken in are exactly those of the batches taken and the batches failed.
\<close>

theorem BufferedProducer_conserves:
  assumes "producer_ok p" and "bpBuf p = []" and "producer_step\<^sup>*\<^sup>* (start_world p) w"
  shows "mset (accepted w) = mset (bpBuf (producer w)) + mset (concat (inflight_batches w)) +
      mset (concat (taken w)) + mset (concat (failed w)) \<and>
    (\<forall>b \<in> set (inflight_batches w @ taken w @ failed w). batch_fits (producer w) b) \<and> producer_ok (producer w)"
proof -
  have "world_ok (start_world p)" using assms(1,2) by (simp add: world_ok_def start_world_def)
  with assms(3) have "world_ok w" by (induction rule: rtranclp_induct) (simp_all add: producer_step_ok)
  then show ?thesis by (simp add: world_ok_def)
qed

definition sampleProducer :: buffered_producer where
  "sampleProducer = NewBufferedProducer ''t'' 2 5 [WithMaxMemoryBytes 100]"

definition samplePM :: "byte \<Rightarrow> produce_message" where
  "samplePM v = \<lparr>pmKey = [1], pmValue = [v], pmPriority = 0\<rparr>"

theorem BufferedProducer_conserves_witness:
  "\<exists>w. producer_step\<^sup>*\<^sup>* (start_world sampleProducer) w \<and> inflight_batches w = [[samplePM 8, samplePM 9]] \<and>
     mset (accepted w) = {#samplePM 8, samplePM 9#} \<and> batch_fits (producer w) [samplePM 8, samplePM 9]"
proof -
  let ?p1 = "snd (send_locked (samplePM 8) sampleProducer)"
  let ?w1 = "(start_world sampleProducer)\<lparr>producer := ?p1, inflight_batches := [], accepted := [samplePM 8]\<rparr>"
  let ?w2 = "?w1\<lparr>producer := cut_batch (put_message (samplePM 9) ?p1),
    inflight_batches := [[samplePM 8, samplePM 9]], accepted := [samplePM 8, samplePM 9]\<rparr>"
  note defs = sampleProducer_def NewBufferedProducer_def WithMaxMemoryBytes_def samplePM_def send_locked_def produce_bytes_def
    cut_batch_def put_message_def start_world_def
  have start: "producer (start_world sampleProducer) = sampleProducer" and start': "producer ?w1 = ?p1"
    by (simp_all add: start_world_def)
  have s1: "send_locked (samplePM 8) (producer (start_world sampleProducer)) = (Answer None, ?p1)"
    unfolding start by (simp add: defs)
  have s2: "send_locked (samplePM 9) (producer ?w1) = (Ship [samplePM 8, samplePM 9], cut_batch (put_message (samplePM 9) ?p1))"
    unfolding start' by (simp add: defs)
  have "producer_step (start_world sampleProducer) ?w1"
    using producer_step.send [OF s1] by (simp add: start_world_def)
  moreover have "producer_step ?w1 ?w2" using producer_step.send [OF s2] by (simp add: start_world_def)
  ultimately have run: "producer_step\<^sup>*\<^sup>* (start_world sampleProducer) ?w2" by (meson r_into_rtranclp rtranclp.rtrancl_into_rtrancl)
  have "producer_ok sampleProducer" "bpBuf sampleProducer = []" by (simp_all add: defs producer_ok_def)
  from BufferedProducer_conserves [OF this run] run show ?thesis by (intro exI [of _ ?w2]) simp
qed

text \<open>
  A failed timer flush loses two sends: the batch of a flush that the timer started and whose call
  failed is dropped, and the error is reported to the next \<^verbatim>\<open>Send\<close>, which returns without having
  buffered its own message either.
\<close>

theorem failed_flush_loses:
  assumes "bpBuf p \<noteq> []" and "\<not> bpStopped p" and "asyncErr p = None"
    and "bp_send call ctxDone (bpTopic p) (bpBuf p) st = (Some e, st')"
    and "flushFromTimer call ctxDone p st = (p', st'')"
  shows "st'' = st' \<and> bpBuf p' = [] \<and> (\<exists>p2. Send call ctxDone m p' st' = (Some e, p2, st') \<and> bpBuf p2 = [] \<and> asyncErr p2 = None)"
proof -
  have p': "p' = (cut_batch p)\<lparr>asyncErr := Some e\<rparr>" "st'' = st'"
    using assms by (simp_all add: flushFromTimer_def Flush_def flush_locked_def timer_error_def cut_batch_def)
  then have "send_locked m p' = (Answer (Some e), p'\<lparr>asyncErr := None\<rparr>)"
    using assms(2) by (simp add: send_locked_def cut_batch_def)
  then show ?thesis by (simp add: p')
qed

theorem failed_flush_loses_witness:
  "\<exists>p2. Send (\<lambda>_ st. (Inl Panicked, st)) (\<lambda>_. False) (samplePM 9)
     (fst (flushFromTimer (\<lambda>_ st. (Inl Panicked, st)) (\<lambda>_. False) (put_message (samplePM 8) sampleProducer) ())) () =
       (Some (CallFailed Panicked), p2, ()) \<and> bpBuf p2 = []"
proof -
  let ?call = "\<lambda>_ st. (Inl Panicked, st) :: (rpc_error + produce_response) \<times> unit" and ?p = "put_message (samplePM 8) sampleProducer"
  have s: "bp_send ?call (\<lambda>_. False) (bpTopic ?p) (bpBuf ?p) () = (Some (CallFailed Panicked), ())"
    by (simp add: bp_send_def clientProduceBatch_def produceMaxRetries_def numeral_3_eq_3)
  have p: "bpBuf ?p \<noteq> []" "\<not> bpStopped ?p" "asyncErr ?p = None"
    by (simp_all add: put_message_def sampleProducer_def NewBufferedProducer_def WithMaxMemoryBytes_def)
  from failed_flush_loses [OF p s, where m = "samplePM 9"] show ?thesis by (metis prod.collapse)
qed

subsection \<open>Retries do not duplicate\<close>

text \<open>A publish that fails on a log that does not leaves every log as it was.\<close>

lemma Publish_error_keeps:
  assumes laws: "wal_laws W winv view" "wal_faultless W winv view" "balancer B bal_ok"
    and ok: "broker_ok winv view bal_ok sched_ok b" and room: "roomy view 1 b"
    and res: "Publish W B io name msg b = (Inl e, b')"
  shows "topics b' = topics b"
proof (cases "\<exists>t bl m. map_of (topics b) name = Some t \<and> rtBalancer b = Some bl \<and>
    \<not> too_large (snapCfg b) msg \<and> compressMessage (snapCodec b) msg = Inr m")
  case True
  then obtain t bl m where d: "map_of (topics b) name = Some t" "rtBalancer b = Some bl"
    "\<not> too_large (snapCfg b) msg" "compressMessage (snapCodec b) msg = Inr m" by blast
  have "wal_end (view (plog p)) + 1 < 2 ^ 64" if "p \<in> set (partitions t)" for p
    using room map_of_SomeD [OF d(1)] that by (auto simp: roomy_def)
  from Publish_outcome [OF laws ok d this] obtain i off p' where
    "fst (check_bp i (rtBackpressure b)) \<Longrightarrow> fst (Publish W B io name msg b) = Inl ErrThrottled \<and> topics (snd (Publish W B io name msg b)) = topics b"
    "\<not> fst (check_bp i (rtBackpressure b)) \<Longrightarrow> fst (Publish W B io name msg b) = Inr (i, off)" by metis
  then show ?thesis using res by (cases "fst (check_bp i (rtBackpressure b))") simp_all
next
  case False
  then have "snd (Publish W B io name msg b) = b"
    by (auto simp: Publish_def split: sum.splits option.splits)
  with res show ?thesis by simp
qed

lemma attempts_once:
  assumes laws: "wal_laws W winv view" "wal_faultless W winv view" "balancer B bal_ok"
    and single: "prMessages req = []"
  shows "broker_ok winv view bal_ok sched_ok b \<Longrightarrow> roomy view 1 b \<Longrightarrow>
    produce_attempts (Produce W B io acquire order now) ctxDone req n lst b = (r, b') \<Longrightarrow>
    (case r of
       Inl _ \<Rightarrow> topics b' = topics b
     | Inr resp \<Rightarrow> \<exists>b1 i off. topics b1 = topics b \<and> broker_ok winv view bal_ok sched_ok b1 \<and>
         Publish W B io (prTopic req) (wire_message now (prKey req) (prValue req) (prPriority req)) b1 = (Inr (i, off), b') \<and>
         respPartition resp = word_of_nat i \<and> respOffset resp = off)"
proof (induction n arbitrary: b lst)
  case (Suc n)
  let ?msg = "wire_message now (prKey req) (prValue req) (prPriority req)"
  obtain r1 b1 where p: "Publish W B io (prTopic req) ?msg b = (r1, b1)" by fastforce
  show ?case
  proof (cases r1)
    case (Inr x)
    obtain i off where x: "x = (i, off)" by (cases x)
    then have "Produce W B io acquire order now req b = (Inr \<lparr>respPartition = word_of_nat i, respOffset = off, respResults = []\<rparr>, b1)"
      using p Inr single by (simp add: Produce_def produceSingle_def)
    then have "r = Inr \<lparr>respPartition = word_of_nat i, respOffset = off, respResults = []\<rparr>" "b' = b1"
      using Suc.prems(3) by simp_all
    then show ?thesis using p Inr x Suc.prems(1) by auto
  next
    case (Inl e)
    have t: "topics b1 = topics b" using Publish_error_keeps [OF laws Suc.prems(1,2)] p Inl by simp
    have ok: "broker_ok winv view bal_ok sched_ok b1" using Publish_ok [OF laws Suc.prems(1,2), of io "prTopic req" ?msg] p by simp
    have room: "roomy view 1 b1" using Suc.prems(2) t by (simp add: roomy_def)
    have c: "Produce W B io acquire order now req b = (Inl (mapBrokerError e), b1)"
      using p Inl single by (simp add: Produce_def produceSingle_def)
    show ?thesis
    proof (cases "status_code (mapBrokerError e) \<noteq> ResourceExhausted \<or> ctxDone n")
      case True
      then show ?thesis using Suc.prems(3) c t by (auto split: if_splits)
    next
      case False
      then have "produce_attempts (Produce W B io acquire order now) ctxDone req n (Some (mapBrokerError e)) b1 = (r, b')"
        using Suc.prems(3) c by simp
      from Suc.IH [OF ok room this] show ?thesis unfolding t .
    qed
  qed
qed auto

lemma clientProduce_result:
  "produce_attempts call ctxDone \<lparr>prTopic = topic, prKey = key, prValue = val, prPriority = prio, prMessages = []\<rparr>
     produceMaxRetries None st = (r0, st') \<Longrightarrow>
   clientProduce call ctxDone topic key val prio st = (map_sum id (\<lambda>resp. (respPartition resp, respOffset resp)) r0, st')"
  by (simp add: clientProduce_def split: sum.split)



end
