(* ===== verification/Http.thy ===== *)
theory Http
  imports Transport
begin

text \<open>
  The HTTP service and its client, \<^verbatim>\<open>pkg/transport/http_server.go\<close> and \<^verbatim>\<open>http_client.go\<close>. A request body that has
  been decoded from JSON, or the decoding error, is an argument of a handler; a response is a status
  code with the value that is encoded as its body. \<^verbatim>\<open>net/http\<close> turns a panic in a handler into an
  aborted connection, written \<^const>\<open>None\<close>. The query parameters are strings read with \<^verbatim>\<open>strconv.Atoi\<close>.
\<close>

subsection \<open>Requests and responses\<close>

record http_record =
  hrKey :: bytes
  hrValue :: bytes
  hrPriority :: u32

record http_result =
  hresPartition :: int
  hresOffset :: i64

record http_envelope =
  heOffset :: i64
  heKey :: bytes
  heValue :: bytes
  hePriority :: u32
  heTimestamp :: i64
  heProduceTime :: i64
  heAppendTime :: i64

record http_commit =
  hcGroup :: string
  hcPartition :: int
  hcOffset :: i64

record http_create_topic =
  hctTopic :: string
  hctNumPartitions :: i32
  hctMode :: string

record http_topic_info =
  htiTopic :: string
  htiNumPartitions :: i32
  htiMode :: string

datatype http_body =
    Results "http_result list"
  | Messages "http_envelope list"
  | Topics "http_topic_info list"
  | MetricsBody metrics
  | ErrorBody err
  | Plain string
  | Empty

type_synonym http_response = "nat \<times> http_body"

definition StatusOK :: nat where "StatusOK = 200"
definition StatusCreated :: nat where "StatusCreated = 201"
definition StatusNoContent :: nat where "StatusNoContent = 204"
definition StatusBadRequest :: nat where "StatusBadRequest = 400"
definition StatusNotFound :: nat where "StatusNotFound = 404"
definition StatusConflict :: nat where "StatusConflict = 409"
definition StatusInternalServerError :: nat where "StatusInternalServerError = 500"
definition StatusServiceUnavailable :: nat where "StatusServiceUnavailable = 503"

subsection \<open>Reading a number\<close>

text \<open>
  \<^verbatim>\<open>strconv.Atoi\<close>: an optional sign and decimal digits; a syntax error gives 0, a value out of range
  the nearest 64-bit integer, both with an error.
\<close>

definition is_digit :: "char \<Rightarrow> bool" where
  "is_digit c \<longleftrightarrow> (48 :: nat) \<le> of_char c \<and> of_char c \<le> (57 :: nat)"

definition Atoi :: "string \<Rightarrow> int \<times> bool" where
  "Atoi s =
     (let (neg, ds) = (case s of [] \<Rightarrow> (False, []) | c # cs \<Rightarrow> if c = CHR ''-'' then (True, cs)
                         else if c = CHR ''+'' then (False, cs) else (False, s))
      in if ds = [] \<or> \<not> list_all is_digit ds then (0, False)
         else let v = (if neg then - int (dec_value ds) else int (dec_value ds))
              in if v > 2 ^ 63 - 1 then (2 ^ 63 - 1, False)
                 else if v < - (2 ^ 63) then (- (2 ^ 63), False) else (v, True))"

subsection \<open>The server\<close>

definition http_admit :: "config \<Rightarrow> nat \<Rightarrow> ('st \<Rightarrow> http_response \<times> 'st) \<Rightarrow> 'st \<Rightarrow> http_response \<times> 'st" where
  "http_admit cfg n handler st =
     (if MaxQueuedRequests cfg > 0 \<and> \<not> int n < MaxQueuedRequests cfg
      then ((StatusServiceUnavailable, Plain ''server overloaded''), st) else handler st)"

definition handleReadyz :: "('w, 'd, 'b, 's) broker \<Rightarrow> http_response" where
  "handleReadyz b =
     (if ListTopics b = [] then (StatusServiceUnavailable, Plain ''no topics loaded'') else (StatusOK, Plain ''ready''))"

fun http_results :: "publish_result list \<Rightarrow> err + http_result list" where
  "http_results [] = Inr []"
| "http_results (r # rs) =
     (case rErr r of
        Some e \<Rightarrow> Inl e
      | None \<Rightarrow> (case http_results rs of
                   Inl e \<Rightarrow> Inl e
                 | Inr hs \<Rightarrow> Inr (\<lparr>hresPartition = int (rPartition r), hresOffset = rOffset r\<rparr> # hs)))"

definition handleProduce :: "'w wal_ops \<Rightarrow> 'b balancer_ops \<Rightarrow> pub_io \<Rightarrow> (nat \<Rightarrow> err option) \<Rightarrow> (groups \<Rightarrow> groups) \<Rightarrow>
    i64 \<Rightarrow> string \<Rightarrow> err + http_record list \<Rightarrow> ('w, 'd, 'b, 's) broker \<Rightarrow>
    (http_response \<times> ('w, 'd, 'b, 's) broker) option" where
  "handleProduce W B io acquire order now topic body b =
     (case body of
        Inl e \<Rightarrow> Some ((StatusBadRequest, ErrorBody e), b)
      | Inr records \<Rightarrow>
          (let msgs = map (\<lambda>r. \<lparr>Header = \<lparr>Priority = ucast (hrPriority r), Timestamp = now, ProduceTime = 0, AppendTime = 0\<rparr>,
                 Key = hrKey r, Value = hrValue r, BatchDecoded = False\<rparr>) records
           in case PublishBatch W B io acquire order topic msgs b of
                None \<Rightarrow> None
              | Some (results, b') \<Rightarrow>
                  (case http_results results of
                     Inl e \<Rightarrow> Some ((StatusInternalServerError, ErrorBody e), b')
                   | Inr hs \<Rightarrow> Some ((StatusOK, Results hs), b'))))"

definition http_envelope_of :: "message \<Rightarrow> u64 \<Rightarrow> http_envelope" where
  "http_envelope_of m next_off =
     \<lparr>heOffset = next_off - 1, heKey = Key m, heValue = Value m, hePriority = ucast (Priority (Header m)),
      heTimestamp = Timestamp (Header m), heProduceTime = ProduceTime (Header m), heAppendTime = AppendTime (Header m)\<rparr>"

fun http_fetch_loop :: "('w, 's) sched_ops \<Rightarrow> env \<Rightarrow> string \<Rightarrow> int \<Rightarrow> int \<Rightarrow> int \<Rightarrow> nat \<Rightarrow>
    (('w, 'd, 'b, 's) broker \<Rightarrow> ('w, 'd, 'b, 's) broker) list \<Rightarrow> u64 \<Rightarrow> http_envelope list \<Rightarrow> int \<Rightarrow> i64 \<Rightarrow>
    ('w, 'd, 'b, 's) broker \<Rightarrow> ((err + http_envelope list \<times> i64) \<times> ('w, 'd, 'b, 's) broker) option" where
  "http_fetch_loop S env name i maxBytes minBytes 0 polls cur envs total_bytes last_off b = None"
| "http_fetch_loop S env name i maxBytes minBytes (Suc fuel) polls cur envs total_bytes last_off b =
     (if \<not> total_bytes < maxBytes then Some (Inr (envs, last_off), b)
      else case ConsumeFrom S env name i cur b of
        (Inl e, b1) \<Rightarrow>
          if e = ErrNoMessages then
            (if total_bytes < minBytes \<and> polls \<noteq> []
             then http_fetch_loop S env name i maxBytes minBytes fuel (tl polls) cur envs total_bytes last_off (hd polls b1)
             else Some (Inr (envs, last_off), b1))
          else if envs \<noteq> [] then Some (Inr (envs, last_off), b1)
          else Some (Inl e, b1)
      | (Inr (m, next_off), b1) \<Rightarrow>
          http_fetch_loop S env name i maxBytes minBytes fuel polls next_off (envs @ [http_envelope_of m next_off])
            (total_bytes + int (length (Key m) + length (Value m))) next_off b1)"

definition http_limit :: "config \<Rightarrow> string \<Rightarrow> int" where
  "http_limit cfg maxBytesStr =
     (let (v, ok) = Atoi maxBytesStr;
          maxBytes = (if ok \<and> v > 0 then v else MaxFetchBytes cfg)
      in if MaxFetchBytes cfg > 0 \<and> maxBytes > MaxFetchBytes cfg then MaxFetchBytes cfg else maxBytes)"

definition handleConsume :: "('w, 's) sched_ops \<Rightarrow> 'd kv_ops \<Rightarrow> env \<Rightarrow> nat \<Rightarrow>
    (('w, 'd, 'b, 's) broker \<Rightarrow> ('w, 'd, 'b, 's) broker) list \<Rightarrow> string \<Rightarrow> string \<Rightarrow> string \<Rightarrow> string \<Rightarrow>
    ('w, 'd, 'b, 's) broker \<Rightarrow> (http_response \<times> ('w, 'd, 'b, 's) broker) option" where
  "handleConsume S K env fuel polls topic grp partitionStr maxBytesStr b =
     (let part = fst (Atoi partitionStr);
          maxBytes = http_limit (snapCfg b) maxBytesStr;
          cur = (case LoadOffset grp topic part b of (_, Some _) \<Rightarrow> 1 | (off, None) \<Rightarrow> off)
      in case http_fetch_loop S env topic part maxBytes (FetchMinBytes (snapCfg b)) fuel polls cur [] 0 (- 1) b of
           None \<Rightarrow> None
         | Some (Inl e, b1) \<Rightarrow> Some ((StatusInternalServerError, ErrorBody e), b1)
         | Some (Inr (envs, last_off), b1) \<Rightarrow>
             Some ((StatusOK, Messages envs),
               if sint last_off \<ge> 0 then snd (brokerCommit K (clock env) grp topic part last_off b1) else b1))"

definition handleCommit :: "'d kv_ops \<Rightarrow> gotime \<Rightarrow> string \<Rightarrow> err + http_commit \<Rightarrow> ('w, 'd, 'b, 's) broker \<Rightarrow>
    http_response \<times> ('w, 'd, 'b, 's) broker" where
  "handleCommit K now topic body b =
     (case body of
        Inl e \<Rightarrow> ((StatusBadRequest, ErrorBody e), b)
      | Inr req \<Rightarrow>
          (case brokerCommit K now (hcGroup req) topic (hcPartition req) (hcOffset req) b of
             (Some e, b') \<Rightarrow> ((StatusInternalServerError, ErrorBody e), b')
           | (None, b') \<Rightarrow> ((StatusNoContent, Empty), b')))"

definition http_mode :: "string \<Rightarrow> int" where
  "http_mode m =
     (if m = ''strict_priority'' then ModeStrictPriority else if m = ''dqn_adaptive'' then ModeDQNAdaptive else ModeFIFO)"

definition handleCreateTopic :: "'w wal_ops \<Rightarrow> (string \<times> string \<times> int \<Rightarrow> bool \<Rightarrow> err + 'w) \<Rightarrow> err + http_create_topic \<Rightarrow>
    ('w, 'd, 'b, 's) broker \<Rightarrow> http_response \<times> ('w, 'd, 'b, 's) broker" where
  "handleCreateTopic W walOpen body b =
     (case body of
        Inl e \<Rightarrow> ((StatusBadRequest, ErrorBody e), b)
      | Inr req \<Rightarrow>
          (let cfg = DefaultTopicConfig\<lparr>cfgNumPartitions := sint (hctNumPartitions req), ScheduleMode := http_mode (hctMode req)\<rparr>
           in case CreateTopic W walOpen (hctTopic req) cfg b of
                (Some e, b') \<Rightarrow>
                  ((if e = ErrTopicAlreadyExists then StatusConflict else StatusInternalServerError, ErrorBody e), b')
              | (None, b') \<Rightarrow> ((StatusCreated, Empty), b')))"

definition handleDeleteTopic :: "'w wal_ops \<Rightarrow> 'd kv_ops \<Rightarrow> err option \<Rightarrow> string \<Rightarrow> ('w, 'd, 'b, 's) broker \<Rightarrow>
    http_response \<times> ('w, 'd, 'b, 's) broker" where
  "handleDeleteTopic W K removeAllErr topic b =
     (case DeleteTopic W K removeAllErr topic b of
        (Some e, b') \<Rightarrow> ((if e = ErrTopicNotFound then StatusNotFound else StatusInternalServerError, ErrorBody e), b')
      | (None, b') \<Rightarrow> ((StatusNoContent, Empty), b'))"

definition mode_name :: "int \<Rightarrow> string" where
  "mode_name m =
     (if m = ModeStrictPriority then ''strict_priority'' else if m = ModeDQNAdaptive then ''dqn_adaptive'' else ''fifo'')"

definition handleListTopics :: "('w, 'd, 'b, 's) broker \<Rightarrow> http_response" where
  "handleListTopics b =
     (StatusOK, Topics (map (\<lambda>t. \<lparr>htiTopic = Name t, htiNumPartitions = word_of_int (NumPartitions t),
        htiMode = mode_name (ScheduleMode (tconfig t))\<rparr>) (ListTopics b)))"

definition handleMetrics :: "('w, 'd, 'b, 's) broker \<Rightarrow> http_response" where
  "handleMetrics b = (StatusOK, MetricsBody (Snapshot (bmetrics b)))"

subsection \<open>The client\<close>

text \<open>
  The client prints numbers into the query and maps the status of the answer. Its \<open>handler\<close> is the
  service at the other end of the connection; escaping and unescaping the names cancel out.
\<close>

datatype http_error =
    HttpStatus nat "err option"
  | HttpTopicNotFound
  | HttpEmptyResponse
  | HttpBadBody
  | HttpAborted

fun readHTTPError :: "http_response \<Rightarrow> http_error" where
  "readHTTPError (code, ErrorBody e) = HttpStatus code (Some e)"
| "readHTTPError (code, body) = HttpStatus code None"

definition httpProduceBatch :: "(http_record list \<Rightarrow> 'st \<Rightarrow> (http_response \<times> 'st) option) \<Rightarrow> http_record list \<Rightarrow> 'st \<Rightarrow>
    (http_error + http_result list) \<times> 'st" where
  "httpProduceBatch handler records st =
     (case handler records st of
        None \<Rightarrow> (Inl HttpAborted, st)
      | Some ((code, body), st') \<Rightarrow>
          if code \<noteq> StatusOK then (Inl (readHTTPError (code, body)), st')
          else (case body of Results rs \<Rightarrow> (Inr rs, st') | _ \<Rightarrow> (Inl HttpBadBody, st')))"

definition httpProduce :: "(http_record list \<Rightarrow> 'st \<Rightarrow> (http_response \<times> 'st) option) \<Rightarrow> bytes \<Rightarrow> bytes \<Rightarrow> u32 \<Rightarrow> 'st \<Rightarrow>
    (http_error + int \<times> i64) \<times> 'st" where
  "httpProduce handler key val prio st =
     (case httpProduceBatch handler [\<lparr>hrKey = key, hrValue = val, hrPriority = prio\<rparr>] st of
        (Inl e, st') \<Rightarrow> (Inl e, st')
      | (Inr [], st') \<Rightarrow> (Inl HttpEmptyResponse, st')
      | (Inr (r # _), st') \<Rightarrow> (Inr (hresPartition r, hresOffset r), st'))"

definition httpConsume :: "(string \<Rightarrow> string \<Rightarrow> string \<Rightarrow> string \<Rightarrow> 'st \<Rightarrow> (http_response \<times> 'st) option) \<Rightarrow>
    string \<Rightarrow> string \<Rightarrow> i32 \<Rightarrow> i32 \<Rightarrow> 'st \<Rightarrow> ((http_error + http_envelope list) \<times> 'st) option" where
  "httpConsume handler topic grp part maxBytes st =
     (case handler topic grp (int_dec (sint part)) (int_dec (sint maxBytes)) st of
        None \<Rightarrow> None
      | Some ((code, body), st') \<Rightarrow>
          if code \<noteq> StatusOK then Some (Inl (readHTTPError (code, body)), st')
          else (case body of Messages ms \<Rightarrow> Some (Inr ms, st') | _ \<Rightarrow> Some (Inl HttpBadBody, st')))"

definition httpCommit :: "(http_commit \<Rightarrow> 'st \<Rightarrow> http_response \<times> 'st) \<Rightarrow> string \<Rightarrow> i32 \<Rightarrow> i64 \<Rightarrow> 'st \<Rightarrow> http_error option \<times> 'st" where
  "httpCommit handler grp part off st =
     (case handler \<lparr>hcGroup = grp, hcPartition = sint part, hcOffset = off\<rparr> st of
        (resp, st') \<Rightarrow> (if fst resp \<noteq> StatusNoContent then Some (readHTTPError resp) else None, st'))"

definition httpCreateTopic :: "(http_create_topic \<Rightarrow> 'st \<Rightarrow> http_response \<times> 'st) \<Rightarrow> string \<Rightarrow> i32 \<Rightarrow> string \<Rightarrow> 'st \<Rightarrow>
    http_error option \<times> 'st" where
  "httpCreateTopic handler topic n mode st =
     (case handler \<lparr>hctTopic = topic, hctNumPartitions = n, hctMode = mode\<rparr> st of
        (resp, st') \<Rightarrow> (if fst resp \<noteq> StatusCreated then Some (readHTTPError resp) else None, st'))"

definition httpDeleteTopic :: "(string \<Rightarrow> 'st \<Rightarrow> http_response \<times> 'st) \<Rightarrow> string \<Rightarrow> 'st \<Rightarrow> http_error option \<times> 'st" where
  "httpDeleteTopic handler topic st =
     (case handler topic st of
        (resp, st') \<Rightarrow>
          (if fst resp = StatusNotFound then Some HttpTopicNotFound
           else if fst resp \<noteq> StatusNoContent then Some (readHTTPError resp) else None, st'))"

definition httpListTopics :: "http_response \<Rightarrow> http_error + http_topic_info list" where
  "httpListTopics resp =
     (if fst resp \<noteq> StatusOK then Inl (readHTTPError resp)
      else case snd resp of Topics ts \<Rightarrow> Inr ts | _ \<Rightarrow> Inl HttpBadBody)"

subsection \<open>Printing and reading numbers\<close>

lemma list_all_digits: "list_all is_digit (nat_dec n)"
proof -
  have "is_digit (digit d)" if "d < 10" for d using that by (simp add: is_digit_def of_char_digit)
  then show ?thesis using set_nat_dec [of n] by (force simp: list_all_iff)
qed

lemma nat_dec_not_Nil: "nat_dec n \<noteq> []"
  by (subst nat_dec.simps) simp

lemma nat_dec_sign: "nat_dec n = c # cs \<Longrightarrow> c \<noteq> CHR ''-'' \<and> c \<noteq> CHR ''+''"
proof -
  assume "nat_dec n = c # cs"
  with list_all_digits [of n] have "is_digit c" by simp
  then show ?thesis by (auto simp: is_digit_def)
qed

lemma Atoi_int_dec: "- (2 ^ 63) \<le> v \<Longrightarrow> v < 2 ^ 63 \<Longrightarrow> Atoi (int_dec v) = (v, True)"
proof (cases "v < 0")
  case True
  assume "- (2 ^ 63) \<le> v"
  with True show ?thesis
    by (simp add: Atoi_def int_dec_def list_all_digits nat_dec_not_Nil dec_value_nat_dec)
next
  case False
  assume "v < 2 ^ 63"
  obtain c cs where n: "nat_dec (nat v) = c # cs" using nat_dec_not_Nil by (cases "nat_dec (nat v)") auto
  with nat_dec_sign [OF n] list_all_digits [of "nat v"] dec_value_nat_dec [of "nat v"] False \<open>v < 2 ^ 63\<close> show ?thesis
    by (simp add: Atoi_def int_dec_def)
qed

lemma sint_range_i32: "- (2 ^ 31) \<le> sint (x :: i32) \<and> sint x < 2 ^ 31"
  using sint_greater_eq [of x] sint_less [of x] by simp

lemma Atoi_i32: "Atoi (int_dec (sint (x :: i32))) = (sint x, True)"
  using sint_range_i32 [of x] by (intro Atoi_int_dec) simp_all

subsection \<open>Both services deliver the same\<close>

definition http_of :: "message_envelope \<Rightarrow> http_envelope" where
  "http_of e = \<lparr>heOffset = envOffset e, heKey = envKey e, heValue = envValue e, hePriority = envPriority e,
     heTimestamp = envTimestamp e, heProduceTime = envProduceTime e, heAppendTime = envAppendTime e\<rparr>"

lemma http_of_envelope: "http_of (envelope m next_off) = http_envelope_of m next_off"
  by (simp add: http_of_def envelope_def http_envelope_of_def)

lemma http_fetch_loop_eq:
  "http_fetch_loop S env name i mx mn fuel polls cur (map http_of envs) tot lst b =
   map_option (\<lambda>(r, b'). (map_sum id (\<lambda>(es, l). (map http_of es, l)) r, b'))
     (fetch_loop S env name i mx mn fuel polls cur envs tot lst b)"
proof (induction fuel arbitrary: polls cur envs tot lst b)
  case (Suc fuel)
  have step: "map http_of envs @ [http_envelope_of m off] = map http_of (envs @ [envelope m off])" for m off
    by (simp add: http_of_envelope)
  obtain r b1 where c: "ConsumeFrom S env name i cur b = (r, b1)" by (metis surj_pair)
  show ?case
  proof (cases r)
    case (Inl e)
    then show ?thesis using c by (cases polls) (simp_all add: Suc.IH Suc.IH [where envs = "[]", simplified])
  next
    case (Inr x)
    then show ?thesis using c by (cases x) (simp add: Suc.IH step message_bytes_def del: map_append)
  qed
qed simp

lemma httpConsume_serverConsume:
  "httpConsume (handleConsume S K env fuel polls) topic grp part mx b =
   map_option (\<lambda>(r, b'). (map_sum (\<lambda>e. HttpStatus StatusInternalServerError (Some e)) (map http_of) r, b'))
     (serverConsume S K env fuel polls \<lparr>crTopic = topic, crGroup = grp, crPartition = part, crMaxBytes = mx\<rparr> b)"
proof -
  have lim: "http_limit (snapCfg b) (int_dec (sint mx)) = fetch_limit (snapCfg b) (sint mx)"
    by (simp add: http_limit_def fetch_limit_def Atoi_i32)
  let ?cur = "case LoadOffset grp topic (sint part) b of (_, Some _) \<Rightarrow> 1 | (off, None) \<Rightarrow> off"
  let ?g = "fetch_loop S env topic (sint part) (fetch_limit (snapCfg b) (sint mx)) (FetchMinBytes (snapCfg b)) fuel polls ?cur [] 0 (- 1) b"
  have loop: "http_fetch_loop S env topic (sint part) (fetch_limit (snapCfg b) (sint mx)) (FetchMinBytes (snapCfg b)) fuel polls ?cur [] 0 (- 1) b =
      map_option (\<lambda>(r, b'). (map_sum id (\<lambda>(es, l). (map http_of es, l)) r, b')) ?g"
    using http_fetch_loop_eq [of S env topic "sint part" _ _ fuel polls _ "[]"] by simp
  show ?thesis
  proof (cases ?g)
    case None
    then show ?thesis by (simp add: httpConsume_def handleConsume_def serverConsume_def Atoi_i32 lim loop)
  next
    case (Some x)
    obtain r b1 where x: "x = (r, b1)" by (cases x)
    show ?thesis
      by (cases r) (auto simp: httpConsume_def handleConsume_def serverConsume_def Atoi_i32 lim loop Some x
        StatusOK_def StatusInternalServerError_def split: prod.split)
  qed
qed

text \<open>
  C29: the two transports agree: a fetch through the HTTP client and the HTTP server gives the same
  messages with the same offsets as the gRPC handler for the same topic, group, partition and
  byte limit, fails exactly when it fails, and leaves the broker, the committed offset included, in
  the same state.
\<close>

theorem httpConsume_eq_serverConsume:
  "httpConsume (handleConsume S K env fuel polls) topic grp part mx b =
   map_option (\<lambda>(r, b'). (map_sum (\<lambda>e. HttpStatus StatusInternalServerError (Some e)) (map http_of) r, b'))
     (serverConsume S K env fuel polls \<lparr>crTopic = topic, crGroup = grp, crPartition = part, crMaxBytes = mx\<rparr> b)"
  by (rule httpConsume_serverConsume)

end
