(* ===== verification/NN.thy ===== *)
theory NN
  imports Float64 Prelude
begin

text \<open>
  The building blocks of the learning components, \<^verbatim>\<open>pkg/nn\<close>: the two replay buffers and the
  schedule of the importance exponent (\<^verbatim>\<open>replay_buffer.go\<close>), the running normalizer
  (\<^verbatim>\<open>normalizer.go\<close>), the exploration noise (\<^verbatim>\<open>noise.go\<close>) and the bookkeeping of the target
  network (\<^verbatim>\<open>target_network.go\<close>), in \<^verbatim>\<open>float64\<close> arithmetic. \<^verbatim>\<open>math.Pow\<close> is an argument; random draws
  are a function from the number of the draw to its raw value.

  A buffer of capacity 0, whose \<^verbatim>\<open>Push\<close> divides by zero, is excluded by the invariants. The
  lemmas show that both buffers hold the newest transitions, that a sample consists of held
  transitions chosen by the cumulative priorities, with weights between 0 and 1, and that
  normalization of ordinary observations never produces a NaN.
\<close>

text \<open>\<^verbatim>\<open>rand.Float64\<close> takes the lower 53 bits of a draw.\<close>

definition rand_f64 :: "nat \<Rightarrow> f64" where
  "rand_f64 d = Fin (of_nat (d mod 2 ^ 53) / 2 ^ 53)"

lemma rand_f64_unit: "\<exists>q. rand_f64 d = Fin q \<and> 0 \<le> q \<and> q < 1"
proof -
  have "(of_nat (d mod 2 ^ 53) :: rat) < of_nat (2 ^ 53)" unfolding of_nat_less_iff by simp
  then show ?thesis by (intro exI [of _ "of_nat (d mod 2 ^ 53) / 2 ^ 53"]) (simp add: rand_f64_def)
qed

subsection \<open>Replay buffer\<close>

record transition =
  trState :: "f64 list"
  trAction :: "f64 list"
  trReward :: f64
  trNextState :: "f64 list"
  trDone :: bool

definition zeroTransition :: transition where
  "zeroTransition = \<lparr>trState = [], trAction = [], trReward = Fin 0, trNextState = [], trDone = False\<rparr>"

record replay_buffer =
  slots :: "transition option list"
  rpWrite :: nat

definition NewReplayBuffer :: "nat \<Rightarrow> replay_buffer" where
  "NewReplayBuffer capacity = \<lparr>slots = replicate capacity None, rpWrite = 0\<rparr>"

definition rp_Push :: "transition \<Rightarrow> replay_buffer \<Rightarrow> replay_buffer" where
  "rp_Push t rb = rb\<lparr>slots := (slots rb)[rpWrite rb mod length (slots rb) := Some t], rpWrite := rpWrite rb + 1\<rparr>"

definition rp_Len :: "replay_buffer \<Rightarrow> nat" where
  "rp_Len rb = (if rpWrite rb \<ge> length (slots rb) then length (slots rb) else rpWrite rb)"

definition rp_SampleInto :: "(nat \<Rightarrow> nat) \<Rightarrow> transition list \<Rightarrow> replay_buffer \<Rightarrow> transition list \<times> nat" where
  "rp_SampleInto rnd_draw dst rb =
     (let n = rp_Len rb; cnt = (if length dst > n then n else length dst)
      in if n = 0 then (dst, 0)
         else (map (\<lambda>i. if i < cnt
                         then (case slots rb ! (rnd_draw i mod n) of Some t \<Rightarrow> t | None \<Rightarrow> dst ! i)
                         else dst ! i) [0..<length dst], cnt))"

definition rp_Sample :: "(nat \<Rightarrow> nat) \<Rightarrow> nat \<Rightarrow> replay_buffer \<Rightarrow> transition list" where
  "rp_Sample rnd_draw batchSize rb =
     (let n = rp_Len rb; b = (if batchSize > n then n else batchSize)
      in if n = 0 then [] else fst (rp_SampleInto rnd_draw (replicate b zeroTransition) rb))"

definition rp_ok :: "replay_buffer \<Rightarrow> bool" where
  "rp_ok rb \<longleftrightarrow> slots rb \<noteq> [] \<and> list_all (\<lambda>s. s \<noteq> None) (take (rpWrite rb) (slots rb))"

definition rp_items :: "replay_buffer \<Rightarrow> transition list" where
  "rp_items rb = map the (ring_items (slots rb) (rpWrite rb))"

lemma rp_Len_min: "rp_Len rb = min (rpWrite rb) (length (slots rb))"
  by (simp add: rp_Len_def)

lemma take_write_all:
  assumes "list_all P (take w xs)" and "P v"
  shows "list_all P (take (Suc w) (xs[w mod length xs := v]))"
proof (cases "w < length xs")
  case True
  then have "take (Suc w) (xs[w := v]) = take w xs @ [v]" by (simp add: take_Suc_conv_app_nth)
  with True assms show ?thesis by simp
next
  case False
  with assms show ?thesis by (auto simp: list_all_iff dest: set_update_subset_insert [THEN subsetD])
qed

lemma rp_ok_Push: "rp_ok rb \<Longrightarrow> rp_ok (rp_Push t rb)"
  using take_write_all [of "\<lambda>s. s \<noteq> None" "rpWrite rb" "slots rb" "Some t"] by (simp add: rp_ok_def rp_Push_def)

interpretation replay: bounded_log rp_Push rp_items "\<lambda>rb. length (slots rb)" rp_ok
proof
  fix rb t assume ok: "rp_ok rb"
  show "rp_ok (rp_Push t rb)" by (rule rp_ok_Push [OF ok])
  show "length (slots (rp_Push t rb)) = length (slots rb)" by (simp add: rp_Push_def)
  show "rp_items (rp_Push t rb) = keep_last (length (slots rb)) (rp_items rb @ [t])"
    using ring_items_put [of "slots rb" "rpWrite rb" "Some t"] ok
    by (simp add: rp_items_def rp_Push_def rp_ok_def flip: keep_last_map)
  show "length (rp_items rb) \<le> length (slots rb)" by (simp add: rp_items_def)
qed

lemma rp_slot_held:
  assumes "rp_ok rb" and "i < rp_Len rb"
  shows "\<exists>t. slots rb ! i = Some t \<and> t \<in> set (rp_items rb)"
proof -
  have i: "i < rpWrite rb" "i < length (slots rb)" using assms(2) by (simp_all add: rp_Len_min)
  then have mem: "slots rb ! i \<in> set (take (rpWrite rb) (slots rb))"
    using nth_mem [of i "take (rpWrite rb) (slots rb)"] by simp
  then obtain t where t: "slots rb ! i = Some t" using assms(1) unfolding rp_ok_def list_all_iff by blast
  have "Some t \<in> set (ring_items (slots rb) (rpWrite rb))"
    using mem t assms(1) set_ring_items [of "slots rb" "rpWrite rb"] by (simp add: rp_ok_def)
  with t show ?thesis by (force simp: rp_items_def)
qed

text \<open>A sample has the requested size, or that of the buffer, and consists of held transitions.\<close>

lemma rp_Sample_held:
  assumes "rp_ok rb"
  shows "length (rp_Sample rnd_draw n rb) = min n (rp_Len rb)" and "set (rp_Sample rnd_draw n rb) \<subseteq> set (rp_items rb)"
proof -
  let ?L = "rp_Len rb" and ?b = "min n (rp_Len rb)"
  have eq: "rp_Sample rnd_draw n rb = map (\<lambda>i. the (slots rb ! (rnd_draw i mod ?L))) [0..<?b]"
  proof (cases "?L = 0")
    case False
    have "slots rb ! (k mod ?L) \<noteq> None" for k using rp_slot_held [OF assms, of "k mod ?L"] False by auto
    then have "(case slots rb ! (k mod ?L) of Some t \<Rightarrow> t | None \<Rightarrow> z) = the (slots rb ! (k mod ?L))" for k z
      by (metis option.case_eq_if)
    then show ?thesis using False by (simp add: rp_Sample_def rp_SampleInto_def Let_def min_def)
  qed (simp add: rp_Sample_def)
  show "length (rp_Sample rnd_draw n rb) = ?b" by (simp add: eq)
  show "set (rp_Sample rnd_draw n rb) \<subseteq> set (rp_items rb)"
  proof
    fix t assume "t \<in> set (rp_Sample rnd_draw n rb)"
    then obtain i where i: "i < ?b" "t = the (slots rb ! (rnd_draw i mod ?L))" by (auto simp: eq)
    then have "rnd_draw i mod ?L < ?L" by (intro mod_less_divisor) simp
    with rp_slot_held [OF assms this] i(2) show "t \<in> set (rp_items rb)" by auto
  qed
qed

subsection \<open>Prioritized replay buffer\<close>

record per_buffer =
  perTransitions :: "transition list"
  perPriorities :: "f64 list"
  perSize :: nat
  perWrite :: nat
  perAlpha :: f64
  perDefaultPrio :: f64
  perMaxPriority :: f64

definition NewPrioritizedReplayBuffer :: "nat \<Rightarrow> f64 \<Rightarrow> per_buffer" where
  "NewPrioritizedReplayBuffer capacity alpha =
     \<lparr>perTransitions = replicate capacity zeroTransition, perPriorities = replicate capacity (Fin 0),
      perSize = 0, perWrite = 0, perAlpha = alpha, perDefaultPrio = Fin 1, perMaxPriority = Fin 1\<rparr>"

definition Cap :: "per_buffer \<Rightarrow> nat" where
  "Cap b = length (perTransitions b)"

definition per_Push :: "transition \<Rightarrow> per_buffer \<Rightarrow> per_buffer" where
  "per_Push t b =
     (let idx = perWrite b mod Cap b
      in b\<lparr>perTransitions := (perTransitions b)[idx := t], perPriorities := (perPriorities b)[idx := perMaxPriority b],
           perWrite := perWrite b + 1, perSize := (if perSize b < Cap b then perSize b + 1 else perSize b)\<rparr>)"

text \<open>The search of the cumulative sum: the first index at which it reaches the target, else the last index.\<close>

fun pick_idx :: "f64 \<Rightarrow> f64 list \<Rightarrow> f64 \<Rightarrow> nat \<Rightarrow> nat \<Rightarrow> nat" where
  "pick_idx r [] cum j idx = idx"
| "pick_idx r (p # ps) cum j idx =
     (let cum' = fadd cum p in if fle r cum' then j else pick_idx r ps cum' (j + 1) j)"

definition max_weight :: "f64 list \<Rightarrow> f64" where
  "max_weight ws = foldl (\<lambda>m w. if flt m w then w else m) (Fin 0) ws"

definition norm_weights :: "f64 list \<Rightarrow> f64 list" where
  "norm_weights ws = (let mw = max_weight ws in if flt (Fin 0) mw then map (\<lambda>w. fdiv w mw) ws else ws)"

definition per_probs :: "(f64 \<Rightarrow> f64 \<Rightarrow> f64) \<Rightarrow> per_buffer \<Rightarrow> f64 list" where
  "per_probs pow b = map (\<lambda>p. pow p (perAlpha b)) (take (perSize b) (perPriorities b))"

definition per_total :: "(f64 \<Rightarrow> f64 \<Rightarrow> f64) \<Rightarrow> per_buffer \<Rightarrow> f64" where
  "per_total pow b = (let tot = fsum (per_probs pow b) in if feq tot (Fin 0) then Fin 1 else tot)"

definition per_Sample :: "(f64 \<Rightarrow> f64 \<Rightarrow> f64) \<Rightarrow> (nat \<Rightarrow> nat) \<Rightarrow> nat \<Rightarrow> f64 \<Rightarrow> per_buffer \<Rightarrow>
    transition list \<times> nat list \<times> f64 list" where
  "per_Sample pow rnd_draw batchSize beta b =
     (if perSize b = 0 then ([], [], [])
      else let bs = (if batchSize > perSize b then perSize b else batchSize);
               probs = per_probs pow b;
               tot = per_total pow b;
               n = f_int (int (perSize b));
               indices = map (\<lambda>i. pick_idx (fmul (rand_f64 (rnd_draw i)) tot) probs (Fin 0) 0 0) [0..<bs];
               ws = map (\<lambda>idx. pow (fmul n (fdiv (probs ! idx) tot)) (fneg beta)) indices
           in (map (\<lambda>idx. perTransitions b ! idx) indices, indices, norm_weights ws))"

definition per_UpdatePriority :: "int \<Rightarrow> f64 \<Rightarrow> per_buffer \<Rightarrow> per_buffer" where
  "per_UpdatePriority idx tdError b =
     (if idx < 0 \<or> idx \<ge> int (perSize b) then b
      else let p = fadd (fabs tdError) (f_const (1 / 1000000))
           in b\<lparr>perPriorities := (perPriorities b)[nat idx := p],
                perMaxPriority := (if flt (perMaxPriority b) p then p else perMaxPriority b)\<rparr>)"

definition per_ok :: "per_buffer \<Rightarrow> bool" where
  "per_ok b \<longleftrightarrow> perTransitions b \<noteq> [] \<and> length (perPriorities b) = length (perTransitions b) \<and>
     perSize b = min (perWrite b) (Cap b) \<and> fle (Fin 1) (perMaxPriority b) \<and>
     list_all (\<lambda>p. fle (Fin 0) p \<and> fle p (perMaxPriority b)) (take (perSize b) (perPriorities b))"

definition per_items :: "per_buffer \<Rightarrow> transition list" where
  "per_items b = ring_items (perTransitions b) (perWrite b)"

lemma per_ok_New: "0 < capacity \<Longrightarrow> per_ok (NewPrioritizedReplayBuffer capacity alpha)"
  by (simp add: per_ok_def NewPrioritizedReplayBuffer_def Cap_def)

lemma per_ok_Push:
  assumes "per_ok b"
  shows "per_ok (per_Push t b)"
proof -
  let ?P = "\<lambda>p. fle (Fin 0) p \<and> fle p (perMaxPriority b)"
  have len: "length (perPriorities b) = Cap b" "0 < Cap b" using assms by (simp_all add: per_ok_def Cap_def)
  have mx: "?P (perMaxPriority b)"
    using assms fle_trans [of "Fin 0" "Fin 1" "perMaxPriority b"] by (auto simp: per_ok_def fle_refl)
  have tk: "take (perSize b) (perPriorities b) = take (perWrite b) (perPriorities b)"
    using assms len by (simp add: per_ok_def min_def)
  have "list_all ?P (take (Suc (perWrite b)) ((perPriorities b)[perWrite b mod Cap b := perMaxPriority b]))"
    using take_write_all [of ?P "perWrite b" "perPriorities b", OF _ mx] assms tk len by (simp add: per_ok_def)
  moreover have "take (min (Suc (perWrite b)) (Cap b)) xs = take (Suc (perWrite b)) xs" if "length xs = Cap b" for xs :: "f64 list"
    using that by (simp add: min_def)
  moreover have "(if perSize b < Cap b then perSize b + 1 else perSize b) = min (Suc (perWrite b)) (Cap b)"
    using assms by (simp add: per_ok_def min_def)
  ultimately show ?thesis using assms len by (simp add: per_ok_def per_Push_def Cap_def Let_def)
qed

interpretation prioritized: bounded_log per_Push per_items Cap per_ok
proof
  fix b t assume ok: "per_ok b"
  show "per_ok (per_Push t b)" by (rule per_ok_Push [OF ok])
  show "Cap (per_Push t b) = Cap b" by (simp add: Cap_def per_Push_def Let_def)
  show "per_items (per_Push t b) = keep_last (Cap b) (per_items b @ [t])"
    using ring_items_put [of "perTransitions b" "perWrite b" t] ok
    by (simp add: per_items_def per_Push_def Let_def per_ok_def Cap_def)
  show "length (per_items b) \<le> Cap b" by (simp add: per_items_def Cap_def)
qed

lemma small_const: "\<exists>c. f_const (1 / 1000000) = Fin c \<and> 0 \<le> c"
proof -
  have "fle (Fin 0) (rnd (1 / 1000000))" by (rule rnd_nonneg) simp
  moreover have "fle (rnd (1 / 1000000)) (Fin 1)" using rnd_mono [of "1 / 1000000" 1] by simp
  ultimately show ?thesis by (metis f_const_def fle_Fin_between)
qed

text \<open>An update with an error that is a number keeps the priorities comparable.\<close>

lemma per_ok_UpdatePriority:
  assumes "per_ok b" and "td \<noteq> NaN"
  shows "per_ok (per_UpdatePriority idx td b)"
proof (cases "idx < 0 \<or> idx \<ge> int (perSize b)")
  case True
  then show ?thesis using assms(1) by (simp add: per_UpdatePriority_def)
next
  case False
  let ?p = "fadd (fabs td) (f_const (1 / 1000000))"
  let ?m = "if flt (perMaxPriority b) ?p then ?p else perMaxPriority b"
  obtain c where c: "f_const (1 / 1000000) = Fin c" "0 \<le> c" using small_const by blast
  have p0: "fle (Fin 0) ?p" using assms(2) c by (cases td) (auto intro: rnd_nonneg)
  have nn: "?p \<noteq> NaN" "perMaxPriority b \<noteq> NaN" using p0 assms(1) by (auto simp: per_ok_def)
  have m: "fle (perMaxPriority b) ?m" "fle ?p ?m" using fle_total nn by (auto simp: flt_def fle_refl)
  have old: "list_all (\<lambda>q. fle (Fin 0) q \<and> fle q ?m) (take (perSize b) (perPriorities b))"
    using assms(1) fle_trans [OF _ m(1)] unfolding per_ok_def list_all_iff by blast
  have "list_all (\<lambda>q. fle (Fin 0) q \<and> fle q ?m) (take (perSize b) ((perPriorities b)[nat idx := ?p]))"
    using old p0 m(2) by (auto simp: list_all_iff take_update_swap dest!: set_update_subset_insert [THEN subsetD])
  moreover have "fle (Fin 1) ?m" using assms(1) fle_trans [OF _ m(1)] by (simp add: per_ok_def)
  ultimately show ?thesis using assms(1) False by (simp add: per_UpdatePriority_def Let_def per_ok_def Cap_def)
qed

lemma pick_idx_spec:
  assumes "ps \<noteq> []" and "pick_idx r ps cum j idx = k"
  shows "j \<le> k \<and> k < j + length ps \<and> (\<forall>i. j \<le> i \<and> i < k \<longrightarrow> \<not> fle r (foldl fadd cum (take (i - j + 1) ps))) \<and>
    (fle r (foldl fadd cum (take (k - j + 1) ps)) \<or> k = j + length ps - 1)"
  using assms
proof (induction ps arbitrary: cum j idx)
  case (Cons p ps)
  let ?c = "fadd cum p"
  show ?case
  proof (cases "fle r ?c")
    case True
    then have "k = j" using Cons.prems(2) by simp
    with True show ?thesis by simp
  next
    case False
    then have k: "pick_idx r ps ?c (j + 1) j = k" using Cons.prems(2) by simp
    show ?thesis
    proof (cases "ps = []")
      case True
      then show ?thesis using k False by auto
    next
      case ne: False
      note IH = Cons.IH [OF ne k]
      have sh: "foldl fadd cum (take (i - j + 1) (p # ps)) = foldl fadd ?c (take (i - (j + 1) + 1) ps)" if "j + 1 \<le> i" for i
        using that Suc_diff_Suc [of j i] by simp
      have "\<not> fle r (foldl fadd cum (take (i - j + 1) (p # ps)))" if i: "j \<le> i" "i < k" for i
      proof (cases "i = j")
        case True
        then show ?thesis using False by simp
      next
        case False
        then have "j + 1 \<le> i" using i by simp
        with IH i sh [OF this] show ?thesis by simp
      qed
      with IH sh [of k] show ?thesis by auto
    qed
  qed
qed simp

lemma foldl_max_ge:
  assumes "m \<noteq> NaN"
  shows "fle m (foldl (\<lambda>m w. if flt m w then w else m) m ws) \<and>
    (\<forall>w \<in> set ws. w \<noteq> NaN \<longrightarrow> fle w (foldl (\<lambda>m w. if flt m w then w else m) m ws))"
  using assms
proof (induction ws arbitrary: m)
  case (Cons v vs)
  let ?m = "if flt m v then v else m"
  have nn: "?m \<noteq> NaN" using Cons.prems by auto
  have "fle m ?m" using Cons.prems by (auto simp: flt_def fle_refl)
  moreover have "v \<noteq> NaN \<longrightarrow> fle v ?m" using fle_total [of m v] Cons.prems by (auto simp: flt_def fle_refl)
  ultimately show ?case using Cons.IH [OF nn] by (auto intro: fle_trans)
qed (simp add: fle_refl)

lemma max_weight_ge: "w \<in> set ws \<Longrightarrow> w \<noteq> NaN \<Longrightarrow> fle w (max_weight ws)"
  using foldl_max_ge [of "Fin 0" ws] by (simp add: max_weight_def)

text \<open>A value that is not negative, if it is a number at all.\<close>

definition nonneg :: "f64 \<Rightarrow> bool" where
  "nonneg x \<longleftrightarrow> x = NaN \<or> fle (Fin 0) x"

lemma nonneg_simps [simp]: "nonneg NaN" "nonneg (Inf s) \<longleftrightarrow> \<not> s" "nonneg (Fin q) \<longleftrightarrow> 0 \<le> q"
  by (simp_all add: nonneg_def)

lemma nonneg_rnd: "0 \<le> q \<Longrightarrow> nonneg (rnd q)"
  by (simp add: nonneg_def rnd_nonneg)

lemma nonneg_arith: "nonneg x \<Longrightarrow> nonneg y \<Longrightarrow> nonneg (fadd x y) \<and> nonneg (fmul x y) \<and> nonneg (fdiv x y)"
  by (cases x; cases y) (auto intro: nonneg_rnd)

lemma nonneg_fsum: "list_all nonneg xs \<Longrightarrow> nonneg (fsum xs)"
proof -
  have "nonneg a \<Longrightarrow> list_all nonneg xs \<Longrightarrow> nonneg (foldl fadd a xs)" for a
    by (induction xs arbitrary: a) (auto simp: nonneg_arith)
  then show "list_all nonneg xs \<Longrightarrow> nonneg (fsum xs)" by (simp add: fsum_def)
qed

lemma weight_unit:
  assumes "nonneg w" and "w = NaN \<or> fle w mw" and "flt (Fin 0) mw"
  shows "fdiv w mw = NaN \<or> fle (Fin 0) (fdiv w mw) \<and> fle (fdiv w mw) (Fin 1)"
proof (cases w; cases mw)
  fix a c assume wc: "w = Fin a" "mw = Fin c"
  then have "0 \<le> a" "a \<le> c" "0 < c" using assms by auto
  then obtain q where "fdiv (Fin a) (Fin c) = Fin q" "0 \<le> q" "q \<le> 1" by (rule fdiv_unit)
  then show ?thesis by (simp add: wc)
qed (use assms in \<open>auto simp: flt_def\<close>)

lemma length_norm_weights [simp]: "length (norm_weights ws) = length ws"
  by (simp add: norm_weights_def Let_def)

lemma norm_weights_unit:
  assumes "list_all nonneg ws" and "i < length ws"
  shows "norm_weights ws ! i = NaN \<or> fle (Fin 0) (norm_weights ws ! i) \<and> fle (norm_weights ws ! i) (Fin 1)"
proof -
  let ?w = "ws ! i" and ?mw = "max_weight ws"
  have nn: "nonneg ?w" using assms by (simp add: list_all_length)
  have le: "?w = NaN \<or> fle ?w ?mw" using max_weight_ge [of ?w ws] assms(2) by auto
  show ?thesis
  proof (cases "flt (Fin 0) ?mw")
    case True
    with weight_unit [OF nn le True] assms(2) show ?thesis by (simp add: norm_weights_def)
  next
    case False
    have "fle ?mw (Fin 0)" if "?w \<noteq> NaN"
      using False le that nn fle_trans [of "Fin 0" ?w] by (auto simp: flt_def nonneg_def)
    then have "?w = NaN \<or> fle ?w (Fin 1)" using le fle_trans [of ?w _ "Fin 0"] fle_trans [of ?w "Fin 0" "Fin 1"] by auto
    with False nn show ?thesis by (auto simp: norm_weights_def nonneg_def)
  qed
qed

definition sound_pow :: "(f64 \<Rightarrow> f64 \<Rightarrow> f64) \<Rightarrow> bool" where
  "sound_pow pow \<longleftrightarrow> (\<forall>x y. nonneg x \<longrightarrow> nonneg (pow x y))"

lemma per_probs_nonneg:
  assumes "per_ok b" and "sound_pow pow"
  shows "list_all nonneg (per_probs pow b)" and "nonneg (per_total pow b)"
proof -
  show p: "list_all nonneg (per_probs pow b)"
    using assms unfolding per_probs_def per_ok_def sound_pow_def list_all_iff by (auto simp: nonneg_def)
  show "nonneg (per_total pow b)" using nonneg_fsum [OF p] by (simp add: per_total_def Let_def)
qed

text \<open>
  C14: sampling from the prioritized buffer: the batch has the requested size or that of the buffer;
  its \<open>i\<close>-th member is a transition the buffer holds, at the first index where the cumulative sum of the
  powered priorities reaches the drawn fraction of the total (at the last index when rounding
  keeps the sum below it); and every importance weight lies between 0 and 1 unless it is NaN.
\<close>

theorem PrioritizedReplay_Sample:
  assumes "per_ok b" and "0 < perSize b" and "sound_pow pow" and "per_Sample pow rnd_draw n beta b = (batch, indices, ws)"
  shows "length batch = min n (perSize b) \<and> length indices = min n (perSize b) \<and> length ws = min n (perSize b) \<and>
    (\<forall>i < min n (perSize b).
       let j = indices ! i; r = fmul (rand_f64 (rnd_draw i)) (per_total pow b); cum = (\<lambda>k. fsum (take (k + 1) (per_probs pow b)))
       in j < perSize b \<and> batch ! i = perTransitions b ! j \<and> batch ! i \<in> set (per_items b) \<and>
          (\<forall>k < j. \<not> fle r (cum k)) \<and> (fle r (cum j) \<or> j = perSize b - 1) \<and>
          (ws ! i = NaN \<or> fle (Fin 0) (ws ! i) \<and> fle (ws ! i) (Fin 1)))"
proof -
  let ?bs = "min n (perSize b)" and ?probs = "per_probs pow b" and ?tot = "per_total pow b"
  let ?pick = "\<lambda>i. pick_idx (fmul (rand_f64 (rnd_draw i)) ?tot) ?probs (Fin 0) 0 0"
  let ?w = "\<lambda>idx. pow (fmul (f_int (int (perSize b))) (fdiv (?probs ! idx) ?tot)) (fneg beta)"
  let ?raw = "map ?w (map ?pick [0..<?bs])"
  have res: "indices = map ?pick [0..<?bs]" "batch = map (\<lambda>idx. perTransitions b ! idx) indices"
    "ws = norm_weights ?raw"
    using assms(2,4) by (auto simp: per_Sample_def Let_def min_def split: if_splits)
  have len: "length ?probs = perSize b" "perSize b \<le> length (perTransitions b)" "perSize b \<le> perWrite b"
    using assms(1) by (simp_all add: per_probs_def per_ok_def Cap_def)
  have "?probs \<noteq> []" using assms(2) len by auto
  note pick = pick_idx_spec [where cum = "Fin 0" and j = 0 and idx = 0, OF this refl]
  have held: "perTransitions b ! j \<in> set (per_items b)" if "j < perSize b" for j
  proof -
    have "perTransitions b ! j \<in> set (take (perWrite b) (perTransitions b))"
      using that len nth_mem [of j "take (perWrite b) (perTransitions b)"] by simp
    then show ?thesis using set_ring_items [of "perTransitions b"] assms(1) by (simp add: per_items_def per_ok_def)
  qed
  have "nonneg (?w (?pick i))" for i
  proof -
    have "?pick i < length ?probs" using pick [of "fmul (rand_f64 (rnd_draw i)) ?tot"] by simp
    then have "nonneg (?probs ! ?pick i)" using per_probs_nonneg(1) [OF assms(1,3)] by (simp add: list_all_length)
    then show ?thesis
      using per_probs_nonneg(2) [OF assms(1,3)] assms(3) nonneg_arith nonneg_rnd by (simp add: sound_pow_def f_int_def)
  qed
  then have "list_all nonneg ?raw" by (simp add: list_all_iff)
  from norm_weights_unit [OF this] have weight: "ws ! i = NaN \<or> fle (Fin 0) (ws ! i) \<and> fle (ws ! i) (Fin 1)" if "i < ?bs" for i
    using that by (simp add: res(3))
  show ?thesis using pick held len weight by (auto simp: res fsum_def Let_def)
qed

definition sampleTransition :: "rat \<Rightarrow> transition" where
  "sampleTransition q = zeroTransition\<lparr>trReward := Fin q\<rparr>"

definition sampleReplay :: per_buffer where
  "sampleReplay = per_Push (sampleTransition 2) (per_Push (sampleTransition 1) (NewPrioritizedReplayBuffer 3 (Fin 1)))"

lemma sampleReplay_ok: "per_ok sampleReplay" "perSize sampleReplay = 2"
  by (simp_all add: sampleReplay_def per_ok_Push per_ok_New)
    (simp add: per_Push_def NewPrioritizedReplayBuffer_def Cap_def Let_def)

theorem PrioritizedReplay_Sample_witness:
  "\<exists>batch indices ws. per_Sample (\<lambda>x y. x) (\<lambda>_. 3 * 2 ^ 51) 1 (Fin 1) sampleReplay = (batch, indices, ws) \<and>
     length batch = 1 \<and> indices ! 0 < 2 \<and> batch ! 0 \<in> set (per_items sampleReplay) \<and>
     (ws ! 0 = NaN \<or> fle (Fin 0) (ws ! 0) \<and> fle (ws ! 0) (Fin 1))"
proof -
  obtain batch indices ws where r: "per_Sample (\<lambda>x y. x) (\<lambda>_. 3 * 2 ^ 51) 1 (Fin 1) sampleReplay = (batch, indices, ws)"
    by (metis prod_cases3)
  have "sound_pow (\<lambda>x y. x)" by (simp add: sound_pow_def)
  from PrioritizedReplay_Sample [OF sampleReplay_ok(1) _ this r] sampleReplay_ok(2) r show ?thesis
    by (auto simp: Let_def)
qed

text \<open>
  A temporal-difference error that is not a number ends the weighting: with one NaN priority the total is
  NaN and every draw takes the last index.
\<close>

lemma foldl_fadd_NaN: "foldl fadd NaN xs = NaN"
  by (induction xs) simp_all

lemma fsum_NaN: "NaN \<in> set xs \<Longrightarrow> fsum xs = NaN"
proof -
  have nan: "fadd a NaN = NaN" for a by (cases a) auto
  have "NaN \<in> set xs \<Longrightarrow> foldl fadd a xs = NaN" for a
    by (induction xs arbitrary: a) (auto simp: nan foldl_fadd_NaN)
  then show "NaN \<in> set xs \<Longrightarrow> fsum xs = NaN" by (simp add: fsum_def)
qed

lemma pick_idx_NaN: "ps \<noteq> [] \<Longrightarrow> pick_idx NaN ps cum j idx = j + length ps - 1"
proof (induction ps arbitrary: cum j idx)
  case (Cons p ps)
  then show ?case by (cases ps) auto
qed simp

lemma nan_priority_freezes:
  assumes "i < perSize b" and "length (perPriorities b) = Cap b" and "perSize b \<le> Cap b"
    and "\<And>y. pow NaN y = NaN"
  shows "set (fst (snd (per_Sample pow rnd_draw n beta (per_UpdatePriority (int i) NaN b)))) \<subseteq> {perSize b - 1}"
proof -
  let ?b = "per_UpdatePriority (int i) NaN b"
  have b: "?b = b\<lparr>perPriorities := (perPriorities b)[i := NaN]\<rparr>"
    using assms(1) by (simp add: per_UpdatePriority_def Let_def)
  have len: "length (per_probs pow ?b) = perSize b" using assms(2,3) by (simp add: per_probs_def b)
  have "per_probs pow ?b ! i = NaN" using assms by (simp add: per_probs_def b)
  then have "NaN \<in> set (per_probs pow ?b)" using len assms(1) nth_mem by metis
  then have tot: "per_total pow ?b = NaN" by (simp add: per_total_def fsum_NaN feq_def)
  have r: "fmul (rand_f64 d) NaN = NaN" for d by (simp add: rand_f64_def)
  have "per_probs pow ?b \<noteq> []" using len assms(1) by auto
  with tot r len show ?thesis by (auto simp: per_Sample_def Let_def b pick_idx_NaN [simplified])
qed

subsection \<open>Schedule of the importance exponent\<close>

record beta_schedule =
  bsStart :: f64
  bsEnd :: f64
  bsSteps :: int
  bsCurrent :: int

definition NewBetaSchedule :: "f64 \<Rightarrow> f64 \<Rightarrow> int \<Rightarrow> beta_schedule" where
  "NewBetaSchedule start stop steps = \<lparr>bsStart = start, bsEnd = stop, bsSteps = steps, bsCurrent = 0\<rparr>"

definition bs_Next :: "beta_schedule \<Rightarrow> f64 \<times> beta_schedule" where
  "bs_Next b =
     (if bsSteps b \<le> 0 then (bsEnd b, b)
      else let q = fdiv (f_int (bsCurrent b)) (f_int (bsSteps b));
               frac = (if flt (Fin 1) q then Fin 1 else q)
           in (fadd (bsStart b) (fmul (fsub (bsEnd b) (bsStart b)) frac), b\<lparr>bsCurrent := bsCurrent b + 1\<rparr>))"

text \<open>The exponent never decreases from one call to the next.\<close>

lemma bs_Next_mono:
  assumes "bsStart b = Fin s" and "fsub (bsEnd b) (bsStart b) = Fin d" and "0 \<le> d" and "0 < bsSteps b"
    and "bsSteps b < 2 ^ 63" and "0 \<le> bsCurrent b" and "bsCurrent b < 2 ^ 63 - 1"
  shows "fle (fst (bs_Next b)) (fst (bs_Next (snd (bs_Next b)))) \<or> fst (bs_Next b) = NaN"
proof -
  let ?frac = "\<lambda>c. let q = fdiv (f_int c) (f_int (bsSteps b)) in if flt (Fin 1) q then Fin 1 else q"
  have st: "\<exists>r. f_int (bsSteps b) = Fin r \<and> 0 < r"
  proof -
    have "fle (Fin 1) (f_int (bsSteps b))" using f_int_mono [of 1 "bsSteps b"] assms(4) by (simp add: f_int_def)
    then show ?thesis using f_int_Fin [of "bsSteps b"] assms(4,5) by auto
  qed
  then obtain r where r: "f_int (bsSteps b) = Fin r" "0 < r" by blast
  have fr: "\<exists>x. ?frac c = Fin x \<and> 0 \<le> x" if c: "0 \<le> c" "c < 2 ^ 63" for c
  proof -
    obtain q where q: "f_int c = Fin q" "0 \<le> q" using f_int_Fin [OF c] by blast
    then have "fle (Fin 0) (rnd (q / r))" using r by (intro rnd_nonneg) simp
    then show ?thesis using q r by (cases "rnd (q / r)") (auto simp: Let_def flt_def)
  qed
  have mono: "fle (?frac c) (?frac (c + 1))" if c: "0 \<le> c" "c + 1 < 2 ^ 63" for c
  proof -
    obtain p q where pq: "f_int c = Fin p" "f_int (c + 1) = Fin q" using f_int_Fin [of c] f_int_Fin [of "c + 1"] c by auto
    then have "p \<le> q" using f_int_mono [of c "c + 1"] by simp
    then have "fle (rnd (p / r)) (rnd (q / r))" using r by (intro rnd_mono divide_right_mono) simp_all
    then show ?thesis using pq r by (cases "rnd (p / r)"; cases "rnd (q / r)") (auto simp: Let_def flt_def)
  qed
  obtain x y where xy: "?frac (bsCurrent b) = Fin x" "0 \<le> x" "?frac (bsCurrent b + 1) = Fin y"
    using fr [of "bsCurrent b"] fr [of "bsCurrent b + 1"] assms(6,7) by auto
  have "x \<le> y" using mono [of "bsCurrent b"] xy assms(6,7) by simp
  then have m: "fle (rnd (d * x)) (rnd (d * y))" using assms(3) by (intro rnd_mono mult_left_mono)
  have "fle (fadd (Fin s) u) (fadd (Fin s) v) \<or> fadd (Fin s) u = NaN" if "fle u v" for u v
    using that by (cases u; cases v) (auto simp: rnd_mono fle_extremes split: if_splits)
  with m show ?thesis using assms(1,2,4) xy by (simp add: bs_Next_def Let_def)
qed

subsection \<open>Running normalizer\<close>

record running_normalizer =
  rnCount :: nat
  rnMean :: "f64 list"
  rnM2 :: "f64 list"
  rnSize :: nat

definition NewRunningNormalizer :: "nat \<Rightarrow> running_normalizer" where
  "NewRunningNormalizer sz = \<lparr>rnCount = 0, rnMean = replicate sz (Fin 0), rnM2 = replicate sz (Fin 0), rnSize = sz\<rparr>"

definition Observe :: "f64 list \<Rightarrow> running_normalizer \<Rightarrow> running_normalizer" where
  "Observe x rn =
     (if length x \<noteq> rnSize rn then rn
      else let n = f_int (int (rnCount rn + 1));
               mean' = map (\<lambda>i. fadd (rnMean rn ! i) (fdiv (fsub (x ! i) (rnMean rn ! i)) n)) [0..<rnSize rn];
               m2' = map (\<lambda>i. fadd (rnM2 rn ! i) (fmul (fsub (x ! i) (rnMean rn ! i)) (fsub (x ! i) (mean' ! i)))) [0..<rnSize rn]
           in rn\<lparr>rnCount := rnCount rn + 1, rnMean := mean', rnM2 := m2'\<rparr>)"

definition NormalizeInPlace :: "f64 list \<Rightarrow> running_normalizer \<Rightarrow> f64 list" where
  "NormalizeInPlace x rn =
     (if rnCount rn < 2 then map (\<lambda>_. Fin 0) x
      else let n = f_int (int (rnCount rn))
           in map (\<lambda>i. if i < rnSize rn
                        then fdiv (fsub (x ! i) (rnMean rn ! i))
                          (fadd (fsqrt (fdiv (rnM2 rn ! i) (fsub n (Fin 1)))) (f_const (1 / 100000000)))
                        else x ! i) [0..<length x])"

definition Normalize :: "f64 list \<Rightarrow> running_normalizer \<Rightarrow> f64 list" where
  "Normalize x rn = NormalizeInPlace x rn"

lemma length_NormalizeInPlace [simp]: "length (NormalizeInPlace x rn) = length x"
  by (simp add: NormalizeInPlace_def Let_def)

lemma Observe_shape [simp]:
  "rnSize (Observe x rn) = rnSize rn"
  "length (rnMean rn) = rnSize rn \<Longrightarrow> length (rnMean (Observe x rn)) = rnSize rn"
  "length (rnM2 rn) = rnSize rn \<Longrightarrow> length (rnM2 (Observe x rn)) = rnSize rn"
  by (simp_all add: Observe_def Let_def)

text \<open>
  An ordinary observation: a finite value of moderate size, so that differences do not overflow. The
  mean then stays within the observed range, the two deviations of a step have the same sign,
  and the sum of squares is never negative.
\<close>

definition tame :: "f64 \<Rightarrow> bool" where
  "tame v = (case v of Fin q \<Rightarrow> fval q \<and> \<bar>q\<bar> \<le> 2 powi 1022 | _ \<Rightarrow> False)"

lemma tame_Fin [simp]: "tame (Fin q) \<longleftrightarrow> fval q \<and> \<bar>q\<bar> \<le> 2 powi 1022"
  by (simp add: tame_def)

lemma tameE:
  assumes "tame v"
  obtains q where "v = Fin q" "fval q" "\<bar>q\<bar> \<le> 2 powi 1022"
  using assms by (cases v) (auto simp: tame_def)

lemma tame_diff:
  assumes "\<bar>x\<bar> \<le> 2 powi 1022" and "\<bar>m\<bar> \<le> (2 powi 1022 :: rat)"
  shows "\<bar>x - m\<bar> \<le> 2 powi 1023"
proof -
  have "(2 powi 1023 :: rat) = 2 powi 1022 + 2 powi 1022" by simp
  with assms show ?thesis by linarith
qed

definition rn_ok :: "running_normalizer \<Rightarrow> bool" where
  "rn_ok rn \<longleftrightarrow> length (rnMean rn) = rnSize rn \<and> length (rnM2 rn) = rnSize rn \<and> rnCount rn < 2 ^ 63 \<and>
     list_all tame (rnMean rn) \<and> list_all (fle (Fin 0)) (rnM2 rn) \<and>
     (rnCount rn = 0 \<longrightarrow> list_all (\<lambda>m. m = Fin 0) (rnMean rn))"

lemma rn_ok_New: "rn_ok (NewRunningNormalizer sz)"
  by (simp add: rn_ok_def NewRunningNormalizer_def list_all_iff)

lemma welford_step:
  assumes "tame x" and "tame m" and "n = 1 \<and> m = Fin 0 \<or> 2 \<le> n" and "n < 2 ^ 63"
  shows "\<exists>m'. fadd m (fdiv (fsub x m) (f_int n)) = m' \<and> tame m' \<and> fle (Fin 0) (fmul (fsub x m) (fsub x m'))"
proof -
  obtain q where q: "x = Fin q" "fval q" "\<bar>q\<bar> \<le> 2 powi 1022" using assms(1) by (rule tameE)
  obtain p where p: "m = Fin p" "fval p" "\<bar>p\<bar> \<le> 2 powi 1022" using assms(2) by (rule tameE)
  from assms(3) show ?thesis
  proof (elim disjE conjE)
    assume "n = 1" "m = Fin 0"
    then show ?thesis using q by (simp add: f_int_def fsub_def fval_def)
  next
    assume "2 \<le> n"
    then have "step_count (f_int n)"
      using f_int_mono [of 2 n] rnd_numeral [of "num.Bit0 num.One"] by (simp add: step_count_def f_int_def)
    from mean_step [OF q(2) p(2) tame_diff [OF q(3) p(3)] this] obtain m' where
      m': "fadd (Fin p) (fdiv (fsub (Fin q) (Fin p)) (f_int n)) = Fin m'" "fval m'" "min p q \<le> m'" "m' \<le> max p q"
        "fle (Fin 0) (fmul (fsub (Fin q) (Fin p)) (fsub (Fin q) (Fin m')))" by blast
    have "\<bar>m'\<bar> \<le> 2 powi 1022" using m'(3,4) p(3) q(3) by linarith
    with m' show ?thesis by (simp add: p q)
  qed
qed

lemma fadd_nonneg: "fle (Fin 0) x \<Longrightarrow> fle (Fin 0) y \<Longrightarrow> fle (Fin 0) (fadd x y)"
  by (cases x; cases y) (auto simp: rnd_nonneg)

lemma rn_ok_Observe:
  assumes ok: "rn_ok rn" and x: "list_all tame x" and c: "rnCount rn + 1 < 2 ^ 63"
  shows "rn_ok (Observe x rn)"
proof (cases "length x = rnSize rn")
  case False
  then show ?thesis using ok by (simp add: Observe_def)
next
  case True
  let ?n = "int (rnCount rn + 1)"
  let ?m = "\<lambda>i. fadd (rnMean rn ! i) (fdiv (fsub (x ! i) (rnMean rn ! i)) (f_int ?n))"
  have step: "tame (?m i) \<and> fle (Fin 0) (fmul (fsub (x ! i) (rnMean rn ! i)) (fsub (x ! i) (?m i)))" if i: "i < rnSize rn" for i
  proof -
    have "tame (x ! i)" "tame (rnMean rn ! i)" using ok x True i by (auto simp: rn_ok_def list_all_length)
    moreover have "?n = 1 \<and> rnMean rn ! i = Fin 0 \<or> 2 \<le> ?n" using ok i by (auto simp: rn_ok_def list_all_length)
    moreover have "?n < 2 ^ 63" using c by simp
    ultimately show ?thesis using welford_step by blast
  qed
  have "fle (Fin 0) (rnM2 rn ! i)" if "i < rnSize rn" for i using ok that by (auto simp: rn_ok_def list_all_length)
  with step show ?thesis using ok c True
    by (simp add: rn_ok_def Observe_def Let_def list_all_iff fadd_nonneg)
qed

lemma rn_ok_fold:
  assumes "rn_ok rn" and "list_all (list_all tame) xs" and "rnCount rn + length xs < 2 ^ 63"
  shows "rn_ok (fold Observe xs rn)"
  using assms
proof (induction xs arbitrary: rn)
  case (Cons x xs)
  have "rnCount (Observe x rn) \<le> rnCount rn + 1" by (simp add: Observe_def Let_def)
  with Cons.prems have "rnCount (Observe x rn) + length xs < 2 ^ 63" by simp
  with Cons rn_ok_Observe [of rn x] show ?case by simp
qed simp

lemma norm_eps_pos: "\<exists>e. f_const (1 / 100000000) = Fin e \<and> 0 < e"
proof -
  have "fle (Fin (2 powi (- 30))) (rnd (1 / 100000000))" by (rule rnd_ge_powi) simp_all
  moreover obtain e where e: "rnd (1 / 100000000) = Fin e" using rnd_finite [of "1 / 100000000"] by auto
  ultimately have "2 powi (- 30) \<le> e" by simp
  then have "0 < e" by (rule less_le_trans [rotated]) simp
  with e show ?thesis by (simp add: f_const_def)
qed

text \<open>The denominator is positive, so the quotient is a number.\<close>

lemma normalized_coordinate:
  assumes "tame x" and "tame m" and "fle (Fin 0) s" and "2 \<le> n" and "n < 2 ^ 63"
  shows "fdiv (fsub x m) (fadd (fsqrt (fdiv s (fsub (f_int n) (Fin 1)))) (f_const (1 / 100000000))) \<noteq> NaN"
proof -
  obtain q where q: "x = Fin q" "\<bar>q\<bar> \<le> 2 powi 1022" using assms(1) by (rule tameE)
  obtain p where p: "m = Fin p" "\<bar>p\<bar> \<le> 2 powi 1022" using assms(2) by (rule tameE)
  obtain d where d: "fsub x m = Fin d" using rnd_finite [OF tame_diff [OF q(2) p(2)]] by (auto simp: fsub_def q p)
  obtain r where r: "f_int n = Fin r" using f_int_Fin [of n] assms(4,5) by auto
  have "2 \<le> r" using f_int_mono [of 2 n] rnd_numeral [of "num.Bit0 num.One"] r assms(4) by (simp add: f_int_def)
  then have "fle (Fin 1) (rnd (r - 1))" using rnd_mono [of 1 "r - 1"] by simp
  then have "fle (Fin 0) (fdiv s (rnd (r - 1))) \<or> fdiv s (rnd (r - 1)) = NaN \<and> rnd (r - 1) = Inf False"
    using assms(3) by (cases s; cases "rnd (r - 1)") (auto intro: rnd_nonneg)
  moreover have "\<exists>t. rnd (r - 1) = Fin t"
  proof -
    have "fle (rnd (r - 1)) (rnd r)" by (rule rnd_mono) simp
    moreover have "rnd r = Fin r" using fval_rnd [of "of_int n" r] r by (simp add: fval_def f_int_def)
    ultimately show ?thesis using \<open>fle (Fin 1) (rnd (r - 1))\<close> by (metis fle_Fin_between)
  qed
  ultimately have v: "fle (Fin 0) (fdiv s (fsub (f_int n) (Fin 1)))" by (auto simp: fsub_def r)
  obtain e where e: "f_const (1 / 100000000) = Fin e" "0 < e" using norm_eps_pos by blast
  have "fle (Fin e) (fadd (fsqrt (fdiv s (fsub (f_int n) (Fin 1)))) (Fin e))"
  proof (cases "fsqrt (fdiv s (fsub (f_int n) (Fin 1)))")
    case (Fin w)
    then have "0 \<le> w" using fsqrt_nonneg [OF v] by simp
    moreover have "rnd e = Fin e" using fval_rnd [of "1 / 100000000" e] e(1) by (simp add: fval_def f_const_def)
    ultimately show ?thesis using rnd_mono [of e "w + e"] Fin by simp
  qed (use fsqrt_nonneg [OF v] in auto)
  then show ?thesis using e d by (cases "fadd (fsqrt (fdiv s (fsub (f_int n) (Fin 1)))) (Fin e)") auto
qed

text \<open>
  C15: normalization is numerically sound: after any sequence of ordinary observations, in binary64 arithmetic
  with every rounding, the running sums of squares are not negative, and normalizing an ordinary
  vector gives no NaN in any coordinate.
\<close>

theorem Normalizer_no_NaN:
  assumes "list_all (list_all tame) xs" and "length xs < 2 ^ 63" and "list_all tame x"
    and "rn = fold Observe xs (NewRunningNormalizer sz)"
  shows "list_all (fle (Fin 0)) (rnM2 rn) \<and> NaN \<notin> set (NormalizeInPlace x rn)"
proof -
  have ok: "rn_ok rn" unfolding assms(4)
    using assms(1,2) by (intro rn_ok_fold rn_ok_New) (simp_all add: NewRunningNormalizer_def)
  have nn: "v \<noteq> NaN" if "tame v" for v using that by (auto simp: tame_def)
  have "NormalizeInPlace x rn ! i \<noteq> NaN" if i: "i < length x" for i
  proof (cases "rnCount rn < 2 \<or> rnSize rn \<le> i")
    case True
    then show ?thesis using assms(3) i nn by (auto simp: NormalizeInPlace_def Let_def list_all_length)
  next
    case False
    then have "tame (x ! i)" "tame (rnMean rn ! i)" "fle (Fin 0) (rnM2 rn ! i)" "2 \<le> int (rnCount rn)" "int (rnCount rn) < 2 ^ 63"
      using ok assms(3) i by (auto simp: rn_ok_def list_all_length)
    from normalized_coordinate [OF this] show ?thesis using False i by (simp add: NormalizeInPlace_def Let_def)
  qed
  then have "NaN \<notin> set (NormalizeInPlace x rn)" by (metis in_set_conv_nth length_NormalizeInPlace)
  with ok show ?thesis by (simp add: rn_ok_def)
qed

theorem Normalizer_no_NaN_witness:
  "NaN \<notin> set (NormalizeInPlace [Fin 7] (fold Observe [[Fin 1], [Fin 4]] (NewRunningNormalizer 1)))"
proof -
  have v: "fval (numeral k)" if "numeral k \<le> (2 :: int) ^ 53" for k using rnd_numeral [OF that] by (simp add: fval_def)
  have t: "tame (Fin 1)" "tame (Fin 4)" "tame (Fin 7)" using v by simp_all
  show ?thesis
    by (rule Normalizer_no_NaN [THEN conjunct2, OF _ _ _ refl]) (use t in \<open>simp_all del: tame_Fin\<close>)
qed

subsection \<open>Exploration noise\<close>

text \<open>
  The Ornstein-Uhlenbeck process; the normally distributed draws are an argument. The loop of \<^verbatim>\<open>pow\<close>
  halves its exponent.
\<close>

record ou_noise =
  ouMu :: f64
  ouTheta :: f64
  ouSigma0 :: f64
  ouSigma :: f64
  ouDecay :: f64
  ouFloor :: f64
  ouState :: "f64 list"
  ouStep :: nat

fun pow_loop :: "f64 \<Rightarrow> f64 \<Rightarrow> nat \<Rightarrow> f64" where
  "pow_loop result b e =
     (if e = 0 then result else pow_loop (if e mod 2 = 1 then fmul result b else result) (fmul b b) (e div 2))"

declare pow_loop.simps [simp del]

definition ou_pow :: "f64 \<Rightarrow> nat \<Rightarrow> f64" where
  "ou_pow base e = pow_loop (Fin 1) base e"

definition NewOUNoise :: "nat \<Rightarrow> f64 \<Rightarrow> f64 \<Rightarrow> f64 \<Rightarrow> ou_noise" where
  "NewOUNoise sz mu theta sigma =
     \<lparr>ouMu = mu, ouTheta = theta, ouSigma0 = sigma, ouSigma = sigma, ouDecay = Fin 1, ouFloor = Fin 0,
      ouState = replicate sz mu, ouStep = 0\<rparr>"

definition SetDecay :: "f64 \<Rightarrow> f64 \<Rightarrow> ou_noise \<Rightarrow> ou_noise" where
  "SetDecay decay lo ou = ou\<lparr>ouDecay := decay, ouFloor := lo\<rparr>"

definition ou_sigma :: "ou_noise \<Rightarrow> nat \<Rightarrow> f64" where
  "ou_sigma ou k = (let s = fmul (ouSigma0 ou) (ou_pow (ouDecay ou) k) in if flt s (ouFloor ou) then ouFloor ou else s)"

definition ou_Sample :: "(nat \<Rightarrow> f64) \<Rightarrow> ou_noise \<Rightarrow> f64 list \<times> ou_noise" where
  "ou_Sample normal ou =
     (let st = map (\<lambda>i. fadd (ouState ou ! i)
                 (fadd (fmul (ouTheta ou) (fsub (ouMu ou) (ouState ou ! i))) (fmul (ouSigma ou) (normal i)))) [0..<length (ouState ou)]
      in (st, ou\<lparr>ouState := st, ouStep := ouStep ou + 1,
                  ouSigma := (if flt (ouDecay ou) (Fin 1) then ou_sigma ou (ouStep ou + 1) else ouSigma ou)\<rparr>))"

definition ou_Reset :: "ou_noise \<Rightarrow> ou_noise" where
  "ou_Reset ou = ou\<lparr>ouState := map (\<lambda>_. ouMu ou) (ouState ou)\<rparr>"

definition unit_f64 :: "f64 \<Rightarrow> bool" where
  "unit_f64 x \<longleftrightarrow> fle (Fin 0) x \<and> fle x (Fin 1)"

lemma unit_fmul:
  assumes "unit_f64 x" and "unit_f64 y"
  shows "unit_f64 (fmul x y)"
proof -
  obtain a where a: "x = Fin a" "0 \<le> a" "a \<le> 1" using assms(1) unfolding unit_f64_def by (blast elim: fle_Fin_between)
  obtain b where b: "y = Fin b" "0 \<le> b" "b \<le> 1" using assms(2) unfolding unit_f64_def by (blast elim: fle_Fin_between)
  have "0 \<le> a * b" "a * b \<le> 1" using a b by (simp_all add: mult_le_one)
  then show ?thesis using rnd_nonneg rnd_mono [of "a * b" 1] by (simp add: unit_f64_def a b)
qed

lemma pow_loop_unit: "unit_f64 r \<Longrightarrow> unit_f64 b \<Longrightarrow> unit_f64 (pow_loop r b e)"
proof (induction r b e rule: pow_loop.induct)
  case (1 r b e)
  show ?case by (subst pow_loop.simps) (use 1 in \<open>auto simp: unit_fmul\<close>)
qed

text \<open>With a decay below 1 the deviation never exceeds its start and never falls below its floor.\<close>

lemma ou_sigma_bounds:
  assumes "unit_f64 (ouDecay ou)" and "ouSigma0 ou = Fin s" and "fval s" and "0 \<le> s" and "ouFloor ou = Fin l" and "l \<le> s"
  shows "fle (Fin l) (ou_sigma ou k) \<and> fle (ou_sigma ou k) (Fin s)"
proof -
  obtain a where a: "ou_pow (ouDecay ou) k = Fin a" "0 \<le> a" "a \<le> 1"
    using pow_loop_unit [of "Fin 1" "ouDecay ou" k] assms(1) unfolding ou_pow_def unit_f64_def by (force elim: fle_Fin_between)
  have "s * a \<le> s" using assms(4) a by (simp add: mult_left_le)
  then have "fle (rnd (s * a)) (Fin s)" using rnd_mono [of "s * a" s] assms(3) by (simp add: fval_def)
  then show ?thesis using assms(2,5,6) a
    by (cases "rnd (s * a)") (auto simp: ou_sigma_def Let_def flt_def)
qed

text \<open>Without rounding the loop computes the power.\<close>

lemma pow_loop_exact:
  assumes "\<And>k. k \<le> n \<Longrightarrow> fval (b ^ k)" and "j + 2 * m * e \<le> n"
  shows "pow_loop (Fin (b ^ j)) (Fin (b ^ m)) e = Fin (b ^ (j + m * e))"
  using assms(2)
proof (induction e arbitrary: j m rule: less_induct)
  case (less e)
  show ?case
  proof (cases "e = 0")
    case True
    then show ?thesis by (simp add: pow_loop.simps)
  next
    case False
    have e: "e = 2 * (e div 2) + e mod 2" by simp
    have bound: "(j + m * (e mod 2)) + 2 * (2 * m) * (e div 2) \<le> n"
    proof -
      have "2 * m * e = 2 * (2 * m) * (e div 2) + 2 * m * (e mod 2)"
        by (subst e) (simp only: distrib_left mult.assoc mult.left_commute mult.commute)
      then show ?thesis using less.prems by simp
    qed
    have "m \<le> m * e" "j + m \<le> n" "2 * m \<le> n" using less.prems False by (cases e; simp)+
    then have sq: "fmul (Fin (b ^ m)) (Fin (b ^ m)) = Fin (b ^ (2 * m))" and ml: "fmul (Fin (b ^ j)) (Fin (b ^ m)) = Fin (b ^ (j + m))"
      using assms(1) [of "2 * m"] assms(1) [of "j + m"] by (simp_all add: fval_def flip: power_add mult_2)
    have acc: "(if e mod 2 = 1 then fmul (Fin (b ^ j)) (Fin (b ^ m)) else Fin (b ^ j)) = Fin (b ^ (j + m * (e mod 2)))"
      unfolding ml by (cases "e mod 2 = 1") simp_all
    have "pow_loop (Fin (b ^ j)) (Fin (b ^ m)) e = pow_loop (Fin (b ^ (j + m * (e mod 2)))) (Fin (b ^ (2 * m))) (e div 2)"
      by (subst pow_loop.simps) (simp only: False acc sq if_False)
    also have "\<dots> = Fin (b ^ (j + m * (e mod 2) + 2 * m * (e div 2)))"
      by (rule less.IH [OF _ bound]) (use False in simp)
    also have "j + m * (e mod 2) + 2 * m * (e div 2) = j + m * e"
      by (subst (3) e) (simp only: distrib_left mult.assoc mult.left_commute mult.commute add.commute add.left_commute)
    finally show ?thesis .
  qed
qed

lemma ou_pow_exact: "(\<And>k. k \<le> 2 * e \<Longrightarrow> fval (b ^ k)) \<Longrightarrow> ou_pow (Fin b) e = Fin (b ^ e)"
  using pow_loop_exact [of "2 * e" b 0 1 e] by (simp add: ou_pow_def)

subsection \<open>Target network\<close>

text \<open>
  The variables of a network context as a list of names, trainable flags and values; those of the target
  context are found by name, the last one of that name if there were several. The case of
  64-bit variables is modelled: the networks are built over \<^verbatim>\<open>float64\<close> inputs. A target variable
  that is shorter than its source makes the update panic.
\<close>

record net_var =
  nvName :: string
  nvTrainable :: bool
  nvData :: "f64 list"

record target_network =
  tnTau :: f64
  tnSyncEvery :: int
  tnSteps :: int

definition WithTau :: "f64 \<Rightarrow> target_network \<Rightarrow> target_network" where
  "WithTau tau tn = tn\<lparr>tnTau := tau\<rparr>"

definition WithSyncEvery :: "int \<Rightarrow> target_network \<Rightarrow> target_network" where
  "WithSyncEvery n tn = tn\<lparr>tnSyncEvery := n\<rparr>"

definition NewTargetNetwork :: "net_var list \<Rightarrow> (target_network \<Rightarrow> target_network) list \<Rightarrow> target_network \<times> net_var list" where
  "NewTargetNetwork main_vars opts =
     (foldl (\<lambda>tn f. f tn) \<lparr>tnTau = f_const (5 / 1000), tnSyncEvery = 10, tnSteps = 0\<rparr> opts, filter nvTrainable main_vars)"

definition polyak :: "f64 \<Rightarrow> f64 list \<Rightarrow> f64 list \<Rightarrow> f64 list option" where
  "polyak tau m t =
     (if length t < length m then None
      else Some (map (\<lambda>i. if i < length m then fadd (fmul tau (m ! i)) (fmul (fsub (Fin 1) tau) (t ! i)) else t ! i) [0..<length t]))"

fun last_named :: "string \<Rightarrow> net_var list \<Rightarrow> nat \<Rightarrow> nat option \<Rightarrow> nat option" where
  "last_named n [] i r = r"
| "last_named n (v # vs) i r = last_named n vs (i + 1) (if nvName v = n then Some i else r)"

fun SoftUpdate :: "f64 \<Rightarrow> net_var list \<Rightarrow> net_var list \<Rightarrow> net_var list option" where
  "SoftUpdate tau [] tvs = Some tvs"
| "SoftUpdate tau (v # vs) tvs =
     (if \<not> nvTrainable v then SoftUpdate tau vs tvs
      else case last_named (nvName v) tvs 0 None of
        None \<Rightarrow> SoftUpdate tau vs tvs
      | Some i \<Rightarrow>
          (case polyak tau (nvData v) (nvData (tvs ! i)) of
             None \<Rightarrow> None
           | Some d \<Rightarrow> SoftUpdate tau vs (tvs[i := (tvs ! i)\<lparr>nvData := d\<rparr>])))"

definition tn_Step :: "('n \<Rightarrow> 'n option) \<Rightarrow> target_network \<Rightarrow> 'n \<Rightarrow> (target_network \<times> 'n) option" where
  "tn_Step soft tn tvs =
     (let k = tnSteps tn + 1; tn' = tn\<lparr>tnSteps := k\<rparr>
      in if tnSyncEvery tn = 0 then None
         else if k mod tnSyncEvery tn = 0 then map_option (\<lambda>t. (tn', t)) (soft tvs)
         else Some (tn', tvs))"

lemma last_named_Some:
  assumes "last_named n vs i r = Some k"
  shows "r = Some k \<or> i \<le> k \<and> k < i + length vs \<and> nvName (vs ! (k - i)) = n"
  using assms
proof (induction vs arbitrary: i r)
  case (Cons v vs)
  from Cons.IH [of "i + 1" "if nvName v = n then Some i else r"] Cons.prems show ?case
    by (auto simp: nth_Cons' Suc_le_eq split: if_splits)
qed simp

text \<open>
  A target cloned from the main network keeps its shape: with the same names in the same order
  and the same sizes, every update succeeds and changes the values only.
\<close>

definition same_shape :: "net_var list \<Rightarrow> net_var list \<Rightarrow> bool" where
  "same_shape vs ws \<longleftrightarrow> map nvName vs = map nvName ws \<and> map (length \<circ> nvData) vs = map (length \<circ> nvData) ws \<and>
     map nvTrainable vs = map nvTrainable ws"

lemma same_shape_refl [simp]: "same_shape vs vs"
  by (simp add: same_shape_def)

lemma SoftUpdate_shape:
  assumes "list_all (\<lambda>v. nvTrainable v \<longrightarrow> (\<forall>t \<in> set tvs. nvName t = nvName v \<longrightarrow> length (nvData v) = length (nvData t))) mvs"
  shows "\<exists>tvs'. SoftUpdate tau mvs tvs = Some tvs' \<and> same_shape tvs tvs'"
  using assms
proof (induction mvs arbitrary: tvs)
  case (Cons v vs)
  show ?case
  proof (cases "nvTrainable v \<and> last_named (nvName v) tvs 0 None \<noteq> None")
    case False
    then show ?thesis using Cons by auto
  next
    case True
    then obtain i where i: "last_named (nvName v) tvs 0 None = Some i" by blast
    with last_named_Some [OF i] have ib: "i < length tvs" "nvName (tvs ! i) = nvName v" by simp_all
    then have len: "length (nvData v) = length (nvData (tvs ! i))" using Cons.prems True by auto
    then obtain d where d: "polyak tau (nvData v) (nvData (tvs ! i)) = Some d" "length d = length (nvData (tvs ! i))"
      by (simp add: polyak_def)
    let ?t = "tvs[i := (tvs ! i)\<lparr>nvData := d\<rparr>]"
    have sh: "same_shape tvs ?t" using d(2) by (simp add: same_shape_def map_update_same)
    have pw: "map (\<lambda>t. (nvName t, length (nvData t))) tvs = map (\<lambda>t. (nvName t, length (nvData t))) ?t"
      using d(2) by (simp add: map_update_same)
    have "\<exists>t' \<in> set tvs. nvName t = nvName t' \<and> length (nvData t) = length (nvData t')" if "t \<in> set ?t" for t
    proof -
      have "(nvName t, length (nvData t)) \<in> set (map (\<lambda>t. (nvName t, length (nvData t))) tvs)" unfolding pw using that by auto
      then show ?thesis by auto
    qed
    then have "list_all (\<lambda>v. nvTrainable v \<longrightarrow> (\<forall>t \<in> set ?t. nvName t = nvName v \<longrightarrow> length (nvData v) = length (nvData t))) vs"
      using Cons.prems unfolding list_all_iff by (metis list.set_intros(2))
    from Cons.IH [OF this] sh True i d(1) show ?thesis by (auto simp: same_shape_def)
  qed
qed simp

end
