(* ===== verification/DQN.thy ===== *)
theory DQN
  imports NN Balancer
begin

text \<open>
  What the learning balancer (\<^verbatim>\<open>pkg/balancer/dqn.go\<close>) and the learning scheduler
  (\<^verbatim>\<open>pkg/scheduler/dqn.go\<close>) have in common: the choice of the best action, the padding of states
  and the temporal-difference update of one training step. The networks run in a library outside
  the repository: their state is a type variable and their operations are the record
  \<open>net_ops\<close>, of which the code relies on the sizes of the results (\<open>net_laws\<close>). A panic in a training
  step, for instance an index beyond a result that is too short, is the value \<open>None\<close>; it ends the
  training loop.
\<close>

record 'n net_ops =
  netForward :: "'n \<Rightarrow> f64 list \<Rightarrow> f64 list"
  netBestActions :: "'n \<Rightarrow> nat \<Rightarrow> f64 list \<Rightarrow> nat list"
  netTargetQ :: "'n \<Rightarrow> nat \<Rightarrow> f64 list \<Rightarrow> nat list \<Rightarrow> f64 list"
  netBatchQ :: "'n \<Rightarrow> nat \<Rightarrow> f64 list \<Rightarrow> f64 list \<Rightarrow> f64 list"
  netTrain :: "'n \<Rightarrow> nat \<Rightarrow> f64 list \<Rightarrow> f64 list \<Rightarrow> f64 list \<Rightarrow> f64 list \<Rightarrow> f64 list \<times> 'n"
  netSoftUpdate :: "'n \<Rightarrow> 'n option"

text \<open>One output per action, one value per row of a batch, and a target network of the shape of the main one.\<close>

definition net_laws :: "'n net_ops \<Rightarrow> nat \<Rightarrow> bool" where
  "net_laws N actions \<longleftrightarrow>
     (\<forall>n x. length (netForward N n x) = actions) \<and>
     (\<forall>n bs x a. length (netTargetQ N n bs x a) = bs) \<and>
     (\<forall>n bs x a. length (netBatchQ N n bs x a) = bs) \<and>
     (\<forall>n. netSoftUpdate N n \<noteq> None)"

subsection \<open>Best action and padding\<close>

fun argmax_loop :: "f64 list \<Rightarrow> nat \<Rightarrow> f64 list \<Rightarrow> nat \<Rightarrow> nat" where
  "argmax_loop s i [] best = best"
| "argmax_loop s i (x # xs) best = argmax_loop s (i + 1) xs (if flt (s ! best) x then i else best)"

definition argmax :: "f64 list \<Rightarrow> nat" where
  "argmax s = (if length s = 0 then 0 else argmax_loop s 1 (tl s) 0)"

definition padOrTrunc :: "nat \<Rightarrow> f64 list \<Rightarrow> f64 list" where
  "padOrTrunc n s = (if length s = n then s else slice_write 0 (take n s) (replicate n (Fin 0)))"

lemma length_padOrTrunc [simp]: "length (padOrTrunc n s) = n"
  by (simp add: padOrTrunc_def slice_write_def)

lemma argmax_loop_spec:
  assumes "s = pre @ xs" and "length pre = i" and "best < i" and "NaN \<notin> set s"
    and "\<forall>x \<in> set pre. fle x (s ! best)"
  shows "argmax_loop s i xs best < length s \<and> (\<forall>x \<in> set s. fle x (s ! argmax_loop s i xs best))"
  using assms
proof (induction xs arbitrary: i best pre)
  case Nil
  then show ?case by simp
next
  case (Cons x xs)
  let ?b = "if flt (s ! best) x then i else best"
  have x: "s ! i = x" using Cons.prems(1) nth_append_length [of pre x xs] by (simp add: Cons.prems(2))
  have mem: "x \<in> set s" "s ! best \<in> set s" using Cons.prems(1-3) by (simp, intro nth_mem, simp)
  then have nn: "x \<noteq> NaN" "s ! best \<noteq> NaN" using Cons.prems(4) by metis+
  have cmp: "fle (s ! best) (s ! ?b) \<and> fle x (s ! ?b)"
    using nn fle_refl [of x] fle_refl [of "s ! best"] fle_total [of x "s ! best"] by (simp add: flt_def x) blast
  have "\<forall>y \<in> set (pre @ [x]). fle y (s ! ?b)"
  proof
    fix y assume "y \<in> set (pre @ [x])"
    then have "y = x \<or> fle y (s ! best)" using Cons.prems(5) by auto
    then show "fle y (s ! ?b)" using cmp fle_trans by blast
  qed
  moreover have "s = (pre @ [x]) @ xs" "length (pre @ [x]) = i + 1" "?b < i + 1" using Cons.prems(1-3) by simp_all
  ultimately show ?case using Cons.IH [of "pre @ [x]" "i + 1" ?b] Cons.prems(4) by simp
qed

text \<open>The best action is an index of the vector, and on numbers it has a greatest value.\<close>

lemma argmax_range: "s \<noteq> [] \<Longrightarrow> argmax s < length s"
proof -
  have "argmax_loop s i xs best < length s" if "best < length s" "i + length xs \<le> length s" for i xs best
    using that by (induction xs arbitrary: i best) auto
  from this [of 0 1 "tl s"] show "s \<noteq> [] \<Longrightarrow> argmax s < length s" by (simp add: argmax_def Suc_leI)
qed

lemma argmax_greatest:
  assumes "s \<noteq> []" and "NaN \<notin> set s" and "x \<in> set s"
  shows "fle x (s ! argmax s)"
proof -
  obtain a t where s: "s = a # t" using assms(1) by (cases s) auto
  with assms argmax_loop_spec [of s "[a]" t 1 0] show ?thesis by (auto simp: argmax_def fle_refl)
qed

text \<open>Conversion to an integer truncates; what is out of range gives the least integer.\<close>

fun f_trunc :: "f64 \<Rightarrow> int" where
  "f_trunc (Fin q) =
     (let n = (if 0 \<le> q then \<lfloor>q\<rfloor> else \<lceil>q\<rceil>) in if n < - (2 ^ 63) \<or> n \<ge> 2 ^ 63 then - (2 ^ 63) else n)"
| "f_trunc _ = - (2 ^ 63)"

subsection \<open>One training step\<close>

definition first_action :: "transition \<Rightarrow> f64" where
  "first_action t = (case trAction t of [] \<Rightarrow> Fin 0 | a # _ \<Rightarrow> a)"

definition done_flag :: "transition \<Rightarrow> f64" where
  "done_flag t = (if trDone t then Fin 1 else Fin 0)"

definition td_targets :: "f64 \<Rightarrow> transition list \<Rightarrow> f64 list \<Rightarrow> f64 list" where
  "td_targets gamma batch maxNextQ =
     map (\<lambda>i. fadd (trReward (batch ! i)) (fmul (fmul gamma (maxNextQ ! i)) (fsub (Fin 1) (done_flag (batch ! i)))))
       [0..<length batch]"

fun update_priorities :: "nat list \<Rightarrow> f64 list \<Rightarrow> f64 list \<Rightarrow> nat \<Rightarrow> per_buffer \<Rightarrow> per_buffer" where
  "update_priorities [] targets currentQ i b = b"
| "update_priorities (idx # idxs) targets currentQ i b =
     update_priorities idxs targets currentQ (i + 1) (per_UpdatePriority (int idx) (fsub (targets ! i) (currentQ ! i)) b)"

definition td_update :: "'n net_ops \<Rightarrow> f64 \<Rightarrow> nat \<Rightarrow> transition list \<Rightarrow> nat list \<Rightarrow> f64 list \<Rightarrow>
    per_buffer \<Rightarrow> target_network \<Rightarrow> 'n \<Rightarrow> (f64 \<times> per_buffer \<times> target_network \<times> 'n) option" where
  "td_update N gamma sz batch indices ws replay tn net =
     (let bs = length batch;
          states = concat (map (\<lambda>t. padOrTrunc sz (trState t)) batch);
          nexts = concat (map (\<lambda>t. padOrTrunc sz (trNextState t)) batch);
          actions = map first_action batch;
          maxNextQ = netTargetQ N net bs nexts (netBestActions N net bs nexts);
          currentQ = netBatchQ N net bs states actions
      in if length maxNextQ < bs \<or> length currentQ < length indices \<or> bs < length indices then None
         else let targets = td_targets gamma batch maxNextQ;
                  (losses, net1) = netTrain N net bs states targets actions ws
              in case tn_Step (netSoftUpdate N) tn net1 of
                   None \<Rightarrow> None
                 | Some (tn', net2) \<Rightarrow>
                     Some (case losses of [] \<Rightarrow> Fin 0 | l # _ \<Rightarrow> l, update_priorities indices targets currentQ 0 replay, tn', net2))"

text \<open>The sizes of a buffer, which hold whatever its priorities are.\<close>

definition per_shape :: "per_buffer \<Rightarrow> bool" where
  "per_shape b \<longleftrightarrow> perTransitions b \<noteq> [] \<and> length (perPriorities b) = length (perTransitions b) \<and>
     perSize b = min (perWrite b) (Cap b)"

lemma per_ok_shape: "per_ok b \<Longrightarrow> per_shape b"
  by (simp add: per_ok_def per_shape_def)

lemma per_shape_Push: "per_shape b \<Longrightarrow> per_shape (per_Push t b)"
  by (auto simp: per_shape_def per_Push_def Let_def Cap_def min_def)

lemma per_shape_UpdatePriority [simp]: "per_shape (per_UpdatePriority idx td b) \<longleftrightarrow> per_shape b"
  by (simp add: per_shape_def per_UpdatePriority_def Let_def Cap_def)

lemma update_priorities_shape [simp]: "per_shape (update_priorities idxs ts qs i b) \<longleftrightarrow> per_shape b"
  by (induction idxs arbitrary: i b) simp_all

lemma per_Sample_shape:
  assumes "per_shape b" and "per_Sample pow rnd_draw n beta b = (batch, indices, ws)"
  shows "length batch = min n (perSize b) \<and> length indices = min n (perSize b) \<and> length ws = min n (perSize b) \<and>
    list_all (\<lambda>j. j < perSize b) indices"
proof (cases "perSize b = 0")
  case True
  then show ?thesis using assms(2) by (simp add: per_Sample_def)
next
  case False
  have len: "length (per_probs pow b) = perSize b" using assms(1) by (simp add: per_probs_def per_shape_def Cap_def)
  then have ne: "per_probs pow b \<noteq> []" using False by auto
  have "pick_idx r (per_probs pow b) (Fin 0) 0 0 < perSize b" for r
    using pick_idx_spec [OF ne refl, where cum = "Fin 0" and j = 0 and idx = 0] len by simp
  with False assms(2) show ?thesis by (auto simp: per_Sample_def Let_def list_all_iff min_def split: if_splits)
qed

lemma tn_Step_ok:
  assumes "\<And>n. soft n \<noteq> None" and "tnSyncEvery tn \<noteq> 0"
  obtains tn' net' where "tn_Step soft tn net = Some (tn', net')" "tnSyncEvery tn' = tnSyncEvery tn"
proof (cases "(tnSteps tn + 1) mod tnSyncEvery tn = 0")
  case True
  obtain net' where "soft net = Some net'" using assms(1) by blast
  with True assms(2) that show ?thesis by (simp add: tn_Step_def)
next
  case False
  with assms(2) that show ?thesis by (simp add: tn_Step_def)
qed

lemma td_update_ok:
  assumes "net_laws N k" and "tnSyncEvery tn \<noteq> 0" and "length indices \<le> length batch" and "per_shape replay"
  obtains l replay' tn' net' where "td_update N gamma sz batch indices ws replay tn net = Some (l, replay', tn', net')"
    "per_shape replay'" "tnSyncEvery tn' = tnSyncEvery tn"
proof -
  have soft: "netSoftUpdate N n \<noteq> None" for n using assms(1) by (simp add: net_laws_def)
  let ?bs = "length batch"
  let ?states = "concat (map (\<lambda>t. padOrTrunc sz (trState t)) batch)"
  let ?nexts = "concat (map (\<lambda>t. padOrTrunc sz (trNextState t)) batch)"
  let ?targets = "td_targets gamma batch (netTargetQ N net ?bs ?nexts (netBestActions N net ?bs ?nexts))"
  obtain losses net1 where tr: "netTrain N net ?bs ?states ?targets (map first_action batch) ws = (losses, net1)"
    by (cases "netTrain N net ?bs ?states ?targets (map first_action batch) ws")
  obtain tn' net' where st: "tn_Step (netSoftUpdate N) tn net1 = Some (tn', net')" "tnSyncEvery tn' = tnSyncEvery tn"
    using tn_Step_ok [OF soft assms(2)] .
  have "length (netTargetQ N net ?bs x a) = ?bs" "length (netBatchQ N net ?bs x y) = ?bs" for x a y
    using assms(1) by (simp_all add: net_laws_def)
  then show ?thesis using that [OF _ _ st(2)] assms(3,4) tr st(1) by (simp add: td_update_def Let_def)
qed

text \<open>A network that ignores its input, for the instances below.\<close>

definition flatNet :: "nat \<Rightarrow> unit net_ops" where
  "flatNet k = \<lparr>netForward = \<lambda>_ _. replicate k (Fin 0), netBestActions = \<lambda>_ bs _. replicate bs 0,
     netTargetQ = \<lambda>_ bs _ _. replicate bs (Fin 0), netBatchQ = \<lambda>_ bs _ _. replicate bs (Fin 0),
     netTrain = \<lambda>_ _ _ _ _ _. ([Fin 0], ()), netSoftUpdate = Some\<rparr>"

lemma flatNet_laws: "net_laws (flatNet k) k"
  by (simp add: net_laws_def flatNet_def)

end
