(* ===== verification/DQNScheduler.thy ===== *)
theory DQNScheduler
  imports Scheduler DQN "HOL-Library.Multiset"
begin

text \<open>
  The learning scheduler, \<^verbatim>\<open>pkg/scheduler/dqn.go\<close>. A consumer's \<^verbatim>\<open>Next\<close> pops the priority index with a
  threshold that the policy loop computes from the network, or with a random one; the metrics and the
  policy loop turn what happened into transitions, and the training loop consumes them. Each
  operation and each turn of a loop is a function on the record \<open>dqn_sched\<close>; the step relation
  \<open>ds_step\<close> interleaves them.

  The pointer to the index seen last is a flag: the contents of that index at the time of a tick are an
  argument. \<^verbatim>\<open>math.Log1p\<close> and \<^verbatim>\<open>math.Pow\<close> are arguments, as are the random draws. The lemmas show
  that every policy delivers every pending entry exactly once, and that the loops never panic.
\<close>

subsection \<open>State and construction\<close>

definition DefaultDQNSchedStateSize :: nat where "DefaultDQNSchedStateSize = MaxPriority * 2 + 3"
definition DefaultDQNSchedActions :: nat where "DefaultDQNSchedActions = MaxPriority"
definition DefaultDQNSchedEpsilon :: f64 where "DefaultDQNSchedEpsilon = f_const (5 / 100)"
definition DefaultDQNSchedGamma :: f64 where "DefaultDQNSchedGamma = f_const (9 / 10)"
definition DefaultDQNSchedReplayBufSize :: nat where "DefaultDQNSchedReplayBufSize = 50000"
definition DefaultDQNSchedBatchSize :: nat where "DefaultDQNSchedBatchSize = 32"
definition DefaultDQNSchedMinReplay :: nat where "DefaultDQNSchedMinReplay = 64"
definition DefaultDQNSchedThreshold :: int where "DefaultDQNSchedThreshold = 5"
definition DefaultDQNSchedTrainEvery :: nat where "DefaultDQNSchedTrainEvery = 4"
definition DefaultDQNSchedExpChSize :: nat where "DefaultDQNSchedExpChSize = 2048"
definition dqnSchedVelocityScale :: f64 where "dqnSchedVelocityScale = f_const 10000"
definition dqnSchedGrowthPenaltyW :: f64 where "dqnSchedGrowthPenaltyW = f_const (3 / 10)"
definition dqnSchedPriorityOrderBonus :: f64 where "dqnSchedPriorityOrderBonus = f_const (1 / 10)"
definition dqnSchedOverloadDepth :: int where "dqnSchedOverloadDepth = 1000"
definition dqnSchedExpertSeeds :: nat where "dqnSchedExpertSeeds = 200"
definition dqnSchedCrisisBufSize :: nat where "dqnSchedCrisisBufSize = 2000"
definition dqnSchedCrisisRatio :: f64 where "dqnSchedCrisisRatio = f_const (3 / 10)"

record sched_snap =
  ssState :: "f64 list"
  ssThreshold :: int

record 'n dqn_sched =
  dsStateSize :: nat
  dsNumActions :: nat
  dsEpsilon :: f64
  dsGamma :: f64
  dsBatchSize :: nat
  dsMinReplay :: nat
  dsTrainEvery :: nat
  dsNet :: 'n
  dsTargetNet :: target_network
  dsReplay :: per_buffer
  dsCrisis :: replay_buffer
  dsBeta :: beta_schedule
  dsNormalizer :: running_normalizer
  dsExpCh :: "transition list"
  dsLastState :: "f64 list"
  dsSeenIndex :: bool
  dsThreshold :: int
  dsCachedThreshold :: int
  dsPrevSnap :: "sched_snap option"
  dsCurrSnap :: "sched_snap option"
  dsLatencySums :: "u64 list"
  dsLatencyCounts :: "u64 list"
  dsPrevTotalDepth :: int
  dsPrevRewardDepth :: int
  dsProduceRate :: f64
  dsConsumeRate :: f64
  dsLastPolicyDepth :: int
  dsSteps :: nat

definition WithDQNSchedEpsilon :: "f64 \<Rightarrow> 'n dqn_sched \<Rightarrow> 'n dqn_sched" where
  "WithDQNSchedEpsilon e d = d\<lparr>dsEpsilon := e\<rparr>"

definition WithDQNSchedGamma :: "f64 \<Rightarrow> 'n dqn_sched \<Rightarrow> 'n dqn_sched" where
  "WithDQNSchedGamma g d = d\<lparr>dsGamma := g\<rparr>"

definition WithDQNSchedReplayBufSize :: "nat \<Rightarrow> 'n dqn_sched \<Rightarrow> 'n dqn_sched" where
  "WithDQNSchedReplayBufSize n d = d\<lparr>dsReplay := NewPrioritizedReplayBuffer n (f_const (6 / 10))\<rparr>"

definition WithDQNSchedBatchSize :: "nat \<Rightarrow> 'n dqn_sched \<Rightarrow> 'n dqn_sched" where
  "WithDQNSchedBatchSize n d = d\<lparr>dsBatchSize := n\<rparr>"

text \<open>An example the buffer starts with: a deep, growing queue and the lowest threshold. It takes three draws.\<close>

definition seed_state :: "nat \<Rightarrow> (nat \<Rightarrow> nat) \<Rightarrow> nat \<Rightarrow> f64 list" where
  "seed_state sz rnd_draw i =
     (let depthIdx = MaxPriority * 2;
          s0 = (replicate sz (Fin 0))[depthIdx := fadd (f_const (8 / 10)) (fmul (rand_f64 (rnd_draw (3 * i))) (f_const (2 / 10)))];
          s1 = s0[depthIdx + 1 := fadd (f_const (5 / 10)) (fmul (rand_f64 (rnd_draw (3 * i + 1))) (f_const (5 / 10)))]
      in s1[depthIdx + 2 := fadd (Fin 3) (fmul (rand_f64 (rnd_draw (3 * i + 2))) (Fin 2))])"

definition seed_transition :: "nat \<Rightarrow> (nat \<Rightarrow> nat) \<Rightarrow> nat \<Rightarrow> transition" where
  "seed_transition sz rnd_draw i =
     (let st = seed_state sz rnd_draw i
      in \<lparr>trState = st, trAction = [Fin 0], trReward = Fin 2,
          trNextState = st[MaxPriority * 2 := fmul (st ! (MaxPriority * 2)) (f_const (6 / 10))], trDone = False\<rparr>)"

definition seedExpertTransitions :: "(nat \<Rightarrow> nat) \<Rightarrow> 'n dqn_sched \<Rightarrow> 'n dqn_sched" where
  "seedExpertTransitions rnd_draw d =
     d\<lparr>dsReplay := foldl (\<lambda>b t. per_Push t b) (dsReplay d)
        (map (seed_transition (dsStateSize d) rnd_draw) [0..<dqnSchedExpertSeeds])\<rparr>"

definition NewDQNScheduler :: "'n \<Rightarrow> ('n dqn_sched \<Rightarrow> 'n dqn_sched) list \<Rightarrow> (nat \<Rightarrow> nat) \<Rightarrow> 'n dqn_sched option" where
  "NewDQNScheduler net opts rnd_draw =
     (let d = foldl (\<lambda>d f. f d)
        \<lparr>dsStateSize = DefaultDQNSchedStateSize, dsNumActions = DefaultDQNSchedActions, dsEpsilon = DefaultDQNSchedEpsilon,
         dsGamma = DefaultDQNSchedGamma, dsBatchSize = DefaultDQNSchedBatchSize, dsMinReplay = DefaultDQNSchedMinReplay,
         dsTrainEvery = DefaultDQNSchedTrainEvery, dsNet = net,
         dsTargetNet = \<lparr>tnTau = f_const (5 / 1000), tnSyncEvery = 10, tnSteps = 0\<rparr>,
         dsReplay = NewPrioritizedReplayBuffer DefaultDQNSchedReplayBufSize (f_const (6 / 10)),
         dsCrisis = NewReplayBuffer dqnSchedCrisisBufSize, dsBeta = NewBetaSchedule (Fin 0) (Fin 0) 0,
         dsNormalizer = NewRunningNormalizer 0, dsExpCh = [], dsLastState = [], dsSeenIndex = False,
         dsThreshold = DefaultDQNSchedThreshold, dsCachedThreshold = 0, dsPrevSnap = None, dsCurrSnap = None,
         dsLatencySums = replicate MaxPriority 0, dsLatencyCounts = replicate MaxPriority 0, dsPrevTotalDepth = 0,
         dsPrevRewardDepth = 0, dsProduceRate = Fin 0, dsConsumeRate = Fin 0, dsLastPolicyDepth = 0, dsSteps = 0\<rparr> opts
      in if dsBatchSize d = 0 then None
         else Some (seedExpertTransitions rnd_draw
           (d\<lparr>dsCachedThreshold := dsThreshold d,
              dsBeta := NewBetaSchedule (f_const (4 / 10)) (Fin 1) (int (DefaultDQNSchedReplayBufSize div dsBatchSize d)),
              dsNormalizer := NewRunningNormalizer (dsStateSize d)\<rparr>)))"

subsection \<open>Serving a consumer\<close>

definition count_latency :: "nat \<Rightarrow> u64 \<Rightarrow> 'n dqn_sched \<Rightarrow> 'n dqn_sched" where
  "count_latency level latencyNs d =
     d\<lparr>dsLatencySums := (dsLatencySums d)[level := dsLatencySums d ! level + latencyNs],
       dsLatencyCounts := (dsLatencyCounts d)[level := dsLatencyCounts d ! level + 1]\<rparr>"

definition ds_threshold :: "env \<Rightarrow> 'n dqn_sched \<Rightarrow> int" where
  "ds_threshold env d =
     (if flt (rand_f64 (draw env 0)) (dsEpsilon d) then int (IntN env 1 (dsNumActions d)) else dsCachedThreshold d)"

definition ds_Next :: "'w wal_ops \<Rightarrow> env \<Rightarrow> 'w partition \<Rightarrow> u64 \<Rightarrow> 'n dqn_sched \<Rightarrow>
    (err + message \<times> u64) \<times> 'w partition \<times> 'n dqn_sched" where
  "ds_Next W env p consumerOffset d =
     (case priorityIndex p of
        None \<Rightarrow> (Inl ErrNoPriorityIndex, p, d)
      | Some ix \<Rightarrow>
          (let d1 = d\<lparr>dsSeenIndex := True\<rparr>
           in case PopWithThreshold ix (ds_threshold env d1) of
                None \<Rightarrow> (Inl ErrPanic, p, d1)
              | Some ((entry, ok), ix') \<Rightarrow>
                  (let p1 = p\<lparr>priorityIndex := Some ix'\<rparr>
                   in if \<not> ok then (Inl ErrNoMessages, p1, d1)
                      else case Read W p1 (WalOffset entry) of
                             Inl e \<Rightarrow> (Inl e, p1, d1)
                           | Inr msg \<Rightarrow>
                               (let level = (if unat (Priority (Header msg)) \<ge> MaxPriority then MaxPriority - 1
                                             else unat (Priority (Header msg)))
                                in (Inr (msg, WalOffset entry), p1,
                                    count_latency level (word_of_int (clock env - ArrivedAt entry)) d1)))))"

subsection \<open>Metrics and reward\<close>

definition mean_latency :: "u64 list \<Rightarrow> u64 list \<Rightarrow> nat \<Rightarrow> f64" where
  "mean_latency lsums lcounts l = fdiv (fdiv (f_int (uint (lsums ! l))) (f_int (uint (lcounts ! l)))) (f_const 1000000000)"

definition latency_reward :: "u64 list \<Rightarrow> u64 list \<Rightarrow> f64" where
  "latency_reward lsums lcounts =
     (let (reward, totalWeight) = foldl (\<lambda>(r, w) l.
            if lcounts ! l = 0 then (r, w)
            else let weight = f_int (int (MaxPriority - l))
                 in (fsub r (fmul (mean_latency lsums lcounts l) weight), fadd w weight)) (Fin 0, Fin 0) [0..<MaxPriority]
      in if flt (Fin 0) totalWeight then fdiv reward totalWeight else reward)"

definition order_bonus :: "u64 list \<Rightarrow> u64 list \<Rightarrow> bool" where
  "order_bonus lsums lcounts =
     (let active = filter (\<lambda>l. lcounts ! l \<noteq> 0) [0..<MaxPriority]
      in active \<noteq> [] \<and> flt (mean_latency lsums lcounts (hd active)) (mean_latency lsums lcounts (last active)))"

definition computePerPriorityReward :: "(f64 \<Rightarrow> f64) \<Rightarrow> int \<Rightarrow> 'n dqn_sched \<Rightarrow> f64 \<times> 'n dqn_sched" where
  "computePerPriorityReward log1p depth d =
     (let lsums = dsLatencySums d; lcounts = dsLatencyCounts d;
          d1 = d\<lparr>dsLatencySums := replicate MaxPriority 0, dsLatencyCounts := replicate MaxPriority 0\<rparr>;
          r0 = latency_reward lsums lcounts;
          growth = f_int (depth - dsPrevRewardDepth d1);
          r1 = (if dsSeenIndex d1 \<and> flt (Fin 0) growth then fsub r0 (fmul dqnSchedGrowthPenaltyW (log1p growth)) else r0);
          d2 = (if dsSeenIndex d1 then d1\<lparr>dsPrevRewardDepth := depth\<rparr> else d1)
      in (if order_bonus lsums lcounts then fadd r1 dqnSchedPriorityOrderBonus else r1, d2))"

definition send_experience :: "transition \<Rightarrow> 'n dqn_sched \<Rightarrow> 'n dqn_sched" where
  "send_experience t d = (if length (dsExpCh d) < DefaultDQNSchedExpChSize then d\<lparr>dsExpCh := dsExpCh d @ [t]\<rparr> else d)"

definition ds_OnMetrics :: "(f64 \<Rightarrow> f64) \<Rightarrow> int \<Rightarrow> metrics \<Rightarrow> 'n dqn_sched \<Rightarrow> 'n dqn_sched" where
  "ds_OnMetrics log1p depth m d =
     (let d1 = d\<lparr>dsProduceRate := MsgRate (business m), dsConsumeRate := ConsumeRate (business m)\<rparr>
      in case (dsPrevSnap d1, dsCurrSnap d1) of
           (Some prev, Some cur) \<Rightarrow>
             (let (reward, d2) = computePerPriorityReward log1p depth d1
              in send_experience \<lparr>trState = ssState prev, trAction = [f_int (ssThreshold prev)], trReward = reward,
                   trNextState = ssState cur, trDone = False\<rparr> d2)
         | _ \<Rightarrow> d1)"

subsection \<open>The policy loop\<close>

definition build_coordinate :: "int list \<Rightarrow> 'n dqn_sched \<Rightarrow> nat \<Rightarrow> f64" where
  "build_coordinate ldist d i =
     (let lv = length ldist;
          totalDepth = sum_list (take (dsStateSize d) ldist)
      in if i < lv then f_int (ldist ! i)
         else if i < lv * 2 then
           (let cnt = dsLatencyCounts d ! (i - lv)
            in if cnt > 0 then mean_latency (dsLatencySums d) (dsLatencyCounts d) (i - lv) else Fin 0)
         else if i = lv * 2 then f_int totalDepth
         else if i = lv * 2 + 1 then fdiv (f_int (totalDepth - dsPrevTotalDepth d)) dqnSchedVelocityScale
         else if i = lv * 2 + 2 then
           (if flt (Fin 0) (dsConsumeRate d) then fdiv (dsProduceRate d) (dsConsumeRate d) else Fin 0)
         else Fin 0)"

definition buildState :: "pindex \<Rightarrow> 'n dqn_sched \<Rightarrow> f64 list \<times> 'n dqn_sched" where
  "buildState ix d =
     (let ldist = LevelDistribution ix;
          st = map (build_coordinate ldist d) [0..<dsStateSize d];
          d1 = d\<lparr>dsPrevTotalDepth := (if length ldist * 2 + 1 < dsStateSize d
                  then sum_list (take (dsStateSize d) ldist) else dsPrevTotalDepth d)\<rparr>;
          rn = Observe st (dsNormalizer d1)
      in (NormalizeInPlace st rn, d1\<lparr>dsNormalizer := rn\<rparr>))"

definition argmaxSched :: "f64 list \<Rightarrow> nat" where
  "argmaxSched s = argmax s"

definition policy_tick :: "'n net_ops \<Rightarrow> pindex \<Rightarrow> 'n dqn_sched \<Rightarrow> 'n dqn_sched" where
  "policy_tick N ix d =
     (if \<not> dsSeenIndex d then d
      else let (st, d1) = buildState ix d;
               threshold = int (argmaxSched (netForward N (dsNet d1) st));
               depth = Len ix;
               velocity = depth - dsLastPolicyDepth d1
           in d1\<lparr>dsLastState := st, dsCachedThreshold := threshold, dsThreshold := threshold,
                 dsPrevSnap := dsCurrSnap d1, dsCurrSnap := Some \<lparr>ssState = st, ssThreshold = threshold\<rparr>,
                 dsLastPolicyDepth := depth,
                 dsEpsilon := (if depth > dqnSchedOverloadDepth \<and> velocity > 0 then Fin 0 else DefaultDQNSchedEpsilon)\<rparr>)"

subsection \<open>The training loop\<close>

definition isOverloadTransition :: "transition \<Rightarrow> bool" where
  "isOverloadTransition t =
     (let depthIdx = MaxPriority * 2; velocityIdx = depthIdx + 1
      in if depthIdx \<ge> length (trState t) then False
         else let velocity = (if velocityIdx < length (trState t) then trState t ! velocityIdx else Fin 0)
              in flt (f_int dqnSchedOverloadDepth) (trState t ! depthIdx) \<and> flt (Fin 0) velocity)"

definition crisis_size :: "'n dqn_sched \<Rightarrow> int" where
  "crisis_size d = (if rp_Len (dsCrisis d) > 0 then f_trunc (fmul (f_int (int (dsBatchSize d))) dqnSchedCrisisRatio) else 0)"

definition ds_trainStep :: "'n net_ops \<Rightarrow> (f64 \<Rightarrow> f64 \<Rightarrow> f64) \<Rightarrow> (nat \<Rightarrow> nat) \<Rightarrow> (nat \<Rightarrow> nat) \<Rightarrow> 'n dqn_sched \<Rightarrow>
    (f64 \<times> 'n dqn_sched) option" where
  "ds_trainStep N pow rnd_draw crisis_draw d =
     (if perSize (dsReplay d) < dsMinReplay d then Some (Fin 0, d)
      else let crisisSize = crisis_size d;
               mainSize = int (dsBatchSize d) - crisisSize;
               (beta, sched) = bs_Next (dsBeta d);
               d1 = d\<lparr>dsBeta := sched\<rparr>
           in if crisisSize < 0 \<or> mainSize < 0 then None
              else case per_Sample pow rnd_draw (nat mainSize) beta (dsReplay d1) of
                (mainBatch, indices, isWeights) \<Rightarrow>
                  if int (length mainBatch) < mainSize then Some (Fin 0, d1)
                  else let crisisBatch = rp_Sample crisis_draw (nat crisisSize) (dsCrisis d1)
                       in case td_update N (dsGamma d1) (dsStateSize d1) (mainBatch @ crisisBatch) indices
                           (isWeights @ map (\<lambda>_. Fin 1) crisisBatch) (dsReplay d1) (dsTargetNet d1) (dsNet d1) of
                            None \<Rightarrow> None
                          | Some (loss, replay, tn, net) \<Rightarrow>
                              Some (loss, d1\<lparr>dsReplay := replay, dsTargetNet := tn, dsNet := net\<rparr>))"

definition train_tick :: "'n net_ops \<Rightarrow> (f64 \<Rightarrow> f64 \<Rightarrow> f64) \<Rightarrow> (nat \<Rightarrow> nat) \<Rightarrow> (nat \<Rightarrow> nat) \<Rightarrow> 'n dqn_sched \<Rightarrow>
    'n dqn_sched option" where
  "train_tick N pow rnd_draw crisis_draw d =
     (case dsExpCh d of
        [] \<Rightarrow> Some d
      | t # ts \<Rightarrow>
          (let d1 = d\<lparr>dsExpCh := ts, dsReplay := per_Push t (dsReplay d),
                dsCrisis := (if isOverloadTransition t then rp_Push t (dsCrisis d) else dsCrisis d),
                dsSteps := dsSteps d + 1\<rparr>
           in if dsTrainEvery d1 = 0 then None
              else if dsSteps d1 mod dsTrainEvery d1 = 0 then map_option snd (ds_trainStep N pow rnd_draw crisis_draw d1)
              else Some d1))"

definition ds_Stop :: "'n dqn_sched \<Rightarrow> 'n dqn_sched" where
  "ds_Stop d = d\<lparr>dsReplay := foldl (\<lambda>b t. per_Push t b) (dsReplay d) (dsExpCh d), dsExpCh := []\<rparr>"

definition DQNScheduler :: "'w wal_ops \<Rightarrow> ('w, 'n dqn_sched) sched_ops" where
  "DQNScheduler W = \<lparr>SchedNext = ds_Next W, Enqueue = \<lambda>msg off s. s, StopSched = Some ds_Stop\<rparr>"

subsection \<open>The invariant\<close>

definition ds_ok :: "'n dqn_sched \<Rightarrow> bool" where
  "ds_ok d \<longleftrightarrow> 0 < dsNumActions d \<and> 0 \<le> dsCachedThreshold d \<and> dsCachedThreshold d < int (dsNumActions d) \<and>
     per_shape (dsReplay d) \<and> rp_ok (dsCrisis d) \<and> length (dsLatencySums d) = MaxPriority \<and>
     length (dsLatencyCounts d) = MaxPriority \<and> 0 < dsTrainEvery d \<and> tnSyncEvery (dsTargetNet d) \<noteq> 0 \<and>
     length (dsExpCh d) \<le> DefaultDQNSchedExpChSize \<and> rnSize (dsNormalizer d) = dsStateSize d \<and>
     length (rnMean (dsNormalizer d)) = dsStateSize d \<and> length (rnM2 (dsNormalizer d)) = dsStateSize d \<and>
     dsBatchSize d \<le> 2 ^ 53"

lemma per_shape_pushes: "per_shape b \<Longrightarrow> per_shape (foldl (\<lambda>b t. per_Push t b) b ts)"
  by (induction ts arbitrary: b) (simp_all add: per_shape_Push)

lemma ds_ok_New:
  obtains d where "NewDQNScheduler net [] rnd_draw = Some d" "ds_ok d" "dsNumActions d = MaxPriority"
proof -
  have "per_shape (foldl (\<lambda>b t. per_Push t b) (NewPrioritizedReplayBuffer DefaultDQNSchedReplayBufSize a) ts)" for a ts
    by (intro per_shape_pushes per_ok_shape per_ok_New) (simp add: DefaultDQNSchedReplayBufSize_def)
  moreover have "rp_ok (NewReplayBuffer dqnSchedCrisisBufSize)"
    by (simp add: rp_ok_def NewReplayBuffer_def dqnSchedCrisisBufSize_def)
  ultimately show ?thesis
    by (intro that) (auto simp: NewDQNScheduler_def Let_def DefaultDQNSchedBatchSize_def seedExpertTransitions_def ds_ok_def
        DefaultDQNSchedActions_def DefaultDQNSchedThreshold_def MaxPriority_def DefaultDQNSchedTrainEvery_def NewRunningNormalizer_def)
qed

lemma ds_threshold_range: "ds_ok d \<Longrightarrow> 0 \<le> ds_threshold env d \<and> ds_threshold env d < int (dsNumActions d)"
  by (simp add: ds_threshold_def ds_ok_def)

lemma ds_ok_latency [simp]: "ds_ok (count_latency l ns d) \<longleftrightarrow> ds_ok d"
  by (simp add: ds_ok_def count_latency_def)

lemma ds_ok_seen [simp]: "ds_ok (d\<lparr>dsSeenIndex := b\<rparr>) \<longleftrightarrow> ds_ok d"
  by (simp add: ds_ok_def)

lemma ds_ok_OnMetrics:
  assumes "ds_ok d"
  shows "ds_ok (ds_OnMetrics log1p depth m d)"
  using assms by (auto simp: ds_OnMetrics_def Let_def computePerPriorityReward_def send_experience_def ds_ok_def split: option.split)

lemma ds_ok_policy_tick:
  assumes "net_laws N (dsNumActions d)" and "ds_ok d"
  shows "ds_ok (policy_tick N ix d) \<and> dsNumActions (policy_tick N ix d) = dsNumActions d"
proof -
  obtain st d1 where b: "buildState ix d = (st, d1)" by fastforce
  have d1: "ds_ok d1" "dsNumActions d1 = dsNumActions d"
    using b assms(2) by (auto simp: buildState_def Let_def ds_ok_def)
  have len: "length (netForward N (dsNet d1) st) = dsNumActions d" using assms(1) by (simp add: net_laws_def)
  then have "netForward N (dsNet d1) st \<noteq> []" using assms(2) by (auto simp: ds_ok_def)
  from argmax_range [OF this] len have "argmaxSched (netForward N (dsNet d1) st) < dsNumActions d"
    by (simp add: argmaxSched_def)
  with d1 b assms(2) show ?thesis by (simp add: policy_tick_def Let_def ds_ok_def)
qed

lemma crisis_size_range:
  assumes "dsBatchSize d \<le> 2 ^ 53"
  shows "0 \<le> crisis_size d \<and> crisis_size d \<le> int (dsBatchSize d)"
proof -
  let ?b = "int (dsBatchSize d)"
  have b: "f_int ?b = Fin (of_int ?b)" "?b \<le> 2 ^ 53" using rnd_int [of ?b] assms by (simp_all add: f_int_def)
  have "fle (Fin 0) (rnd (3 / 10))" "fle (rnd (3 / 10)) (Fin 1)"
    using rnd_nonneg [of "3 / 10"] rnd_mono [of "3 / 10" 1] by simp_all
  then obtain c where c: "rnd (3 / 10) = Fin c" "0 \<le> c" "c \<le> 1" by (rule fle_Fin_between)
  have "of_int ?b * c \<le> of_int ?b" using c by (simp add: mult_left_le)
  then have "fle (rnd (of_int ?b * c)) (Fin (of_int ?b))"
    using rnd_mono [of "of_int ?b * c" "of_int ?b"] b(1) by (simp add: f_int_def)
  moreover have "fle (Fin 0) (rnd (of_int ?b * c))" using c by (intro rnd_nonneg) simp
  ultimately obtain q where q: "rnd (of_int ?b * c) = Fin q" "0 \<le> q" "q \<le> of_int ?b" by (metis fle_Fin_between)
  have "0 \<le> \<lfloor>q\<rfloor>" "\<lfloor>q\<rfloor> \<le> ?b" using q floor_mono [OF q(3)] by simp_all
  then show ?thesis using b q by (simp add: crisis_size_def dqnSchedCrisisRatio_def f_const_def c Let_def)
qed

lemma ds_trainStep_ok:
  assumes "net_laws N k" and "ds_ok d"
  obtains l d' where "ds_trainStep N pow rnd_draw crisis_draw d = Some (l, d')" "ds_ok d'" "dsNumActions d' = dsNumActions d"
proof (cases "perSize (dsReplay d) < dsMinReplay d")
  case True
  then show ?thesis using that assms(2) by (simp add: ds_trainStep_def)
next
  case False
  have cs: "\<not> (crisis_size d < 0 \<or> int (dsBatchSize d) - crisis_size d < 0)"
    using crisis_size_range [of d] assms(2) by (simp add: ds_ok_def)
  obtain beta sched where bs: "bs_Next (dsBeta d) = (beta, sched)" by fastforce
  let ?d = "d\<lparr>dsBeta := sched\<rparr>" and ?main = "int (dsBatchSize d) - crisis_size d"
  have ok: "ds_ok ?d" using assms(2) by (simp add: ds_ok_def)
  obtain mainBatch indices ws where sm: "per_Sample pow rnd_draw (nat ?main) beta (dsReplay d) = (mainBatch, indices, ws)"
    by (metis prod_cases3)
  have len: "length indices = length mainBatch"
    using per_Sample_shape [OF _ sm] assms(2) by (simp add: ds_ok_def)
  show ?thesis
  proof (cases "int (length mainBatch) < ?main")
    case True
    then have "ds_trainStep N pow rnd_draw crisis_draw d = Some (Fin 0, ?d)"
      using cs False by (simp add: ds_trainStep_def bs sm Let_def)
    then show ?thesis using that ok by simp
  next
    case mb: False
    let ?crisis = "rp_Sample crisis_draw (nat (crisis_size d)) (dsCrisis d)"
    have "length indices \<le> length (mainBatch @ ?crisis)" using len by simp
    moreover have "tnSyncEvery (dsTargetNet d) \<noteq> 0" "per_shape (dsReplay d)" using assms(2) by (simp_all add: ds_ok_def)
    ultimately obtain l replay tn net where td:
      "td_update N (dsGamma d) (dsStateSize d) (mainBatch @ ?crisis) indices (ws @ map (\<lambda>_. Fin 1) ?crisis) (dsReplay d) (dsTargetNet d) (dsNet d) =
        Some (l, replay, tn, net)" "per_shape replay" "tnSyncEvery tn = tnSyncEvery (dsTargetNet d)"
      using td_update_ok [OF assms(1)] by metis
    have "ds_trainStep N pow rnd_draw crisis_draw d = Some (l, ?d\<lparr>dsReplay := replay, dsTargetNet := tn, dsNet := net\<rparr>)"
      using cs False mb td(1) by (simp add: ds_trainStep_def bs sm Let_def)
    moreover have "ds_ok (?d\<lparr>dsReplay := replay, dsTargetNet := tn, dsNet := net\<rparr>)"
      using assms(2) td(2,3) by (simp add: ds_ok_def)
    ultimately show ?thesis using that by simp
  qed
qed

lemma train_tick_ok:
  assumes "net_laws N k" and "ds_ok d"
  obtains d' where "train_tick N pow rnd_draw crisis_draw d = Some d'" "ds_ok d'" "dsNumActions d' = dsNumActions d"
proof (cases "dsExpCh d")
  case Nil
  then show ?thesis using that assms(2) by (simp add: train_tick_def)
next
  case (Cons t ts)
  let ?d = "d\<lparr>dsExpCh := ts, dsReplay := per_Push t (dsReplay d),
    dsCrisis := (if isOverloadTransition t then rp_Push t (dsCrisis d) else dsCrisis d), dsSteps := dsSteps d + 1\<rparr>"
  have ok: "ds_ok ?d" using assms(2) Cons by (simp add: ds_ok_def per_shape_Push rp_ok_Push)
  have te: "dsTrainEvery d \<noteq> 0" using assms(2) by (simp add: ds_ok_def)
  obtain l d' where tr: "ds_trainStep N pow rnd_draw crisis_draw ?d = Some (l, d')" "ds_ok d'" "dsNumActions d' = dsNumActions ?d"
    using ds_trainStep_ok [OF assms(1) ok] .
  show ?thesis
  proof (cases "Suc (dsSteps d) mod dsTrainEvery d = 0")
    case True
    then have "train_tick N pow rnd_draw crisis_draw d = Some d'" using Cons te tr(1) by (simp add: train_tick_def)
    then show ?thesis using that tr(2,3) by simp
  next
    case False
    then have "train_tick N pow rnd_draw crisis_draw d = Some ?d" using Cons te by (simp add: train_tick_def)
    then show ?thesis using that ok by simp
  qed
qed

subsection \<open>Serving a consumer is safe\<close>

text \<open>Whatever the threshold, a pop takes a head of some level, and fails only on an empty index.\<close>

lemma PopWithThreshold_delivers:
  assumes "pi_ok ix" and "0 \<le> t"
  shows "(\<exists>q e ix'. PopWithThreshold ix t = Some ((e, True), ix') \<and> pi_ok ix' \<and> delivers (level_items ix) q e (level_items ix')) \<or>
    PopWithThreshold ix t = Some ((zeroEntry, False), ix) \<and> (\<forall>q < MaxPriority. level_items ix q = [])"
  using pop_down_spec [OF assms(1), of "nat t"]
proof (elim disjE exE conjE)
  fix q e ix'
  assume "pop_levels (rev [nat t..<MaxPriority]) ix = ((e, True), ix')" "pi_ok ix'" "delivers (level_items ix) q e (level_items ix')"
  then show ?thesis by (intro disjI1 exI [of _ q] exI [of _ e] exI [of _ ix']) (simp add: PopWithThreshold_def)
next
  assume none: "\<forall>q. nat t \<le> q \<and> q < MaxPriority \<longrightarrow> level_items ix q = []"
    and pop: "pop_levels (rev [nat t..<MaxPriority]) ix = ((zeroEntry, False), ix)"
  have "level_items ix q = []" if "q < MaxPriority" "t \<le> int q" for q using none that assms(2) by auto
  from PopWithThreshold_below [OF assms this pop] show ?thesis by blast
qed

lemma ds_Next_pops:
  assumes "part_ok winv view p" and "priorityIndex p = Some ix" and "ds_ok d"
  shows "(\<exists>q e ix' d'. pi_ok ix' \<and> delivers (level_items ix) q e (level_items ix') \<and> ds_ok d' \<and> dsNumActions d' = dsNumActions d \<and>
      ds_Next W env p off d = (case Read W p (WalOffset e) of Inl x \<Rightarrow> Inl x | Inr m \<Rightarrow> Inr (m, WalOffset e),
        p\<lparr>priorityIndex := Some ix'\<rparr>, d')) \<or>
    (\<forall>q < MaxPriority. level_items ix q = []) \<and> ds_Next W env p off d = (Inl ErrNoMessages, p, d\<lparr>dsSeenIndex := True\<rparr>)"
proof -
  let ?d = "d\<lparr>dsSeenIndex := True\<rparr>"
  have pi: "pi_ok ix" using assms(1,2) by (simp add: part_ok_def)
  have t: "0 \<le> ds_threshold env ?d" using ds_threshold_range [of ?d env] assms(3) by simp
  from PopWithThreshold_delivers [OF pi t] show ?thesis
  proof (elim disjE exE conjE)
    fix q e ix'
    assume pop: "PopWithThreshold ix (ds_threshold env ?d) = Some ((e, True), ix')" "pi_ok ix'"
      and del: "delivers (level_items ix) q e (level_items ix')"
    show ?thesis
    proof (cases "Read W p (WalOffset e)")
      case (Inl x)
      then show ?thesis using pop del assms(2,3)
        by (intro disjI1 exI [of _ q] exI [of _ e] exI [of _ ix'] exI [of _ ?d]) (simp add: ds_Next_def)
    next
      case (Inr m)
      let ?l = "if unat (Priority (Header m)) \<ge> MaxPriority then MaxPriority - 1 else unat (Priority (Header m))"
      let ?d' = "count_latency ?l (word_of_int (clock env - ArrivedAt e)) ?d"
      from Inr show ?thesis using pop del assms(2,3)
        by (intro disjI1 exI [of _ q] exI [of _ e] exI [of _ ix'] exI [of _ ?d']) (simp add: ds_Next_def Let_def, simp add: count_latency_def)
    qed
  next
    assume "PopWithThreshold ix (ds_threshold env ?d) = Some ((zeroEntry, False), ix)" "\<forall>q < MaxPriority. level_items ix q = []"
    then show ?thesis using assms(2) by (simp add: ds_Next_def)
  qed
qed

lemma ds_Next_keeps:
  assumes "part_ok winv view p" and "ds_ok d" and "ds_Next W env p off d = (r, p', d')"
  shows "part_ok winv view p' \<and> ds_ok d' \<and> dsNumActions d' = dsNumActions d \<and> (\<exists>ix. p' = p\<lparr>priorityIndex := ix\<rparr>) \<and>
    (\<forall>m o'. r = Inr (m, o') \<longrightarrow> Read W p o' = Inr m)"
proof (cases "priorityIndex p")
  case None
  then have "p' = p\<lparr>priorityIndex := priorityIndex p\<rparr>" "d' = d" "r = Inl ErrNoPriorityIndex"
    using assms(3) by (simp_all add: ds_Next_def)
  then have "\<exists>ix. p' = p\<lparr>priorityIndex := ix\<rparr>" "p' = p" by (blast, simp)
  then show ?thesis using assms(1,2) \<open>d' = d\<close> \<open>r = _\<close> by simp
next
  case (Some ix)
  from ds_Next_pops [OF assms(1) Some assms(2), of W env off] show ?thesis
  proof (elim disjE exE conjE)
    fix q e ix' d1
    assume ix': "pi_ok ix'" and d1: "ds_ok d1" "dsNumActions d1 = dsNumActions d"
      and res: "ds_Next W env p off d = (case Read W p (WalOffset e) of Inl x \<Rightarrow> Inl x | Inr m \<Rightarrow> Inr (m, WalOffset e),
        p\<lparr>priorityIndex := Some ix'\<rparr>, d1)"
    have eqs: "p' = p\<lparr>priorityIndex := Some ix'\<rparr>" "d' = d1"
      "r = (case Read W p (WalOffset e) of Inl x \<Rightarrow> Inl x | Inr m \<Rightarrow> Inr (m, WalOffset e))"
      using assms(3) res by simp_all
    have "part_ok winv view p'" using assms(1) ix' by (simp add: part_ok_def eqs(1))
    moreover have "Read W p o' = Inr m" if "r = Inr (m, o')" for m o' using that by (simp add: eqs(3) split: sum.splits)
    ultimately show ?thesis using d1 eqs by blast
  next
    assume "ds_Next W env p off d = (Inl ErrNoMessages, p, d\<lparr>dsSeenIndex := True\<rparr>)"
    then have "p' = p\<lparr>priorityIndex := priorityIndex p\<rparr>" "d' = d\<lparr>dsSeenIndex := True\<rparr>" "r = Inl ErrNoMessages"
      using assms(3) by simp_all
    then have "\<exists>ix. p' = p\<lparr>priorityIndex := ix\<rparr>" "p' = p" by (blast, simp)
    then show ?thesis using assms(1,2) \<open>d' = _\<close> \<open>r = _\<close> by simp
  qed
qed

lemma dqn_scheduler: "scheduler (DQNScheduler W) W winv view ds_ok"
proof
  fix p p' :: "'a partition" and env off r and s s' :: "'b dqn_sched"
  assume "part_ok winv view p" "ds_ok s" "SchedNext (DQNScheduler W) env p off s = (r, p', s')"
  then show "part_ok winv view p' \<and> ds_ok s' \<and> (\<exists>ix. p' = p\<lparr>priorityIndex := ix\<rparr>)"
    using ds_Next_keeps [of winv view p s W env off r p' s'] by (simp add: DQNScheduler_def)
next
  fix p p' :: "'a partition" and env off m o' and s s' :: "'b dqn_sched"
  assume "part_ok winv view p" "ds_ok s" "SchedNext (DQNScheduler W) env p off s = (Inr (m, o'), p', s')"
  then show "\<exists>off'. Read W p off' = Inr m"
    using ds_Next_keeps [of winv view p s W env off "Inr (m, o')" p' s'] by (auto simp: DQNScheduler_def)
qed

interpretation dqn: scheduler "DQNScheduler W" W winv view ds_ok for W winv view
  by (rule dqn_scheduler)

lemma mset_drain_delivers:
  assumes "delivers L q e L'"
  shows "mset (drain_order L) = add_mset e (mset (drain_order L'))"
proof -
  have q: "q < MaxPriority" using delivers_head(1) [OF assms] .
  have L': "\<And>r. r \<noteq> q \<Longrightarrow> L' r = L r" and hd: "L q = e # L' q"
    using assms unfolding delivers_def by (metis fun_upd_other)+
  have eqs: "map L' (rev [Suc q..<MaxPriority]) = map L (rev [Suc q..<MaxPriority])" "map L' (rev [0..<q]) = map L (rev [0..<q])"
    by (rule map_cong; auto simp: L')+
  show ?thesis unfolding drain_order_split [OF q, of L] drain_order_split [OF q, of L'] eqs hd by simp
qed

subsection \<open>Interleaving with the loops\<close>

text \<open>
  One step of the scheduler: a consumer calls \<^verbatim>\<open>Next\<close> on some partition, metrics arrive, the policy
  ticker fires with some contents of the index, or the training loop takes an experience.
\<close>

inductive ds_step :: "'w wal_ops \<Rightarrow> ('w \<Rightarrow> bool) \<Rightarrow> ('w \<Rightarrow> wal_view) \<Rightarrow> 'n net_ops \<Rightarrow> (f64 \<Rightarrow> f64) \<Rightarrow> (f64 \<Rightarrow> f64 \<Rightarrow> f64) \<Rightarrow>
    'n dqn_sched \<Rightarrow> 'n dqn_sched \<Rightarrow> bool" for W winv view N log1p pow where
  serve: "part_ok winv view p \<Longrightarrow> ds_Next W env p off d = (r, p', d') \<Longrightarrow> ds_step W winv view N log1p pow d d'"
| metrics: "ds_step W winv view N log1p pow d (ds_OnMetrics log1p depth m d)"
| policy: "ds_step W winv view N log1p pow d (policy_tick N ix d)"
| train: "train_tick N pow rnd_draw crisis_draw d = Some d' \<Longrightarrow> ds_step W winv view N log1p pow d d'"

lemma OnMetrics_actions [simp]: "dsNumActions (ds_OnMetrics log1p depth m d) = dsNumActions d"
  by (auto simp: ds_OnMetrics_def Let_def computePerPriorityReward_def send_experience_def split: option.split)

lemma ds_step_ok:
  assumes "ds_step W winv view N log1p pow d d'" and "net_laws N (dsNumActions d)" and "ds_ok d"
  shows "ds_ok d' \<and> dsNumActions d' = dsNumActions d"
  using assms
proof (cases rule: ds_step.cases)
  case (serve p env off r p')
  then show ?thesis using ds_Next_keeps [OF serve(1) assms(3) serve(2)] by blast
next
  case (metrics depth m)
  then show ?thesis using ds_ok_OnMetrics [OF assms(3)] by simp
next
  case (policy ix)
  then show ?thesis using ds_ok_policy_tick [OF assms(2,3)] by simp
next
  case (train rnd_draw crisis_draw)
  obtain d'' where "train_tick N pow rnd_draw crisis_draw d = Some d''" "ds_ok d''" "dsNumActions d'' = dsNumActions d"
    using train_tick_ok [OF assms(2,3)] .
  with train show ?thesis by simp
qed

lemma ds_steps_ok:
  assumes "(ds_step W winv view N log1p pow)\<^sup>*\<^sup>* d d'" and "net_laws N (dsNumActions d)" and "ds_ok d"
  shows "ds_ok d' \<and> dsNumActions d' = dsNumActions d"
  using assms by (induction rule: rtranclp_induct) (auto dest: ds_step_ok)

text \<open>
  C12: the learning scheduler is safe whatever its networks compute: in every state reachable from its
  construction by consumers, metrics, policy ticks and training in any order, the threshold is a
  priority level, experience waiting for training stays within the channel, the next turn of the
  training loop does not panic, and a consumer of a well-formed partition gets a message
  from its log or an error, never a panic of the index.
\<close>

theorem DQNScheduler_safe:
  assumes "net_laws N MaxPriority" and "NewDQNScheduler net [] rnd_draw0 = Some d0"
    and "(ds_step W winv view N log1p pow)\<^sup>*\<^sup>* d0 d"
  shows "0 \<le> dsCachedThreshold d \<and> dsCachedThreshold d < int MaxPriority \<and> length (dsExpCh d) \<le> DefaultDQNSchedExpChSize \<and>
    train_tick N pow rnd_draw crisis_draw d \<noteq> None \<and>
    (part_ok winv view p \<longrightarrow> priorityIndex p = Some ix \<longrightarrow> PopWithThreshold ix (ds_threshold env d) \<noteq> None)"
proof -
  obtain d1 where "NewDQNScheduler net [] rnd_draw0 = Some d1" "ds_ok d1" "dsNumActions d1 = MaxPriority"
    using ds_ok_New .
  with assms(2) have d0: "ds_ok d0" "dsNumActions d0 = MaxPriority" by simp_all
  with ds_steps_ok [OF assms(3)] assms(1) have d: "ds_ok d" "dsNumActions d = MaxPriority" by simp_all
  obtain d' where "train_tick N pow rnd_draw crisis_draw d = Some d'" using train_tick_ok [OF assms(1) d(1)] .
  moreover have "PopWithThreshold ix (ds_threshold env d) \<noteq> None" if "part_ok winv view p" "priorityIndex p = Some ix"
    using PopWithThreshold_delivers [of ix "ds_threshold env d"] ds_threshold_range [OF d(1), of env] that by (auto simp: part_ok_def)
  ultimately show ?thesis using d by (simp add: ds_ok_def)
qed

theorem DQNScheduler_safe_witness:
  "\<exists>d0. NewDQNScheduler () [] (\<lambda>_. 0) = Some d0 \<and>
     train_tick (flatNet MaxPriority) (\<lambda>x y. x) (\<lambda>_. 0) (\<lambda>_. 0) (policy_tick (flatNet MaxPriority) (NewPriorityIndex 0) d0) \<noteq> None"
proof -
  obtain d0 :: "unit dqn_sched" where d0: "NewDQNScheduler () [] (\<lambda>_. 0) = Some d0" using ds_ok_New .
  have "(ds_step listWal lw_inv lw_view (flatNet MaxPriority) id (\<lambda>x y. x))\<^sup>*\<^sup>* d0
      (policy_tick (flatNet MaxPriority) (NewPriorityIndex 0) d0)"
    by (rule r_into_rtranclp) (rule ds_step.policy)
  from DQNScheduler_safe [OF flatNet_laws d0 this] d0 show ?thesis by blast
qed

text \<open>
  C13: no policy starves or repeats: as long as nothing is appended, from any state of the scheduler and with
  any draws, repeated \<^verbatim>\<open>Next\<close> calls deliver each pending entry exactly once, each with the
  message its offset has in the log, and then report that there is nothing left.
\<close>

theorem DQNScheduler_drains:
  assumes "part_ok winv view p" and "priorityIndex p = Some ix" and "ds_ok d"
    and "\<forall>e \<in> set (drain_order (level_items ix)). \<exists>m. Read W p (WalOffset e) = Inr m"
  shows "\<exists>es. mset es = mset (drain_order (level_items ix)) \<and>
    fst (sched_run (DQNScheduler W) envs (length (drain_order (level_items ix)) + 1) p off d) =
      map (\<lambda>e. Inr (projr (Read W p (WalOffset e)), WalOffset e)) es @ [Inl ErrNoMessages]"
  using assms
proof (induction "length (drain_order (level_items ix))" arbitrary: envs p ix off d)
  case 0
  then have nil: "drain_order (level_items ix) = []" by simp
  have "\<not> delivers (level_items ix) q e L" for q e L using nil delivers_head [of "level_items ix" q e L] by (auto simp: drain_order_def)
  with ds_Next_pops [OF 0(2-4), of W "envs 0" off]
  have "ds_Next W (envs 0) p off d = (Inl ErrNoMessages, p, d\<lparr>dsSeenIndex := True\<rparr>)" by blast
  then show ?case by (simp add: nil DQNScheduler_def)
next
  case (Suc n)
  then have "drain_order (level_items ix) \<noteq> []" by force
  then have "\<not> (\<forall>q < MaxPriority. level_items ix q = [])" by (auto simp: drain_order_def)
  with ds_Next_pops [OF Suc.prems(1-3), of W "envs 0" off] obtain q e ix' d' where
    ix': "pi_ok ix'" "delivers (level_items ix) q e (level_items ix')" and d': "ds_ok d'"
    and step: "ds_Next W (envs 0) p off d = (case Read W p (WalOffset e) of Inl x \<Rightarrow> Inl x | Inr m \<Rightarrow> Inr (m, WalOffset e),
        p\<lparr>priorityIndex := Some ix'\<rparr>, d')" by blast
  let ?p = "p\<lparr>priorityIndex := Some ix'\<rparr>"
  have ms: "mset (drain_order (level_items ix)) = add_mset e (mset (drain_order (level_items ix')))"
    using mset_drain_delivers [OF ix'(2)] .
  then have sz: "n = length (drain_order (level_items ix'))" using Suc.hyps(2) by (metis size_add_mset size_mset nat.inject)
  have sub: "set (drain_order (level_items ix)) = insert e (set (drain_order (level_items ix')))"
    using ms by (metis set_mset_add_mset_insert set_mset_mset)
  then obtain m where m: "Read W p (WalOffset e) = Inr m" using Suc.prems(4) by auto
  have rd: "\<forall>e \<in> set (drain_order (level_items ix')). \<exists>m. Read W p (WalOffset e) = Inr m" using Suc.prems(4) sub by blast
  have ok: "part_ok winv view ?p" "priorityIndex ?p = Some ix'" using Suc.prems(1) ix'(1) by (simp_all add: part_ok_def)
  from Suc.hyps(1) [OF sz ok d', of "envs \<circ> Suc" "WalOffset e"] rd obtain es where
    es: "mset es = mset (drain_order (level_items ix'))"
      "fst (sched_run (DQNScheduler W) (envs \<circ> Suc) (n + 1) ?p (WalOffset e) d') =
        map (\<lambda>e. Inr (projr (Read W p (WalOffset e)), WalOffset e)) es @ [Inl ErrNoMessages]"
    by (auto simp only: sz Read_index)
  have "fst (sched_run (DQNScheduler W) envs (Suc k) p off d) =
      Inr (m, WalOffset e) # fst (sched_run (DQNScheduler W) (envs \<circ> Suc) k ?p (WalOffset e) d')" for k
    using step m by (simp add: DQNScheduler_def split: prod.split)
  from this [of "n + 1"] es m ms Suc.hyps(2) show ?case
    by (intro exI [of _ "e # es"]) (simp del: sched_run.simps)
qed

theorem DQNScheduler_drains_witness:
  "\<exists>d offs. NewDQNScheduler () [] (\<lambda>_. 0) = Some d \<and> mset offs = {#1, 2, 3#} \<and>
     map (map_sum id snd) (fst (sched_run (DQNScheduler listWal) (\<lambda>_. \<lparr>draw = \<lambda>_. 0, clock = 0\<rparr>) 4 samplePending 1 d)) =
       map Inr offs @ [Inl ErrNoMessages]"
proof -
  obtain d :: "unit dqn_sched" where d: "NewDQNScheduler () [] (\<lambda>_. 0) = Some d" "ds_ok d" using ds_ok_New .
  obtain ix where ix: "priorityIndex samplePending = Some ix" "map WalOffset (drain_order (level_items ix)) = [2, 1, 3]"
    "\<forall>e \<in> set (drain_order (level_items ix)). \<exists>m. Read listWal samplePending (WalOffset e) = Inr m"
    by (rule samplePending_index)
  from DQNScheduler_drains [OF samplePending_ok ix(1) d(2) ix(3), of "\<lambda>_. \<lparr>draw = \<lambda>_. 0, clock = 0\<rparr>" 1] obtain es where
    es: "mset es = mset (drain_order (level_items ix))"
      "fst (sched_run (DQNScheduler listWal) (\<lambda>_. \<lparr>draw = \<lambda>_. 0, clock = 0\<rparr>) (length (map WalOffset (drain_order (level_items ix))) + 1)
        samplePending 1 d) = map (\<lambda>e. Inr (projr (Read listWal samplePending (WalOffset e)), WalOffset e)) es @ [Inl ErrNoMessages]"
    by auto
  have "mset (map WalOffset es) = mset [2, 1, 3]" unfolding ix(2) [symmetric] by (simp add: es(1))
  moreover have "map (map_sum id snd) (fst (sched_run (DQNScheduler listWal) (\<lambda>_. \<lparr>draw = \<lambda>_. 0, clock = 0\<rparr>) 4 samplePending 1 d)) =
      map Inr (map WalOffset es) @ [Inl ErrNoMessages]"
    using es(2) unfolding ix(2) by (simp add: numeral_eq_Suc del: sched_run.simps)
  ultimately show ?thesis using d(1) by (intro exI [of _ d] exI [of _ "map WalOffset es"]) (simp add: add_mset_commute)
qed

end
