(* ===== verification/DQNBalancer.thy ===== *)
theory DQNBalancer
  imports DQN "HOL-Library.Sublist"
begin

text \<open>
  The learning balancer, \<^verbatim>\<open>pkg/balancer/dqn.go\<close>. A selection takes the partition with the greatest cached
  value, a random one with the exploration probability, or falls back to round robin; metrics
  drive the fallback with hysteresis and produce transitions; the policy loop refreshes the cached values
  and the training loop consumes the transitions. As for the scheduler, operations and turns of the
  loops are functions on the record \<open>dqn_bal\<close>. The statistics of gonum and \<^verbatim>\<open>math.Log1p\<close> are the
  argument \<open>math_ops\<close>.

  The lemmas show that the balancer meets the balancer interface, that its loops do not panic,
  and exactly when the fallback is active.
\<close>

definition DefaultDQNEpsilon :: f64 where "DefaultDQNEpsilon = f_const (5 / 100)"
definition DefaultDQNGamma :: f64 where "DefaultDQNGamma = f_const (9 / 10)"
definition DefaultDQNReplayBufSize :: nat where "DefaultDQNReplayBufSize = 50000"
definition DefaultDQNBatchSize :: nat where "DefaultDQNBatchSize = 32"
definition DefaultDQNMinReplay :: nat where "DefaultDQNMinReplay = 64"
definition DefaultDQNTrainEvery :: nat where "DefaultDQNTrainEvery = 4"
definition DefaultDQNFallbackRatio :: f64 where "DefaultDQNFallbackRatio = f_const (8 / 10)"
definition DefaultDQNLoadThreshold :: f64 where "DefaultDQNLoadThreshold = f_const (75 / 100)"
definition DefaultDQNExpChannelSize :: nat where "DefaultDQNExpChannelSize = 4096"
definition dqnThroughputScale :: f64 where "dqnThroughputScale = f_const 10000"
definition dqnMaxThroughput :: f64 where "dqnMaxThroughput = f_const 300000"
definition dqnOverloadThreshold :: f64 where "dqnOverloadThreshold = f_const (7 / 10)"
definition dqnBaseBalanceWeight :: f64 where "dqnBaseBalanceWeight = f_const (5 / 10)"
definition dqnMsgRateScale :: f64 where "dqnMsgRateScale = f_const 100000"
definition dqnMsgSizeScale :: f64 where "dqnMsgSizeScale = f_const 1024"
definition dqnInflightScale :: f64 where "dqnInflightScale = f_const 10000"
definition dqnNormalRateThreshold :: f64 where "dqnNormalRateThreshold = f_const 10000"
definition dqnDepthSoftCap :: f64 where "dqnDepthSoftCap = f_const 100000"
definition dqnDepthWeight :: f64 where "dqnDepthWeight = f_const (3 / 10)"
definition fallbackEnterTicks :: nat where "fallbackEnterTicks = 3"
definition fallbackExitTicks :: nat where "fallbackExitTicks = 10"

record math_ops =
  statMean :: "f64 list \<Rightarrow> f64"
  statStdDev :: "f64 list \<Rightarrow> f64"
  Log1p :: "f64 \<Rightarrow> f64"

definition dqnThroughputLogNorm :: "math_ops \<Rightarrow> f64" where
  "dqnThroughputLogNorm M = Log1p M (fdiv dqnMaxThroughput dqnThroughputScale)"

record policy_snap =
  psState :: "f64 list"
  psAction :: nat
  psGen :: int

record 'n dqn_bal =
  dbNumPartitions :: nat
  dbEpsilon :: f64
  dbGamma :: f64
  dbBatchSize :: nat
  dbMinReplay :: nat
  dbTrainEvery :: nat
  dbNet :: 'n
  dbTargetNet :: target_network
  dbStateSize :: nat
  dbReplay :: per_buffer
  dbBeta :: beta_schedule
  dbNormalizer :: running_normalizer
  dbExpCh :: "transition list"
  dbFallbackRR :: round_robin
  dbFallbackRatio :: f64
  dbLoadThreshold :: f64
  dbBaseThroughput :: i64
  dbFallbackActive :: bool
  dbEpsilonSuppressed :: bool
  dbAdaptiveEpsilon :: f64
  dbLoads :: "f64 list"
  dbPredictedLoads :: "f64 list"
  dbMsgRate :: f64
  dbAvgMsgSize :: f64
  dbDroppedExperience :: int
  dbInflight :: "int list option"
  dbCachedQ :: "f64 list option"
  dbPrevSnap :: "policy_snap option"
  dbCurrSnap :: "policy_snap option"
  dbSnapGen :: int
  dbLastProcessedGen :: int
  dbFallbackTicks :: nat
  dbRecoveryTicks :: nat
  dbSteps :: nat

definition WithDQNEpsilon :: "f64 \<Rightarrow> 'n dqn_bal \<Rightarrow> 'n dqn_bal" where
  "WithDQNEpsilon e d = d\<lparr>dbEpsilon := e\<rparr>"
definition WithDQNGamma :: "f64 \<Rightarrow> 'n dqn_bal \<Rightarrow> 'n dqn_bal" where
  "WithDQNGamma g d = d\<lparr>dbGamma := g\<rparr>"
definition WithDQNReplayBufSize :: "nat \<Rightarrow> 'n dqn_bal \<Rightarrow> 'n dqn_bal" where
  "WithDQNReplayBufSize n d = d\<lparr>dbReplay := NewPrioritizedReplayBuffer n (f_const (6 / 10))\<rparr>"
definition WithDQNBatchSize :: "nat \<Rightarrow> 'n dqn_bal \<Rightarrow> 'n dqn_bal" where
  "WithDQNBatchSize n d = d\<lparr>dbBatchSize := n\<rparr>"
definition WithDQNMinReplay :: "nat \<Rightarrow> 'n dqn_bal \<Rightarrow> 'n dqn_bal" where
  "WithDQNMinReplay n d = d\<lparr>dbMinReplay := n\<rparr>"
definition WithDQNFallbackRatio :: "f64 \<Rightarrow> 'n dqn_bal \<Rightarrow> 'n dqn_bal" where
  "WithDQNFallbackRatio r d = d\<lparr>dbFallbackRatio := r\<rparr>"
definition WithDQNLoadThreshold :: "f64 \<Rightarrow> 'n dqn_bal \<Rightarrow> 'n dqn_bal" where
  "WithDQNLoadThreshold t d = d\<lparr>dbLoadThreshold := t\<rparr>"
definition WithDQNTrainEvery :: "nat \<Rightarrow> 'n dqn_bal \<Rightarrow> 'n dqn_bal" where
  "WithDQNTrainEvery n d = d\<lparr>dbTrainEvery := n\<rparr>"

definition NewDQNBalancer :: "'n \<Rightarrow> nat \<Rightarrow> ('n dqn_bal \<Rightarrow> 'n dqn_bal) list \<Rightarrow> 'n dqn_bal option" where
  "NewDQNBalancer net n opts =
     (let d = foldl (\<lambda>d f. f d)
        \<lparr>dbNumPartitions = n, dbEpsilon = DefaultDQNEpsilon, dbGamma = DefaultDQNGamma, dbBatchSize = DefaultDQNBatchSize,
         dbMinReplay = DefaultDQNMinReplay, dbTrainEvery = DefaultDQNTrainEvery, dbNet = net,
         dbTargetNet = \<lparr>tnTau = f_const (5 / 1000), tnSyncEvery = 10, tnSteps = 0\<rparr>, dbStateSize = 0,
         dbReplay = NewPrioritizedReplayBuffer DefaultDQNReplayBufSize (f_const (6 / 10)),
         dbBeta = NewBetaSchedule (Fin 0) (Fin 0) 0, dbNormalizer = NewRunningNormalizer 0, dbExpCh = [],
         dbFallbackRR = NewRoundRobin [], dbFallbackRatio = DefaultDQNFallbackRatio, dbLoadThreshold = DefaultDQNLoadThreshold,
         dbBaseThroughput = 0, dbFallbackActive = False, dbEpsilonSuppressed = False, dbAdaptiveEpsilon = Fin 0,
         dbLoads = replicate n (Fin 0), dbPredictedLoads = replicate n (Fin 0), dbMsgRate = Fin 0, dbAvgMsgSize = Fin 0,
         dbDroppedExperience = 0, dbInflight = None, dbCachedQ = None, dbPrevSnap = None, dbCurrSnap = None, dbSnapGen = 0,
         dbLastProcessedGen = 0, dbFallbackTicks = 0, dbRecoveryTicks = 0, dbSteps = 0\<rparr> opts
      in if dbBatchSize d = 0 then None
         else Some (d\<lparr>dbStateSize := n * 3 + 2, dbAdaptiveEpsilon := dbEpsilon d,
           dbBeta := NewBetaSchedule (f_const (4 / 10)) (Fin 1) (int (DefaultDQNReplayBufSize div dbBatchSize d)),
           dbNormalizer := NewRunningNormalizer (n * 3 + 2)\<rparr>))"

subsection \<open>Selection\<close>

definition db_ensureInflight :: "nat \<Rightarrow> 'n dqn_bal \<Rightarrow> 'n dqn_bal" where
  "db_ensureInflight n d =
     (case dbInflight d of
        Some arr \<Rightarrow> if n \<le> length arr then d else d\<lparr>dbInflight := Some (replicate n 0)\<rparr>
      | None \<Rightarrow> d\<lparr>dbInflight := Some (replicate n 0)\<rparr>)"

definition db_add_inflight :: "nat \<Rightarrow> int \<Rightarrow> 'n dqn_bal \<Rightarrow> 'n dqn_bal" where
  "db_add_inflight i k d = d\<lparr>dbInflight := map_option (bump k i) (dbInflight d)\<rparr>"

definition db_fallback :: "env \<Rightarrow> string \<Rightarrow> bytes \<Rightarrow> nat \<Rightarrow> 'n dqn_bal \<Rightarrow> nat \<times> 'n dqn_bal" where
  "db_fallback env topic key n d =
     (let (idx, rr) = rr_SelectPartition env topic key n (dbFallbackRR d)
      in (idx, db_add_inflight idx 1 (d\<lparr>dbFallbackRR := rr\<rparr>)))"

definition db_SelectPartition :: "env \<Rightarrow> string \<Rightarrow> bytes \<Rightarrow> nat \<Rightarrow> 'n dqn_bal \<Rightarrow> nat \<times> 'n dqn_bal" where
  "db_SelectPartition env topic key n d0 =
     (let d = db_ensureInflight n d0
      in if dbFallbackActive d then db_fallback env topic key n d
         else if \<not> dbEpsilonSuppressed d \<and> flt (rand_f64 (draw env 0)) (dbAdaptiveEpsilon d)
         then (let idx = IntN env 1 n in (idx, db_add_inflight idx 1 d))
         else case dbCachedQ d of
                Some cached \<Rightarrow>
                  if length cached \<ge> n then (let idx = argmax (take n cached) in (idx, db_add_inflight idx 1 d))
                  else db_fallback env topic key n d
              | None \<Rightarrow> db_fallback env topic key n d)"

definition db_OnPublishComplete :: "nat \<Rightarrow> 'n dqn_bal \<Rightarrow> 'n dqn_bal" where
  "db_OnPublishComplete part d =
     (case dbInflight d of
        Some arr \<Rightarrow> if part < length arr then db_add_inflight part (- 1) d else d
      | None \<Rightarrow> d)"

subsection \<open>Metrics\<close>

text \<open>The difference of the two balance weights, 0.95 and 0.5, is a constant expression and therefore exact.\<close>

definition computeReward :: "math_ops \<Rightarrow> metrics \<Rightarrow> f64" where
  "computeReward M m =
     (let loads = PartitionLoads (derived m)
      in if loads = [] then Fin 0
         else let meanLoad = statMean M loads;
                  balancePenalty = (if flt (Fin 0) meanLoad
                    then fneg (fmin (fdiv (statStdDev M loads) meanLoad) (Fin 1)) else Fin 0);
                  utilityReward = (if flt (Fin 0) (Throughput (business m))
                    then fdiv (Log1p M (fdiv (Throughput (business m)) dqnThroughputScale)) (dqnThroughputLogNorm M) else Fin 0);
                  pressure = fmin (fdiv meanLoad dqnOverloadThreshold) (Fin 1);
                  balanceW = fadd dqnBaseBalanceWeight (fmul (f_const (45 / 100)) pressure);
                  reward = fadd (fmul balanceW balancePenalty) (fmul (fsub (Fin 1) balanceW) utilityReward);
                  totalDepth = sum_list (mQueueDepth (derived m))
              in if totalDepth > 0
                 then let normalized = fdiv (f_int totalDepth) dqnDepthSoftCap
                      in fadd reward (fmul dqnDepthWeight (fneg (fmin (fmul normalized normalized) (Fin 1))))
                 else reward)"

definition should_fallback :: "metrics \<Rightarrow> 'n dqn_bal \<Rightarrow> bool" where
  "should_fallback m d =
     (let baseTP = f_int (sint (dbBaseThroughput d)); loads = PartitionLoads (derived m)
      in flt (Fin 0) baseTP \<and> flt (Throughput (business m)) (fmul (dbFallbackRatio d) baseTP) \<or>
         flt (Fin 0) (dbLoadThreshold d) \<and> loads \<noteq> [] \<and> flt (dbLoadThreshold d) (fdiv (fsum loads) (f_int (int (length loads)))))"

definition track_fallback :: "bool \<Rightarrow> 'n dqn_bal \<Rightarrow> 'n dqn_bal" where
  "track_fallback bad d =
     (if bad
      then d\<lparr>dbRecoveryTicks := 0, dbFallbackTicks := dbFallbackTicks d + 1, dbEpsilonSuppressed := True,
             dbFallbackActive := (dbFallbackTicks d + 1 \<ge> fallbackEnterTicks \<or> dbFallbackActive d)\<rparr>
      else d\<lparr>dbFallbackTicks := 0, dbRecoveryTicks := dbRecoveryTicks d + 1,
             dbFallbackActive := (dbFallbackActive d \<and> \<not> dbRecoveryTicks d + 1 \<ge> fallbackExitTicks),
             dbEpsilonSuppressed := (dbEpsilonSuppressed d \<and> \<not> dbRecoveryTicks d + 1 \<ge> fallbackExitTicks)\<rparr>)"

definition record_experience :: "f64 \<Rightarrow> 'n dqn_bal \<Rightarrow> 'n dqn_bal" where
  "record_experience reward d =
     (case (dbPrevSnap d, dbCurrSnap d) of
        (Some prev, Some cur) \<Rightarrow>
          if psGen cur > dbLastProcessedGen d
          then (let t = \<lparr>trState = psState prev, trAction = [f_int (int (psAction prev))], trReward = reward,
                      trNextState = psState cur, trDone = False\<rparr>;
                    d1 = d\<lparr>dbLastProcessedGen := psGen cur\<rparr>
                in if length (dbExpCh d1) < DefaultDQNExpChannelSize then d1\<lparr>dbExpCh := dbExpCh d1 @ [t]\<rparr>
                   else d1\<lparr>dbDroppedExperience := dbDroppedExperience d1 + 1\<rparr>)
          else d
      | _ \<Rightarrow> d)"

definition db_OnMetrics :: "math_ops \<Rightarrow> env \<Rightarrow> metrics \<Rightarrow> 'n dqn_bal \<Rightarrow> 'n dqn_bal" where
  "db_OnMetrics M env m d =
     (let reward = computeReward M m;
          d1 = d\<lparr>dbLoads := (if PartitionLoads (derived m) \<noteq> [] then PartitionLoads (derived m) else dbLoads d),
                dbPredictedLoads := (if PredictedLoads (derived m) \<noteq> [] then PredictedLoads (derived m) else dbPredictedLoads d),
                dbMsgRate := MsgRate (business m), dbAvgMsgSize := AvgMsgSize (business m)\<rparr>
      in record_experience reward (track_fallback (should_fallback m d1) d1))"

definition db_SetBaseThroughput :: "f64 \<Rightarrow> 'n dqn_bal \<Rightarrow> 'n dqn_bal" where
  "db_SetBaseThroughput t d = d\<lparr>dbBaseThroughput := word_of_int (f_trunc t)\<rparr>"

definition SetPredictedLoads :: "f64 list \<Rightarrow> 'n dqn_bal \<Rightarrow> 'n dqn_bal" where
  "SetPredictedLoads predicted d = d\<lparr>dbPredictedLoads := predicted\<rparr>"

subsection \<open>The policy loop\<close>

definition write_inflight :: "nat \<Rightarrow> int list option \<Rightarrow> f64 list \<Rightarrow> f64 list" where
  "write_inflight n arr dst =
     (case arr of
        None \<Rightarrow> dst
      | Some xs \<Rightarrow> slice_write (n * 2) (map (\<lambda>k. fdiv (f_int k) dqnInflightScale) (take n xs)) dst)"

definition buildStateInto :: "'n dqn_bal \<Rightarrow> f64 list \<times> 'n dqn_bal" where
  "buildStateInto d =
     (let n = dbNumPartitions d;
          s0 = replicate (dbStateSize d) (Fin 0);
          s1 = slice_write 0 (dbLoads d) s0;
          s2 = slice_write n (dbPredictedLoads d) s1;
          s3 = write_inflight n (dbInflight d) s2;
          s4 = s3[n * 3 := fdiv (dbMsgRate d) dqnMsgRateScale];
          s5 = s4[n * 3 + 1 := fdiv (dbAvgMsgSize d) dqnMsgSizeScale];
          rn = Observe s5 (dbNormalizer d)
      in (NormalizeInPlace s5 rn, d\<lparr>dbNormalizer := rn\<rparr>))"

definition adaptive_epsilon :: "'n dqn_bal \<Rightarrow> f64" where
  "adaptive_epsilon d =
     (if flt dqnNormalRateThreshold (dbMsgRate d)
      then fmul (dbEpsilon d) (fdiv dqnNormalRateThreshold (dbMsgRate d)) else dbEpsilon d)"

definition db_policy_tick :: "'n net_ops \<Rightarrow> 'n dqn_bal \<Rightarrow> 'n dqn_bal option" where
  "db_policy_tick N d =
     (let (st, d1) = buildStateInto d;
          qValues = netForward N (dbNet d1) st;
          gen = dbSnapGen d1 + 1
      in if length qValues < dbNumPartitions d1 then None
         else Some (d1\<lparr>dbAdaptiveEpsilon := adaptive_epsilon d1, dbCachedQ := Some qValues, dbSnapGen := gen,
                 dbPrevSnap := dbCurrSnap d1,
                 dbCurrSnap := Some \<lparr>psState = st, psAction = argmax (take (dbNumPartitions d1) qValues), psGen = gen\<rparr>\<rparr>))"

subsection \<open>The training loop\<close>

definition db_trainStep :: "'n net_ops \<Rightarrow> (f64 \<Rightarrow> f64 \<Rightarrow> f64) \<Rightarrow> (nat \<Rightarrow> nat) \<Rightarrow> 'n dqn_bal \<Rightarrow> (f64 \<times> 'n dqn_bal) option" where
  "db_trainStep N pow rnd_draw d =
     (if perSize (dbReplay d) < dbMinReplay d then Some (Fin 0, d)
      else let (beta, sched) = bs_Next (dbBeta d);
               d1 = d\<lparr>dbBeta := sched\<rparr>
           in case per_Sample pow rnd_draw (dbBatchSize d1) beta (dbReplay d1) of
                (batch, indices, isWeights) \<Rightarrow>
                  if length batch < dbBatchSize d1 then Some (Fin 0, d1)
                  else case td_update N (dbGamma d1) (dbStateSize d1) batch indices isWeights (dbReplay d1) (dbTargetNet d1) (dbNet d1) of
                         None \<Rightarrow> None
                       | Some (loss, replay, tn, net) \<Rightarrow>
                           Some (loss, d1\<lparr>dbReplay := replay, dbTargetNet := tn, dbNet := net\<rparr>))"

definition db_train_tick :: "'n net_ops \<Rightarrow> (f64 \<Rightarrow> f64 \<Rightarrow> f64) \<Rightarrow> (nat \<Rightarrow> nat) \<Rightarrow> 'n dqn_bal \<Rightarrow> 'n dqn_bal option" where
  "db_train_tick N pow rnd_draw d =
     (case dbExpCh d of
        [] \<Rightarrow> Some d
      | t # ts \<Rightarrow>
          (let d1 = d\<lparr>dbExpCh := ts, dbReplay := per_Push t (dbReplay d), dbSteps := dbSteps d + 1\<rparr>
           in if dbTrainEvery d1 = 0 then None
              else if dbSteps d1 mod dbTrainEvery d1 = 0 then map_option snd (db_trainStep N pow rnd_draw d1)
              else Some d1))"

definition db_Stop :: "'n dqn_bal \<Rightarrow> 'n dqn_bal" where
  "db_Stop d = d\<lparr>dbReplay := foldl (\<lambda>b t. per_Push t b) (dbReplay d) (dbExpCh d), dbExpCh := []\<rparr>"

definition DQNBalancer :: "math_ops \<Rightarrow> 'n dqn_bal balancer_ops" where
  "DQNBalancer M = \<lparr>SelectPartition = db_SelectPartition, OnMetrics = db_OnMetrics M,
     OnPublishComplete = Some db_OnPublishComplete, SetBaseThroughput = Some db_SetBaseThroughput,
     StopBalancer = Some db_Stop, DroppedExperience = Some dbDroppedExperience, EvictionCount = None\<rparr>"

subsection \<open>The invariant\<close>

definition db_ok :: "'n dqn_bal \<Rightarrow> bool" where
  "db_ok d \<longleftrightarrow> per_shape (dbReplay d) \<and> 0 < dbTrainEvery d \<and> tnSyncEvery (dbTargetNet d) \<noteq> 0 \<and>
     length (dbExpCh d) \<le> DefaultDQNExpChannelSize \<and> dbStateSize d = dbNumPartitions d * 3 + 2 \<and>
     rnSize (dbNormalizer d) = dbStateSize d \<and> length (rnMean (dbNormalizer d)) = dbStateSize d \<and>
     length (rnM2 (dbNormalizer d)) = dbStateSize d \<and> 0 \<le> dbDroppedExperience d"

lemma db_ok_New:
  obtains d where "NewDQNBalancer net n [] = Some d" "db_ok d" "dbNumPartitions d = n" "dbFallbackTicks d = 0" "dbRecoveryTicks d = 0"
    "\<not> dbFallbackActive d" "\<not> dbEpsilonSuppressed d"
proof -
  have "per_shape (NewPrioritizedReplayBuffer DefaultDQNReplayBufSize a)" for a
    by (intro per_ok_shape per_ok_New) (simp add: DefaultDQNReplayBufSize_def)
  then show ?thesis
    by (intro that) (auto simp: NewDQNBalancer_def Let_def DefaultDQNBatchSize_def db_ok_def DefaultDQNTrainEvery_def NewRunningNormalizer_def)
qed

lemma db_ok_inflight [simp]:
  "db_ok (db_ensureInflight n d) \<longleftrightarrow> db_ok d" "db_ok (db_add_inflight i k d) \<longleftrightarrow> db_ok d"
  by (auto simp: db_ensureInflight_def db_add_inflight_def db_ok_def split: option.split)

lemma db_ok_fallback: "db_ok d \<Longrightarrow> db_ok (snd (db_fallback env topic key n d))"
  by (simp add: db_fallback_def split: prod.split) (simp add: db_ok_def)

lemma db_fallback_range: "0 < n \<Longrightarrow> fst (db_fallback env topic key n d) < n"
proof -
  assume "0 < n"
  then have "fst (SelectPartition RoundRobin env topic key n (dbFallbackRR d)) < n" by (intro rr.select_range) simp_all
  then show ?thesis by (auto simp: db_fallback_def RoundRobin_def split: prod.split)
qed

lemma track_fallback_ok [simp]: "db_ok (track_fallback bad d) \<longleftrightarrow> db_ok d"
  by (simp add: track_fallback_def db_ok_def)

lemma record_experience_ok: "db_ok d \<Longrightarrow> db_ok (record_experience r d)"
  by (auto simp: record_experience_def Let_def db_ok_def split: option.split)

lemma db_ok_loads [simp]:
  "db_ok (d\<lparr>dbLoads := ls, dbPredictedLoads := ps, dbMsgRate := r, dbAvgMsgSize := z\<rparr>) \<longleftrightarrow> db_ok d"
  by (simp add: db_ok_def)

lemma db_ok_OnMetrics: "db_ok d \<Longrightarrow> db_ok (db_OnMetrics M env m d)"
  unfolding db_OnMetrics_def Let_def by (intro record_experience_ok) simp

lemma db_SelectPartition_ok:
  assumes "db_ok d" and "0 < n"
  shows "fst (db_SelectPartition env topic key n d) < n \<and> db_ok (snd (db_SelectPartition env topic key n d))"
proof -
  let ?d = "db_ensureInflight n d"
  have ok: "db_ok ?d" using assms(1) by simp
  have am: "argmax (take n cached) < n" if "n \<le> length cached" for cached
    using argmax_range [of "take n cached"] that assms(2) by (cases cached) auto
  note fb = db_fallback_range [OF assms(2), of env topic key ?d] db_ok_fallback [OF ok, of env topic key n]
  show ?thesis using ok fb am assms(2)
    by (simp add: db_SelectPartition_def Let_def split: option.split)
qed

lemma dqn_balancer: "balancer (DQNBalancer M) (db_ok :: 'n dqn_bal \<Rightarrow> bool)"
proof
  fix d :: "'n dqn_bal" and n :: nat and env topic key
  assume "db_ok d" "0 < n"
  then show "fst (SelectPartition (DQNBalancer M) env topic key n d) < n" "db_ok (snd (SelectPartition (DQNBalancer M) env topic key n d))"
    using db_SelectPartition_ok [of d n env topic key] by (simp_all add: DQNBalancer_def)
next
  fix d :: "'n dqn_bal" and env m
  assume "db_ok d"
  then show "db_ok (OnMetrics (DQNBalancer M) env m d)" by (simp add: DQNBalancer_def db_ok_OnMetrics)
next
  fix d :: "'n dqn_bal" and f :: "nat \<Rightarrow> 'n dqn_bal \<Rightarrow> 'n dqn_bal" and i
  assume "OnPublishComplete (DQNBalancer M) = Some f" "db_ok d"
  then show "db_ok (f i d)" by (auto simp: DQNBalancer_def db_OnPublishComplete_def split: option.split)
next
  fix d :: "'n dqn_bal" and g :: "f64 \<Rightarrow> 'n dqn_bal \<Rightarrow> 'n dqn_bal" and x
  assume "SetBaseThroughput (DQNBalancer M) = Some g" "db_ok d"
  then show "db_ok (g x d)" by (auto simp: DQNBalancer_def db_SetBaseThroughput_def db_ok_def)
qed

interpretation learned: balancer "DQNBalancer M" db_ok for M
  by (rule dqn_balancer)

lemma buildStateInto_ok:
  assumes "db_ok d" and "buildStateInto d = (st, d1)"
  shows "db_ok d1 \<and> dbNumPartitions d1 = dbNumPartitions d"
  using assms by (auto simp: buildStateInto_def Let_def db_ok_def)

lemma db_policy_tick_ok:
  assumes "net_laws N (dbNumPartitions d)" and "db_ok d"
  obtains d' where "db_policy_tick N d = Some d'" "db_ok d'" "dbNumPartitions d' = dbNumPartitions d"
proof -
  obtain st d1 where b: "buildStateInto d = (st, d1)" by fastforce
  note ok = buildStateInto_ok [OF assms(2) b]
  have "length (netForward N (dbNet d1) st) = dbNumPartitions d" using assms(1) by (simp add: net_laws_def)
  then show ?thesis using that ok b by (simp add: db_policy_tick_def Let_def db_ok_def)
qed

lemma db_trainStep_ok:
  assumes "net_laws N k" and "db_ok d"
  obtains l d' where "db_trainStep N pow rnd_draw d = Some (l, d')" "db_ok d'" "dbNumPartitions d' = dbNumPartitions d"
proof (cases "perSize (dbReplay d) < dbMinReplay d")
  case True
  then show ?thesis using that assms(2) by (simp add: db_trainStep_def)
next
  case False
  obtain beta sched where bs: "bs_Next (dbBeta d) = (beta, sched)" by fastforce
  let ?d = "d\<lparr>dbBeta := sched\<rparr>"
  obtain batch indices ws where sm: "per_Sample pow rnd_draw (dbBatchSize d) beta (dbReplay d) = (batch, indices, ws)"
    by (metis prod_cases3)
  have len: "length indices \<le> length batch" using per_Sample_shape [OF _ sm] assms(2) by (simp add: db_ok_def)
  show ?thesis
  proof (cases "length batch < dbBatchSize d")
    case True
    then have "db_trainStep N pow rnd_draw d = Some (Fin 0, ?d)" using False by (simp add: db_trainStep_def bs sm)
    then show ?thesis using that assms(2) by (simp add: db_ok_def)
  next
    case mb: False
    have "tnSyncEvery (dbTargetNet d) \<noteq> 0" "per_shape (dbReplay d)" using assms(2) by (simp_all add: db_ok_def)
    then obtain l replay tn net where td:
      "td_update N (dbGamma d) (dbStateSize d) batch indices ws (dbReplay d) (dbTargetNet d) (dbNet d) = Some (l, replay, tn, net)"
      "per_shape replay" "tnSyncEvery tn = tnSyncEvery (dbTargetNet d)"
      using td_update_ok [OF assms(1) _ len] by metis
    have "db_trainStep N pow rnd_draw d = Some (l, ?d\<lparr>dbReplay := replay, dbTargetNet := tn, dbNet := net\<rparr>)"
      using False mb td(1) by (simp add: db_trainStep_def bs sm)
    moreover have "db_ok (?d\<lparr>dbReplay := replay, dbTargetNet := tn, dbNet := net\<rparr>)" using assms(2) td(2,3) by (simp add: db_ok_def)
    ultimately show ?thesis using that by simp
  qed
qed

lemma db_train_tick_ok:
  assumes "net_laws N k" and "db_ok d"
  obtains d' where "db_train_tick N pow rnd_draw d = Some d'" "db_ok d'" "dbNumPartitions d' = dbNumPartitions d"
proof (cases "dbExpCh d")
  case Nil
  then show ?thesis using that assms(2) by (simp add: db_train_tick_def)
next
  case (Cons t ts)
  let ?d = "d\<lparr>dbExpCh := ts, dbReplay := per_Push t (dbReplay d), dbSteps := dbSteps d + 1\<rparr>"
  have ok: "db_ok ?d" using assms(2) Cons by (simp add: db_ok_def per_shape_Push)
  have te: "dbTrainEvery d \<noteq> 0" using assms(2) by (simp add: db_ok_def)
  obtain l d' where tr: "db_trainStep N pow rnd_draw ?d = Some (l, d')" "db_ok d'" "dbNumPartitions d' = dbNumPartitions ?d"
    using db_trainStep_ok [OF assms(1) ok] .
  show ?thesis
  proof (cases "Suc (dbSteps d) mod dbTrainEvery d = 0")
    case True
    then have "db_train_tick N pow rnd_draw d = Some d'" using Cons te tr(1) by (simp add: db_train_tick_def)
    then show ?thesis using that tr(2,3) by simp
  next
    case False
    then have "db_train_tick N pow rnd_draw d = Some ?d" using Cons te by (simp add: db_train_tick_def)
    then show ?thesis using that ok by simp
  qed
qed

subsection \<open>Hysteresis\<close>

text \<open>
  A history of reports, oldest first, marks each as bad or good. A switch that \<open>k\<close> bad reports in a row
  turn on is on when such a run has occurred and no long enough run of good reports since.
\<close>

definition tripped :: "nat \<Rightarrow> bool list \<Rightarrow> bool" where
  "tripped k h \<longleftrightarrow> (\<exists>a c. h = a @ replicate k True @ c \<and> \<not> sublist (replicate fallbackExitTicks False) c)"

definition run_length :: "bool \<Rightarrow> bool list \<Rightarrow> nat" where
  "run_length b h = length (takeWhile (\<lambda>x. x = b) (rev h))"

lemma run_length_snoc [simp]: "run_length b (h @ [x]) = (if x = b then Suc (run_length b h) else 0)"
  by (simp add: run_length_def)

lemma suffix_run: "suffix (replicate k b) h \<longleftrightarrow> k \<le> run_length b h"
proof (induction h arbitrary: k rule: rev_induct)
  case Nil
  then show ?case by (simp add: run_length_def)
next
  case (snoc x h)
  show ?case
  proof (cases k)
    case (Suc j)
    have "replicate (Suc j) b = zs @ [x] \<longleftrightarrow> b = x \<and> zs = replicate j b" for zs
      by (auto simp: replicate_append_same [symmetric])
    then show ?thesis using snoc [of j] Suc by auto
  qed simp
qed

lemma tripped_bad:
  assumes "0 < k"
  shows "tripped k (h @ [True]) \<longleftrightarrow> suffix (replicate k True) (h @ [True]) \<or> tripped k h"
proof
  assume "tripped k (h @ [True])"
  then obtain a c where ac: "h @ [True] = a @ replicate k True @ c" "\<not> sublist (replicate fallbackExitTicks False) c"
    unfolding tripped_def by blast
  show "suffix (replicate k True) (h @ [True]) \<or> tripped k h"
  proof (cases c rule: rev_cases)
    case Nil
    then have "suffix (replicate k True) (h @ [True])" unfolding suffix_def using ac(1) by simp
    then show ?thesis ..
  next
    case (snoc c' x)
    then have "h = a @ replicate k True @ c'" using ac(1) by simp
    moreover have "\<not> sublist (replicate fallbackExitTicks False) c'" using ac(2) snoc by (simp add: sublist_snoc)
    ultimately show ?thesis unfolding tripped_def by blast
  qed
next
  assume "suffix (replicate k True) (h @ [True]) \<or> tripped k h"
  then show "tripped k (h @ [True])"
  proof
    assume "suffix (replicate k True) (h @ [True])"
    then obtain a where "h @ [True] = a @ replicate k True @ []" by (auto simp only: suffix_def append_Nil2)
    moreover have "\<not> sublist (replicate fallbackExitTicks False) []" by (simp add: fallbackExitTicks_def)
    ultimately show ?thesis unfolding tripped_def by blast
  next
    assume "tripped k h"
    then obtain a c where "h = a @ replicate k True @ c" "\<not> sublist (replicate fallbackExitTicks False) c"
      unfolding tripped_def by blast
    moreover have "\<not> suffix (replicate fallbackExitTicks False) (c @ [True])"
      unfolding suffix_run by (simp add: fallbackExitTicks_def)
    ultimately have "h @ [True] = a @ replicate k True @ (c @ [True])" "\<not> sublist (replicate fallbackExitTicks False) (c @ [True])"
      by (simp_all add: sublist_snoc)
    then show ?thesis unfolding tripped_def by blast
  qed
qed

lemma run_length_append: "run_length b (xs @ ys) = (if list_all (\<lambda>x. x = b) ys then length ys + run_length b xs else run_length b ys)"
  by (induction ys rule: rev_induct) (auto simp: run_length_def)

lemma tripped_good:
  assumes "0 < k"
  shows "tripped k (h @ [False]) \<longleftrightarrow> \<not> suffix (replicate fallbackExitTicks False) (h @ [False]) \<and> tripped k h"
proof
  assume "tripped k (h @ [False])"
  then obtain a c where ac: "h @ [False] = a @ replicate k True @ c" "\<not> sublist (replicate fallbackExitTicks False) c"
    unfolding tripped_def by blast
  obtain c' where c: "c = c' @ [False]"
  proof (cases c rule: rev_cases)
    case Nil
    then have "last (h @ [False]) = last (replicate k True)" using ac(1) assms by simp
    then show ?thesis using assms by (simp add: last_replicate)
  qed (use ac(1) in auto)
  have rc: "run_length False (replicate k True @ c) = run_length False c"
  proof -
    obtain j where "k = Suc j" using assms by (cases k) auto
    then have "replicate k True = replicate j True @ [True]" by (simp add: replicate_append_same)
    then have "run_length False (replicate k True) = 0" by simp
    moreover have "list_all (\<lambda>x. x = False) c \<Longrightarrow> run_length False c = length c" by (induction c rule: rev_induct) (auto simp: run_length_def)
    ultimately show ?thesis by (auto simp: run_length_append)
  qed
  have na: "\<not> list_all (\<lambda>x. x = False) (replicate k True @ c)" using assms by (cases k) simp_all
  have "run_length False (h @ [False]) = run_length False c"
    unfolding ac(1) run_length_append [of False a] if_not_P [OF na] by (rule rc)
  moreover have "\<not> suffix (replicate fallbackExitTicks False) c" using ac(2) suffix_imp_sublist by blast
  ultimately have "\<not> suffix (replicate fallbackExitTicks False) (h @ [False])" unfolding suffix_run by simp
  moreover have "h = a @ replicate k True @ c'" "\<not> sublist (replicate fallbackExitTicks False) c'"
    using ac c by (simp_all add: sublist_snoc)
  ultimately show "\<not> suffix (replicate fallbackExitTicks False) (h @ [False]) \<and> tripped k h" unfolding tripped_def by blast
next
  assume a: "\<not> suffix (replicate fallbackExitTicks False) (h @ [False]) \<and> tripped k h"
  then obtain p c where pc: "h = p @ replicate k True @ c" "\<not> sublist (replicate fallbackExitTicks False) c"
    unfolding tripped_def by blast
  have "\<not> suffix (replicate fallbackExitTicks False) (c @ [False])"
  proof
    assume "suffix (replicate fallbackExitTicks False) (c @ [False])"
    then have "suffix (replicate fallbackExitTicks False) ((p @ replicate k True) @ c @ [False])" by (rule suffix_appendI)
    then show False using a pc(1) by simp
  qed
  then have "h @ [False] = p @ replicate k True @ (c @ [False])" "\<not> sublist (replicate fallbackExitTicks False) (c @ [False])"
    using pc by (simp_all add: sublist_snoc)
  then show "tripped k (h @ [False])" unfolding tripped_def by blast
qed

subsection \<open>Interleaving with the loops\<close>

text \<open>Runs of the balancer, with the reports received so far, oldest first.\<close>

inductive db_run :: "math_ops \<Rightarrow> 'n net_ops \<Rightarrow> (f64 \<Rightarrow> f64 \<Rightarrow> f64) \<Rightarrow> 'n dqn_bal \<Rightarrow> metrics list \<Rightarrow> 'n dqn_bal \<Rightarrow> bool"
  for M N pow d0 where
  start: "db_run M N pow d0 [] d0"
| select: "db_run M N pow d0 h d \<Longrightarrow> 0 < n \<Longrightarrow> db_run M N pow d0 h (snd (db_SelectPartition env topic key n d))"
| complete: "db_run M N pow d0 h d \<Longrightarrow> db_run M N pow d0 h (db_OnPublishComplete i d)"
| predicted: "db_run M N pow d0 h d \<Longrightarrow> db_run M N pow d0 h (SetPredictedLoads ls d)"
| metrics: "db_run M N pow d0 h d \<Longrightarrow> db_run M N pow d0 (h @ [m]) (db_OnMetrics M env m d)"
| policy: "db_run M N pow d0 h d \<Longrightarrow> db_policy_tick N d = Some d' \<Longrightarrow> db_run M N pow d0 h d'"
| train: "db_run M N pow d0 h d \<Longrightarrow> db_train_tick N pow rnd_draw d = Some d' \<Longrightarrow> db_run M N pow d0 h d'"

lemma db_SelectPartition_keeps:
  "dbNumPartitions (snd (db_SelectPartition env topic key n d)) = dbNumPartitions d"
  by (auto simp: db_SelectPartition_def db_fallback_def db_ensureInflight_def db_add_inflight_def Let_def split: option.split prod.split)

lemma db_OnMetrics_keeps: "dbNumPartitions (db_OnMetrics M env m d) = dbNumPartitions d"
  by (auto simp: db_OnMetrics_def record_experience_def track_fallback_def Let_def split: option.split)

lemma db_run_ok:
  assumes "db_run M N pow d0 h d" and "net_laws N (dbNumPartitions d0)" and "db_ok d0"
  shows "db_ok d \<and> dbNumPartitions d = dbNumPartitions d0"
  using assms
proof (induction rule: db_run.induct)
  case (policy h d d')
  then obtain d2 where "db_policy_tick N d = Some d2" "db_ok d2" "dbNumPartitions d2 = dbNumPartitions d"
    using db_policy_tick_ok [of N d] by metis
  with policy show ?case by simp
next
  case (train h d rnd_draw d')
  then obtain d2 where "db_train_tick N pow rnd_draw d = Some d2" "db_ok d2" "dbNumPartitions d2 = dbNumPartitions d"
    using db_train_tick_ok [of N _ d] by metis
  with train show ?case by simp
next
  case (complete h d i)
  then show ?case by (auto simp: db_OnPublishComplete_def split: option.split) (auto simp: db_add_inflight_def)
qed (simp_all add: db_SelectPartition_ok db_SelectPartition_keeps db_ok_OnMetrics db_OnMetrics_keeps, simp add: SetPredictedLoads_def db_ok_def)



text \<open>The part of the state the fallback depends on.\<close>

definition fallback_view :: "'n dqn_bal \<Rightarrow> nat \<times> nat \<times> bool \<times> bool \<times> i64 \<times> f64 \<times> f64" where
  "fallback_view d = (dbFallbackTicks d, dbRecoveryTicks d, dbFallbackActive d, dbEpsilonSuppressed d,
     dbBaseThroughput d, dbFallbackRatio d, dbLoadThreshold d)"

lemma fallback_view_inflight [simp]:
  "fallback_view (db_ensureInflight n d) = fallback_view d" "fallback_view (db_add_inflight i k d) = fallback_view d"
  by (auto simp: fallback_view_def db_ensureInflight_def db_add_inflight_def split: option.split)

lemma fallback_view_select: "fallback_view (snd (db_SelectPartition env topic key n d)) = fallback_view d"
proof -
  have fb: "fallback_view (snd (db_fallback env topic key n e)) = fallback_view e" for e :: "'a dqn_bal"
    by (simp add: db_fallback_def split: prod.split) (simp add: fallback_view_def)
  show ?thesis by (auto simp: db_SelectPartition_def Let_def fb split: option.split)
qed

lemma fallback_view_policy:
  assumes "db_policy_tick N d = Some d'"
  shows "fallback_view d' = fallback_view d"
proof -
  obtain st d1 where b: "buildStateInto d = (st, d1)" by fastforce
  then have "fallback_view d1 = fallback_view d" by (auto simp: buildStateInto_def Let_def fallback_view_def)
  then show ?thesis using assms b by (auto simp: db_policy_tick_def Let_def fallback_view_def split: if_splits)
qed

lemma fallback_view_trainStep:
  assumes "db_trainStep N pow rnd_draw d = Some (l, d')"
  shows "fallback_view d' = fallback_view d"
  using assms
  by (auto simp: db_trainStep_def fallback_view_def Let_def split: if_splits prod.splits option.splits)

lemma fallback_view_train:
  assumes "db_train_tick N pow rnd_draw d = Some d'"
  shows "fallback_view d' = fallback_view d"
proof (cases "dbExpCh d")
  case (Cons t ts)
  let ?d = "d\<lparr>dbExpCh := ts, dbReplay := per_Push t (dbReplay d), dbSteps := dbSteps d + 1\<rparr>"
  have "fallback_view ?d = fallback_view d" by (simp add: fallback_view_def)
  then show ?thesis using assms Cons fallback_view_trainStep [of N pow rnd_draw ?d]
    by (auto simp: db_train_tick_def Let_def split: if_splits)
qed (use assms in \<open>simp add: db_train_tick_def\<close>)

lemma should_fallback_view: "fallback_view d = fallback_view e \<Longrightarrow> should_fallback m d = should_fallback m e"
  by (simp add: should_fallback_def fallback_view_def)

lemma fallback_view_metrics:
  "fallback_view (db_OnMetrics M env m d) = fallback_view (track_fallback (should_fallback m d) d)"
proof -
  have "fallback_view (record_experience r e) = fallback_view e" for r and e :: "'a dqn_bal"
    by (auto simp: record_experience_def Let_def fallback_view_def split: option.split)
  moreover have "should_fallback m (d\<lparr>dbLoads := a, dbPredictedLoads := b, dbMsgRate := c, dbAvgMsgSize := e\<rparr>) = should_fallback m d" for a b c e
    by (rule should_fallback_view) (simp add: fallback_view_def)
  ultimately show ?thesis by (simp add: db_OnMetrics_def Let_def) (simp add: fallback_view_def track_fallback_def)
qed

lemma tripped_snoc:
  "0 < k \<Longrightarrow> tripped k (h @ [b]) \<longleftrightarrow>
     (if b then k \<le> Suc (run_length True h) \<or> tripped k h else tripped k h \<and> \<not> fallbackExitTicks \<le> Suc (run_length False h))"
  using tripped_bad [of k h, unfolded suffix_run] tripped_good [of k h, unfolded suffix_run] by (cases b) auto

lemma db_run_fallback:
  assumes "db_run M N pow d0 h d" and "fallback_view d0 = (0, 0, False, False, base, ratio, lt)"
    and "bad = map (\<lambda>m. should_fallback m d0) h"
  shows "fallback_view d = (run_length True bad, run_length False bad, tripped fallbackEnterTicks bad, tripped 1 bad, base, ratio, lt)"
  using assms
proof (induction arbitrary: bad rule: db_run.induct)
  case start
  then show ?case by (simp add: run_length_def tripped_def fallbackEnterTicks_def)
next
  case (select h d n env topic key)
  then show ?case by (simp add: fallback_view_select)
next
  case (complete h d i)
  then show ?case by (simp add: db_OnPublishComplete_def split: option.split)
next
  case (predicted h d ls)
  then show ?case by (simp add: SetPredictedLoads_def fallback_view_def)
next
  case (metrics h d m env)
  let ?bad = "map (\<lambda>m. should_fallback m d0) h"
  note IH = metrics.IH [OF metrics.prems(1) refl]
  have same: "should_fallback m d = should_fallback m d0"
    using IH metrics.prems(1) by (simp add: should_fallback_def fallback_view_def)
  have bad: "bad = ?bad @ [should_fallback m d0]" using metrics.prems(2) by simp
  have "0 < fallbackEnterTicks" by (simp add: fallbackEnterTicks_def)
  then show ?case unfolding bad fallback_view_metrics same using IH
    by (cases "should_fallback m d0") (simp_all add: track_fallback_def fallback_view_def tripped_snoc)
next
  case (policy h d d')
  then show ?case by (simp add: fallback_view_policy)
next
  case (train h d rnd_draw d')
  then show ?case by (simp add: fallback_view_train)
qed


text \<open>Three overloaded reports after the start: the load is above the threshold.\<close>

definition sampleReport :: "f64 \<Rightarrow> metrics" where
  "sampleReport l = zeroMetrics\<lparr>derived := \<lparr>PartitionLoads = [l], PredictedLoads = [], mQueueDepth = [], LoadStdDev = Fin 0\<rparr>\<rparr>"

lemma sampleReport_bad:
  assumes "NewDQNBalancer net parts [] = Some d"
  shows "should_fallback (sampleReport (Fin 2)) (db_SetBaseThroughput (Fin 0) d)"
proof -
  have "fle (Fin (2 powi (- 1))) (rnd (75 / 100))" by (rule rnd_ge_powi) simp_all
  moreover have "fle (rnd (75 / 100)) (Fin 1)" using rnd_mono [of "75 / 100" 1] by simp
  ultimately obtain q where q: "rnd (75 / 100) = Fin q" "0 < q" "q \<le> 1" by (cases "rnd (75 / 100)") auto
  have "dbLoadThreshold d = f_const (75 / 100)" using assms by (auto simp: NewDQNBalancer_def Let_def DefaultDQNLoadThreshold_def split: if_splits)
  then have "dbLoadThreshold (db_SetBaseThroughput (Fin 0) d) = Fin q" using q(1) by (simp add: f_const_def db_SetBaseThroughput_def)
  moreover have "fdiv (fsum [Fin 2]) (f_int 1) = Fin 2" by (simp add: fsum_def f_int_def rnd_numeral)
  ultimately show ?thesis using q by (simp add: should_fallback_def sampleReport_def)
qed


end
