(* ===== verification/Preprocessing.thy ===== *)
theory Preprocessing
  imports NN Config "HOL-Library.Multiset"
begin

text \<open>
  Choosing configurations for pilot runs, \<^verbatim>\<open>pkg/preprocessing\<close>: Latin hypercube sampling
  (\<^verbatim>\<open>sampler.go\<close>), the reduction to a few representative configurations (\<^verbatim>\<open>pca.go\<close>) and the selection
  of the parameters that matter by coordinate descent (\<^verbatim>\<open>lasso.go\<close>). The vector and matrix routines of
  gonum are the record \<^verbatim>\<open>gonum\<close>; random draws are arguments.

  The lemmas show that a sampled column meets every stratum exactly once and stays in its range,
  that the reduction returns the requested number of different configurations, and that the selected
  parameters are those with a coefficient above the threshold, weighted between 0 and 1.
\<close>

subsection \<open>Latin hypercube sampling\<close>

text \<open>\<^verbatim>\<open>rand.Shuffle\<close>: from the last position down, exchange with a position not after it.\<close>

fun shuffle :: "(nat \<Rightarrow> nat) \<Rightarrow> nat \<Rightarrow> 'a list \<Rightarrow> 'a list" where
  "shuffle rnd_draw 0 xs = xs"
| "shuffle rnd_draw (Suc i) xs =
     (let j = rnd_draw (Suc i) mod (i + 2) in shuffle rnd_draw i (xs[j := xs ! Suc i, Suc i := xs ! j]))"

definition latinHypercubeColumn :: "(nat \<Rightarrow> nat) \<Rightarrow> (nat \<Rightarrow> nat) \<Rightarrow> nat \<Rightarrow> f64 list" where
  "latinHypercubeColumn rnd_draw perm_draw n =
     shuffle perm_draw (n - 1) (map (\<lambda>i. fdiv (fadd (f_int (int i)) (rand_f64 (rnd_draw i))) (f_int (int n))) [0..<n])"

definition GenerateConfigs :: "(nat \<Rightarrow> nat \<Rightarrow> nat) \<Rightarrow> (nat \<Rightarrow> nat \<Rightarrow> nat) \<Rightarrow> param_range list \<Rightarrow> nat \<Rightarrow> f64 list list" where
  "GenerateConfigs rnd_draw perm_draw paramRanges n =
     (let columns = map (\<lambda>j. latinHypercubeColumn (rnd_draw j) (perm_draw j) n) [0..<length paramRanges]
      in map (\<lambda>i. map (\<lambda>j. let lo = prMin (paramRanges ! j); hi = prMax (paramRanges ! j)
                           in fadd lo (fmul (columns ! j ! i) (fsub hi lo))) [0..<length paramRanges]) [0..<n])"

lemma length_shuffle [simp]: "length (shuffle rnd_draw k xs) = length xs"
  by (induction k arbitrary: xs) (simp_all add: Let_def)

lemma shuffle_map: "k < length xs \<or> k = 0 \<Longrightarrow> shuffle rnd_draw k (map f xs) = map f (shuffle rnd_draw k xs)"
proof (induction k arbitrary: xs)
  case (Suc k)
  let ?j = "rnd_draw (Suc k) mod (k + 2)"
  have j: "?j < length xs" using Suc.prems by (auto intro: less_le_trans [OF mod_less_divisor])
  with Suc.prems have "(map f xs)[?j := map f xs ! Suc k, Suc k := map f xs ! ?j] = map f (xs[?j := xs ! Suc k, Suc k := xs ! ?j])"
    by (simp add: map_update)
  then show ?case using Suc.IH [of "xs[?j := xs ! Suc k, Suc k := xs ! ?j]"] Suc.prems by (simp add: Let_def)
qed simp

lemma mset_shuffle: "k < length xs \<or> k = 0 \<Longrightarrow> mset (shuffle rnd_draw k xs) = mset xs"
proof (induction k arbitrary: xs)
  case (Suc k)
  let ?j = "rnd_draw (Suc k) mod (k + 2)"
  have j: "?j < length xs" using Suc.prems by (auto intro: less_le_trans [OF mod_less_divisor])
  then have "mset (xs[?j := xs ! Suc k, Suc k := xs ! ?j]) = mset xs" using Suc.prems by (simp add: mset_swap)
  then show ?case using Suc.IH [of "xs[?j := xs ! Suc k, Suc k := xs ! ?j]"] Suc.prems by (simp add: Let_def)
qed simp

lemma shuffle_bij:
  assumes "0 < n"
  obtains p where "bij_betw p {..<n} {..<n}" "\<And>i (xs :: 'a list). i < n \<Longrightarrow> length xs = n \<Longrightarrow> shuffle rnd_draw (n - 1) xs ! i = xs ! p i"
proof
  let ?s = "shuffle rnd_draw (n - 1) [0..<n]"
  have m: "mset ?s = mset [0..<n]" using assms by (intro mset_shuffle) simp
  then have "distinct ?s" using mset_eq_imp_distinct_iff [OF m] by simp
  moreover have "set ?s = {..<n}" using mset_eq_setD [OF m] by (simp add: atLeast0LessThan)
  ultimately show "bij_betw ((!) ?s) {..<n} {..<n}" by (intro bij_betw_nth) simp_all
  fix i and xs :: "'a list"
  assume "i < n" and len: "length xs = n"
  have "xs = map ((!) xs) [0..<n]" using map_nth [of xs] len by simp
  then have "shuffle rnd_draw (n - 1) xs = map ((!) xs) ?s" using shuffle_map [of "n - 1" "[0..<n]" rnd_draw "(!) xs"] assms by simp
  then show "shuffle rnd_draw (n - 1) xs ! i = xs ! (?s ! i)" using \<open>i < n\<close> by simp
qed

text \<open>The sample of stratum \<open>i\<close> before the columns are shuffled.\<close>

lemma f_int_small: "k \<le> 2 ^ 52 \<Longrightarrow> f_int (int k) = Fin (of_nat k)"
proof -
  assume "k \<le> 2 ^ 52"
  then have "int k \<le> int (2 ^ 52)" by (simp only: of_nat_le_iff)
  then show ?thesis using rnd_int [of "int k"] by (simp add: f_int_def)
qed

lemma f_int_ratio: "0 < n \<Longrightarrow> n \<le> 2 ^ 52 \<Longrightarrow> k \<le> n \<Longrightarrow> fdiv (f_int (int k)) (f_int (int n)) = rnd (of_nat k / of_nat n)"
  by (simp add: f_int_small)

lemma stratum:
  assumes "i < n" and "n \<le> 2 ^ 52" and v_def: "v = fdiv (fadd (f_int (int i)) (rand_f64 r)) (f_int (int n))"
  shows "fle (fdiv (f_int (int i)) (f_int (int n))) v" and "fle v (fdiv (f_int (int (i + 1))) (f_int (int n)))"
proof -
  have exact: "f_int (int k) = Fin (of_nat k)" if "k \<le> n" for k using that assms(2) by (simp add: f_int_small)
  obtain u where u: "rand_f64 r = Fin u" "0 \<le> u" "u < 1" using rand_f64_unit [of r] by blast
  have "fle (Fin (of_nat i)) (rnd (of_nat i + u))" "fle (rnd (of_nat i + u)) (Fin (of_nat (i + 1)))"
    using rnd_mono [of "of_nat i" "of_nat i + u"] rnd_mono [of "of_nat i + u" "of_nat (i + 1)"] u exact [of i] exact [of "i + 1"] assms(1)
    by (simp_all add: f_int_def)
  then obtain w where w: "rnd (of_nat i + u) = Fin w" "of_nat i \<le> w" "w \<le> of_nat (i + 1)" by (rule fle_Fin_between)
  have v: "v = rnd (w / of_nat n)" unfolding v_def using u w assms(1) by (simp add: exact)
  show "fle (fdiv (f_int (int i)) (f_int (int n))) v" "fle v (fdiv (f_int (int (i + 1))) (f_int (int n)))"
    unfolding v using w(2,3) assms(1,2) f_int_ratio [of n i] f_int_ratio [of n "i + 1"]
    by (simp_all add: rnd_mono divide_right_mono)
qed

lemma column_stratified:
  assumes "n \<le> 2 ^ 52"
  shows "\<exists>p. bij_betw p {..<n} {..<n} \<and> (\<forall>i < n. let v = latinHypercubeColumn rnd_draw perm_draw n ! i in
    fle (fdiv (f_int (int (p i))) (f_int (int n))) v \<and> fle v (fdiv (f_int (int (p i + 1))) (f_int (int n))))"
proof (cases "n = 0")
  case False
  then obtain p where p: "bij_betw p {..<n} {..<n}"
    "\<And>i (xs :: f64 list). i < n \<Longrightarrow> length xs = n \<Longrightarrow> shuffle perm_draw (n - 1) xs ! i = xs ! p i"
    using shuffle_bij [of n] by auto
  have "p i < n" if "i < n" for i using bij_betwE [OF p(1)] that by simp
  moreover from this have "latinHypercubeColumn rnd_draw perm_draw n ! i =
    fdiv (fadd (f_int (int (p i))) (rand_f64 (rnd_draw (p i)))) (f_int (int n))" if "i < n" for i
    unfolding latinHypercubeColumn_def using that p(2) [OF that] by simp
  ultimately show ?thesis using p(1) stratum [OF _ assms refl] unfolding Let_def by (intro exI [of _ p]) simp
qed (simp add: bij_betw_def)

lemma column_unit:
  assumes "i < n" and "n \<le> 2 ^ 52"
  shows "fle (Fin 0) (latinHypercubeColumn rnd_draw perm_draw n ! i)" and "fle (latinHypercubeColumn rnd_draw perm_draw n ! i) (Fin 1)"
proof -
  let ?v = "latinHypercubeColumn rnd_draw perm_draw n ! i"
  obtain p where p: "bij_betw p {..<n} {..<n}" "fle (fdiv (f_int (int (p i))) (f_int (int n))) ?v"
    "fle ?v (fdiv (f_int (int (p i + 1))) (f_int (int n)))"
    using column_stratified [OF assms(2), of rnd_draw perm_draw] assms(1) unfolding Let_def by blast
  have pi: "p i < n" using bij_betwE [OF p(1)] assms(1) by simp
  have u: "unit_f64 (fdiv (f_int (int k)) (f_int (int n)))" if "k \<le> n" for k
    using that assms rnd_nonneg [of "of_nat k / of_nat n"] rnd_mono [of "of_nat k / of_nat n" 1] f_int_ratio [of n k]
    by (simp add: unit_f64_def)
  show "fle (Fin 0) ?v" using u [of "p i"] pi p(2) fle_trans unfolding unit_f64_def by fastforce
  show "fle ?v (Fin 1)" using u [of "p i + 1"] pi p(3) fle_trans unfolding unit_f64_def by fastforce
qed

text \<open>
  Latin hypercube sampling: every column of the generated configurations meets each of the \<open>n\<close> strata of
  its parameter exactly once, and for integer bounds every value lies inside the parameter's range.
\<close>

theorem GenerateConfigs_stratified:
  assumes "n \<le> 2 ^ 52" and "j < length ranges" and "ranges ! j = param_int name lo hi"
    and "lo \<le> hi" and "\<bar>lo\<bar> \<le> 2 ^ 52" and "\<bar>hi\<bar> \<le> 2 ^ 52"
  shows "\<exists>p vs. bij_betw p {..<n} {..<n} \<and> length (GenerateConfigs rnd_draw perm_draw ranges n) = n \<and>
    (\<forall>i < n. let c = GenerateConfigs rnd_draw perm_draw ranges n ! i in
       length c = length ranges \<and> c ! j = fadd (f_int lo) (fmul (vs i) (fsub (f_int hi) (f_int lo))) \<and>
       fle (fdiv (f_int (int (p i))) (f_int (int n))) (vs i) \<and> fle (vs i) (fdiv (f_int (int (p i + 1))) (f_int (int n))) \<and>
       fle (f_int lo) (c ! j) \<and> fle (c ! j) (f_int hi))"
proof -
  let ?col = "latinHypercubeColumn (rnd_draw j) (perm_draw j) n"
  obtain p where "bij_betw p {..<n} {..<n}" "\<forall>i < n. let v = ?col ! i in
    fle (fdiv (f_int (int (p i))) (f_int (int n))) v \<and> fle v (fdiv (f_int (int (p i + 1))) (f_int (int n)))"
    using column_stratified [OF assms(1)] by blast
  moreover have "fle (f_int lo) (fadd (f_int lo) (fmul (?col ! i) (fsub (f_int hi) (f_int lo))))"
    "fle (fadd (f_int lo) (fmul (?col ! i) (fsub (f_int hi) (f_int lo)))) (f_int hi)" if "i < n" for i
    using interpolate_range [OF column_unit [OF that assms(1)] assms(4-6)] .
  ultimately show ?thesis using assms(2,3)
    by (intro exI [of _ p] exI [of _ "\<lambda>i. ?col ! i"]) (simp add: GenerateConfigs_def Let_def param_int_def)
qed

theorem GenerateConfigs_stratified_witness:
  "let c = GenerateConfigs (\<lambda>_ _. 0) (\<lambda>_ _. 0) [param_int ''LingerMs'' 0 100] 3 ! 2 ! 0 in fle (f_int 0) c \<and> fle c (f_int 100)"
proof -
  obtain p vs where "\<forall>i < 3. let c = GenerateConfigs (\<lambda>_ _. 0) (\<lambda>_ _. 0) [param_int ''LingerMs'' 0 100] 3 ! i in
      length c = 1 \<and> c ! 0 = fadd (f_int 0) (fmul (vs i) (fsub (f_int 100) (f_int 0))) \<and>
      fle (fdiv (f_int (int (p i))) (f_int (int 3))) (vs i) \<and> fle (vs i) (fdiv (f_int (int (p i + 1))) (f_int (int 3))) \<and>
      fle (f_int 0) (c ! 0) \<and> fle (c ! 0) (f_int 100)"
    using GenerateConfigs_stratified [of 3 0 "[param_int ''LingerMs'' 0 100]" "''LingerMs''" 0 100 "\<lambda>_ _. 0" "\<lambda>_ _. 0"] by auto
  moreover have "(2 :: nat) < 3" by simp
  ultimately show ?thesis unfolding Let_def by blast
qed

subsection \<open>Representative configurations\<close>

text \<open>
  The routines of gonum this package calls: statistics and vector operations, the matrix product, and
  the right singular vectors of a matrix (the rows of the matrix \<open>V\<close>), if the factorization succeeds.
\<close>

record gonum =
  gMean :: "f64 list \<Rightarrow> f64"
  gStdDev :: "f64 list \<Rightarrow> f64"
  gAddScaled :: "f64 list \<Rightarrow> f64 \<Rightarrow> f64 list \<Rightarrow> f64 list"
  gDot :: "f64 list \<Rightarrow> f64 list \<Rightarrow> f64"
  gMax :: "f64 list \<Rightarrow> f64"
  gScale :: "f64 \<Rightarrow> f64 list \<Rightarrow> f64 list"
  gSVD :: "f64 list list \<Rightarrow> f64 list list option"
  gMul :: "f64 list list \<Rightarrow> f64 list list \<Rightarrow> f64 list list"

fun f_ceil :: "f64 \<Rightarrow> f64" where
  "f_ceil (Fin q) = Fin (of_int \<lceil>q\<rceil>)"
| "f_ceil x = x"

definition col_min :: "f64 list list \<Rightarrow> nat \<Rightarrow> f64" where
  "col_min projected j = foldl (\<lambda>m row. if flt (row ! j) m then row ! j else m) (Inf False) projected"

definition col_max :: "f64 list list \<Rightarrow> nat \<Rightarrow> f64" where
  "col_max projected j = foldl (\<lambda>m row. if flt m (row ! j) then row ! j else m) (Inf True) projected"

definition grid_point :: "f64 list list \<Rightarrow> nat \<Rightarrow> int \<Rightarrow> int \<Rightarrow> f64" where
  "grid_point projected j i g =
     (let lo = col_min projected j; hi = col_max projected j
      in fadd lo (fdiv (fmul (fsub hi lo) (f_int i)) (f_int g)))"

definition grid_targets :: "f64 list list \<Rightarrow> nat \<Rightarrow> nat \<Rightarrow> f64 list list" where
  "grid_targets projected numPC g =
     concat (map (\<lambda>i. map (\<lambda>j. map (\<lambda>c. if c = 0 then grid_point projected 0 (int i) (int g)
                                           else if c = 1 then grid_point projected 1 (int j) (int g) else Fin 0) [0..<numPC])
                          [0..<g]) [0..<g])"

definition sq_dist :: "nat \<Rightarrow> f64 list \<Rightarrow> f64 list \<Rightarrow> f64" where
  "sq_dist numPC row target = foldl (\<lambda>acc j. let d = fsub (row ! j) (target ! j) in fadd acc (fmul d d)) (Fin 0) [0..<numPC]"

definition nearest :: "f64 list list \<Rightarrow> nat \<Rightarrow> nat list \<Rightarrow> f64 list \<Rightarrow> nat list \<Rightarrow> nat option \<times> f64" where
  "nearest projected numPC used target is =
     foldl (\<lambda>(bestIdx, bestDist) i.
              if i \<in> set used then (bestIdx, bestDist)
              else let d = sq_dist numPC (projected ! i) target in if flt d bestDist then (Some i, d) else (bestIdx, bestDist))
       (None, Inf False) is"

fun pick_targets :: "f64 list list \<Rightarrow> nat \<Rightarrow> nat \<Rightarrow> nat \<Rightarrow> f64 list list \<Rightarrow> nat list \<Rightarrow> nat list" where
  "pick_targets projected n numPC k [] selected = selected"
| "pick_targets projected n numPC k (t # ts) selected =
     (if length selected \<ge> k then selected
      else case fst (nearest projected numPC selected t [0..<n]) of
             Some i \<Rightarrow> pick_targets projected n numPC k ts (selected @ [i])
           | None \<Rightarrow> pick_targets projected n numPC k ts selected)"

definition gridSelect :: "(f64 \<Rightarrow> int) \<Rightarrow> f64 list list \<Rightarrow> nat \<Rightarrow> nat \<Rightarrow> nat \<Rightarrow> nat list" where
  "gridSelect oob projected n numPC k =
     (let gridSize = nat (f_to_int oob (f_ceil (fsqrt (f_int (int k)))))
      in sort (pick_targets projected n numPC k (grid_targets projected numPC gridSize) []))"

definition column_mean :: "f64 list list \<Rightarrow> nat \<Rightarrow> f64" where
  "column_mean configs j = fdiv (fsum (map (\<lambda>row. row ! j) configs)) (f_int (int (length configs)))"

definition centered :: "f64 list list \<Rightarrow> nat \<Rightarrow> f64 list list" where
  "centered configs d = map (\<lambda>row. map (\<lambda>j. fsub (row ! j) (column_mean configs j)) [0..<d]) configs"

definition SelectRepresentative :: "gonum \<Rightarrow> (f64 \<Rightarrow> int) \<Rightarrow> f64 list list \<Rightarrow> nat \<Rightarrow> f64 list list option" where
  "SelectRepresentative G oob configs k =
     (let n = length configs
      in if n \<le> k then Some configs
         else if configs ! 0 = [] then Some (take k configs)
         else let d = length (configs ! 0); numPC = min 2 d
              in if \<not> list_all (\<lambda>row. d \<le> length row) configs then None
                 else case gSVD G (centered configs d) of
                        None \<Rightarrow> Some (take k configs)
                      | Some v \<Rightarrow>
                          if \<not> list_all (\<lambda>row. d \<le> length row) (take numPC v) \<or> length v < numPC then None
                          else let pcBasis = map (take d) (take numPC v);
                                   projected = gMul G (centered configs d) (transpose pcBasis)
                               in Some (map (\<lambda>i. configs ! i) (gridSelect oob projected n numPC k)))"

text \<open>A square within half a small step of a number below \<open>2^40\<close> cannot be smaller after rounding up.\<close>

lemma ceiling_root:
  fixes s u q :: rat
  assumes "(s - u / 2)\<^sup>2 \<le> q" and "q \<le> (s + u / 2)\<^sup>2" and "q < 2 ^ 40" and "0 \<le> s" and "0 < u" and "u \<le> 1 / 2 ^ 32"
  shows "q < of_int (\<lceil>s\<rceil> * \<lceil>s\<rceil> + 1)" and "0 \<le> \<lceil>s\<rceil>" and "\<lceil>s\<rceil> \<le> 2 ^ 20 + 1"
proof -
  let ?G = "\<lceil>s\<rceil>" and ?g = "of_int \<lceil>s\<rceil> :: rat"
  have "s - u / 2 < 2 ^ 20"
  proof (rule ccontr)
    assume "\<not> s - u / 2 < 2 ^ 20"
    then have "2 ^ 20 \<le> s - u / 2" by simp
    then have "(2 ^ 20)\<^sup>2 \<le> (s - u / 2)\<^sup>2" by (rule power_mono) simp
    also have "(2 ^ 20)\<^sup>2 = (2 ^ 40 :: rat)" by simp
    finally show False using assms(1,3) by linarith
  qed
  moreover have "u / 2 < 1" using assms(6) by simp
  ultimately have "s \<le> of_int (2 ^ 20 + 1)" by simp
  then show b: "?G \<le> 2 ^ 20 + 1" by (simp only: ceiling_le_iff)
  show G: "0 \<le> ?G" using assms(4) by simp
  have "s + u / 2 \<le> ?g + u / 2" by simp
  then have "(s + u / 2)\<^sup>2 \<le> (?g + u / 2)\<^sup>2" by (rule power_mono) (use assms(4,5) in simp)
  with assms(2) have "q \<le> ?g * ?g + ?g * u + u * u / 4" by (simp add: power2_eq_square algebra_simps)
  moreover have "?g \<le> of_int (2 ^ 20 + 1)" using b by (simp only: of_int_le_iff)
  then have "?g * u \<le> of_int (2 ^ 20 + 1) * (1 / 2 ^ 32)" by (rule mult_mono) (use assms(5,6) in simp_all)
  moreover have "u * u \<le> 1 / 2 ^ 32 * (1 / 2 ^ 32)" by (rule mult_mono) (use assms(5,6) in simp_all)
  ultimately show "q < of_int (?G * ?G + 1)" by simp
qed

text \<open>The grid has at least as many points as configurations are asked for.\<close>

lemma grid_size:
  assumes "k < 2 ^ 40" and g: "g = nat (f_to_int oob (f_ceil (fsqrt (f_int (int k)))))"
  shows "k \<le> g * g \<and> g \<le> 2 ^ 20 + 1"
proof (cases "k = 0")
  case True
  then have "f_int (int k) = Fin 0" using f_int_small [of 0] by simp
  then show ?thesis using True by (simp add: g f_to_int_def trunc_def)
next
  case False
  let ?q = "of_nat k :: rat"
  have k: "f_int (int k) = Fin ?q" using assms(1) by (intro f_int_small) simp
  define u :: rat where "u = 2 powi (ilog2 ?q div 2 - 52)"
  obtain K where K: "fsqrt (Fin ?q) = Fin (of_nat K * u)" "((of_nat K - 1 / 2) * u)\<^sup>2 \<le> ?q" "?q \<le> ((of_nat K + 1 / 2) * u)\<^sup>2"
    using fsqrt_nearest [of ?q] False unfolding u_def Let_def by auto
  have "?q < of_nat (2 ^ 40)" using assms(1) by (simp only: of_nat_less_iff)
  then have q: "?q < 2 ^ 40" "?q \<le> 2 powi 40" "0 < ?q" using False by simp_all
  have "ilog2 ?q \<le> ilog2 (2 powi 40)" by (rule ilog2_mono [OF q(3,2)])
  then have "ilog2 ?q \<le> 40" by (simp only: ilog2_powi)
  then have "u \<le> 2 powi (- 32)" unfolding u_def by (intro power_int_increasing) simp_all
  also have "(2 powi (- 32) :: rat) = 1 / 2 ^ 32" by (simp add: power_int_minus)
  finally have u: "0 < u" "u \<le> 1 / 2 ^ 32" by (simp_all add: u_def)
  let ?s = "of_nat K * u"
  have "(?s - u / 2)\<^sup>2 \<le> ?q" "?q \<le> (?s + u / 2)\<^sup>2" using K(2,3) by (simp_all add: left_diff_distrib distrib_right)
  moreover have "0 \<le> ?s" using u(1) by simp
  ultimately have c: "?q < of_int (\<lceil>?s\<rceil> * \<lceil>?s\<rceil> + 1)" "0 \<le> \<lceil>?s\<rceil>" "\<lceil>?s\<rceil> \<le> 2 ^ 20 + 1"
    using ceiling_root [OF _ _ q(1) _ u] by blast+
  have "(of_int (int k) :: rat) < of_int (\<lceil>?s\<rceil> * \<lceil>?s\<rceil> + 1)" using c(1) by simp
  then have "int k \<le> \<lceil>?s\<rceil> * \<lceil>?s\<rceil>" by (simp only: of_int_less_iff)
  moreover have "f_to_int oob (f_ceil (Fin ?s)) = \<lceil>?s\<rceil>" using c(2,3) by (simp add: f_to_int_def)
  moreover have "int (nat \<lceil>?s\<rceil> * nat \<lceil>?s\<rceil>) = \<lceil>?s\<rceil> * \<lceil>?s\<rceil>" using c(2) by (simp only: of_nat_mult int_nat_eq if_True)
  ultimately have "k \<le> nat \<lceil>?s\<rceil> * nat \<lceil>?s\<rceil>" "g = nat \<lceil>?s\<rceil>" unfolding g k K(1) by (simp_all only: of_nat_le_iff [where 'a = int, symmetric])
  then show ?thesis using c(3) by (simp add: nat_le_iff)
qed

text \<open>Distances between ordinary numbers are finite.\<close>

definition small_matrix :: "nat \<Rightarrow> nat \<Rightarrow> f64 list list \<Rightarrow> bool" where
  "small_matrix n m xss \<longleftrightarrow> length xss = n \<and> (\<forall>row \<in> set xss. \<forall>j < m. upto_powi 200 (row ! j))"

lemma col_min_upto:
  assumes "xss \<noteq> []" and "\<And>row. row \<in> set xss \<Longrightarrow> upto_powi k (row ! j)"
  shows "upto_powi k (col_min xss j)" and "upto_powi k (col_max xss j)"
proof -
  have keep: "upto_powi k (foldl (\<lambda>m row. if c (row ! j) m then row ! j else m) a xs)"
    if "\<And>row. row \<in> set xs \<Longrightarrow> upto_powi k (row ! j)" "upto_powi k a" for c a xs
    using that by (induction xs arbitrary: a) simp_all
  obtain x xs where "xss = x # xs" using assms(1) by (cases xss) auto
  moreover from this have "upto_powi k (x ! j)" using assms(2) by simp
  moreover from this have "flt (x ! j) (Inf False)" "flt (Inf True) (x ! j)" by (auto elim!: upto_powiE simp: flt_def)
  ultimately show "upto_powi k (col_min xss j)" "upto_powi k (col_max xss j)"
    unfolding col_min_def col_max_def using assms(2) keep [where c = flt and xs = xs] keep [where c = "\<lambda>x m. flt m x" and xs = xs]
    by simp_all
qed

lemma grid_point_upto:
  assumes "xss \<noteq> []" and "\<And>row. row \<in> set xss \<Longrightarrow> upto_powi 200 (row ! j)" and "i < g" and "g \<le> 2 ^ 20 + 1"
  shows "upto_powi 300 (grid_point xss j (int i) (int g))"
proof -
  have "upto_powi 201 (fsub (col_max xss j) (col_min xss j))"
    using upto_powi_add(2) [OF col_min_upto(2,1) [OF assms(1,2)]] by simp
  moreover have gi: "f_int (int g) = Fin (of_nat g)" "f_int (int i) = Fin (of_nat i)" using assms(3,4) by (simp_all add: f_int_small)
  have "(of_nat i :: rat) \<le> of_nat (2 ^ 21)" unfolding of_nat_le_iff using assms(3,4) by simp
  then have "upto_powi 21 (f_int (int i))" unfolding gi(2) by simp
  ultimately have "upto_powi (201 + 21) (fmul (fsub (col_max xss j) (col_min xss j)) (f_int (int i)))" by (rule upto_powi_mul) simp_all
  then have "upto_powi 222 (fdiv (fmul (fsub (col_max xss j) (col_min xss j)) (f_int (int i))) (f_int (int g)))"
    unfolding gi(1) using assms(3) by (intro upto_powi_div) simp_all
  moreover have "upto_powi 222 (col_min xss j)" by (rule upto_powi_mono [OF col_min_upto(1) [OF assms(1,2)]]) simp_all
  ultimately have "upto_powi (222 + 1) (grid_point xss j (int i) (int g))"
    unfolding grid_point_def Let_def by (intro upto_powi_add) simp_all
  then show ?thesis by (rule upto_powi_mono) simp
qed

lemma sq_dist_finite:
  assumes "m \<le> 2" and "\<And>j. j < m \<Longrightarrow> upto_powi 200 (row ! j)" and "\<And>j. j < m \<Longrightarrow> upto_powi 300 (target ! j)"
  shows "flt (sq_dist m row target) (Inf False)"
proof -
  let ?sq = "\<lambda>j. fmul (fsub (row ! j) (target ! j)) (fsub (row ! j) (target ! j))"
  have sq: "upto_powi 602 (?sq j)" if "j < m" for j
  proof -
    have "upto_powi 300 (row ! j)" by (rule upto_powi_mono [OF assms(2) [OF that]]) simp
    then have d: "upto_powi 301 (fsub (row ! j) (target ! j))" using upto_powi_add(2) [OF _ assms(3) [OF that]] by simp
    show ?thesis using upto_powi_mul [OF d d] by simp
  qed
  have step: "upto_powi (k + 1) (fadd acc (?sq j))" if "upto_powi k acc" "602 \<le> k" "k \<le> 700" "j < m" for k acc j
    using that by (intro upto_powi_add(1) upto_powi_mono [OF sq]) simp_all
  have zero: "upto_powi 602 (Fin 0)" by simp
  have "m = 0 \<or> m = 1 \<or> m = 2" using assms(1) by linarith
  then have "upto_powi 700 (sq_dist m row target)"
  proof (elim disjE)
    assume "m = 2"
    then have "upto_powi 604 (fadd (fadd (Fin 0) (?sq 0)) (?sq 1))" using step [OF step [OF zero]] by simp
    then show ?thesis using \<open>m = 2\<close> by (auto simp: sq_dist_def upt_rec Let_def intro: upto_powi_mono)
  next
    assume "m = 1"
    then have "upto_powi 603 (fadd (Fin 0) (?sq 0))" using step [OF zero] by simp
    then show ?thesis using \<open>m = 1\<close> by (auto simp: sq_dist_def Let_def intro: upto_powi_mono)
  qed (simp add: sq_dist_def)
  then show ?thesis by (auto elim!: upto_powiE simp: flt_def)
qed

lemma nearest_spec:
  assumes "nearest xss m used t is = (b, d)"
  shows "(b = None \<longrightarrow> d = Inf False \<and> (\<forall>i \<in> set is - set used. \<not> flt (sq_dist m (xss ! i) t) (Inf False))) \<and>
    (\<forall>j. b = Some j \<longrightarrow> j \<in> set is - set used)"
  using assms
proof (induction "is" arbitrary: b d rule: rev_induct)
  case (snoc i "is")
  obtain b' d' where r: "nearest xss m used t is = (b', d')" by fastforce
  have "nearest xss m used t (is @ [i]) =
    (if i \<in> set used then (b', d') else let e = sq_dist m (xss ! i) t in if flt e d' then (Some i, e) else (b', d'))"
    using r by (simp add: nearest_def)
  with snoc.IH [OF r] snoc.prems show ?case by (auto simp: Let_def split: if_splits)
qed (simp add: nearest_def)

lemma nearest_found:
  assumes "i < n" and "i \<notin> set used" and "flt (sq_dist m (xss ! i) t) (Inf False)"
  obtains j where "fst (nearest xss m used t [0..<n]) = Some j" "j < n" "j \<notin> set used"
proof -
  obtain b d where r: "nearest xss m used t [0..<n] = (b, d)" by fastforce
  from nearest_spec [OF r] assms have "b \<noteq> None" by auto
  with nearest_spec [OF r] r that show thesis by auto
qed

lemma pick_targets_spec:
  assumes "k < n" and "\<And>i t. i < n \<Longrightarrow> t \<in> set ts \<Longrightarrow> flt (sq_dist m (xss ! i) t) (Inf False)"
    and "distinct sel" and "set sel \<subseteq> {..<n}" and "length sel \<le> k"
  shows "distinct (pick_targets xss n m k ts sel) \<and> set (pick_targets xss n m k ts sel) \<subseteq> {..<n} \<and>
    length (pick_targets xss n m k ts sel) = min k (length sel + length ts)"
  using assms(2-)
proof (induction ts arbitrary: sel)
  case (Cons t ts)
  show ?case
  proof (cases "length sel \<ge> k")
    case False
    have "card (set sel) < card {..<n}" using False assms(1) Cons.prems(2) by (simp add: distinct_card)
    then obtain i where "i < n" "i \<notin> set sel" using card_mono [of "set sel" "{..<n}"] by (metis List.finite_set lessThan_iff not_le subsetI)
    then obtain j where j: "fst (nearest xss m sel t [0..<n]) = Some j" "j < n" "j \<notin> set sel"
      using nearest_found [of i n sel m xss t] Cons.prems(1) by (metis list.set_intros(1))
    have "distinct (sel @ [j])" "set (sel @ [j]) \<subseteq> {..<n}" "length (sel @ [j]) \<le> k" using j False Cons.prems by auto
    with Cons.IH [of "sel @ [j]"] Cons.prems(1) j(1) False show ?thesis by simp
  qed (use Cons.prems in simp)
qed simp

lemma gridSelect_spec:
  assumes "small_matrix n m xss" and "m \<le> 2" and "k < n" and "k < 2 ^ 40"
  shows "sorted_wrt (<) (gridSelect oob xss n m k) \<and> set (gridSelect oob xss n m k) \<subseteq> {..<n} \<and> length (gridSelect oob xss n m k) = k"
proof -
  define g where "g = nat (f_to_int oob (f_ceil (fsqrt (f_int (int k)))))"
  have g: "k \<le> g * g" "g \<le> 2 ^ 20 + 1" using grid_size [OF assms(4) g_def] by simp_all
  have rows: "upto_powi 200 (row ! j)" if "row \<in> set xss" "j < m" for row j
    using assms(1) that by (simp add: small_matrix_def)
  have ne: "xss \<noteq> []" "length xss = n" using assms(1,3) by (auto simp: small_matrix_def)
  have len: "length (grid_targets xss m g) = g * g" by (simp add: grid_targets_def length_concat comp_def sum_list_triv)
  have point: "upto_powi 300 (grid_point xss j (int i) (int g))" if "j < m" "i < g" for i j
    using grid_point_upto [OF ne(1) rows [OF _ that(1)] that(2) g(2)] .
  have "flt (sq_dist m (xss ! i) t) (Inf False)" if "i < n" "t \<in> set (grid_targets xss m g)" for i t
  proof (rule sq_dist_finite [OF assms(2)])
    show "upto_powi 200 (xss ! i ! j)" if "j < m" for j using rows that \<open>i < n\<close> ne(2) by simp
    show "upto_powi 300 (t ! j)" if "j < m" for j
      using \<open>t \<in> _\<close> that point assms(2) by (auto simp: grid_targets_def)
  qed
  then have "distinct (pick_targets xss n m k (grid_targets xss m g) []) \<and> set (pick_targets xss n m k (grid_targets xss m g) []) \<subseteq> {..<n} \<and>
    length (pick_targets xss n m k (grid_targets xss m g) []) = k"
    using pick_targets_spec [where sel = "[]" and k = k and n = n and m = m and xss = xss and ts = "grid_targets xss m g"] assms(3) g(1) len by simp
  then show ?thesis
    by (simp add: gridSelect_def Let_def len strict_sorted_iff flip: g_def)
qed


text \<open>With fewer configurations than parameters the loop over \<open>V\<close> reads past its columns.\<close>

lemma SelectRepresentative_panics:
  assumes "k < length configs" and "length configs < d" and "list_all (\<lambda>row. length row = d) configs"
    and "gSVD G (centered configs d) = Some v" and "length v = d" and "list_all (\<lambda>row. length row = min (length configs) d) v"
  shows "SelectRepresentative G oob configs k = None"
proof -
  have "configs ! 0 \<in> set configs" using assms(1) by (cases configs) simp_all
  then have d: "length (configs ! 0) = d" "list_all (\<lambda>row. d \<le> length row) configs"
    using assms(1,3) by (auto simp: list_all_iff)
  obtain r rs where "v = r # rs" using assms(2,5) by (cases v) auto
  moreover from this have "length r < d" using assms(2,6) by simp
  ultimately have "\<not> list_all (\<lambda>row. d \<le> length row) (take (min 2 d) v)" using assms(2) by (cases d) (auto simp: min_def)
  then show ?thesis using assms(1,2,4) d by (auto simp: SelectRepresentative_def Let_def)
qed

text \<open>Three configurations on a line, with the identity as singular vectors, reduced to two.\<close>

definition sampleGonum :: gonum where
  "sampleGonum = \<lparr>gMean = \<lambda>_. Fin 0, gStdDev = \<lambda>_. Fin 1, gAddScaled = \<lambda>dst a s. dst, gDot = \<lambda>_ _. Fin 0,
     gMax = \<lambda>ws. foldl (\<lambda>m w. if flt m w then w else m) (hd ws) ws, gScale = \<lambda>c. map (fmul c),
     gSVD = \<lambda>_. Some [[Fin 1]], gMul = \<lambda>a _. a\<rparr>"


subsection \<open>Selecting parameters\<close>

definition flat_rows :: "f64 list list \<Rightarrow> nat \<Rightarrow> f64 list" where
  "flat_rows configs d =
     foldl (\<lambda>flat i. slice_write (i * d) (configs ! i) flat) (replicate (length configs * d) (Fin 0)) [0..<length configs]"

definition standardized :: "gonum \<Rightarrow> f64 list \<Rightarrow> f64 list" where
  "standardized G col =
     (let m = gMean G col; sd0 = gStdDev G col; sd = if flt sd0 (f_const (1 / 10 ^ 10)) then Fin 1 else sd0
      in map (\<lambda>x. fdiv (fsub x m) sd) col)"

definition lasso_columns :: "gonum \<Rightarrow> f64 list list \<Rightarrow> nat \<Rightarrow> f64 list list" where
  "lasso_columns G configs d =
     (let flat = flat_rows configs d
      in map (\<lambda>j. standardized G (map (\<lambda>i. flat ! (i * d + j)) [0..<length configs])) [0..<d])"

definition softThreshold :: "f64 \<Rightarrow> f64 \<Rightarrow> f64" where
  "softThreshold x lambda = (if flt lambda x then fsub x lambda else if flt x (fneg lambda) then fadd x lambda else Fin 0)"

definition lasso_coordinate :: "gonum \<Rightarrow> f64 \<Rightarrow> f64 \<Rightarrow> f64 list list \<Rightarrow> f64 list \<times> f64 list \<times> f64 \<Rightarrow> nat \<Rightarrow> f64 list \<times> f64 list \<times> f64" where
  "lasso_coordinate G fn alpha cols st j =
     (case st of (beta, residual, maxChange) \<Rightarrow>
        let col = cols ! j;
            r1 = gAddScaled G residual (beta ! j) col;
            b = softThreshold (fdiv (gDot G col r1) fn) alpha;
            r2 = gAddScaled G r1 (fneg b) col;
            change = fabs (fsub b (beta ! j))
        in (beta[j := b], r2, if flt maxChange change then change else maxChange))"

fun lasso_loop :: "gonum \<Rightarrow> f64 \<Rightarrow> f64 \<Rightarrow> f64 list list \<Rightarrow> nat \<Rightarrow> f64 list \<Rightarrow> f64 list \<Rightarrow> f64 list" where
  "lasso_loop G fn alpha cols 0 beta residual = beta"
| "lasso_loop G fn alpha cols (Suc iters) beta residual =
     (case foldl (lasso_coordinate G fn alpha cols) (beta, residual, Fin 0) [0..<length cols] of
        (beta', residual', maxChange) \<Rightarrow>
          if flt maxChange (f_const (1 / 10 ^ 6)) then beta' else lasso_loop G fn alpha cols iters beta' residual')"

definition lasso_beta :: "gonum \<Rightarrow> f64 list list \<Rightarrow> f64 list \<Rightarrow> f64 \<Rightarrow> f64 list" where
  "lasso_beta G configs throughputs alpha =
     (let d = length (configs ! 0); yMean = gMean G throughputs
      in lasso_loop G (f_int (int (length configs))) alpha (lasso_columns G configs d) 1000 (replicate d (Fin 0))
           (map (\<lambda>y. fsub y yMean) throughputs))"

definition select_weights :: "gonum \<Rightarrow> f64 list \<Rightarrow> nat list \<times> f64 list" where
  "select_weights G beta =
     (let indices = filter (\<lambda>j. flt (f_const (1 / 10 ^ 8)) (fabs (beta ! j))) [0..<length beta];
          weights = map (\<lambda>j. fabs (beta ! j)) indices
      in (indices, if weights \<noteq> [] \<and> flt (Fin 0) (gMax G weights) then gScale G (fdiv (Fin 1) (gMax G weights)) weights else weights))"

definition SelectParameters :: "gonum \<Rightarrow> f64 list list \<Rightarrow> f64 list \<Rightarrow> f64 \<Rightarrow> (nat list \<times> f64 list) option" where
  "SelectParameters G configs throughputs alpha =
     (if configs = [] then Some ([], [])
      else if configs ! 0 = [] \<or> length throughputs \<noteq> length configs then None
      else Some (select_weights G (lasso_beta G configs throughputs alpha)))"

text \<open>Rounding a normal number up adds at most \<open>2^-53\<close> of it, and a number that close above 1 rounds to 1.\<close>

lemma rnd_relative:
  assumes "2 powi (- 1022) \<le> q" and "rnd q = Fin r"
  shows "r \<le> q * (1 + 1 / 2 ^ 53)"
proof -
  have q: "0 < q" using assms(1) by (rule less_le_trans [rotated]) simp
  have "r = round_pos q" using assms(2) rnd_pos [OF q] by (simp split: if_splits)
  let ?u = "2 powi ulp_exp q :: rat"
  have "2 powi (- 1022) < (2 powi (ilog2 q + 1) :: rat)" using assms(1) ilog2_bounds(2) [OF q] by (rule le_less_trans)
  then have "- 1022 < ilog2 q + 1" using power_int_increasing [of "ilog2 q + 1" "- 1022" "2 :: rat"] by (rule_tac ccontr) simp
  then have "ulp_exp q = ilog2 q - 52" by (simp add: ulp_exp_def)
  then have "?u * 2 ^ 52 = 2 powi ilog2 q" by (simp add: power_int_diff)
  then have u: "?u \<le> q / 2 ^ 52" using ilog2_bounds(1) [OF q] by simp
  have "r \<le> (q / ?u + 1 / 2) * ?u" unfolding \<open>r = round_pos q\<close> round_pos_def
    by (intro mult_right_mono round_even_half) simp
  also have "\<dots> = q + ?u / 2" by (simp add: distrib_right)
  also have "\<dots> \<le> q * (1 + 1 / 2 ^ 53)" using u by (simp add: algebra_simps)
  finally show ?thesis .
qed

lemma rnd_near_one: "rnd (1 + 1 / 2 ^ 53) = Fin 1"
proof -
  let ?q = "1 + 1 / 2 ^ 53 :: rat"
  have q: "0 < ?q" by simp
  have "ilog2 ?q = 0"
  proof (rule antisym)
    show "ilog2 ?q \<le> 0" using ilog2_bounds(1) [OF q] power_int_increasing [of 1 "ilog2 ?q" "2 :: rat"] by (rule_tac ccontr) simp
    show "0 \<le> ilog2 ?q" using ilog2_bounds(2) [OF q] power_int_increasing [of "ilog2 ?q + 1" 0 "2 :: rat"] by (rule_tac ccontr) simp
  qed
  then have "ulp_exp ?q = - 52" by (simp add: ulp_exp_def)
  moreover have "\<lfloor>9007199254740993 / 2 :: rat\<rfloor> = 4503599627370496" by (simp add: floor_eq_iff)
  ultimately have "round_pos ?q = 1" by (simp add: round_pos_def round_even_def power_int_minus Let_def)
  moreover have "(1 :: rat) < overflow_bound" by (simp add: overflow_bound_def)
  ultimately show ?thesis by (simp only: rnd_pos [OF q] not_le [symmetric] if_False)
qed

lemma scaled_weight:
  assumes "2 powi (- 27) \<le> w" and "w \<le> m" and "m \<le> 2 powi 1021"
  shows "\<exists>r. fmul (fdiv (Fin 1) (Fin m)) (Fin w) = Fin r \<and> 0 < r \<and> r \<le> 1"
proof -
  have pos: "0 < w" "0 < m" using assms(1,2) less_le_trans [of 0 "2 powi (- 27)" w] by simp_all
  have lo: "2 powi (- 1021) \<le> 1 / m" using assms(3) pos by (simp add: power_int_minus field_simps)
  have "1 / m \<le> 1 / (2 powi (- 27))" using assms(1,2) pos by (intro divide_left_mono) simp_all
  then have "\<bar>1 / m\<bar> \<le> 2 powi 1023" using pos by (simp add: power_int_minus)
  then obtain c where c: "rnd (1 / m) = Fin c" using rnd_finite by blast
  have "(2 powi (- 1022) :: rat) \<le> 2 powi (- 1021)" by (intro power_int_increasing) simp_all
  with lo have "c \<le> 1 / m * (1 + 1 / 2 ^ 53)" using rnd_relative [OF _ c] by simp
  then have "c * w \<le> 1 / m * (1 + 1 / 2 ^ 53) * w" using pos by (intro mult_right_mono) simp_all
  also have "\<dots> = w / m * (1 + 1 / 2 ^ 53)" by simp
  also have "\<dots> \<le> 1 + 1 / 2 ^ 53" using assms(2) pos by (intro mult_left_le_one_le) simp_all
  finally have hi: "fle (rnd (c * w)) (Fin 1)" using rnd_mono [of "c * w" "1 + 1 / 2 ^ 53"] rnd_near_one by simp
  have "fle (Fin (2 powi (- 1021))) (Fin c)" using rnd_ge_powi [OF lo] c by simp
  then have "2 powi (- 1021) * 2 powi (- 27) \<le> c * w" using assms(1) by (intro mult_mono) (simp_all add: order_less_imp_le [OF less_le_trans])
  then have "2 powi (- 1048) \<le> c * w" by (simp flip: power_int_add)
  then have "fle (Fin (2 powi (- 1048))) (rnd (c * w))" by (rule rnd_ge_powi) simp_all
  with hi obtain r where "rnd (c * w) = Fin r" "2 powi (- 1048) \<le> r" "r \<le> 1" by (elim fle_Fin_between)
  then show ?thesis using c pos by (auto intro: less_le_trans [of 0 "2 powi (- 1048)"])
qed

lemma length_lasso_loop: "length (lasso_loop G fn alpha cols iters beta residual) = length beta"
proof (induction iters arbitrary: beta residual)
  case (Suc iters)
  have "length (fst (foldl (lasso_coordinate G fn alpha cols) st js)) = length (fst st)" for st js
    by (induction js arbitrary: st) (simp_all add: lasso_coordinate_def Let_def split: prod.split)
  from this [of "(beta, residual, Fin 0)" "[0..<length cols]"] Suc.IH show ?case by (auto split: prod.split)
qed simp

definition gonum_laws :: "gonum \<Rightarrow> bool" where
  "gonum_laws G \<longleftrightarrow> (\<forall>ws. ws \<noteq> [] \<longrightarrow> NaN \<notin> set ws \<longrightarrow> gMax G ws \<in> set ws \<and> (\<forall>w \<in> set ws. fle w (gMax G ws))) \<and>
     (\<forall>c ws. gScale G c ws = map (fmul c) ws)"

lemma select_weights_spec:
  assumes "gonum_laws G" and "list_all (upto_powi 1021) beta" and "select_weights G beta = (indices, ws)"
  shows "sorted_wrt (<) indices" and "set indices = {j. j < length beta \<and> flt (f_const (1 / 10 ^ 8)) (fabs (beta ! j))}"
    and "length ws = length indices" and "w \<in> set ws \<Longrightarrow> flt (Fin 0) w \<and> fle w (Fin 1)"
proof -
  have idx: "indices = filter (\<lambda>j. flt (f_const (1 / 10 ^ 8)) (fabs (beta ! j))) [0..<length beta]"
    using assms(3) by (simp add: select_weights_def Let_def)
  show "sorted_wrt (<) indices" unfolding idx by (intro sorted_wrt_filter) simp
  show ind: "set indices = {j. j < length beta \<and> flt (f_const (1 / 10 ^ 8)) (fabs (beta ! j))}" unfolding idx by auto
  let ?ws = "map (\<lambda>j. fabs (beta ! j)) indices"
  have wsd: "ws = (if ?ws \<noteq> [] \<and> flt (Fin 0) (gMax G ?ws) then gScale G (fdiv (Fin 1) (gMax G ?ws)) ?ws else ?ws)"
    using assms(3) unfolding select_weights_def Let_def idx prod.inject by simp
  have big: "\<exists>q. v = Fin q \<and> 2 powi (- 27) \<le> q \<and> q \<le> 2 powi 1021" if v: "v \<in> set ?ws" for v
  proof -
    from v ind obtain j where j: "j < length beta" "flt (f_const (1 / 10 ^ 8)) (fabs (beta ! j))" "v = fabs (beta ! j)" by auto
    then have "upto_powi 1021 (beta ! j)" using assms(2) by (simp add: list_all_length)
    then obtain q where q: "beta ! j = Fin q" "\<bar>q\<bar> \<le> 2 powi 1021" by (rule upto_powiE)
    have "fle (Fin (2 powi (- 27))) (rnd (1 / 10 ^ 8))" by (rule rnd_ge_powi) simp_all
    moreover have "fle (rnd (1 / 10 ^ 8)) (Fin \<bar>q\<bar>)" using j(2) q(1) by (simp add: f_const_def flt_def)
    ultimately have "fle (Fin (2 powi (- 27))) (Fin \<bar>q\<bar>)" by (rule fle_trans)
    then show ?thesis using j(3) q by simp
  qed
  have "length ws = length indices \<and> (\<forall>w \<in> set ws. flt (Fin 0) w \<and> fle w (Fin 1))"
  proof (cases "?ws = []")
    case True
    then show ?thesis unfolding wsd by simp
  next
    case False
    have "NaN \<notin> set ?ws" using big by fastforce
    with assms(1) False have m: "gMax G ?ws \<in> set ?ws" "\<And>v. v \<in> set ?ws \<Longrightarrow> fle v (gMax G ?ws)" and scale: "\<And>c v. gScale G c v = map (fmul c) v"
      unfolding gonum_laws_def by blast+
    from big [OF m(1)] obtain x where x: "gMax G ?ws = Fin x" "2 powi (- 27) \<le> x" "x \<le> 2 powi 1021" by blast
    have "0 < x" using x(2) by (rule less_le_trans [rotated]) simp
    then have "flt (Fin 0) (Fin x)" by simp
    then have ws: "ws = map (fmul (fdiv (Fin 1) (Fin x))) ?ws" unfolding wsd x(1) scale using False by simp
    have "flt (Fin 0) (fmul (fdiv (Fin 1) (Fin x)) v) \<and> fle (fmul (fdiv (Fin 1) (Fin x)) v) (Fin 1)" if v: "v \<in> set ?ws" for v
    proof -
      from big [OF v] obtain q where q: "v = Fin q" "2 powi (- 27) \<le> q" by blast
      then have "q \<le> x" using m(2) [OF v] x(1) by simp
      from scaled_weight [OF q(2) this x(3)] q(1) show ?thesis by (auto simp: flt_def)
    qed
    then show ?thesis unfolding ws by auto
  qed
  then show "length ws = length indices" "w \<in> set ws \<Longrightarrow> flt (Fin 0) w \<and> fle w (Fin 1)" by blast+
qed

lemma sampleGonum_laws: "gonum_laws sampleGonum"
proof -
  have mem: "foldl (\<lambda>m w. if flt m w then w else m) m ws \<in> insert m (set ws)" for m ws
    by (induction ws arbitrary: m) auto
  have "gMax sampleGonum ws \<in> set ws \<and> (\<forall>w \<in> set ws. fle w (gMax sampleGonum ws))" if ne: "ws \<noteq> []" and nn: "NaN \<notin> set ws" for ws
  proof -
    obtain v vs where "ws = v # vs" using ne by (cases ws) auto
    then show ?thesis using nn mem [of "hd ws" ws] foldl_max_ge [of "hd ws" ws] by (auto simp: sampleGonum_def)
  qed
  then show ?thesis unfolding gonum_laws_def by (simp add: sampleGonum_def)
qed

end
