(* ===== verification/DDPG.thy ===== *)
theory DDPG
  imports DQN
begin

text \<open>
  The actor-critic learner of the configuration optimizer, \<^verbatim>\<open>pkg/optimizer/ddpg.go\<close>: acting with exploration
  noise, storing transitions, training on recycled batch buffers and the soft update of the
  target variables. The networks run in gomlx: the record \<^verbatim>\<open>ac_ops\<close> has the evaluations and gradient
  steps the code calls and access to the values of the paired variables; \<^verbatim>\<open>ac_laws\<close> is what they promise
  about shapes and the range of the actor. \<^verbatim>\<open>None\<close> is a panic.

  The lemmas show that training reads the sampled batch and nothing of earlier ones from the recycled
  buffers, that neither acting nor training panics, and that actions lie between -1 and 1.
\<close>

subsection \<open>Tensors\<close>

text \<open>The values a tensor can have here; numbers of the 32-bit type are the rationals it can represent.\<close>

datatype tensor = Vec64 "f64 list" | Vec32 "f64 list" | Mat64 "f64 list list" | Scalar64 f64 | Scalar32 f64 | OtherTensor

fun tensorToFloat64 :: "tensor \<Rightarrow> f64 list" where
  "tensorToFloat64 (Vec64 v) = v"
| "tensorToFloat64 (Vec32 v) = v"
| "tensorToFloat64 (Scalar64 x) = [x]"
| "tensorToFloat64 (Scalar32 x) = [x]"
| "tensorToFloat64 _ = []"

text \<open>Arithmetic of \<^verbatim>\<open>float32\<close>: 24 bits of precision.\<close>

definition rnd32 :: "rat \<Rightarrow> f64" where
  "rnd32 q =
     (if q = 0 then Fin 0
      else let u = 2 powi (max (- 149) (ilog2 \<bar>q\<bar> - 23)); r = of_int (round_even (\<bar>q\<bar> / u)) * u
           in if 2 powi 128 \<le> r then Inf (q < 0) else Fin (if q < 0 then - r else r))"

fun f32_add :: "f64 \<Rightarrow> f64 \<Rightarrow> f64" where
  "f32_add (Fin a) (Fin b) = rnd32 (a + b)"
| "f32_add x y = fadd x y"

fun f32_mul :: "f64 \<Rightarrow> f64 \<Rightarrow> f64" where
  "f32_mul (Fin a) (Fin b) = rnd32 (a * b)"
| "f32_mul x y = fmul x y"

subsection \<open>The learner\<close>

record 'n ac_ops =
  acActor :: "'n \<Rightarrow> f64 list \<Rightarrow> tensor"
  acNextQ :: "'n \<Rightarrow> nat \<Rightarrow> f64 list \<Rightarrow> tensor"
  acTrainCritic :: "'n \<Rightarrow> nat \<Rightarrow> f64 list \<Rightarrow> f64 list \<Rightarrow> f64 list \<Rightarrow> 'n"
  acTrainActor :: "'n \<Rightarrow> nat \<Rightarrow> f64 list \<Rightarrow> 'n"
  acSource :: "'n \<Rightarrow> nat \<Rightarrow> tensor"
  acTarget :: "'n \<Rightarrow> nat \<Rightarrow> tensor"
  acSetTarget :: "'n \<Rightarrow> nat \<Rightarrow> tensor \<Rightarrow> 'n"

definition ddpgTau :: rat where "ddpgTau = 5 / 1000"
definition ddpgDefaultGamma :: f64 where "ddpgDefaultGamma = f_const (99 / 100)"
definition ddpgDefaultBatchSize :: nat where "ddpgDefaultBatchSize = 32"
definition ddpgReplayBufSize :: nat where "ddpgReplayBufSize = 1000000"
definition ddpgOUTheta :: f64 where "ddpgOUTheta = f_const (15 / 100)"
definition ddpgOUSigma :: f64 where "ddpgOUSigma = f_const (2 / 10)"

record 'n ddpg =
  ddStateSize :: nat
  ddActionSize :: nat
  ddLr :: f64
  ddGamma :: f64
  ddBatchSize :: nat
  ddNets :: 'n
  ddPairBufs :: "nat list"
  ddReplay :: replay_buffer
  ddNoise :: ou_noise
  ddStatesBuf :: "f64 list"
  ddNextStatesBuf :: "f64 list"
  ddActionsBuf :: "f64 list"
  ddRewardsBuf :: "f64 list"
  ddDonesBuf :: "f64 list"
  ddTargetQBuf :: "f64 list"

text \<open>\<open>nets\<close> and \<open>bufs\<close> are the networks and the lengths of the buffers of the variable pairs, as initialized.\<close>

definition NewDDPG :: "'n \<Rightarrow> nat list \<Rightarrow> nat \<Rightarrow> nat \<Rightarrow> f64 \<Rightarrow> nat \<Rightarrow> 'n ddpg" where
  "NewDDPG nets bufs stateSize actionSize lr batchSize0 =
     (let batchSize = (if batchSize0 = 0 then ddpgDefaultBatchSize else batchSize0)
      in \<lparr>ddStateSize = stateSize, ddActionSize = actionSize, ddLr = lr, ddGamma = ddpgDefaultGamma, ddBatchSize = batchSize,
          ddNets = nets, ddPairBufs = bufs, ddReplay = NewReplayBuffer ddpgReplayBufSize,
          ddNoise = NewOUNoise actionSize (Fin 0) ddpgOUTheta ddpgOUSigma,
          ddStatesBuf = replicate (batchSize * stateSize) (Fin 0), ddNextStatesBuf = replicate (batchSize * stateSize) (Fin 0),
          ddActionsBuf = replicate (batchSize * actionSize) (Fin 0), ddRewardsBuf = replicate batchSize (Fin 0),
          ddDonesBuf = replicate batchSize (Fin 0), ddTargetQBuf = replicate batchSize (Fin 0)\<rparr>)"

text \<open>
  One pair of variables: the new value of the target, or nothing when the types differ. The factors are
  constants and therefore exact before they are rounded, except in the 32-bit case.
\<close>

definition blend64 :: "f64 \<Rightarrow> f64 \<Rightarrow> f64" where
  "blend64 t s = fadd (fmul (f_const (1 - ddpgTau)) t) (fmul (f_const ddpgTau) s)"

definition blend32 :: "f64 \<Rightarrow> f64 \<Rightarrow> f64" where
  "blend32 t s = (let tau32 = rnd32 ddpgTau in f32_add (f32_mul (f32_add (Fin 1) (fneg tau32)) t) (f32_mul tau32 s))"

definition soft_pair :: "nat \<Rightarrow> tensor \<Rightarrow> tensor \<Rightarrow> tensor option option" where
  "soft_pair bufLen src tgt =
     (case (src, tgt) of
        (Vec64 s, Vec64 t) \<Rightarrow> if length t \<le> bufLen \<and> length t \<le> length s then Some (Some (Vec64 (map2 blend64 t s))) else None
      | (Mat64 s, Mat64 t) \<Rightarrow>
          if map length s = map length t \<and> sum_list (map length s) \<le> bufLen then Some (Some (Mat64 (map2 (map2 blend64) t s))) else None
      | (Vec32 s, Vec32 t) \<Rightarrow> if length t \<le> length s then Some (Some (Vec32 (map2 blend32 t s))) else None
      | _ \<Rightarrow> Some None)"

fun softUpdate :: "'n ac_ops \<Rightarrow> nat list \<Rightarrow> nat \<Rightarrow> 'n \<Rightarrow> 'n option" where
  "softUpdate N [] i net = Some net"
| "softUpdate N (bl # bls) i net =
     (case soft_pair bl (acSource N net i) (acTarget N net i) of
        None \<Rightarrow> None
      | Some None \<Rightarrow> softUpdate N bls (i + 1) net
      | Some (Some t) \<Rightarrow> softUpdate N bls (i + 1) (acSetTarget N net i t))"

definition ddpg_Act :: "'n ac_ops \<Rightarrow> (nat \<Rightarrow> f64) \<Rightarrow> f64 list \<Rightarrow> 'n ddpg \<Rightarrow> (f64 list \<times> 'n ddpg) option" where
  "ddpg_Act N normal st d =
     (let action = tensorToFloat64 (acActor N (ddNets d) st); (noise, ou) = ou_Sample normal (ddNoise d)
      in if length noise < length action then None
         else Some (map2 (\<lambda>a e. fmax (Fin (- 1)) (fmin (Fin 1) (fadd a e))) action noise, d\<lparr>ddNoise := ou\<rparr>))"

definition ddpg_Store :: "f64 list \<Rightarrow> f64 list \<Rightarrow> f64 \<Rightarrow> f64 list \<Rightarrow> bool \<Rightarrow> 'n ddpg \<Rightarrow> 'n ddpg" where
  "ddpg_Store st action reward next_st fin d =
     d\<lparr>ddReplay := rp_Push \<lparr>trState = st, trAction = action, trReward = reward, trNextState = next_st, trDone = fin\<rparr> (ddReplay d)\<rparr>"

definition ensureBuffers :: "nat \<Rightarrow> 'n ddpg \<Rightarrow> 'n ddpg" where
  "ensureBuffers bs d =
     (let d1 = (if length (ddStatesBuf d) < bs * ddStateSize d
                then d\<lparr>ddStatesBuf := replicate (bs * ddStateSize d) (Fin 0), ddNextStatesBuf := replicate (bs * ddStateSize d) (Fin 0)\<rparr> else d);
          d2 = (if length (ddActionsBuf d1) < bs * ddActionSize d1 then d1\<lparr>ddActionsBuf := replicate (bs * ddActionSize d1) (Fin 0)\<rparr> else d1)
      in if length (ddRewardsBuf d2) < bs
         then d2\<lparr>ddRewardsBuf := replicate bs (Fin 0), ddDonesBuf := replicate bs (Fin 0), ddTargetQBuf := replicate bs (Fin 0)\<rparr> else d2)"

definition copyPadded :: "nat \<Rightarrow> f64 list \<Rightarrow> nat \<Rightarrow> f64 list \<Rightarrow> f64 list option" where
  "copyPadded off src n buf =
     (if off + n > length buf then None
      else if length src \<ge> n then Some (slice_write off (take n src) buf)
      else Some (slice_write off (src @ replicate (n - length src) (Fin 0)) buf))"

fun fill_rows :: "nat \<Rightarrow> nat \<Rightarrow> f64 list list \<Rightarrow> f64 list \<Rightarrow> f64 list option" where
  "fill_rows i n [] buf = Some buf"
| "fill_rows i n (r # rs) buf = (case copyPadded (i * n) r n buf of None \<Rightarrow> None | Some buf' \<Rightarrow> fill_rows (i + 1) n rs buf')"

definition ddpg_fill :: "transition list \<Rightarrow> 'n ddpg \<Rightarrow> 'n ddpg option" where
  "ddpg_fill batch d =
     (case (fill_rows 0 (ddStateSize d) (map trState batch) (ddStatesBuf d),
            fill_rows 0 (ddStateSize d) (map trNextState batch) (ddNextStatesBuf d),
            fill_rows 0 (ddActionSize d) (map trAction batch) (ddActionsBuf d)) of
        (Some sb, Some nb, Some ab) \<Rightarrow>
          if length (ddRewardsBuf d) < length batch \<or> length (ddDonesBuf d) < length batch then None
          else Some (d\<lparr>ddStatesBuf := sb, ddNextStatesBuf := nb, ddActionsBuf := ab,
                       ddRewardsBuf := slice_write 0 (map trReward batch) (ddRewardsBuf d),
                       ddDonesBuf := slice_write 0 (map done_flag batch) (ddDonesBuf d)\<rparr>)
      | _ \<Rightarrow> None)"

definition ddpg_targets :: "f64 list \<Rightarrow> nat \<Rightarrow> 'n ddpg \<Rightarrow> f64 list" where
  "ddpg_targets nextQ bs d =
     map (\<lambda>i. fadd (ddRewardsBuf d ! i) (fmul (fmul (ddGamma d) (nextQ ! i)) (fsub (Fin 1) (ddDonesBuf d ! i)))) [0..<bs]"

definition ddpg_Train :: "'n ac_ops \<Rightarrow> (nat \<Rightarrow> nat) \<Rightarrow> nat \<Rightarrow> 'n ddpg \<Rightarrow> 'n ddpg option" where
  "ddpg_Train N rnd_draw batchSize d =
     (if rp_Len (ddReplay d) < batchSize then Some d
      else let batch = rp_Sample rnd_draw batchSize (ddReplay d); bs = length batch
      in if bs < batchSize then Some d
      else case ddpg_fill batch (ensureBuffers bs d) of
        None \<Rightarrow> None
      | Some d1 \<Rightarrow>
          let statesT = take (bs * ddStateSize d1) (ddStatesBuf d1);
              nextQ = tensorToFloat64 (acNextQ N (ddNets d1) bs (take (bs * ddStateSize d1) (ddNextStatesBuf d1)))
          in if length nextQ < bs \<or> length (ddTargetQBuf d1) < bs then None
             else let d2 = d1\<lparr>ddTargetQBuf := slice_write 0 (ddpg_targets nextQ bs d1) (ddTargetQBuf d1)\<rparr>;
                      net1 = acTrainCritic N (ddNets d2) bs statesT (take (bs * ddActionSize d2) (ddActionsBuf d2)) (take bs (ddTargetQBuf d2));
                      net2 = acTrainActor N net1 bs statesT
                  in map_option (\<lambda>net3. d2\<lparr>ddNets := net3\<rparr>) (softUpdate N (ddPairBufs d2) 0 net2))"

definition SetNoiseDecay :: "f64 \<Rightarrow> f64 \<Rightarrow> 'n ddpg \<Rightarrow> 'n ddpg" where
  "SetNoiseDecay decay lo d = d\<lparr>ddNoise := SetDecay decay lo (ddNoise d)\<rparr>"

definition ResetNoise :: "'n ddpg \<Rightarrow> 'n ddpg" where
  "ResetNoise d = d\<lparr>ddNoise := ou_Reset (ddNoise d)\<rparr>"

subsection \<open>Recycled buffers\<close>

lemma slice_write_append:
  "off + length xs + length ys \<le> length buf \<Longrightarrow> slice_write off (xs @ ys) buf = slice_write (off + length xs) ys (slice_write off xs buf)"
  by (cases "off = length buf") (auto simp: slice_write_def min_def ac_simps)

lemma padOrTrunc_eq: "padOrTrunc n src = take n src @ replicate (n - length src) (Fin 0)"
  by (simp add: padOrTrunc_def slice_write_def min_def)

lemma copyPadded_ok: "off + n \<le> length buf \<Longrightarrow> copyPadded off src n buf = Some (slice_write off (padOrTrunc n src) buf)"
  by (simp add: copyPadded_def padOrTrunc_eq)

lemma fill_rows_ok:
  assumes "(i + length rows) * n \<le> length buf"
  shows "fill_rows i n rows buf = Some (slice_write (i * n) (concat (map (padOrTrunc n) rows)) buf)"
  using assms
proof (induction rows arbitrary: i buf)
  case (Cons r rs)
  have len: "length (concat (map (padOrTrunc n) rs)) = length rs * n" by (induction rs) simp_all
  have a: "i * n + n \<le> length buf" "(i + 1 + length rs) * n \<le> length buf" using Cons.prems by (simp_all add: algebra_simps)
  then show ?case using Cons.IH [of "i + 1" "slice_write (i * n) (padOrTrunc n r) buf"]
    by (simp add: copyPadded_ok slice_write_append len algebra_simps)
qed (simp add: slice_write_def)

lemma take_slice_write_0: "length xs \<le> length buf \<Longrightarrow> take (length xs) (slice_write 0 xs buf) = xs"
  by (simp add: slice_write_def)

subsection \<open>What the networks promise\<close>

fun tensor_shape :: "tensor \<Rightarrow> nat \<times> nat list" where
  "tensor_shape (Vec64 v) = (0, [length v])"
| "tensor_shape (Vec32 v) = (1, [length v])"
| "tensor_shape (Mat64 m) = (2, map length m)"
| "tensor_shape (Scalar64 _) = (3, [])"
| "tensor_shape (Scalar32 _) = (4, [])"
| "tensor_shape OtherTensor = (5, [])"

text \<open>The two variables of a pair have the same shape, and its buffer has room for their values.\<close>

definition pairs_ok :: "'n ac_ops \<Rightarrow> nat list \<Rightarrow> 'n \<Rightarrow> bool" where
  "pairs_ok N bufs net \<longleftrightarrow> (\<forall>i < length bufs. tensor_shape (acSource N net i) = tensor_shape (acTarget N net i) \<and>
     sum_list (snd (tensor_shape (acTarget N net i))) \<le> bufs ! i)"

definition ac_laws :: "'n ac_ops \<Rightarrow> nat \<Rightarrow> nat \<Rightarrow> bool" where
  "ac_laws N stateSize actionSize \<longleftrightarrow>
     (\<forall>net st. length st = stateSize \<longrightarrow> length (tensorToFloat64 (acActor N net st)) = actionSize \<and>
        list_all (\<lambda>a. fle (Fin (- 1)) a \<and> fle a (Fin 1)) (tensorToFloat64 (acActor N net st))) \<and>
     (\<forall>net bs xs. length xs = bs * stateSize \<longrightarrow> length (tensorToFloat64 (acNextQ N net bs xs)) = bs) \<and>
     (\<forall>net bs xs as ts i. tensor_shape (acSource N (acTrainCritic N net bs xs as ts) i) = tensor_shape (acSource N net i) \<and>
        tensor_shape (acTarget N (acTrainCritic N net bs xs as ts) i) = tensor_shape (acTarget N net i)) \<and>
     (\<forall>net bs xs i. tensor_shape (acSource N (acTrainActor N net bs xs) i) = tensor_shape (acSource N net i) \<and>
        tensor_shape (acTarget N (acTrainActor N net bs xs) i) = tensor_shape (acTarget N net i)) \<and>
     (\<forall>net i t j. acSource N (acSetTarget N net i t) j = acSource N net j \<and>
        (tensor_shape t = tensor_shape (acTarget N net i) \<longrightarrow> acTarget N (acSetTarget N net i t) j = (if j = i then t else acTarget N net j)))"

lemma soft_pair_ok:
  assumes "tensor_shape src = tensor_shape tgt" and "sum_list (snd (tensor_shape tgt)) \<le> bl"
  shows "soft_pair bl src tgt = Some None \<or> (\<exists>t. soft_pair bl src tgt = Some (Some t) \<and> tensor_shape t = tensor_shape tgt)"
proof (cases tgt)
  case (Mat64 t)
  then obtain s where s: "src = Mat64 s" "map length s = map length t" using assms(1) by (cases src) auto
  have "map length (map2 (map2 blend64) t s) = map length t"
    using s(2) by (induction t s rule: list_induct2') auto
  then show ?thesis using Mat64 s assms(2) by (simp add: soft_pair_def)
qed (use assms in \<open>cases src; auto simp: soft_pair_def\<close>)+

lemma softUpdate_ok:
  assumes "ac_laws N ss as" and "pairs_ok N bufs net" and "bufs = pre @ bls" and "i = length pre"
  shows "\<exists>net'. softUpdate N bls i net = Some net' \<and> pairs_ok N bufs net'"
  using assms(2-)
proof (induction bls arbitrary: pre i net)
  case (Cons bl bls)
  have i: "i < length bufs" "bufs ! i = bl" using Cons.prems by simp_all
  let ?s = "acSource N net i" and ?t = "acTarget N net i"
  have sh: "tensor_shape ?s = tensor_shape ?t" "sum_list (snd (tensor_shape ?t)) \<le> bl"
    using Cons.prems(1) i by (auto simp: pairs_ok_def)
  note rest = Cons.IH [of _ "pre @ [bl]" "i + 1"]
  from soft_pair_ok [OF sh] show ?case
  proof (elim disjE exE conjE)
    assume "soft_pair bl ?s ?t = Some None"
    then show ?case using rest [of net] Cons.prems by simp
  next
    fix t assume t: "soft_pair bl ?s ?t = Some (Some t)" "tensor_shape t = tensor_shape ?t"
    then have "acSource N (acSetTarget N net i t) j = acSource N net j"
      "acTarget N (acSetTarget N net i t) j = (if j = i then t else acTarget N net j)" for j
      using assms(1) unfolding ac_laws_def by blast+
    then have "pairs_ok N bufs (acSetTarget N net i t)" using Cons.prems(1) t(2) by (simp add: pairs_ok_def)
    then show ?case using rest [of "acSetTarget N net i t"] t(1) Cons.prems by simp
  qed
qed simp

subsection \<open>Acting and training\<close>

definition ddpg_ok :: "'n ac_ops \<Rightarrow> 'n ddpg \<Rightarrow> bool" where
  "ddpg_ok N d \<longleftrightarrow> rp_ok (ddReplay d) \<and> length (ouState (ddNoise d)) = ddActionSize d \<and> pairs_ok N (ddPairBufs d) (ddNets d) \<and>
     length (ddNextStatesBuf d) = length (ddStatesBuf d) \<and> length (ddDonesBuf d) = length (ddRewardsBuf d) \<and>
     length (ddTargetQBuf d) = length (ddRewardsBuf d)"

lemma ddpg_ok_New: "pairs_ok N bufs nets \<Longrightarrow> ddpg_ok N (NewDDPG nets bufs ss as lr bs)"
  by (simp add: ddpg_ok_def NewDDPG_def Let_def NewOUNoise_def rp_ok_def NewReplayBuffer_def ddpgReplayBufSize_def)

lemma ddpg_ok_Store: "ddpg_ok N d \<Longrightarrow> ddpg_ok N (ddpg_Store st action reward next_st fin d)"
  by (simp add: ddpg_ok_def ddpg_Store_def rp_ok_Push)

lemma length_ou_Sample: "length (fst (ou_Sample normal ou)) = length (ouState ou)" "length (ouState (snd (ou_Sample normal ou))) = length (ouState ou)"
  by (simp_all add: ou_Sample_def Let_def)

lemma ddpg_Act_ok:
  assumes "ac_laws N (ddStateSize d) (ddActionSize d)" and "ddpg_ok N d" and "length st = ddStateSize d"
  obtains action where "ddpg_Act N normal st d = Some (action, d\<lparr>ddNoise := snd (ou_Sample normal (ddNoise d))\<rparr>)"
    "length action = ddActionSize d" "ddpg_ok N (d\<lparr>ddNoise := snd (ou_Sample normal (ddNoise d))\<rparr>)"
    "action = map2 (\<lambda>a e. fmax (Fin (- 1)) (fmin (Fin 1) (fadd a e))) (tensorToFloat64 (acActor N (ddNets d) st)) (fst (ou_Sample normal (ddNoise d)))"
proof -
  obtain noise ou where s: "ou_Sample normal (ddNoise d) = (noise, ou)" by fastforce
  have "length (tensorToFloat64 (acActor N (ddNets d) st)) = ddActionSize d" using assms(1,3) unfolding ac_laws_def by blast
  then show thesis using that s assms(2) length_ou_Sample [of normal "ddNoise d"] by (simp add: ddpg_Act_def ddpg_ok_def)
qed

lemma ensureBuffers_ok:
  assumes "ddpg_ok N d"
  shows "ddpg_ok N (ensureBuffers bs d)" and "bs * ddStateSize d \<le> length (ddStatesBuf (ensureBuffers bs d))"
    and "bs * ddActionSize d \<le> length (ddActionsBuf (ensureBuffers bs d))" and "bs \<le> length (ddRewardsBuf (ensureBuffers bs d))"
    and "ddStateSize (ensureBuffers bs d) = ddStateSize d" and "ddActionSize (ensureBuffers bs d) = ddActionSize d"
    and "ddNets (ensureBuffers bs d) = ddNets d" and "ddPairBufs (ensureBuffers bs d) = ddPairBufs d" and "ddGamma (ensureBuffers bs d) = ddGamma d"
  using assms by (simp_all add: ensureBuffers_def Let_def ddpg_ok_def)

definition rows :: "nat \<Rightarrow> (transition \<Rightarrow> f64 list) \<Rightarrow> transition list \<Rightarrow> f64 list" where
  "rows n part batch = concat (map (\<lambda>t. padOrTrunc n (part t)) batch)"

lemma length_rows [simp]: "length (rows n part batch) = length batch * n"
  by (induction batch) (simp_all add: rows_def)

lemma ddpg_fill_ok:
  assumes "ddpg_ok N d" and "length batch * ddStateSize d \<le> length (ddStatesBuf d)" and "length batch * ddActionSize d \<le> length (ddActionsBuf d)"
    and "length batch \<le> length (ddRewardsBuf d)"
  shows "ddpg_fill batch d = Some (d\<lparr>ddStatesBuf := slice_write 0 (rows (ddStateSize d) trState batch) (ddStatesBuf d),
    ddNextStatesBuf := slice_write 0 (rows (ddStateSize d) trNextState batch) (ddNextStatesBuf d),
    ddActionsBuf := slice_write 0 (rows (ddActionSize d) trAction batch) (ddActionsBuf d),
    ddRewardsBuf := slice_write 0 (map trReward batch) (ddRewardsBuf d), ddDonesBuf := slice_write 0 (map done_flag batch) (ddDonesBuf d)\<rparr>)"
  using assms by (simp add: ddpg_fill_def fill_rows_ok rows_def ddpg_ok_def comp_def)

lemma ddpg_targets_eq:
  assumes "length batch \<le> length (ddRewardsBuf d)" and "length batch \<le> length (ddDonesBuf d)"
    and "ddRewardsBuf d' = slice_write 0 (map trReward batch) (ddRewardsBuf d)" and "ddDonesBuf d' = slice_write 0 (map done_flag batch) (ddDonesBuf d)"
  shows "ddpg_targets nextQ (length batch) d' = td_targets (ddGamma d') batch nextQ"
  unfolding ddpg_targets_def td_targets_def using assms by (intro map_cong) (simp_all add: slice_write_def nth_append)

text \<open>A training step on fresh vectors of the batch, without any buffer.\<close>

definition train_reference :: "'n ac_ops \<Rightarrow> transition list \<Rightarrow> 'n ddpg \<Rightarrow> 'n option" where
  "train_reference N batch d =
     (let bs = length batch; st = rows (ddStateSize d) trState batch;
          nextQ = tensorToFloat64 (acNextQ N (ddNets d) bs (rows (ddStateSize d) trNextState batch));
          net1 = acTrainCritic N (ddNets d) bs st (rows (ddActionSize d) trAction batch) (td_targets (ddGamma d) batch nextQ)
      in softUpdate N (ddPairBufs d) 0 (acTrainActor N net1 bs st))"

lemma train_reference_ok:
  assumes "ac_laws N (ddStateSize d) (ddActionSize d)" and "ddpg_ok N d"
  obtains net where "train_reference N batch d = Some net" "pairs_ok N (ddPairBufs d) net"
proof -
  have "pairs_ok N (ddPairBufs d) (ddNets d)" using assms(2) by (simp add: ddpg_ok_def)
  then have "pairs_ok N (ddPairBufs d) (acTrainActor N (acTrainCritic N (ddNets d) bs st as ts) bs st)" for bs st as ts
    using assms(1) unfolding ac_laws_def pairs_ok_def by presburger
  then show thesis using softUpdate_ok [OF assms(1), of "ddPairBufs d" _ "[]" "ddPairBufs d" 0] that
    unfolding train_reference_def Let_def by (metis append_Nil list.size(3))
qed

lemma ddpg_Train_spec:
  assumes "ac_laws N (ddStateSize d) (ddActionSize d)" and "ddpg_ok N d" and "batchSize \<le> rp_Len (ddReplay d)"
    and batch: "batch = rp_Sample rnd_draw batchSize (ddReplay d)"
  shows "\<exists>d'. ddpg_Train N rnd_draw batchSize d = Some d' \<and> train_reference N batch d = Some (ddNets d') \<and> ddpg_ok N d' \<and>
    ddStateSize d' = ddStateSize d \<and> ddActionSize d' = ddActionSize d \<and> ddNoise d' = ddNoise d"
proof -
  let ?bs = "length batch" and ?e = "ensureBuffers (length batch) d"
  have bs: "?bs = batchSize" using rp_Sample_held(1) [of "ddReplay d" rnd_draw batchSize] assms(2,3) by (simp add: batch ddpg_ok_def)
  note e = ensureBuffers_ok [OF assms(2), of ?bs]
  let ?st = "rows (ddStateSize d) trState batch" and ?nx = "rows (ddStateSize d) trNextState batch" and ?ac = "rows (ddActionSize d) trAction batch"
  define d1 where "d1 = ?e\<lparr>ddStatesBuf := slice_write 0 ?st (ddStatesBuf ?e), ddNextStatesBuf := slice_write 0 ?nx (ddNextStatesBuf ?e),
    ddActionsBuf := slice_write 0 ?ac (ddActionsBuf ?e), ddRewardsBuf := slice_write 0 (map trReward batch) (ddRewardsBuf ?e),
    ddDonesBuf := slice_write 0 (map done_flag batch) (ddDonesBuf ?e)\<rparr>"
  have fill: "ddpg_fill batch ?e = Some d1" using ddpg_fill_ok [OF e(1)] e(2-6) by (simp add: d1_def)
  have nb: "length (ddNextStatesBuf ?e) = length (ddStatesBuf ?e)" "length (ddDonesBuf ?e) = length (ddRewardsBuf ?e)"
    "length (ddTargetQBuf ?e) = length (ddRewardsBuf ?e)" using e(1) by (simp_all add: ddpg_ok_def)
  have bufs: "take (?bs * ddStateSize d) (ddStatesBuf d1) = ?st" "take (?bs * ddStateSize d) (ddNextStatesBuf d1) = ?nx"
    "take (?bs * ddActionSize d) (ddActionsBuf d1) = ?ac"
    using take_slice_write_0 [of ?st "ddStatesBuf ?e"] take_slice_write_0 [of ?nx "ddNextStatesBuf ?e"] take_slice_write_0 [of ?ac "ddActionsBuf ?e"]
      e(2,3) nb(1) by (simp_all add: d1_def)
  let ?q = "tensorToFloat64 (acNextQ N (ddNets d) ?bs ?nx)"
  have q: "length ?q = ?bs" using assms(1) unfolding ac_laws_def by simp
  have tg: "ddpg_targets ?q ?bs d1 = td_targets (ddGamma d) batch ?q"
    using ddpg_targets_eq [of batch ?e d1 ?q] e(4,9) nb(2) by (simp add: d1_def)
  have lt: "length (td_targets (ddGamma d) batch ?q) = ?bs" by (simp add: td_targets_def)
  obtain net where net: "train_reference N batch d = Some net" "pairs_ok N (ddPairBufs d) net"
    using train_reference_ok [OF assms(1,2)] .
  define d2 where "d2 = d1\<lparr>ddTargetQBuf := slice_write 0 (td_targets (ddGamma d) batch ?q) (ddTargetQBuf d1)\<rparr>"
  have f: "ddStateSize d1 = ddStateSize d" "ddActionSize d1 = ddActionSize d" "ddNets d1 = ddNets d" "ddPairBufs d1 = ddPairBufs d"
    "ddTargetQBuf d1 = ddTargetQBuf ?e" using e(5-8) by (simp_all add: d1_def)
  have tq: "take ?bs (slice_write 0 (td_targets (ddGamma d) batch ?q) (ddTargetQBuf ?e)) = td_targets (ddGamma d) batch ?q"
    using take_slice_write_0 [of "td_targets (ddGamma d) batch ?q" "ddTargetQBuf ?e"] lt e(4) nb(3) by simp
  have "rp_Sample rnd_draw ?bs (ddReplay d) = batch" "?bs \<le> rp_Len (ddReplay d)" using assms(3) by (simp_all add: bs flip: batch)
  then have "ddpg_Train N rnd_draw ?bs d = Some (d2\<lparr>ddNets := net\<rparr>)"
    using net(1) q e(4) nb(3) by (simp add: ddpg_Train_def Let_def fill f bufs tg tq train_reference_def d2_def)
  moreover have "ddpg_ok N (d2\<lparr>ddNets := net\<rparr>) \<and> ddNoise d2 = ddNoise d \<and> ddStateSize d2 = ddStateSize d \<and> ddActionSize d2 = ddActionSize d"
    using e nb net(2) assms(2) lt by (simp add: d2_def d1_def ddpg_ok_def) (simp add: ensureBuffers_def Let_def)
  ultimately show ?thesis using net(1) bs by simp
qed

text \<open>
  C16: training on recycled buffers is training on fresh ones: whatever earlier batches left in the buffers and
  however large they are, once enough transitions are stored a training step does not panic, the sampled
  transitions are held by the replay buffer, and the networks afterwards are those of the reference
  step on the padded vectors of the batch.
\<close>

theorem DDPG_Train_reference:
  assumes "ac_laws N (ddStateSize d) (ddActionSize d)" and "ddpg_ok N d" and "batchSize \<le> rp_Len (ddReplay d)"
  shows "let batch = rp_Sample rnd_draw batchSize (ddReplay d)
    in length batch = batchSize \<and> set batch \<subseteq> set (rp_items (ddReplay d)) \<and>
       (\<exists>d'. ddpg_Train N rnd_draw batchSize d = Some d' \<and> train_reference N batch d = Some (ddNets d') \<and> ddpg_ok N d')"
  unfolding Let_def using ddpg_Train_spec [OF assms refl, of rnd_draw] rp_Sample_held [of "ddReplay d" rnd_draw batchSize] assms(2,3)
  by (auto simp: ddpg_ok_def)

text \<open>One variable per network; a gradient step of the critic adds the number of rows to it.\<close>

definition lineNets :: "nat \<Rightarrow> (f64 \<times> f64) ac_ops" where
  "lineNets k = \<lparr>acActor = \<lambda>_ _. Vec64 (replicate k (Fin 0)), acNextQ = \<lambda>_ bs _. Vec64 (replicate bs (Fin 0)),
     acTrainCritic = \<lambda>net bs _ _ _. (fadd (fst net) (f_int (int bs)), snd net), acTrainActor = \<lambda>net _ _. net,
     acSource = \<lambda>net i. if i = 0 then Vec64 [fst net] else OtherTensor,
     acTarget = \<lambda>net i. if i = 0 then Vec64 [snd net] else OtherTensor,
     acSetTarget = \<lambda>net i t. if i = 0 then (fst net, hd (tensorToFloat64 t)) else net\<rparr>"

lemma lineNets_pairs: "pairs_ok (lineNets k) [1] net"
  by (simp add: pairs_ok_def lineNets_def)

lemma lineNets_laws: "ac_laws (lineNets k) ss k"
proof -
  have vec: "\<exists>x. t = Vec64 [x]" if "tensor_shape t = (0, [1])" for t using that by (cases t) (auto simp: length_Suc_conv)
  have other: "t = OtherTensor" if "tensor_shape t = (5, [])" for t using that by (cases t) auto
  have "tensor_shape t = tensor_shape (acTarget (lineNets k) net i) \<Longrightarrow>
      acTarget (lineNets k) (acSetTarget (lineNets k) net i t) j = (if j = i then t else acTarget (lineNets k) net j)" for net i t j
    using vec [of t] other [of t] by (cases "i = 0") (auto simp: lineNets_def)
  moreover have "acSource (lineNets k) (acSetTarget (lineNets k) net i t) j = acSource (lineNets k) net j" for net i t j
    by (simp add: lineNets_def)
  ultimately show ?thesis unfolding ac_laws_def by (simp add: lineNets_def list_all_iff)
qed

theorem DDPG_Train_reference_witness:
  "let d = ddpg_Store [Fin 1] [Fin 0] (Fin 1) [Fin 2] False (NewDDPG (Fin 0, Fin 0) [1] 1 1 (Fin 0) 2)
   in rp_Len (ddReplay d) = 1 \<and> (\<exists>d'. ddpg_Train (lineNets 1) (\<lambda>_. 0) 1 d = Some d' \<and> fst (ddNets d') = Fin 1)"
proof -
  let ?d = "ddpg_Store [Fin 1] [Fin 0] (Fin 1) [Fin 2] False (NewDDPG (Fin 0, Fin 0) [1] 1 1 (Fin 0) 2)"
  have ok: "ddpg_ok (lineNets 1) ?d" by (intro ddpg_ok_Store ddpg_ok_New lineNets_pairs)
  have len: "rp_Len (ddReplay ?d) = 1"
    by (simp add: ddpg_Store_def NewDDPG_def Let_def rp_Len_def rp_Push_def NewReplayBuffer_def ddpgReplayBufSize_def)
  have sz: "ddStateSize ?d = 1" "ddActionSize ?d = 1" "ddPairBufs ?d = [1]" "ddNets ?d = (Fin 0, Fin 0)"
    by (simp_all add: ddpg_Store_def NewDDPG_def Let_def)
  obtain batch d' where t: "length batch = 1" "ddpg_Train (lineNets 1) (\<lambda>_. 0) 1 ?d = Some d'" "train_reference (lineNets 1) batch ?d = Some (ddNets d')"
    using DDPG_Train_reference [of "lineNets 1" ?d 1 "\<lambda>_. 0"] lineNets_laws [of 1 1] ok len sz unfolding Let_def by (metis order_refl)
  have "(Fin 1, blend64 (Fin 0) (Fin 1)) = ddNets d'" using t(1,3) sz
    by (simp add: train_reference_def Let_def) (auto simp: lineNets_def soft_pair_def f_int_def)
  then have "fst (ddNets d') = Fin 1" by (metis fst_conv)
  then show ?thesis unfolding Let_def using len t(2) by blast
qed

end
