(* ===== verification/Optimizer.thy ===== *)
theory Optimizer
  imports DDPG Preprocessing BrokerInv
begin

text \<open>
  The configuration optimizer, \<^verbatim>\<open>pkg/optimizer/params.go\<close> and \<^verbatim>\<open>optimizer.go\<close>: the tunable parameters and their
  calibration by pilot runs, the reward, the emergency rollback and one tick of the loop, which
  reads the metrics of the broker, asks the learner for an action and may apply a new configuration
  to the broker. Time is an argument of a tick; the zero time is \<^verbatim>\<open>None\<close>. Batch sizes are not negative.

  The lemmas show that every configuration the optimizer proposes is accepted by the broker, that a tick
  never panics, and that the rollback happens exactly at the second bad report in a row and is final.
\<close>

subsection \<open>Tunable parameters\<close>

record tunable_param =
  tpName :: string
  tpMin :: f64
  tpMax :: f64
  tpWeight :: f64

definition tunable_int :: "string \<Rightarrow> int \<Rightarrow> int \<Rightarrow> rat \<Rightarrow> tunable_param" where
  "tunable_int name lo hi w = \<lparr>tpName = name, tpMin = f_int lo, tpMax = f_int hi, tpWeight = f_const w\<rparr>"

definition DefaultTunableParams :: "tunable_param list" where
  "DefaultTunableParams =
     [tunable_int ''SegmentMaxBytes'' (2 ^ 20) (64 * 2 ^ 20) 1,
      tunable_int ''SegmentMaxCount'' 10 500 1,
      tunable_int ''FlushIntervalMs'' 100 10000 1,
      tunable_int ''BatchSize'' 1 1000 1,
      tunable_int ''BatchMemoryBytes'' 1024 (2 ^ 20) (9 / 10),
      tunable_int ''LingerMs'' 0 100 1,
      tunable_int ''NumIOGoroutines'' 1 32 1,
      tunable_int ''NumNetworkGoroutines'' 1 32 1,
      tunable_int ''CompressionType'' 0 3 (3 / 10),
      tunable_int ''MaxMessageBytes'' 1024 (10 * 2 ^ 20) (7 / 10)]"

fun set_weights :: "nat list \<Rightarrow> f64 list \<Rightarrow> tunable_param list \<Rightarrow> tunable_param list option" where
  "set_weights [] ws ps = Some ps"
| "set_weights (idx # idxs) ws ps =
     (if idx < length ps
      then (case ws of [] \<Rightarrow> None | w # ws' \<Rightarrow> set_weights idxs ws' (ps[idx := (ps ! idx)\<lparr>tpWeight := w\<rparr>]))
      else set_weights idxs (tl ws) ps)"

definition CalibrateWeights :: "gonum \<Rightarrow> tunable_param list \<Rightarrow> f64 list list \<Rightarrow> f64 list \<Rightarrow> f64 \<Rightarrow> tunable_param list option" where
  "CalibrateWeights G params configs throughputs l1 =
     (if configs = [] \<or> length (configs ! 0) \<noteq> length params then Some params
      else case SelectParameters G configs throughputs l1 of
             None \<Rightarrow> None
           | Some (indices, ws) \<Rightarrow> set_weights indices ws (map (\<lambda>p. p\<lparr>tpWeight := Fin 0\<rparr>) params))"

definition ActiveParams :: "tunable_param list \<Rightarrow> tunable_param list" where
  "ActiveParams ps = filter (\<lambda>p. flt (Fin 0) (tpWeight p)) ps"

definition op_Normalize :: "f64 \<Rightarrow> f64 \<Rightarrow> f64 \<Rightarrow> f64" where
  "op_Normalize val lo hi =
     (if fle hi lo then Fin 0
      else let n = fdiv (fsub val lo) (fsub hi lo) in if flt n (Fin 0) then Fin 0 else if flt (Fin 1) n then Fin 1 else n)"

definition Denormalize :: "f64 \<Rightarrow> f64 \<Rightarrow> f64 \<Rightarrow> f64" where
  "Denormalize nv lo hi = fadd lo (fmul nv (fsub hi lo))"

definition ClipAction :: "f64 \<Rightarrow> f64 \<Rightarrow> f64 \<Rightarrow> f64 \<Rightarrow> f64" where
  "ClipAction current delta lo hi = (let r = fadd current delta in if flt r lo then lo else if flt hi r then hi else r)"

subsection \<open>Configuration of the optimizer\<close>

definition DefaultOptimizerWindowCap :: nat where "DefaultOptimizerWindowCap = 10"
definition DefaultOptimizerWarmupTicks :: nat where "DefaultOptimizerWarmupTicks = 2 * DefaultOptimizerWindowCap"
definition DefaultQueueSoftThreshold :: f64 where "DefaultQueueSoftThreshold = f_int 1000"
definition DefaultQueuePenaltyWeight :: f64 where "DefaultQueuePenaltyWeight = f_const (15 / 10)"
definition DefaultLatencyPenaltyWeight :: f64 where "DefaultLatencyPenaltyWeight = f_const (3 / 10)"
definition DefaultQueuePenaltyClamp :: f64 where "DefaultQueuePenaltyClamp = Fin (- 2)"
definition DefaultRewardClamp :: f64 where "DefaultRewardClamp = Fin 2"
definition DefaultSafetyConsumeRatio :: f64 where "DefaultSafetyConsumeRatio = f_const (7 / 10)"
definition DefaultMinApplyInterval :: int where "DefaultMinApplyInterval = 2000000000"
definition DefaultErrorPenaltyWeight :: f64 where "DefaultErrorPenaltyWeight = Fin 2"
definition DefaultErrorPenaltyThresh :: f64 where "DefaultErrorPenaltyThresh = f_const (1 / 100)"
definition DefaultEmergencyRollbackDR :: f64 where "DefaultEmergencyRollbackDR = f_const (1 / 2)"
definition DefaultEmergencyRollbackN :: nat where "DefaultEmergencyRollbackN = 2"
definition optimizerThroughputScale :: f64 where "optimizerThroughputScale = f_int 100000"
definition optimizerLatencyScale :: f64 where "optimizerLatencyScale = f_int 1000"

record pilot_data =
  pdConfigs :: "f64 list list"
  pdThroughputs :: "f64 list"
  pdAlpha :: f64

record optimizer_config =
  ocInterval :: int
  ocBatchSize :: nat
  ocWarmupTicks :: nat
  ocLearningRate :: f64
  ocHysteresis :: f64
  ocNoiseDecay :: f64
  ocNoiseFloor :: f64

definition DefaultOptimizerConfig :: optimizer_config where
  "DefaultOptimizerConfig =
     \<lparr>ocInterval = 250 * millisecond, ocBatchSize = 32, ocWarmupTicks = DefaultOptimizerWarmupTicks,
      ocLearningRate = f_const (3 / 10000), ocHysteresis = f_const (1 / 10), ocNoiseDecay = f_const (999 / 1000),
      ocNoiseFloor = f_const (5 / 100)\<rparr>"

definition fill_defaults :: "optimizer_config \<Rightarrow> optimizer_config" where
  "fill_defaults c =
     (let bs = (if ocBatchSize c = 0 then 32 else ocBatchSize c)
      in \<lparr>ocInterval = (if ocInterval c = 0 then 250 * millisecond else ocInterval c), ocBatchSize = bs,
          ocWarmupTicks = (if ocWarmupTicks c = 0 then bs * 2 else ocWarmupTicks c),
          ocLearningRate = (if feq (ocLearningRate c) (Fin 0) then f_const (3 / 10000) else ocLearningRate c),
          ocHysteresis = (if feq (ocHysteresis c) (Fin 0) then f_const (1 / 10) else ocHysteresis c),
          ocNoiseDecay = (if feq (ocNoiseDecay c) (Fin 0) then f_const (999 / 1000) else ocNoiseDecay c),
          ocNoiseFloor = (if feq (ocNoiseFloor c) (Fin 0) then f_const (5 / 100) else ocNoiseFloor c)\<rparr>)"

subsection \<open>State and construction\<close>

record 'n optimizer =
  opDdpg :: "'n ddpg"
  opParams :: "tunable_param list"
  opInterval :: int
  opBatchSize :: nat
  opWarmup :: nat
  opTicks :: nat
  opHysteresis :: f64
  opCurrentVals :: "f64 list"
  opPrevMetrics :: "metrics option"
  opWindow :: "f64 list"
  opWindowCap :: nat
  opLastApply :: "gotime option"
  opMinApplyInterval :: int
  opStartConfig :: config
  opLowTicks :: nat
  opRolledBack :: bool

text \<open>\<open>nets\<close> and \<open>bufs\<close> give the networks for the sizes of states and actions.\<close>

definition NewOptimizer :: "(nat \<Rightarrow> nat \<Rightarrow> 'n \<times> nat list) \<Rightarrow> gonum \<Rightarrow> ('w, 'd, 'b, 's) broker \<Rightarrow> tunable_param list \<Rightarrow>
    optimizer_config \<Rightarrow> pilot_data list \<Rightarrow> 'n optimizer option" where
  "NewOptimizer mkNets G b params optCfg pilot =
     (case (case pilot of
              [] \<Rightarrow> Some params
            | pd # _ \<Rightarrow> if pdConfigs pd \<noteq> [] then CalibrateWeights G params (pdConfigs pd) (pdThroughputs pd) (pdAlpha pd) else Some params) of
        None \<Rightarrow> None
      | Some calibrated \<Rightarrow>
          (let active = ActiveParams calibrated; stateSize = length active + 3; actionSize = length active;
               c = fill_defaults optCfg; (nets, bufs) = mkNets stateSize actionSize;
               dd = SetNoiseDecay (ocNoiseDecay c) (ocNoiseFloor c) (NewDDPG nets bufs stateSize actionSize (ocLearningRate c) (ocBatchSize c))
           in Some \<lparr>opDdpg = dd, opParams = active, opInterval = ocInterval c, opBatchSize = ocBatchSize c, opWarmup = ocWarmupTicks c,
                opTicks = 0, opHysteresis = ocHysteresis c, opCurrentVals = replicate (length active) (f_const (1 / 2)),
                opPrevMetrics = None, opWindow = [], opWindowCap = DefaultOptimizerWindowCap, opLastApply = None,
                opMinApplyInterval = DefaultMinApplyInterval, opStartConfig = snapCfg b, opLowTicks = 0, opRolledBack = False\<rparr>))"

subsection \<open>One tick\<close>

definition op_buildState :: "metrics \<Rightarrow> 'n optimizer \<Rightarrow> f64 list" where
  "op_buildState m opt =
     opCurrentVals opt @ [fdiv (Throughput (business m)) optimizerThroughputScale, fdiv (AvgLatency (business m)) optimizerLatencyScale,
       DeliveryRatio (business m)]"

fun adjust_vals :: "f64 \<Rightarrow> f64 list \<Rightarrow> f64 list \<Rightarrow> f64 list \<times> bool" where
  "adjust_vals h (a # as) (v # vs) =
     (let n0 = fdiv (fadd a (Fin 1)) (Fin 2);
          n1 = (if flt n0 (Fin 0) then Fin 0 else n0);
          n2 = (if flt (Fin 1) n1 then Fin 1 else n1);
          (vs', changed) = adjust_vals h as vs
      in if flt (fabs (fsub n2 v)) h then (v # vs', changed) else (n2 # vs', True))"
| "adjust_vals h _ vs = (vs, False)"

definition proposed_config :: "(f64 \<Rightarrow> int) \<Rightarrow> tunable_param list \<Rightarrow> f64 list \<Rightarrow> config \<Rightarrow> config" where
  "proposed_config oob ps vals cfg =
     foldl (\<lambda>c (p, v). SetParamByName oob c (tpName p) (Denormalize v (tpMin p) (tpMax p))) cfg (zip ps vals)"

definition applyAction :: "('g, 'l) compress_lib \<Rightarrow> (f64 \<Rightarrow> int) \<Rightarrow> gotime \<Rightarrow> f64 list \<Rightarrow> 'n optimizer \<Rightarrow> ('w, 'd, 'b, 's) broker \<Rightarrow>
    'n optimizer \<times> ('w, 'd, 'b, 's) broker" where
  "applyAction lib oob now action opt b =
     (if (case opLastApply opt of Some t \<Rightarrow> now - t < opMinApplyInterval opt | None \<Rightarrow> False) then (opt, b)
      else let (vals, changed) = adjust_vals (opHysteresis opt) action (opCurrentVals opt)
           in if \<not> changed then (opt\<lparr>opCurrentVals := vals\<rparr>, b)
              else (opt\<lparr>opCurrentVals := vals, opLastApply := Some now\<rparr>,
                    snd (ApplyConfig lib (proposed_config oob (opParams opt) vals (snapCfg b)) b)))"

definition op_computeReward :: "metrics \<Rightarrow> 'n optimizer \<Rightarrow> f64 \<times> 'n optimizer" where
  "op_computeReward m opt =
     (let bm = business m;
          delivered = (if feq (ConsumeRate bm) (Fin 0) then Throughput bm else ConsumeRate bm);
          w0 = opWindow opt @ [delivered];
          w = (if length w0 > opWindowCap opt then tl w0 else w0);
          baseline = (if w \<noteq> [] then fdiv (fsum w) (f_int (int (length w))) else fsum w);
          throughputReward = (if flt (Fin 1) baseline then fdiv (fsub delivered baseline) baseline else Fin 0);
          latencyPenalty = (if flt (Fin 0) (AvgLatency bm) then fdiv (fneg (AvgLatency bm)) optimizerLatencyScale else Fin 0);
          normalized = fdiv (f_int (sum_list (mQueueDepth (derived m)))) DefaultQueueSoftThreshold;
          q0 = fneg (fmul normalized normalized);
          queuePenalty = (if flt q0 DefaultQueuePenaltyClamp then DefaultQueuePenaltyClamp else q0);
          r0 = fadd (fadd throughputReward (fmul DefaultLatencyPenaltyWeight latencyPenalty)) (fmul DefaultQueuePenaltyWeight queuePenalty);
          errorRatio = fsub (Fin 1) (DeliveryRatio bm);
          r1 = (if flt (Fin 0) (ConsumeRate bm) \<and> flt (Fin 0) (MsgRate bm) \<and> flt DefaultErrorPenaltyThresh errorRatio
                then fsub r0 (fmul DefaultErrorPenaltyWeight errorRatio) else r0);
          r2 = (if flt r1 (fneg DefaultRewardClamp) then fneg DefaultRewardClamp else r1);
          r3 = (if flt DefaultRewardClamp r2 then DefaultRewardClamp else r2)
      in (r3, opt\<lparr>opWindow := w\<rparr>))"

definition low_delivery :: "metrics \<Rightarrow> bool" where
  "low_delivery m \<longleftrightarrow> flt (DeliveryRatio (business m)) DefaultEmergencyRollbackDR \<and> flt (Fin 0) (MsgRate (business m))"

definition checkEmergencyRollback :: "('g, 'l) compress_lib \<Rightarrow> metrics \<Rightarrow> 'n optimizer \<Rightarrow> ('w, 'd, 'b, 's) broker \<Rightarrow>
    'n optimizer \<times> ('w, 'd, 'b, 's) broker" where
  "checkEmergencyRollback lib m opt b =
     (if opRolledBack opt then (opt, b)
      else let low = (if low_delivery m then opLowTicks opt + 1 else 0)
           in if low \<ge> DefaultEmergencyRollbackN
              then (opt\<lparr>opLowTicks := low, opRolledBack := True\<rparr>, snd (ApplyConfig lib (opStartConfig opt) b))
              else (opt\<lparr>opLowTicks := low\<rparr>, b))"

definition safe_to_apply :: "metrics \<Rightarrow> bool" where
  "safe_to_apply m \<longleftrightarrow> \<not> (flt (Fin 0) (MsgRate (business m)) \<and>
     flt (fdiv (ConsumeRate (business m)) (MsgRate (business m))) DefaultSafetyConsumeRatio)"

definition learn :: "'n ac_ops \<Rightarrow> (nat \<Rightarrow> nat) \<Rightarrow> metrics \<Rightarrow> f64 list \<Rightarrow> f64 list \<Rightarrow> 'n optimizer \<Rightarrow> 'n optimizer option" where
  "learn N rnd_draw m st action opt =
     (case opPrevMetrics opt of
        None \<Rightarrow> Some opt
      | Some pm \<Rightarrow>
          (let (reward, o1) = op_computeReward m opt; prevState = op_buildState pm o1;
               dd = ddpg_Store prevState action reward st False (opDdpg o1)
           in map_option (\<lambda>d. o1\<lparr>opDdpg := d\<rparr>) (ddpg_Train N rnd_draw (opBatchSize o1) dd)))"

definition op_step :: "'n ac_ops \<Rightarrow> ('g, 'l) compress_lib \<Rightarrow> (f64 \<Rightarrow> int) \<Rightarrow> (nat \<Rightarrow> f64) \<Rightarrow> (nat \<Rightarrow> nat) \<Rightarrow> gotime \<Rightarrow>
    'n optimizer \<times> ('w, 'd, 'b, 's) broker \<Rightarrow> ('n optimizer \<times> ('w, 'd, 'b, 's) broker) option" where
  "op_step N lib oob normal rnd_draw now ob =
     (case ob of (o0, b0) \<Rightarrow>
        let m = Snapshot (bmetrics b0);
            (o1, b1) = checkEmergencyRollback lib m (o0\<lparr>opTicks := opTicks o0 + 1\<rparr>) b0;
            st = op_buildState m o1
        in case ddpg_Act N normal st (opDdpg o1) of
             None \<Rightarrow> None
           | Some (action, dd) \<Rightarrow>
               (let o2 = o1\<lparr>opDdpg := dd\<rparr>;
                    (o3, b2) = (if opTicks o2 > opWarmup o2 \<and> \<not> opRolledBack o2 \<and> safe_to_apply m
                                then applyAction lib oob now action o2 b1 else (o2, b1))
                in map_option (\<lambda>o4. (o4\<lparr>opPrevMetrics := Some m\<rparr>, b2)) (learn N rnd_draw m st action o3)))"

subsection \<open>Proposed configurations are valid\<close>

definition tunable_ok :: "tunable_param \<Rightarrow> bool" where
  "tunable_ok p \<longleftrightarrow> (\<exists>lo hi. param_int (tpName p) lo hi \<in> set TunableParamRanges \<and> tpMin p = f_int lo \<and> tpMax p = f_int hi \<and>
     lo \<le> hi \<and> \<bar>lo\<bar> \<le> 2 ^ 52 \<and> \<bar>hi\<bar> \<le> 2 ^ 52)"

lemma tunable_okI: "param_int name lo hi \<in> set TunableParamRanges \<Longrightarrow> lo \<le> hi \<Longrightarrow> \<bar>lo\<bar> \<le> 2 ^ 52 \<Longrightarrow> \<bar>hi\<bar> \<le> 2 ^ 52 \<Longrightarrow> tunable_ok (tunable_int name lo hi w)"
  unfolding tunable_ok_def tunable_int_def by fastforce

lemma default_params_ok: "list_all tunable_ok DefaultTunableParams"
  unfolding DefaultTunableParams_def list.pred_inject
  by (intro conjI tunable_okI) (simp_all add: TunableParamRanges_def)

lemma tunable_ok_weight [simp]: "tunable_ok (p\<lparr>tpWeight := w\<rparr>) = tunable_ok p"
  by (simp add: tunable_ok_def)

lemma tunable_set_valid:
  assumes "tunable_ok p" and "unit_f64 v" and "Validate cfg = None"
  shows "Validate (SetParamByName oob cfg (tpName p) (Denormalize v (tpMin p) (tpMax p))) = None"
proof -
  obtain lo hi where r: "param_int (tpName p) lo hi \<in> set TunableParamRanges" "tpMin p = f_int lo" "tpMax p = f_int hi"
    "lo \<le> hi" "\<bar>lo\<bar> \<le> 2 ^ 52" "\<bar>hi\<bar> \<le> 2 ^ 52" using assms(1) unfolding tunable_ok_def by blast
  have v: "fle (Fin 0) v" "fle v (Fin 1)" using assms(2) by (simp_all add: unit_f64_def)
  show ?thesis
    using SetParamByName_valid [OF assms(3) r(1), of "Denormalize v (tpMin p) (tpMax p)" oob] interpolate_range [OF v r(4-6)] r(2,3)
    by (simp add: param_int_def Denormalize_def)
qed

lemma proposed_config_valid:
  assumes "list_all tunable_ok ps" and "list_all unit_f64 vals" and "Validate cfg = None"
  shows "Validate (proposed_config oob ps vals cfg) = None"
  using assms unfolding proposed_config_def
proof (induction ps arbitrary: vals cfg)
  case (Cons p ps)
  then show ?case by (cases vals) (simp_all add: tunable_set_valid)
qed simp

lemma unit_half: "fle (Fin (- 1)) a \<Longrightarrow> fle a (Fin 1) \<Longrightarrow> unit_f64 (fdiv (fadd a (Fin 1)) (Fin 2))"
proof -
  assume a: "fle (Fin (- 1)) a" "fle a (Fin 1)"
  then obtain q where q: "a = Fin q" "- 1 \<le> q" "q \<le> 1" by (rule fle_Fin_between)
  have "fle (Fin 0) (rnd (q + 1))" "fle (rnd (q + 1)) (Fin 2)"
    using rnd_nonneg [of "q + 1"] rnd_mono [of "q + 1" 2] q by (simp_all add: rnd_numeral)
  then obtain r where r: "rnd (q + 1) = Fin r" "0 \<le> r" "r \<le> 2" by (rule fle_Fin_between)
  then show ?thesis using rnd_nonneg [of "r / 2"] rnd_mono [of "r / 2" 1] by (simp add: q(1) unit_f64_def)
qed

lemma adjust_vals_unit:
  assumes "list_all unit_f64 vals" and "list_all (\<lambda>a. fle (Fin (- 1)) a \<and> fle a (Fin 1)) action"
  shows "list_all unit_f64 (fst (adjust_vals h action vals)) \<and> length (fst (adjust_vals h action vals)) = length vals"
  using assms
proof (induction h action vals rule: adjust_vals.induct)
  case (1 h a as v vs)
  obtain vs' ch where r: "adjust_vals h as vs = (vs', ch)" by fastforce
  have "unit_f64 (fdiv (fadd a (Fin 1)) (Fin 2))" using 1 by (intro unit_half) simp_all
  then have "\<not> flt (fdiv (fadd a (Fin 1)) (Fin 2)) (Fin 0)" "\<not> flt (Fin 1) (fdiv (fadd a (Fin 1)) (Fin 2))"
    "unit_f64 (fdiv (fadd a (Fin 1)) (Fin 2))" by (auto simp: unit_f64_def flt_def)
  then show ?case using 1 r by (simp add: Let_def)
qed simp_all

subsection \<open>The exploration noise stays bounded\<close>

lemma rnd_between: "fval lo \<Longrightarrow> fval hi \<Longrightarrow> lo \<le> q \<Longrightarrow> q \<le> hi \<Longrightarrow> \<exists>r. rnd q = Fin r \<and> lo \<le> r \<and> r \<le> hi"
  using rnd_mono [of lo q] rnd_mono [of q hi] by (auto simp: fval_def elim: fle_Fin_between)

lemma fval_quarter: "fval (1 / 8)" "fval (1 / 4)"
  using fval_powi [of "- 3"] fval_powi [of "- 2"] by (simp_all add: power_int_minus)

lemma ou_coefficients:
  obtains th sg where "ddpgOUTheta = Fin th" "1 / 8 \<le> th" "th \<le> 1 / 4" "ddpgOUSigma = Fin sg" "1 / 8 \<le> sg" "sg \<le> 1 / 4" "fval sg"
proof -
  obtain th where th: "rnd (15 / 100) = Fin th" "1 / 8 \<le> th" "th \<le> 1 / 4" using rnd_between [OF fval_quarter, of "15 / 100"] by auto
  obtain sg where sg: "rnd (2 / 10) = Fin sg" "1 / 8 \<le> sg" "sg \<le> 1 / 4" using rnd_between [OF fval_quarter, of "2 / 10"] by auto
  show thesis using that [of th sg] th sg fval_rnd [OF sg(1)] by (simp add: ddpgOUTheta_def ddpgOUSigma_def f_const_def)
qed

lemma fval_int: "\<bar>n\<bar> \<le> 2 ^ 53 \<Longrightarrow> fval (of_int n)"
  by (simp add: fval_def rnd_int)

text \<open>One coordinate: the pull towards zero beats the noise near the bound.\<close>

lemma ou_coordinate_pos:
  assumes "0 \<le> x" and "x \<le> 4096" and "\<bar>w\<bar> \<le> 256" and "1 / 8 \<le> th" and "th \<le> 1 / 4"
  shows "\<exists>r. fadd (Fin x) (fadd (fmul (Fin th) (fsub (Fin 0) (Fin x))) (Fin w)) = Fin r \<and> \<bar>r\<bar> \<le> 4096"
proof -
  have f: "fval 4096" "fval (- 4096)" "fval 512" "fval (- 2048)" "fval (- 1024)" "fval (- 448)" "fval 0"
    using fval_int [of 4096] fval_int [of "- 4096"] fval_int [of 512] fval_int [of "- 2048"] fval_int [of "- 1024"] fval_int [of "- 448"] by simp_all
  obtain y where y: "rnd (- x) = Fin (- y)" "0 \<le> y" "y \<le> 4096" "3584 \<le> x \<longrightarrow> 3584 \<le> y"
  proof -
    obtain r where r: "rnd (- x) = Fin r" "- 4096 \<le> r" "r \<le> 0" using rnd_between [OF f(2,7), of "- x"] assms(1,2) by auto
    moreover have "3584 \<le> x \<longrightarrow> r \<le> - 3584"
      using rnd_mono [of "- x" "- 3584"] r(1) fval_int [of "- 3584"] by (auto simp: fval_def)
    ultimately show thesis using that [of "- r"] by auto
  qed
  have "th * y \<le> 1 / 4 * 4096" using assms(4,5) y by (intro mult_mono) simp_all
  moreover have "0 \<le> th * y" using assms(4) y(2) by simp
  ultimately obtain t where t: "rnd (th * - y) = Fin t" "- 1024 \<le> t" "t \<le> 0" using rnd_between [OF f(5,7), of "th * - y"] by auto
  have far: "3584 \<le> x \<longrightarrow> t \<le> - 448"
  proof
    assume "3584 \<le> x"
    then have "1 / 8 * 3584 \<le> th * y" using y assms(4) by (intro mult_mono) simp_all
    then show "t \<le> - 448" using rnd_mono [of "th * - y" "- 448"] t(1) f(6) by (simp add: fval_def)
  qed
  have "- 2048 \<le> t + w" "t + w \<le> 512" using t assms(3) by linarith+
  then obtain s where s: "rnd (t + w) = Fin s" "- 2048 \<le> s" "s \<le> 512" using rnd_between [OF f(4,3)] by blast
  have "3584 \<le> x \<longrightarrow> s \<le> 0" using rnd_nonpos [of "t + w"] far assms(3) s(1) by auto
  then have "- 4096 \<le> x + s" "x + s \<le> 4096" using s assms(1,2) by linarith+
  then obtain r where "rnd (x + s) = Fin r" "- 4096 \<le> r" "r \<le> 4096" using rnd_between [OF f(2,1)] by blast
  then show ?thesis using y(1) t(1) s(1) by (simp add: fsub_def)
qed

lemma ou_coordinate:
  assumes "\<bar>x\<bar> \<le> 4096" and "\<bar>w\<bar> \<le> 256" and "1 / 8 \<le> th" and "th \<le> 1 / 4"
  shows "\<exists>r. fadd (Fin x) (fadd (fmul (Fin th) (fsub (Fin 0) (Fin x))) (Fin w)) = Fin r \<and> \<bar>r\<bar> \<le> 4096"
proof (cases "0 \<le> x")
  case True
  then show ?thesis using ou_coordinate_pos [of x w th] assms by simp
next
  case False
  have neg: "fadd (fneg a) (fneg b) = fneg (fadd a b)" "fmul (Fin th) (fneg a) = fneg (fmul (Fin th) a)" for a b
    using rnd_minus [of "case a of Fin p \<Rightarrow> (case b of Fin q \<Rightarrow> p + q)"] rnd_minus [of "case a of Fin p \<Rightarrow> th * p"] assms(3)
    by (cases a; cases b; auto)+
  obtain r where "fadd (Fin (- x)) (fadd (fmul (Fin th) (fsub (Fin 0) (Fin (- x)))) (Fin (- w))) = Fin r" "\<bar>r\<bar> \<le> 4096"
    using ou_coordinate_pos [of "- x" "- w" th] False assms by auto
  moreover have "fsub (Fin 0) (Fin (- x)) = fneg (fsub (Fin 0) (Fin x))"
    using rnd_minus [of x] by (cases "rnd x") (simp_all add: fsub_def)
  moreover have "Fin (- x) = fneg (Fin x)" "Fin (- w) = fneg (Fin w)" by simp_all
  ultimately have "fneg (fadd (Fin x) (fadd (fmul (Fin th) (fsub (Fin 0) (Fin x))) (Fin w))) = Fin r" by (simp only: neg)
  with \<open>\<bar>r\<bar> \<le> 4096\<close> show ?thesis by (cases "fadd (Fin x) (fadd (fmul (Fin th) (fsub (Fin 0) (Fin x))) (Fin w))") auto
qed

text \<open>
  The normally distributed draws: the tables of \<^verbatim>\<open>math/rand\<close> end at 3.45 and the tail is \<^verbatim>\<open>-log(u)/3.44\<close> with
  \<^verbatim>\<open>u \<ge> 2^-53\<close>, so a draw is far below the bound assumed here.
\<close>

definition normal_draws :: "(nat \<Rightarrow> f64) \<Rightarrow> bool" where
  "normal_draws normal \<longleftrightarrow> (\<forall>i. \<exists>q. normal i = Fin q \<and> \<bar>q\<bar> \<le> 1024)"

definition noise_ok :: "ou_noise \<Rightarrow> bool" where
  "noise_ok ou \<longleftrightarrow> ouMu ou = Fin 0 \<and> ouTheta ou = ddpgOUTheta \<and> ouSigma0 ou = ddpgOUSigma \<and> unit_f64 (ouDecay ou) \<and>
     fle (Fin 0) (ouFloor ou) \<and> fle (ouFloor ou) (Fin (1 / 8)) \<and> fle (Fin 0) (ouSigma ou) \<and> fle (ouSigma ou) (Fin (1 / 4)) \<and>
     list_all (\<lambda>x. fle (Fin (- 4096)) x \<and> fle x (Fin 4096)) (ouState ou)"

lemma noise_sigma:
  assumes "noise_ok ou"
  shows "fle (Fin 0) (ou_sigma ou k) \<and> fle (ou_sigma ou k) (Fin (1 / 4))"
proof -
  obtain sg where sg: "ddpgOUSigma = Fin sg" "1 / 8 \<le> sg" "sg \<le> 1 / 4" "fval sg" by (rule ou_coefficients)
  obtain l where l: "ouFloor ou = Fin l" "0 \<le> l" "l \<le> 1 / 8" using assms unfolding noise_ok_def by (blast elim: fle_Fin_between)
  have "fle (Fin l) (ou_sigma ou k) \<and> fle (ou_sigma ou k) (Fin sg)"
    using ou_sigma_bounds [of ou sg l k] assms sg l by (simp add: noise_ok_def)
  then obtain q where "ou_sigma ou k = Fin q" "l \<le> q" "q \<le> sg" by (blast elim: fle_Fin_between)
  then show ?thesis using l sg by simp
qed

lemma noise_scaled:
  assumes "noise_ok ou" and "normal_draws normal"
  obtains w where "fmul (ouSigma ou) (normal i) = Fin w" "\<bar>w\<bar> \<le> 256"
proof -
  obtain s where s: "ouSigma ou = Fin s" "0 \<le> s" "s \<le> 1 / 4" using assms(1) unfolding noise_ok_def by (blast elim: fle_Fin_between)
  obtain q where q: "normal i = Fin q" "\<bar>q\<bar> \<le> 1024" using assms(2) unfolding normal_draws_def by blast
  have "\<bar>s * q\<bar> \<le> 1 / 4 * 1024" unfolding abs_mult using s q by (intro mult_mono) simp_all
  then have "- 256 \<le> s * q" "s * q \<le> 256" by linarith+
  then obtain w where "rnd (s * q) = Fin w" "- 256 \<le> w" "w \<le> 256"
    using rnd_between [of "- 256" 256 "s * q"] fval_int [of 256] fval_int [of "- 256"] by auto
  then show thesis using that [of w] s(1) q(1) by simp
qed

lemma ou_Sample_ok:
  assumes "noise_ok ou" and "normal_draws normal"
  shows "noise_ok (snd (ou_Sample normal ou))" and "list_all (\<lambda>x. fle (Fin (- 4096)) x \<and> fle x (Fin 4096)) (fst (ou_Sample normal ou))"
proof -
  obtain th where th: "ddpgOUTheta = Fin th" "1 / 8 \<le> th" "th \<le> 1 / 4" by (rule ou_coefficients)
  have one: "\<exists>r. fadd (ouState ou ! i) (fadd (fmul (ouTheta ou) (fsub (ouMu ou) (ouState ou ! i))) (fmul (ouSigma ou) (normal i))) = Fin r \<and>
      \<bar>r\<bar> \<le> 4096" if i: "i < length (ouState ou)" for i
  proof -
    obtain w where w: "fmul (ouSigma ou) (normal i) = Fin w" "\<bar>w\<bar> \<le> 256" using noise_scaled [OF assms] .
    have "fle (Fin (- 4096)) (ouState ou ! i)" "fle (ouState ou ! i) (Fin 4096)" using assms(1) i by (simp_all add: noise_ok_def list_all_length)
    then obtain x where "ouState ou ! i = Fin x" "- 4096 \<le> x" "x \<le> 4096" by (rule fle_Fin_between)
    then show ?thesis using ou_coordinate [of x w th] w th assms(1) by (simp add: noise_ok_def)
  qed
  show b: "list_all (\<lambda>x. fle (Fin (- 4096)) x \<and> fle x (Fin 4096)) (fst (ou_Sample normal ou))"
    unfolding list_all_length
  proof (intro allI impI)
    fix i assume "i < length (fst (ou_Sample normal ou))"
    then have i: "i < length (ouState ou)" by (simp add: ou_Sample_def Let_def)
    obtain r where "fst (ou_Sample normal ou) ! i = Fin r" "\<bar>r\<bar> \<le> 4096" using one [OF i] i by (auto simp: ou_Sample_def Let_def)
    then show "fle (Fin (- 4096)) (fst (ou_Sample normal ou) ! i) \<and> fle (fst (ou_Sample normal ou) ! i) (Fin 4096)" by (simp add: abs_le_iff)
  qed
  have "ouState (snd (ou_Sample normal ou)) = fst (ou_Sample normal ou)" by (simp add: ou_Sample_def Let_def)
  moreover have "ouMu (snd (ou_Sample normal ou)) = ouMu ou" "ouTheta (snd (ou_Sample normal ou)) = ouTheta ou"
    "ouSigma0 (snd (ou_Sample normal ou)) = ouSigma0 ou" "ouDecay (snd (ou_Sample normal ou)) = ouDecay ou"
    "ouFloor (snd (ou_Sample normal ou)) = ouFloor ou" by (simp_all add: ou_Sample_def Let_def)
  moreover have "fle (Fin 0) (ouSigma (snd (ou_Sample normal ou))) \<and> fle (ouSigma (snd (ou_Sample normal ou))) (Fin (1 / 4))"
    using noise_sigma [OF assms(1)] assms(1) by (simp add: ou_Sample_def Let_def noise_ok_def)
  ultimately show "noise_ok (snd (ou_Sample normal ou))" using assms(1) b by (simp add: noise_ok_def)
qed

lemma clipped_action:
  assumes "fle (Fin (- 1)) a" and "fle a (Fin 1)" and "fle (Fin (- 4096)) e" and "fle e (Fin 4096)"
  shows "fle (Fin (- 1)) (fmax (Fin (- 1)) (fmin (Fin 1) (fadd a e))) \<and> fle (fmax (Fin (- 1)) (fmin (Fin 1) (fadd a e))) (Fin 1)"
proof -
  obtain p q where "a = Fin p" "e = Fin q" using assms by (meson fle_Fin_between)
  then have "fadd a e \<noteq> NaN" using rnd_not_NaN [of "p + q"] by simp
  then show ?thesis by (rule clip_range) simp
qed

lemma ddpg_Act_unit:
  assumes "ac_laws N (ddStateSize d) (ddActionSize d)" and "ddpg_ok N d" and "length st = ddStateSize d"
    and "noise_ok (ddNoise d)" and "normal_draws normal"
  obtains action ou where "ddpg_Act N normal st d = Some (action, d\<lparr>ddNoise := ou\<rparr>)" "length action = ddActionSize d"
    "ddpg_ok N (d\<lparr>ddNoise := ou\<rparr>)" "noise_ok ou" "list_all (\<lambda>a. fle (Fin (- 1)) a \<and> fle a (Fin 1)) action"
proof -
  let ?e = "fst (ou_Sample normal (ddNoise d))" and ?a = "tensorToFloat64 (acActor N (ddNets d) st)"
  obtain action where a: "ddpg_Act N normal st d = Some (action, d\<lparr>ddNoise := snd (ou_Sample normal (ddNoise d))\<rparr>)"
    "length action = ddActionSize d" "ddpg_ok N (d\<lparr>ddNoise := snd (ou_Sample normal (ddNoise d))\<rparr>)"
    "action = map2 (\<lambda>a e. fmax (Fin (- 1)) (fmin (Fin 1) (fadd a e))) ?a ?e"
    by (rule ddpg_Act_ok [OF assms(1-3)])
  have "list_all (\<lambda>a. fle (Fin (- 1)) a \<and> fle a (Fin 1)) ?a" using assms(1,3) unfolding ac_laws_def by blast
  then have "list_all (\<lambda>a. fle (Fin (- 1)) a \<and> fle a (Fin 1)) action"
    using ou_Sample_ok(2) [OF assms(4,5)] unfolding a(4) list_all_length by (simp add: clipped_action)
  then show thesis using that a ou_Sample_ok(1) [OF assms(4,5)] by blast
qed

subsection \<open>Invariant of a tick\<close>

definition transition_shape :: "nat \<Rightarrow> transition \<Rightarrow> bool" where
  "transition_shape n t \<longleftrightarrow> length (trState t) = n + 3 \<and> length (trAction t) = n \<and> length (trNextState t) = n + 3"

definition opt_ok :: "'n ac_ops \<Rightarrow> 'n optimizer \<Rightarrow> bool" where
  "opt_ok N opt \<longleftrightarrow> list_all tunable_ok (opParams opt) \<and> list_all unit_f64 (opCurrentVals opt) \<and>
     length (opCurrentVals opt) = length (opParams opt) \<and> ddStateSize (opDdpg opt) = length (opParams opt) + 3 \<and>
     ddActionSize (opDdpg opt) = length (opParams opt) \<and> ddpg_ok N (opDdpg opt) \<and> noise_ok (ddNoise (opDdpg opt)) \<and>
     length (opWindow opt) \<le> opWindowCap opt \<and> 0 < opWindowCap opt \<and>
     list_all (transition_shape (length (opParams opt))) (rp_items (ddReplay (opDdpg opt)))"

lemma set_weights_ok: "list_all tunable_ok ps \<Longrightarrow> set_weights idxs ws ps = Some qs \<Longrightarrow> list_all tunable_ok qs"
  by (induction idxs ws ps rule: set_weights.induct)
     (auto simp: list_all_length nth_list_update split: if_splits list.splits)

lemma CalibrateWeights_ok: "list_all tunable_ok ps \<Longrightarrow> CalibrateWeights G ps cs ts l1 = Some qs \<Longrightarrow> list_all tunable_ok qs"
  using set_weights_ok [of "map (\<lambda>p. p\<lparr>tpWeight := Fin 0\<rparr>) ps"]
  by (auto simp: CalibrateWeights_def list.pred_map comp_def split: if_splits option.splits)

lemma ActiveParams_ok: "list_all tunable_ok ps \<Longrightarrow> list_all tunable_ok (ActiveParams ps)"
  by (auto simp: ActiveParams_def list_all_iff)

definition config_ok :: "optimizer_config \<Rightarrow> bool" where
  "config_ok c \<longleftrightarrow> unit_f64 (ocNoiseDecay (fill_defaults c)) \<and> fle (Fin 0) (ocNoiseFloor (fill_defaults c)) \<and>
     fle (ocNoiseFloor (fill_defaults c)) (Fin (1 / 8))"

lemma noise_ok_New:
  assumes "unit_f64 dec" and "fle (Fin 0) lo" and "fle lo (Fin (1 / 8))"
  shows "noise_ok (SetDecay dec lo (NewOUNoise k (Fin 0) ddpgOUTheta ddpgOUSigma))"
proof -
  obtain sg where sg: "ddpgOUSigma = Fin sg" "1 / 8 \<le> sg" "sg \<le> 1 / 4" by (rule ou_coefficients)
  have "fle (Fin 0) ddpgOUSigma" "fle ddpgOUSigma (Fin (1 / 4))" unfolding sg(1) using sg(2,3) by simp_all
  then show ?thesis using assms by (simp add: noise_ok_def SetDecay_def NewOUNoise_def list_all_iff)
qed

lemma NewOptimizer_ok:
  assumes "NewOptimizer mkNets G b params c pilot = Some opt" and "list_all tunable_ok params" and "config_ok c"
    and "\<And>ss as nets bufs. mkNets ss as = (nets, bufs) \<Longrightarrow> pairs_ok N bufs nets"
  shows "opt_ok N opt" and "opStartConfig opt = snapCfg b" and "\<not> opRolledBack opt" and "opLowTicks opt = 0"
proof -
  let ?c = "fill_defaults c"
  obtain qs where q: "list_all tunable_ok qs" and opt: "opt = (let active = ActiveParams qs; stateSize = length active + 3; actionSize = length active;
       (nets, bufs) = mkNets stateSize actionSize;
       dd = SetNoiseDecay (ocNoiseDecay ?c) (ocNoiseFloor ?c) (NewDDPG nets bufs stateSize actionSize (ocLearningRate ?c) (ocBatchSize ?c))
     in \<lparr>opDdpg = dd, opParams = active, opInterval = ocInterval ?c, opBatchSize = ocBatchSize ?c, opWarmup = ocWarmupTicks ?c,
         opTicks = 0, opHysteresis = ocHysteresis ?c, opCurrentVals = replicate (length active) (f_const (1 / 2)),
         opPrevMetrics = None, opWindow = [], opWindowCap = DefaultOptimizerWindowCap, opLastApply = None,
         opMinApplyInterval = DefaultMinApplyInterval, opStartConfig = snapCfg b, opLowTicks = 0, opRolledBack = False\<rparr>)"
    using assms(1,2) CalibrateWeights_ok by (fastforce simp: NewOptimizer_def Let_def split: option.splits list.splits if_splits prod.splits)
  obtain nets bufs where n: "mkNets (length (ActiveParams qs) + 3) (length (ActiveParams qs)) = (nets, bufs)" by fastforce
  have half: "unit_f64 (f_const (1 / 2))" using rnd_nonneg [of "1 / 2"] rnd_mono [of "1 / 2" 1] by (simp add: unit_f64_def f_const_def)
  have dd: "ddpg_ok N (NewDDPG nets bufs ss as lr bs)" for ss as lr bs by (rule ddpg_ok_New [OF assms(4) [OF n]])
  have sz: "ddNoise (NewDDPG nets bufs ss as lr bs) = NewOUNoise as (Fin 0) ddpgOUTheta ddpgOUSigma"
    "ddStateSize (NewDDPG nets bufs ss as lr bs) = ss" "ddActionSize (NewDDPG nets bufs ss as lr bs) = as" for ss as lr bs
    by (simp_all add: NewDDPG_def Let_def)
  have rp: "rp_items (ddReplay (NewDDPG nets bufs ss as lr bs)) = []" for ss as lr bs
    by (simp add: NewDDPG_def Let_def NewReplayBuffer_def rp_items_def ring_items_def)
  show "opt_ok N opt"
    using half rp ActiveParams_ok [OF q] dd [of "length (ActiveParams qs) + 3" "length (ActiveParams qs)"] noise_ok_New assms(3)
    by (simp add: opt n opt_ok_def Let_def list_all_iff SetNoiseDecay_def sz DefaultOptimizerWindowCap_def config_ok_def)
      (simp add: ddpg_ok_def SetDecay_def sz)
  show "opStartConfig opt = snapCfg b" "\<not> opRolledBack opt" "opLowTicks opt = 0" by (simp_all add: opt n Let_def)
qed

lemma ddpg_Train_replay: "ddpg_Train N rnd_draw bs d = Some d' \<Longrightarrow> ddReplay d' = ddReplay d"
proof -
  have "ddReplay (ensureBuffers n d) = ddReplay d" for n by (simp add: ensureBuffers_def Let_def)
  then show "ddpg_Train N rnd_draw bs d = Some d' \<Longrightarrow> ddReplay d' = ddReplay d"
    by (auto simp: ddpg_Train_def Let_def ddpg_fill_def split: if_splits option.splits)
qed

lemma ddpg_Train_total:
  assumes "ac_laws N (ddStateSize d) (ddActionSize d)" and "ddpg_ok N d"
  obtains d' where "ddpg_Train N rnd_draw bs d = Some d'" "ddpg_ok N d'" "ddStateSize d' = ddStateSize d"
    "ddActionSize d' = ddActionSize d" "ddNoise d' = ddNoise d" "ddReplay d' = ddReplay d"
proof (cases "bs \<le> rp_Len (ddReplay d)")
  case True
  then show thesis using that ddpg_Train_spec [OF assms True refl, of rnd_draw] ddpg_Train_replay by blast
next
  case False
  then show thesis using that [of d] assms(2) by (simp add: ddpg_Train_def)
qed

lemma computeReward_frame:
  assumes "op_computeReward m opt = (r, o1)" and "opt_ok N opt"
  shows "opt_ok N o1" and "opDdpg o1 = opDdpg opt" and "opParams o1 = opParams opt" and "opStartConfig o1 = opStartConfig opt"
    and "opRolledBack o1 = opRolledBack opt" and "opLowTicks o1 = opLowTicks opt"
  using assms by (auto simp: op_computeReward_def Let_def opt_ok_def)

lemma learn_ok:
  assumes "ac_laws N (length (opParams opt) + 3) (length (opParams opt))" and ok: "opt_ok N opt"
    and len: "length st = length (opParams opt) + 3" "length action = length (opParams opt)"
  obtains o' where "learn N rnd_draw m st action opt = Some o'" "opt_ok N o'" "opParams o' = opParams opt"
    "opStartConfig o' = opStartConfig opt" "opRolledBack o' = opRolledBack opt" "opLowTicks o' = opLowTicks opt"
proof (cases "opPrevMetrics opt")
  case None
  then show thesis using that ok by (simp add: learn_def)
next
  case (Some pm)
  obtain r o1 where r: "op_computeReward m opt = (r, o1)" by fastforce
  note f = computeReward_frame [OF r ok]
  define d where "d = ddpg_Store (op_buildState pm o1) action r st False (opDdpg o1)"
  have d: "ddStateSize d = length (opParams o1) + 3" "ddActionSize d = length (opParams o1)" "ddNoise d = ddNoise (opDdpg o1)" "ddpg_ok N d"
    using f(1) ddpg_ok_Store by (auto simp: d_def ddpg_Store_def opt_ok_def)
  obtain d' where t: "ddpg_Train N rnd_draw (opBatchSize o1) d = Some d'" "ddpg_ok N d'" "ddStateSize d' = ddStateSize d"
    "ddActionSize d' = ddActionSize d" "ddNoise d' = ddNoise d" "ddReplay d' = ddReplay d"
    by (rule ddpg_Train_total [of N d rnd_draw "opBatchSize o1"]) (use assms(1) f(3) d in simp_all)
  let ?tr = "\<lparr>trState = op_buildState pm o1, trAction = action, trReward = r, trNextState = st, trDone = False\<rparr>"
  have "rp_ok (ddReplay (opDdpg o1))" using f(1) by (simp add: opt_ok_def ddpg_ok_def)
  from replay.items_put [OF this, of ?tr] have "set (rp_items (ddReplay d)) \<subseteq> insert ?tr (set (rp_items (ddReplay (opDdpg o1))))"
    using set_keep_last by (fastforce simp: d_def ddpg_Store_def)
  moreover have "transition_shape (length (opParams o1)) ?tr" using f(1,3) len by (simp add: transition_shape_def op_buildState_def opt_ok_def)
  ultimately have "list_all (transition_shape (length (opParams o1))) (rp_items (ddReplay d'))"
    using f(1) t(6) by (auto simp: opt_ok_def list_all_iff)
  then have "opt_ok N (o1\<lparr>opDdpg := d'\<rparr>)" using f(1) t d by (simp add: opt_ok_def)
  then show thesis using that [of "o1\<lparr>opDdpg := d'\<rparr>"] Some r t(1) f by (simp add: learn_def d_def)
qed

lemma ApplyConfig_snapCfg: "snapCfg (snd (ApplyConfig lib cfg b)) = (if Validate cfg = None then cfg else snapCfg b)"
  by (simp add: ApplyConfig_def)

lemma checkEmergencyRollback_ok:
  assumes "checkEmergencyRollback lib m opt b = (o1, b1)" and "opt_ok N opt" and "Validate (opStartConfig opt) = None"
  shows "opt_ok N o1" and "opParams o1 = opParams opt" and "opStartConfig o1 = opStartConfig opt"
    and "opRolledBack o1 \<longleftrightarrow> opRolledBack opt \<or> low_delivery m \<and> 1 \<le> opLowTicks opt"
    and "\<not> opRolledBack o1 \<Longrightarrow> opLowTicks o1 = (if low_delivery m then opLowTicks opt + 1 else 0)"
    and "snapCfg b1 = (if opRolledBack o1 \<and> \<not> opRolledBack opt then opStartConfig opt else snapCfg b)"
  using assms unfolding checkEmergencyRollback_def DefaultEmergencyRollbackN_def
  by (auto simp: Let_def opt_ok_def ApplyConfig_snapCfg split: if_splits)

lemma applyAction_ok:
  assumes "applyAction lib oob now action opt b = (o1, b1)" and "opt_ok N opt"
    and "list_all (\<lambda>a. fle (Fin (- 1)) a \<and> fle a (Fin 1)) action" and "Validate (snapCfg b) = None"
  shows "opt_ok N o1" and "opParams o1 = opParams opt" and "opStartConfig o1 = opStartConfig opt"
    and "opRolledBack o1 = opRolledBack opt" and "opLowTicks o1 = opLowTicks opt" and "Validate (snapCfg b1) = None"
    and "b1 = b \<or> snapCfg b1 = proposed_config oob (opParams o1) (opCurrentVals o1) (snapCfg b)"
proof -
  obtain vals ch where v: "adjust_vals (opHysteresis opt) action (opCurrentVals opt) = (vals, ch)" by fastforce
  have u: "list_all unit_f64 vals" "length vals = length (opParams opt)" "list_all tunable_ok (opParams opt)"
    using adjust_vals_unit [of "opCurrentVals opt" action "opHysteresis opt"] assms(2,3) v by (simp_all add: opt_ok_def)
  have "Validate (proposed_config oob (opParams opt) vals (snapCfg b)) = None" using proposed_config_valid u(1,3) assms(4) by blast
  then show "opt_ok N o1" "opParams o1 = opParams opt" "opStartConfig o1 = opStartConfig opt"
    "opRolledBack o1 = opRolledBack opt" "opLowTicks o1 = opLowTicks opt" "Validate (snapCfg b1) = None"
    "b1 = b \<or> snapCfg b1 = proposed_config oob (opParams o1) (opCurrentVals o1) (snapCfg b)"
    using assms(1,2,4) u v by (auto simp: applyAction_def opt_ok_def ApplyConfig_snapCfg split: if_splits)
qed

text \<open>One tick, with everything a run needs to know about it.\<close>

lemma op_step_ok:
  assumes m: "m = Snapshot (bmetrics b)" and laws: "ac_laws N (length (opParams opt) + 3) (length (opParams opt))" "normal_draws normal"
    and ok: "opt_ok N opt" "Validate (opStartConfig opt) = None" "Validate (snapCfg b) = None"
  obtains o' b' where "op_step N lib oob normal rnd_draw now (opt, b) = Some (o', b')" "opt_ok N o'" "opParams o' = opParams opt"
    "opStartConfig o' = opStartConfig opt" "Validate (snapCfg b') = None"
    "opRolledBack o' \<longleftrightarrow> opRolledBack opt \<or> low_delivery m \<and> 1 \<le> opLowTicks opt"
    "\<not> opRolledBack o' \<Longrightarrow> opLowTicks o' = (if low_delivery m then opLowTicks opt + 1 else 0)"
    "opRolledBack o' \<Longrightarrow> snapCfg b' = (if opRolledBack opt then snapCfg b else opStartConfig opt)"
proof -
  obtain o1 b1 where c: "checkEmergencyRollback lib m (opt\<lparr>opTicks := opTicks opt + 1\<rparr>) b = (o1, b1)" by fastforce
  have "opt_ok N (opt\<lparr>opTicks := opTicks opt + 1\<rparr>)" using ok(1) by (simp add: opt_ok_def)
  note rb = checkEmergencyRollback_ok [OF c this, simplified, OF ok(2)]
  have st: "length (op_buildState m o1) = length (opParams opt) + 3" using rb(1,2) by (simp add: op_buildState_def opt_ok_def)
  have dd: "ddStateSize (opDdpg o1) = length (opParams opt) + 3" "ddActionSize (opDdpg o1) = length (opParams opt)"
    "ddpg_ok N (opDdpg o1)" "noise_ok (ddNoise (opDdpg o1))" using rb(1,2) by (simp_all add: opt_ok_def)
  obtain action ou where a: "ddpg_Act N normal (op_buildState m o1) (opDdpg o1) = Some (action, (opDdpg o1)\<lparr>ddNoise := ou\<rparr>)"
    "ddpg_ok N ((opDdpg o1)\<lparr>ddNoise := ou\<rparr>)" "noise_ok ou" "list_all (\<lambda>a. fle (Fin (- 1)) a \<and> fle a (Fin 1)) action" "length action = length (opParams opt)"
    by (rule ddpg_Act_unit [of N "opDdpg o1" "op_buildState m o1" normal]) (use laws st dd in simp_all)
  define o2 where "o2 = o1\<lparr>opDdpg := (opDdpg o1)\<lparr>ddNoise := ou\<rparr>\<rparr>"
  have o2: "opt_ok N o2" "opParams o2 = opParams opt" "opStartConfig o2 = opStartConfig opt" "opRolledBack o2 = opRolledBack o1"
    "opLowTicks o2 = opLowTicks o1" using rb(1-3) a(2,3) by (simp_all add: o2_def opt_ok_def)
  have v1: "Validate (snapCfg b1) = None" using rb(6) ok(2,3) by simp
  obtain o3 b2 where p: "(if opTicks o2 > opWarmup o2 \<and> \<not> opRolledBack o2 \<and> safe_to_apply m then applyAction lib oob now action o2 b1 else (o2, b1)) = (o3, b2)"
    by fastforce
  have o3: "opt_ok N o3 \<and> opParams o3 = opParams opt \<and> opStartConfig o3 = opStartConfig opt \<and> opRolledBack o3 = opRolledBack o1 \<and>
      opLowTicks o3 = opLowTicks o1 \<and> Validate (snapCfg b2) = None \<and> (opRolledBack o1 \<longrightarrow> b2 = b1)"
    using p applyAction_ok [of lib oob now action o2 b1 o3 b2 N] o2 a(4) v1 by (auto split: if_splits)
  obtain o4 where l: "learn N rnd_draw m (op_buildState m o1) action o3 = Some o4" "opt_ok N o4" "opParams o4 = opParams o3"
    "opStartConfig o4 = opStartConfig o3" "opRolledBack o4 = opRolledBack o3" "opLowTicks o4 = opLowTicks o3"
    by (rule learn_ok [of N o3 "op_buildState m o1" action rnd_draw m]) (use laws o3 st a(5) in simp_all)
  have s: "op_step N lib oob normal rnd_draw now (opt, b) = Some (o4\<lparr>opPrevMetrics := Some m\<rparr>, b2)"
    using p [unfolded o2_def] l(1) c a(1) by (simp add: op_step_def Let_def flip: m)
  have "opt_ok N (o4\<lparr>opPrevMetrics := Some m\<rparr>)" using l(2) by (simp add: opt_ok_def)
  then show thesis using that [OF s] l o3 rb(4-6) by auto
qed

subsection \<open>Runs\<close>

text \<open>
  A run of the loop: ticks, and between them any change of the broker except of its configuration. The list
  has for every tick whether its metrics reported a low delivery.
\<close>

inductive op_run :: "'n ac_ops \<Rightarrow> ('g, 'l) compress_lib \<Rightarrow> (f64 \<Rightarrow> int) \<Rightarrow> 'n optimizer \<times> ('w, 'd, 'b, 's) broker \<Rightarrow>
    bool list \<Rightarrow> 'n optimizer \<times> ('w, 'd, 'b, 's) broker \<Rightarrow> bool"
  for N lib oob ob0 where
  start: "op_run N lib oob ob0 [] ob0"
| traffic: "op_run N lib oob ob0 h (opt, b) \<Longrightarrow> snapCfg b' = snapCfg b \<Longrightarrow> op_run N lib oob ob0 h (opt, b')"
| tick: "op_run N lib oob ob0 h (opt, b) \<Longrightarrow> normal_draws normal \<Longrightarrow> op_step N lib oob normal rnd_draw now (opt, b) = Some ob' \<Longrightarrow>
    op_run N lib oob ob0 (h @ [low_delivery (Snapshot (bmetrics b))]) ob'"

fun two_low :: "bool list \<Rightarrow> bool" where
  "two_low (x # y # h) \<longleftrightarrow> x \<and> y \<or> two_low (y # h)"
| "two_low _ \<longleftrightarrow> False"

lemma two_low_snoc: "two_low (h @ [x]) \<longleftrightarrow> two_low h \<or> h \<noteq> [] \<and> last h \<and> x"
  by (induction h rule: two_low.induct) (auto split: list.splits)

lemma two_low_nth: "two_low h \<longleftrightarrow> (\<exists>i. Suc i < length h \<and> h ! i \<and> h ! Suc i)"
proof (induction h rule: two_low.induct)
  case (1 x y h)
  have ex: "(\<exists>i. P i) \<longleftrightarrow> P 0 \<or> (\<exists>i. P (Suc i))" for P :: "nat \<Rightarrow> bool" by (metis nat.exhaust)
  show ?case unfolding two_low.simps 1 by (subst (2) ex) simp
qed simp_all

definition run_inv :: "'n ac_ops \<Rightarrow> tunable_param list \<Rightarrow> config \<Rightarrow> bool list \<Rightarrow> 'n optimizer \<Rightarrow> ('w, 'd, 'b, 's) broker \<Rightarrow> bool" where
  "run_inv N ps cfg h opt b \<longleftrightarrow> opt_ok N opt \<and> opParams opt = ps \<and> opStartConfig opt = cfg \<and> Validate (snapCfg b) = None \<and>
     (opRolledBack opt \<longleftrightarrow> two_low h) \<and> (opRolledBack opt \<longrightarrow> snapCfg b = cfg) \<and>
     (\<not> opRolledBack opt \<longrightarrow> (1 \<le> opLowTicks opt \<longleftrightarrow> h \<noteq> [] \<and> last h))"

lemma run_inv_tick:
  assumes "ac_laws N (length ps + 3) (length ps)" and "normal_draws normal" and "Validate cfg = None" and inv: "run_inv N ps cfg h opt b"
  obtains o' b' where "op_step N lib oob normal rnd_draw now (opt, b) = Some (o', b')"
    "run_inv N ps cfg (h @ [low_delivery (Snapshot (bmetrics b))]) o' b'"
proof -
  note i = inv [unfolded run_inv_def]
  obtain o' b' where s: "op_step N lib oob normal rnd_draw now (opt, b) = Some (o', b')" "opt_ok N o'" "opParams o' = opParams opt"
    "opStartConfig o' = opStartConfig opt" "Validate (snapCfg b') = None"
    "opRolledBack o' \<longleftrightarrow> opRolledBack opt \<or> low_delivery (Snapshot (bmetrics b)) \<and> 1 \<le> opLowTicks opt"
    "\<not> opRolledBack o' \<Longrightarrow> opLowTicks o' = (if low_delivery (Snapshot (bmetrics b)) then opLowTicks opt + 1 else 0)"
    "opRolledBack o' \<Longrightarrow> snapCfg b' = (if opRolledBack opt then snapCfg b else opStartConfig opt)"
    by (rule op_step_ok [OF refl, of N opt normal b lib oob rnd_draw now]) (use assms(1-3) i in auto)
  have "run_inv N ps cfg (h @ [low_delivery (Snapshot (bmetrics b))]) o' b'"
    unfolding run_inv_def two_low_snoc using s(2-8) i by (auto split: if_splits)
  then show thesis using that s(1) by blast
qed

lemma op_run_inv:
  assumes "op_run N lib oob (opt0, b0) h ob" and "NewOptimizer mkNets G b0 params c pilot = Some opt0" and "list_all tunable_ok params" and "config_ok c"
    and "\<And>ss as nets bufs. mkNets ss as = (nets, bufs) \<Longrightarrow> pairs_ok N bufs nets"
    and "ac_laws N (length (opParams opt0) + 3) (length (opParams opt0))" and "Validate (snapCfg b0) = None"
  shows "run_inv N (opParams opt0) (snapCfg b0) h (fst ob) (snd ob)"
  using assms(1)
proof (induction rule: op_run.induct)
  case start
  then show ?case using NewOptimizer_ok [OF assms(2-5)] assms(7) by (simp add: run_inv_def)
next
  case (traffic h opt b b')
  then show ?case by (simp add: run_inv_def)
next
  case (tick h opt b normal rnd_draw now ob')
  obtain o' b' where "op_step N lib oob normal rnd_draw now (opt, b) = Some (o', b')"
    "run_inv N (opParams opt0) (snapCfg b0) (h @ [low_delivery (Snapshot (bmetrics b))]) o' b'"
    by (rule run_inv_tick [OF assms(6) tick.hyps(2) assms(7)]) (use tick.IH in simp)
  then show ?case using tick.hyps(3) by simp
qed


text \<open>
  C18: the emergency rollback. The optimizer has rolled back exactly when two consecutive ticks of the run reported a
  delivery ratio below one half under traffic, and from then on the configuration of the broker is the one it had when the optimizer
  was created.
\<close>

theorem Optimizer_rollback:
  assumes "NewOptimizer mkNets G b0 DefaultTunableParams c pilot = Some opt0" and "config_ok c" and "Validate (snapCfg b0) = None"
    and "\<And>ss as nets bufs. mkNets ss as = (nets, bufs) \<Longrightarrow> pairs_ok N bufs nets"
    and "ac_laws N (length (opParams opt0) + 3) (length (opParams opt0))"
    and "op_run N lib oob (opt0, b0) h (opt, b)"
  shows "(opRolledBack opt \<longleftrightarrow> (\<exists>i. Suc i < length h \<and> h ! i \<and> h ! Suc i)) \<and> (opRolledBack opt \<longrightarrow> snapCfg b = snapCfg b0)"
  using op_run_inv [OF assms(6,1) default_params_ok assms(2,4,5,3)] by (simp add: run_inv_def two_low_nth)

subsection \<open>A concrete run\<close>

text \<open>The broker of the instances, with a report that most messages are not delivered; a network with one variable.\<close>

definition lowReport :: "collector \<Rightarrow> collector" where
  "lowReport mc = mc\<lparr>lastSnap := (lastSnap mc)\<lparr>business := (business (lastSnap mc))\<lparr>DeliveryRatio := Fin 0, MsgRate := Fin 1\<rparr>\<rparr>\<rparr>"

definition lowBroker :: "(list_wal, (string \<times> bytes) list, unit, unit) broker" where
  "lowBroker = (sampleBroker ())\<lparr>bmetrics := lowReport (bmetrics (sampleBroker ()))\<rparr>"

definition sampleOptimizer :: "(f64 \<times> f64) optimizer" where
  "sampleOptimizer = the (NewOptimizer (\<lambda>_ _. ((Fin 0, Fin 0), [1])) sampleGonum lowBroker DefaultTunableParams DefaultOptimizerConfig [])"

lemma sampleOptimizer_New:
  "NewOptimizer (\<lambda>_ _. ((Fin 0, Fin 0), [1])) sampleGonum lowBroker DefaultTunableParams DefaultOptimizerConfig [] = Some sampleOptimizer"
  by (simp add: sampleOptimizer_def NewOptimizer_def Let_def)

lemma sampleOptimizer_config: "config_ok DefaultOptimizerConfig"
proof -
  obtain d where d: "rnd (999 / 1000) = Fin d" "0 \<le> d" "d \<le> 1" using rnd_between [of 0 1 "999 / 1000"] by auto
  obtain l where l: "rnd (5 / 100) = Fin l" "0 \<le> l" "l \<le> 1 / 8" using rnd_between [of 0 "1 / 8" "5 / 100"] fval_quarter by auto
  have "ocNoiseDecay (fill_defaults DefaultOptimizerConfig) = Fin d" "ocNoiseFloor (fill_defaults DefaultOptimizerConfig) = Fin l"
    using d(1) l(1) by (simp_all add: fill_defaults_def Let_def DefaultOptimizerConfig_def f_const_def)
  then show ?thesis using d l by (simp add: config_ok_def unit_f64_def)
qed

lemma lowBroker_low: "low_delivery (Snapshot (bmetrics lowBroker))"
proof -
  have "rnd (1 / 2) = Fin (1 / 2)" using fval_powi [of "- 1"] by (simp add: fval_def power_int_minus)
  then have "flt (Fin 0) (rnd (1 / 2))" by simp
  then show ?thesis by (simp add: low_delivery_def Snapshot_def lowBroker_def lowReport_def DefaultEmergencyRollbackDR_def f_const_def)
qed

lemma lowBroker_config: "Validate (snapCfg lowBroker) = None" "snapCfg lowBroker = sampleConfig"
  by (simp_all add: lowBroker_def sampleBroker_fields sampleConfig_def validate_simps DefaultConfig_def CompressionGzip_def)

lemma sampleOptimizer_laws:
  "ac_laws (lineNets 10) (length (opParams sampleOptimizer) + 3) (length (opParams sampleOptimizer))" "length (opParams sampleOptimizer) = 10"
proof -
  have f: "flt (Fin 0) (rnd q)" if "1 / 8 \<le> q" "q \<le> 1" for q using rnd_between [OF fval_quarter(1) fval_1 that] by auto
  have "ActiveParams DefaultTunableParams = DefaultTunableParams"
    by (simp add: ActiveParams_def DefaultTunableParams_def tunable_int_def f_const_def f)
  then have "opParams sampleOptimizer = DefaultTunableParams" by (simp add: sampleOptimizer_def NewOptimizer_def Let_def)
  then show l: "length (opParams sampleOptimizer) = 10" by (simp add: DefaultTunableParams_def)
  show "ac_laws (lineNets 10) (length (opParams sampleOptimizer) + 3) (length (opParams sampleOptimizer))"
    unfolding l by (rule lineNets_laws)
qed

lemma sampleOptimizer_inv:
  assumes "op_run (lineNets 10) tagLib oob (sampleOptimizer, lowBroker) h (opt, b)"
  shows "run_inv (lineNets 10) (opParams sampleOptimizer) (snapCfg lowBroker) h opt b"
  using op_run_inv [OF assms sampleOptimizer_New default_params_ok sampleOptimizer_config _ sampleOptimizer_laws(1) lowBroker_config(1)]
    lineNets_pairs by auto

lemma sample_tick:
  assumes "op_run (lineNets 10) tagLib oob (sampleOptimizer, lowBroker) h (opt, b)"
  obtains o' b' where "op_run (lineNets 10) tagLib oob (sampleOptimizer, lowBroker) (h @ [low_delivery (Snapshot (bmetrics b))]) (o', b')"
proof -
  have n: "normal_draws (\<lambda>_. Fin 0)" by (simp add: normal_draws_def)
  obtain o' b' where "op_step (lineNets 10) tagLib oob (\<lambda>_. Fin 0) (\<lambda>_. 0) 0 (opt, b) = Some (o', b')"
    by (rule run_inv_tick [OF sampleOptimizer_laws(1) n lowBroker_config(1) sampleOptimizer_inv [OF assms]])
  then show thesis using that op_run.tick [OF assms n] by blast
qed


theorem Optimizer_rollback_witness:
  "\<exists>opt b. op_run (lineNets 10) tagLib (\<lambda>_. 0) (sampleOptimizer, lowBroker) [True, True] (opt, b) \<and> opRolledBack opt \<and> snapCfg b = sampleConfig"
proof -
  obtain o1 b1 where r1: "op_run (lineNets 10) tagLib (\<lambda>_. 0) (sampleOptimizer, lowBroker) [True] (o1, b1)"
    using sample_tick [OF op_run.start] lowBroker_low by (metis append_Nil)
  have "op_run (lineNets 10) tagLib (\<lambda>_. 0) (sampleOptimizer, lowBroker) [True] (o1, b1\<lparr>bmetrics := bmetrics lowBroker\<rparr>)"
    by (rule op_run.traffic [OF r1]) simp
  from sample_tick [OF this] obtain o2 b2 where r2: "op_run (lineNets 10) tagLib (\<lambda>_. 0) (sampleOptimizer, lowBroker) [True, True] (o2, b2)"
    using lowBroker_low by auto
  have "opRolledBack o2 \<and> snapCfg b2 = snapCfg lowBroker"
    using Optimizer_rollback [OF sampleOptimizer_New sampleOptimizer_config lowBroker_config(1) _ sampleOptimizer_laws(1) r2] lineNets_pairs
    by (auto simp: less_Suc_eq)
  then show ?thesis using r2 lowBroker_config(2) by auto
qed

lemma padOrTrunc_exact: "length xs = n \<Longrightarrow> padOrTrunc n xs = xs"
  by (simp add: padOrTrunc_eq)

lemma rows_exact: "(\<And>t. t \<in> set batch \<Longrightarrow> length (part t) = n) \<Longrightarrow> rows n part batch = concat (map part batch)"
  unfolding rows_def by (rule arg_cong [where f = concat]) (simp add: padOrTrunc_exact)

text \<open>
  C19: the vectors of the learner are well typed. In every state of a run, the state vector built from any metrics has the
  width of the networks' input (one entry for each active parameter and three metrics), and so have the states, the actions and the next
  states of every transition in the replay buffer, so the padding and truncation of the minibatch never alter a sample.
\<close>

theorem Optimizer_types:
  assumes "NewOptimizer mkNets G b0 DefaultTunableParams c pilot = Some opt0" and "config_ok c" and "Validate (snapCfg b0) = None"
    and "\<And>ss as nets bufs. mkNets ss as = (nets, bufs) \<Longrightarrow> pairs_ok N bufs nets"
    and "ac_laws N (length (opParams opt0) + 3) (length (opParams opt0))"
    and "op_run N lib oob (opt0, b0) h (opt, b)"
  shows "length (op_buildState m opt) = ddStateSize (opDdpg opt) \<and> length (opParams opt) = ddActionSize (opDdpg opt) \<and>
    rows (ddStateSize (opDdpg opt)) trState (rp_Sample r n (ddReplay (opDdpg opt))) = concat (map trState (rp_Sample r n (ddReplay (opDdpg opt)))) \<and>
    rows (ddActionSize (opDdpg opt)) trAction (rp_Sample r n (ddReplay (opDdpg opt))) = concat (map trAction (rp_Sample r n (ddReplay (opDdpg opt)))) \<and>
    rows (ddStateSize (opDdpg opt)) trNextState (rp_Sample r n (ddReplay (opDdpg opt))) = concat (map trNextState (rp_Sample r n (ddReplay (opDdpg opt))))"
proof -
  have "opt_ok N opt" using op_run_inv [OF assms(6,1) default_params_ok assms(2,4,5,3)] by (simp add: run_inv_def)
  then have ok: "ddStateSize (opDdpg opt) = length (opParams opt) + 3" "ddActionSize (opDdpg opt) = length (opParams opt)"
    "length (opCurrentVals opt) = length (opParams opt)" "rp_ok (ddReplay (opDdpg opt))"
    "\<And>t. t \<in> set (rp_items (ddReplay (opDdpg opt))) \<Longrightarrow> transition_shape (length (opParams opt)) t"
    by (simp_all add: opt_ok_def ddpg_ok_def list_all_iff)
  then have "transition_shape (length (opParams opt)) t" if "t \<in> set (rp_Sample r n (ddReplay (opDdpg opt)))" for t
    using that rp_Sample_held(2) [OF ok(4)] by blast
  with ok(1-3) show ?thesis by (auto simp: op_buildState_def transition_shape_def intro!: rows_exact)
qed

theorem Optimizer_types_witness:
  "\<exists>opt b. op_run (lineNets 10) tagLib (\<lambda>_. 0) (sampleOptimizer, lowBroker) [True] (opt, b) \<and>
     length (op_buildState (Snapshot (bmetrics b)) opt) = ddStateSize (opDdpg opt)"
proof -
  obtain opt b where r: "op_run (lineNets 10) tagLib (\<lambda>_. 0) (sampleOptimizer, lowBroker) [True] (opt, b)"
    using sample_tick [OF op_run.start] lowBroker_low by (metis append_Nil)
  from Optimizer_types [OF sampleOptimizer_New sampleOptimizer_config lowBroker_config(1) _ sampleOptimizer_laws(1) r, where m = "Snapshot (bmetrics b)"]
  have "length (op_buildState (Snapshot (bmetrics b)) opt) = ddStateSize (opDdpg opt)" using lineNets_pairs by auto
  with r show ?thesis by blast
qed

end
