(* ===== verification/Harness.thy ===== *)
theory Harness
  imports Http Client KafkaDriver
begin

text \<open>
  The harness of the experiments, \<^verbatim>\<open>experiments/harness.go\<close>: one interface for creating topics, publishing, consuming and reading metrics over
  the broker in the same process, the gRPC client, the HTTP client or Kafka. What the harness calls on the broker and its services is the record
  \<^verbatim>\<open>endpoints\<close>; \<^verbatim>\<open>broker_endpoints\<close> builds it from the models of broker, service and handlers. A panic is
  \<^verbatim>\<open>None\<close>.

  The lemmas show that the modes agree: every mode reports as many published messages as it was given or an error, and the HTTP and gRPC
  modes return the same messages.
\<close>

datatype harness_mode = ModeInProcess | ModeGRPC | ModeHTTP | ModeKafka

definition mode_String :: "harness_mode \<Rightarrow> string" where
  "mode_String m = (case m of ModeInProcess \<Rightarrow> ''inprocess'' | ModeGRPC \<Rightarrow> ''grpc'' | ModeHTTP \<Rightarrow> ''http'' | ModeKafka \<Rightarrow> ''kafka'')"

definition grpcMaxFetchBytes :: i32 where "grpcMaxFetchBytes = 1048576"

datatype harness_error =
    BrokerFailed err
  | ClientFailed client_error
  | HttpFailed http_error
  | DriverFailed driver_error
  | KafkaFailed kafka_error
  | ErrNoMessage

record 'st endpoints =
  epPublish :: "string \<Rightarrow> message \<Rightarrow> 'st \<Rightarrow> (err + nat \<times> u64) \<times> 'st"
  epPublishBatch :: "string \<Rightarrow> message list \<Rightarrow> 'st \<Rightarrow> (publish_result list \<times> 'st) option"
  epConsumeBatch :: "string \<Rightarrow> string \<Rightarrow> int \<Rightarrow> int \<Rightarrow> 'st \<Rightarrow> (message list \<times> u64 \<times> err option) \<times> 'st"
  epCreateTopic :: "string \<Rightarrow> topic_config \<Rightarrow> 'st \<Rightarrow> err option \<times> 'st"
  epDeleteTopic :: "string \<Rightarrow> 'st \<Rightarrow> err option \<times> 'st"
  epMetrics :: "'st \<Rightarrow> metrics"
  epProduceRpc :: "produce_request \<Rightarrow> 'st \<Rightarrow> (rpc_error + produce_response) \<times> 'st"
  epConsumeRpc :: "consume_request \<Rightarrow> 'st \<Rightarrow> (rpc_error + message_envelope list) \<times> 'st"
  epCreateRpc :: "create_topic_request \<Rightarrow> 'st \<Rightarrow> rpc_error option \<times> 'st"
  epDeleteRpc :: "string \<Rightarrow> 'st \<Rightarrow> rpc_error option \<times> 'st"
  epMetricsRpc :: "'st \<Rightarrow> rpc_error + metrics_response"
  epProduceHttp :: "string \<Rightarrow> http_record list \<Rightarrow> 'st \<Rightarrow> (http_response \<times> 'st) option"
  epConsumeHttp :: "string \<Rightarrow> string \<Rightarrow> string \<Rightarrow> string \<Rightarrow> 'st \<Rightarrow> (http_response \<times> 'st) option"
  epCreateHttp :: "http_create_topic \<Rightarrow> 'st \<Rightarrow> http_response \<times> 'st"
  epDeleteHttp :: "string \<Rightarrow> 'st \<Rightarrow> http_response \<times> 'st"
  epMetricsHttp :: "'st \<Rightarrow> http_response"

text \<open>The retries of the gRPC client end when the context is done; the clock stamps new messages.\<close>

record call_context =
  ccDone :: "nat \<Rightarrow> bool"
  ccNow :: i64

record ('wr, 'rd) harness =
  haMode :: harness_mode
  haHasApp :: bool
  haExternal :: bool
  haManagedTopic :: string
  haBrokerAddr :: string
  haHttpBrokerAddr :: string
  haKafka :: "('wr, 'rd) kafka_harness"
  haPartitionCounts :: "(int \<times> nat) list"

record ('st, 'k) world =
  woBroker :: 'st
  woKafka :: 'k

definition IsExternal :: "('wr, 'rd) harness \<Rightarrow> bool" where
  "IsExternal h \<longleftrightarrow> haExternal h \<or> haMode h = ModeKafka"

definition recordPartition :: "int \<Rightarrow> ('wr, 'rd) harness \<Rightarrow> ('wr, 'rd) harness" where
  "recordPartition p h =
     h\<lparr>haPartitionCounts := AList.update p (case map_of (haPartitionCounts h) p of Some n \<Rightarrow> n + 1 | None \<Rightarrow> 1) (haPartitionCounts h)\<rparr>"

definition SetManagedTopic :: "string \<Rightarrow> ('wr, 'rd) harness \<Rightarrow> ('wr, 'rd) harness" where
  "SetManagedTopic topic h = h\<lparr>haManagedTopic := topic\<rparr>"

subsection \<open>Topics\<close>

definition http_failed :: "http_error \<Rightarrow> harness_error" where
  "http_failed e = (if e = HttpTopicNotFound then BrokerFailed ErrTopicNotFound else HttpFailed e)"

definition ha_CreateTopic :: "'st endpoints \<Rightarrow> ('k, 'c, 'wr, 'rd) kafka_lib \<Rightarrow> string \<Rightarrow> topic_config \<Rightarrow>
    ('wr, 'rd) harness \<times> ('st, 'k) world \<Rightarrow> (harness_error option \<times> ('wr, 'rd) harness \<times> ('st, 'k) world) option" where
  "ha_CreateTopic ep L topic cfg hw =
     (case hw of (h, w) \<Rightarrow>
        let inproc = (case epCreateTopic ep topic cfg (woBroker w) of (e, st) \<Rightarrow> Some (map_option BrokerFailed e, h, w\<lparr>woBroker := st\<rparr>))
        in case haMode h of
             ModeInProcess \<Rightarrow> inproc
           | ModeGRPC \<Rightarrow>
               if haExternal h
               then (case clientCreateTopic (epCreateRpc ep) topic (word_of_int (cfgNumPartitions cfg)) (wire_mode (ScheduleMode cfg)) (woBroker w) of
                       (e, st) \<Rightarrow> Some (map_option ClientFailed e, h, w\<lparr>woBroker := st\<rparr>))
               else inproc
           | ModeHTTP \<Rightarrow>
               if haExternal h
               then (case httpCreateTopic (epCreateHttp ep) topic (word_of_int (cfgNumPartitions cfg)) (mode_name (ScheduleMode cfg)) (woBroker w) of
                       (e, st) \<Rightarrow> Some (map_option http_failed e, h, w\<lparr>woBroker := st\<rparr>))
               else inproc
           | ModeKafka \<Rightarrow>
               map_option (\<lambda>(e, k). (map_option DriverFailed e, h, w\<lparr>woKafka := k\<rparr>))
                 (kh_CreateTopic L topic (cfgNumPartitions cfg) (haKafka h) (woKafka w)))"

definition ha_DeleteTopic :: "'st endpoints \<Rightarrow> ('k, 'c, 'wr, 'rd) kafka_lib \<Rightarrow> string \<Rightarrow>
    ('wr, 'rd) harness \<times> ('st, 'k) world \<Rightarrow> (harness_error option \<times> ('wr, 'rd) harness \<times> ('st, 'k) world) option" where
  "ha_DeleteTopic ep L topic hw =
     (case hw of (h, w) \<Rightarrow>
        let inproc = (case epDeleteTopic ep topic (woBroker w) of (e, st) \<Rightarrow> Some (map_option BrokerFailed e, h, w\<lparr>woBroker := st\<rparr>))
        in case haMode h of
             ModeInProcess \<Rightarrow> inproc
           | ModeGRPC \<Rightarrow>
               if haExternal h
               then (case clientDeleteTopic (epDeleteRpc ep) topic (woBroker w) of
                       (e, st) \<Rightarrow> Some (map_option ClientFailed e, h, w\<lparr>woBroker := st\<rparr>))
               else inproc
           | ModeHTTP \<Rightarrow>
               if haExternal h
               then (case httpDeleteTopic (epDeleteHttp ep) topic (woBroker w) of
                       (e, st) \<Rightarrow> Some (map_option http_failed e, h, w\<lparr>woBroker := st\<rparr>))
               else inproc
           | ModeKafka \<Rightarrow>
               map_option (\<lambda>(e, kh, k). (map_option (\<lambda>d. if d = KafkaTopicNotFound then BrokerFailed ErrTopicNotFound else DriverFailed d) e,
                   h\<lparr>haKafka := kh\<rparr>, w\<lparr>woKafka := k\<rparr>))
                 (kh_DeleteTopic L topic (haKafka h) (woKafka w)))"

subsection \<open>Publishing\<close>

record batch_item =
  biKey :: bytes
  biValue :: bytes
  biPriority :: byte

definition ha_Publish :: "'st endpoints \<Rightarrow> ('k, 'c, 'wr, 'rd) kafka_lib \<Rightarrow> call_context \<Rightarrow> string \<Rightarrow> batch_item \<Rightarrow>
    ('wr, 'rd) harness \<times> ('st, 'k) world \<Rightarrow> harness_error option \<times> ('wr, 'rd) harness \<times> ('st, 'k) world" where
  "ha_Publish ep L cc topic it hw =
     (case hw of (h, w) \<Rightarrow>
        case haMode h of
          ModeInProcess \<Rightarrow>
            (case epPublish ep topic (NewMessage (ccNow cc) (biPriority it) (biKey it) (biValue it)) (woBroker w) of
               (Inl e, st) \<Rightarrow> (Some (BrokerFailed e), h, w\<lparr>woBroker := st\<rparr>)
             | (Inr _, st) \<Rightarrow> (None, h, w\<lparr>woBroker := st\<rparr>))
        | ModeGRPC \<Rightarrow>
            (case clientProduce (epProduceRpc ep) (ccDone cc) topic (biKey it) (biValue it) (ucast (biPriority it)) (woBroker w) of
               (Inl e, st) \<Rightarrow> (Some (ClientFailed e), h, w\<lparr>woBroker := st\<rparr>)
             | (Inr _, st) \<Rightarrow> (None, h, w\<lparr>woBroker := st\<rparr>))
        | ModeHTTP \<Rightarrow>
            (case httpProduce (epProduceHttp ep topic) (biKey it) (biValue it) (ucast (biPriority it)) (woBroker w) of
               (Inl e, st) \<Rightarrow> (Some (HttpFailed e), h, w\<lparr>woBroker := st\<rparr>)
             | (Inr _, st) \<Rightarrow> (None, h, w\<lparr>woBroker := st\<rparr>))
        | ModeKafka \<Rightarrow>
            (case kh_Produce L topic (biKey it) (biValue it) (haKafka h) (woKafka w) of
               (e, kh, k) \<Rightarrow> (map_option KafkaFailed e, h\<lparr>haKafka := kh\<rparr>, w\<lparr>woKafka := k\<rparr>)))"

definition ha_PublishBatch :: "'st endpoints \<Rightarrow> ('k, 'c, 'wr, 'rd) kafka_lib \<Rightarrow> call_context \<Rightarrow> string \<Rightarrow> batch_item list \<Rightarrow>
    ('wr, 'rd) harness \<times> ('st, 'k) world \<Rightarrow> ((nat \<times> harness_error option) \<times> ('wr, 'rd) harness \<times> ('st, 'k) world) option" where
  "ha_PublishBatch ep L cc topic items hw =
     (case hw of (h, w) \<Rightarrow>
        if items = [] then Some ((0, None), h, w)
        else case haMode h of
          ModeInProcess \<Rightarrow>
            (case epPublishBatch ep topic (map (\<lambda>it. NewMessage (ccNow cc) (biPriority it) (biKey it) (biValue it)) items) (woBroker w) of
               None \<Rightarrow> None
             | Some (results, st) \<Rightarrow>
                 (let oks = filter (\<lambda>r. rErr r = None) results
                  in Some ((length oks, map_option BrokerFailed (first_err results)),
                       fold (recordPartition \<circ> int \<circ> rPartition) oks h, w\<lparr>woBroker := st\<rparr>)))
        | ModeGRPC \<Rightarrow>
            (case clientProduceBatch (epProduceRpc ep) (ccDone cc) topic
                (map (\<lambda>it. \<lparr>pmKey = biKey it, pmValue = biValue it, pmPriority = ucast (biPriority it)\<rparr>) items) (woBroker w) of
               (Inl e, st) \<Rightarrow> Some ((0, Some (ClientFailed e)), h, w\<lparr>woBroker := st\<rparr>)
             | (Inr results, st) \<Rightarrow>
                 Some ((length results, None), fold (recordPartition \<circ> sint \<circ> resPartition) results h, w\<lparr>woBroker := st\<rparr>))
        | ModeHTTP \<Rightarrow>
            (case httpProduceBatch (epProduceHttp ep topic)
                (map (\<lambda>it. \<lparr>hrKey = biKey it, hrValue = biValue it, hrPriority = ucast (biPriority it)\<rparr>) items) (woBroker w) of
               (Inl e, st) \<Rightarrow> Some ((0, Some (HttpFailed e)), h, w\<lparr>woBroker := st\<rparr>)
             | (Inr results, st) \<Rightarrow>
                 Some ((length results, None), fold (recordPartition \<circ> hresPartition) results h, w\<lparr>woBroker := st\<rparr>))
        | ModeKafka \<Rightarrow>
            (case kh_ProduceBatch L topic (map (\<lambda>it. (biKey it, biValue it)) items) (haKafka h) (woKafka w) of
               (Some e, kh, k) \<Rightarrow> Some ((0, Some (KafkaFailed e)), h\<lparr>haKafka := kh\<rparr>, w\<lparr>woKafka := k\<rparr>)
             | (None, kh, k) \<Rightarrow> Some ((length items, None), h\<lparr>haKafka := kh\<rparr>, w\<lparr>woKafka := k\<rparr>)))"

subsection \<open>Consuming\<close>

record consumed_message =
  cmsgValue :: bytes
  cmsgOffset :: i64
  cmsgPriority :: byte
  cmsgProduceTime :: i64
  cmsgAppendTime :: i64

text \<open>An error that came over the wire is never the broker's own \<^const>\<open>ErrNoMessages\<close>, which the gRPC branch also tests for.\<close>

definition ha_ConsumeBatch :: "'st endpoints \<Rightarrow> ('k, 'c, 'wr, 'rd) kafka_lib \<Rightarrow> string \<Rightarrow> string \<Rightarrow> int \<Rightarrow>
    ('wr, 'rd) harness \<times> ('st, 'k) world \<Rightarrow> ((harness_error + consumed_message list) \<times> ('wr, 'rd) harness \<times> ('st, 'k) world) option" where
  "ha_ConsumeBatch ep L topic grp part hw =
     (case hw of (h, w) \<Rightarrow>
        case haMode h of
          ModeInProcess \<Rightarrow>
            (case epConsumeBatch ep topic grp part 16 (woBroker w) of
               ((msgs, _, Some e), st) \<Rightarrow> Some (Inl (if e = ErrNoMessages then ErrNoMessage else BrokerFailed e), h, w\<lparr>woBroker := st\<rparr>)
             | ((msgs, _, None), st) \<Rightarrow>
                 Some (Inr (map (\<lambda>m. \<lparr>cmsgValue = Value m, cmsgOffset = 0, cmsgPriority = Priority (Header m),
                         cmsgProduceTime = ProduceTime (Header m), cmsgAppendTime = AppendTime (Header m)\<rparr>) msgs), h, w\<lparr>woBroker := st\<rparr>))
        | ModeGRPC \<Rightarrow>
            (case clientConsume (epConsumeRpc ep) topic grp (word_of_int part) grpcMaxFetchBytes (woBroker w) of
               (Inl e, st) \<Rightarrow> Some (Inl (ClientFailed e), h, w\<lparr>woBroker := st\<rparr>)
             | (Inr envs, st) \<Rightarrow>
                 Some (if envs = [] then Inl ErrNoMessage
                       else Inr (map (\<lambda>e. \<lparr>cmsgValue = envValue e, cmsgOffset = envOffset e, cmsgPriority = ucast (envPriority e),
                              cmsgProduceTime = envProduceTime e, cmsgAppendTime = envAppendTime e\<rparr>) envs), h, w\<lparr>woBroker := st\<rparr>))
        | ModeHTTP \<Rightarrow>
            (case httpConsume (epConsumeHttp ep) topic grp (word_of_int part) grpcMaxFetchBytes (woBroker w) of
               None \<Rightarrow> None
             | Some (Inl e, st) \<Rightarrow> Some (Inl (HttpFailed e), h, w\<lparr>woBroker := st\<rparr>)
             | Some (Inr envs, st) \<Rightarrow>
                 Some (if envs = [] then Inl ErrNoMessage
                       else Inr (map (\<lambda>e. \<lparr>cmsgValue = heValue e, cmsgOffset = heOffset e, cmsgPriority = ucast (hePriority e),
                              cmsgProduceTime = heProduceTime e, cmsgAppendTime = heAppendTime e\<rparr>) envs), h, w\<lparr>woBroker := st\<rparr>))
        | ModeKafka \<Rightarrow>
            (case kh_Consume L topic grp part (sint grpcMaxFetchBytes) (haKafka h) (woKafka w) of
               (Inl e, kh, k) \<Rightarrow> Some (Inl (KafkaFailed e), h\<lparr>haKafka := kh\<rparr>, w\<lparr>woKafka := k\<rparr>)
             | (Inr msgs, kh, k) \<Rightarrow>
                 Some (case msgs of
                         [] \<Rightarrow> Inl ErrNoMessage
                       | m # _ \<Rightarrow> Inr [\<lparr>cmsgValue = kmValue m, cmsgOffset = kmOffset m, cmsgPriority = 0, cmsgProduceTime = 0, cmsgAppendTime = 0\<rparr>],
                       h\<lparr>haKafka := kh\<rparr>, w\<lparr>woKafka := k\<rparr>)))"

subsection \<open>Metrics\<close>

text \<open>The deviation of the publish counts relative to their mean; the map is read in some order.\<close>

definition publishStdDev :: "((int \<times> nat) list \<Rightarrow> (int \<times> nat) list) \<Rightarrow> ('wr, 'rd) harness \<Rightarrow> f64 \<times> bool" where
  "publishStdDev order h =
     (let counts = map (\<lambda>(_, n). f_int (int n)) (order (haPartitionCounts h)); len = f_int (int (length counts))
      in if length counts < 2 then (Fin 0, False)
         else let mean = fdiv (fsum counts) len
              in if feq mean (Fin 0) then (Fin 0, False)
                 else let variance = fdiv (foldl (\<lambda>v c. fadd v (fmul (fsub c mean) (fsub c mean))) (Fin 0) counts) len
                      in (fdiv (fsqrt variance) mean, True))"

record metrics_snapshot =
  msPartitionLoads :: "f64 list"
  msQueueDepth :: "int list"
  msLoadStdDev :: f64
  msHasStdDev :: bool

definition emptySnapshot :: metrics_snapshot where
  "emptySnapshot = \<lparr>msPartitionLoads = [], msQueueDepth = [], msLoadStdDev = Fin 0, msHasStdDev = False\<rparr>"

definition GetMetricsSnapshot :: "'st endpoints \<Rightarrow> ((int \<times> nat) list \<Rightarrow> (int \<times> nat) list) \<Rightarrow>
    ('wr, 'rd) harness \<times> ('st, 'k) world \<Rightarrow> harness_error + metrics_snapshot" where
  "GetMetricsSnapshot ep order hw =
     (case hw of (h, w) \<Rightarrow>
        let with_stddev = (\<lambda>snap. case publishStdDev order h of (sd, ok) \<Rightarrow> if ok then snap\<lparr>msLoadStdDev := sd, msHasStdDev := True\<rparr> else snap)
        in case haMode h of
          ModeInProcess \<Rightarrow>
            if haHasApp h
            then (let m = derived (epMetrics ep (woBroker w))
                  in Inr \<lparr>msPartitionLoads = PartitionLoads m, msQueueDepth = mQueueDepth m, msLoadStdDev = LoadStdDev m,
                          msHasStdDev = flt (Fin 0) (LoadStdDev m)\<rparr>)
            else Inr emptySnapshot
        | ModeGRPC \<Rightarrow>
            (case epMetricsRpc ep (woBroker w) of
               Inl e \<Rightarrow> Inl (ClientFailed (CallFailed e))
             | Inr resp \<Rightarrow> Inr (with_stddev (emptySnapshot\<lparr>msPartitionLoads := mrPartitionLoads resp, msQueueDepth := map sint (mrQueueDepth resp)\<rparr>)))
        | ModeHTTP \<Rightarrow>
            (case epMetricsHttp ep (woBroker w) of
               (code, body) \<Rightarrow>
                 if code \<noteq> StatusOK then Inl (HttpFailed (readHTTPError (code, body)))
                 else (case body of
                         MetricsBody m \<Rightarrow> Inr (with_stddev (emptySnapshot\<lparr>msPartitionLoads := PartitionLoads (derived m)\<rparr>))
                       | _ \<Rightarrow> Inl (HttpFailed HttpBadBody)))
        | ModeKafka \<Rightarrow> Inr emptySnapshot)"

definition GetPartitionLoads :: "'st endpoints \<Rightarrow> ((int \<times> nat) list \<Rightarrow> (int \<times> nat) list) \<Rightarrow>
    ('wr, 'rd) harness \<times> ('st, 'k) world \<Rightarrow> harness_error + f64 list" where
  "GetPartitionLoads ep order hw = map_sum id msPartitionLoads (GetMetricsSnapshot ep order hw)"

subsection \<open>Waiting, reconnecting and closing\<close>

text \<open>
  Waiting for a service: turn \<open>i\<close> probes it and then sleeps for 100 ms unless the deadline has passed or the context is done,
  which \<open>late i\<close> and \<open>ctxDone i\<close> report.
\<close>

datatype wait_result = Ready | DeadlinePassed | ContextCancelled

partial_function (option) waitForReady :: "(nat \<Rightarrow> bool) \<Rightarrow> (nat \<Rightarrow> bool) \<Rightarrow> (nat \<Rightarrow> bool) \<Rightarrow> nat \<Rightarrow> wait_result option" where
  "waitForReady probe late ctxDone i =
     (if probe i then Some Ready
      else if late i then Some DeadlinePassed
      else if ctxDone i then Some ContextCancelled
      else waitForReady probe late ctxDone (i + 1))"

definition reconnectMaxAttempts :: nat where "reconnectMaxAttempts = 3"

text \<open>Attempt \<open>i\<close> dials and waits; \<open>connect i\<close> is whether both succeed. The result has the total delay slept.\<close>

fun reconnect_loop :: "(nat \<Rightarrow> bool) \<Rightarrow> nat \<Rightarrow> nat \<Rightarrow> int \<Rightarrow> int \<Rightarrow> bool \<times> int" where
  "reconnect_loop connect i 0 delay slept = (False, slept)"
| "reconnect_loop connect i (Suc n) delay slept =
     (if connect i then (True, slept) else reconnect_loop connect (i + 1) n (delay * 2) (slept + delay))"

definition reconnectGRPC :: "(nat \<Rightarrow> bool) \<Rightarrow> ('wr, 'rd) harness \<Rightarrow> bool \<times> int" where
  "reconnectGRPC connect h =
     (if haBrokerAddr h = [] then (False, 0) else reconnect_loop connect 1 reconnectMaxAttempts (500 * millisecond) 0)"

definition reconnectHTTP :: "(nat \<Rightarrow> bool) \<Rightarrow> ('wr, 'rd) harness \<Rightarrow> bool \<times> int" where
  "reconnectHTTP connect h =
     (let addr = (if haHttpBrokerAddr h = [] then haBrokerAddr h else haHttpBrokerAddr h)
      in if addr = [] then (False, 0) else reconnect_loop connect 1 reconnectMaxAttempts (500 * millisecond) 0)"

definition ha_Close :: "'st endpoints \<Rightarrow> ('k, 'c, 'wr, 'rd) kafka_lib \<Rightarrow> ('st \<Rightarrow> 'st) \<Rightarrow> ('wr, 'rd) harness \<times> ('st, 'k) world \<Rightarrow>
    (('wr, 'rd) harness \<times> ('st, 'k) world) option" where
  "ha_Close ep L stop hw =
     (case (if haManagedTopic (fst hw) \<noteq> [] then map_option (\<lambda>(_, h, w). (h\<lparr>haManagedTopic := []\<rparr>, w)) (ha_DeleteTopic ep L (haManagedTopic (fst hw)) hw)
            else Some hw) of
        None \<Rightarrow> None
      | Some (h, w) \<Rightarrow>
          (let w1 = (if haHasApp h then w\<lparr>woBroker := stop (woBroker w)\<rparr> else w)
           in Some (h, if haMode h = ModeKafka then w1\<lparr>woKafka := kh_Close L (haKafka h) (woKafka w1)\<rparr> else w1)))"

subsection \<open>The broker behind the harness\<close>

text \<open>A fetch that does not end never answers; it is counted as a failed call.\<close>

definition broker_endpoints :: "'w wal_ops \<Rightarrow> 'd kv_ops \<Rightarrow> 'b balancer_ops \<Rightarrow> ('w, 's) sched_ops \<Rightarrow>
    (string \<times> string \<times> int \<Rightarrow> bool \<Rightarrow> err + 'w) \<Rightarrow> pub_io \<Rightarrow> (nat \<Rightarrow> err option) \<Rightarrow> (groups \<Rightarrow> groups) \<Rightarrow> env \<Rightarrow> i64 \<Rightarrow> nat \<Rightarrow>
    (('w, 'd, 'b, 's) broker \<Rightarrow> ('w, 'd, 'b, 's) broker) list \<Rightarrow> err option \<Rightarrow> ('w, 'd, 'b, 's) broker endpoints" where
  "broker_endpoints W K B S walOpen io acquire order env now fuel polls removeErr =
     \<lparr>epPublish = Publish W B io, epPublishBatch = PublishBatch W B io acquire order, epConsumeBatch = ConsumeBatch S K env,
      epCreateTopic = CreateTopic W walOpen, epDeleteTopic = DeleteTopic W K removeErr, epMetrics = \<lambda>b. Snapshot (bmetrics b),
      epProduceRpc = Produce W B io acquire order now,
      epConsumeRpc = \<lambda>req b. (case serverConsume S K env fuel polls req b of
                               None \<Rightarrow> (Inl Panicked, b) | Some (r, b') \<Rightarrow> (map_sum mapBrokerError id r, b')),
      epCreateRpc = serverCreateTopic W walOpen, epDeleteRpc = serverDeleteTopic W K removeErr, epMetricsRpc = \<lambda>b. Inr (serverGetMetrics b),
      epProduceHttp = \<lambda>topic records. handleProduce W B io acquire order now topic (Inr records),
      epConsumeHttp = handleConsume S K env fuel polls, epCreateHttp = \<lambda>req. handleCreateTopic W walOpen (Inr req),
      epDeleteHttp = handleDeleteTopic W K removeErr, epMetricsHttp = handleMetrics\<rparr>"

lemma length_set_results [simp]: "length (set_results r idxs res) = length res"
proof -
  have "length (foldl (\<lambda>rs (j, i). rs[i := f rs j i]) res xs) = length res" for xs :: "(nat \<times> nat) list" and f
    by (induction xs arbitrary: res) auto
  then show ?thesis unfolding set_results_def by simp
qed

lemma length_assign: "length (fst (foldl (assign_one B env now name n cfg) st xs)) = length (fst st)"
proof (induction xs arbitrary: st)
  case (Cons x xs)
  have "length (fst (assign_one B env now name n cfg st x)) = length (fst st)"
    by (simp add: assign_one_def Let_def split: prod.splits)
  then show ?case using Cons by simp
qed simp

lemma length_appendPartitionBatch [simp]: "length (fst (appendPartitionBatch W B io name g rb)) = length (fst rb)"
  by (simp add: appendPartitionBatch_def Let_def split: prod.splits option.splits sum.splits)

lemma length_gated [simp]: "length (fst (gated W B io acquire name g rb)) = length (fst rb)"
  by (simp add: gated_def split: option.splits)

lemma length_fold_results:
  "(\<And>x rb. length (fst (g x rb)) = length (fst rb)) \<Longrightarrow> length (fst (fold g xs rb)) = length (fst rb)"
  by (induction xs arbitrary: rb) simp_all

lemma PublishBatch_length:
  assumes "PublishBatch W B io acquire order name msgs b = Some (rs, b')"
  shows "length rs = length msgs"
proof -
  show ?thesis
  proof (cases "map_of (topics b) name")
    case (Some t)
    show ?thesis
    proof (cases "rtBalancer b")
      case None
      then show ?thesis using assms Some by (auto simp: PublishBatch_def Let_def split: if_splits)
    next
      case (Some bl)
      obtain res gs bl1 bpo where a: "foldl (assign_one B (ienv io) (produceNs io) name (nat (NumPartitions t)) (snapCfg b))
          (replicate (length msgs) \<lparr>rPartition = 0, rOffset = 0, rErr = None\<rparr>, [], bl, rtBackpressure b) (enumerate 0 msgs) = (res, gs, bl1, bpo)"
        by (metis prod_cases4)
      have res: "length res = length msgs"
        using length_assign [of B "ienv io" "produceNs io" name "nat (NumPartitions t)" "snapCfg b"
            "(replicate (length msgs) \<lparr>rPartition = 0, rOffset = 0, rErr = None\<rparr>, [], bl, rtBackpressure b)" "enumerate 0 msgs"]
        by (simp add: a)
      let ?b1 = "b\<lparr>rtBalancer := Some bl1, rtBackpressure := bpo\<rparr>"
      define out where "out = (if length gs = 1 then fold (appendPartitionBatch W B io name) gs (res, ?b1)
          else fold (gated W B io acquire name) (order gs) (res, ?b1))"
      have "PublishBatch W B io acquire order name msgs b = Some out"
        using \<open>map_of (topics b) name = Some t\<close> Some by (simp add: PublishBatch_def Let_def a out_def del: fold_simps)
      then have rs: "rs = fst out" using assms by auto
      show ?thesis
      proof (cases "length gs = 1")
        case True
        then show ?thesis using res length_fold_results [of "appendPartitionBatch W B io name" gs "(res, ?b1)"] by (simp add: rs out_def)
      next
        case False
        then show ?thesis using res length_fold_results [of "gated W B io acquire name" "order gs" "(res, ?b1)"] by (simp add: rs out_def)
      qed
    qed
  qed (use assms in \<open>auto simp: PublishBatch_def\<close>)
qed

lemma first_err_None: "first_err rs = None \<longleftrightarrow> (\<forall>r\<in>set rs. rErr r = None)"
  by (induction rs) (auto split: option.splits)

lemma http_results_length: "http_results rs = Inr hs \<Longrightarrow> length hs = length rs"
  by (induction rs arbitrary: hs) (auto split: option.splits sum.splits)

lemma produce_attempts_result:
  assumes "produce_attempts call done_at req n lastErr st = (Inr resp, st')"
  shows "\<exists>s1 s2. call req s1 = (Inr resp, s2)"
  using assms by (induction n arbitrary: lastErr st) (auto split: sum.splits prod.splits if_splits)

lemma Produce_results_length:
  assumes "Produce W B io acquire order now req b = (Inr resp, b')" and "prMessages req \<noteq> []"
  shows "length (respResults resp) = length (prMessages req)"
proof -
  let ?msgs = "map (\<lambda>m. wire_message now (pmKey m) (pmValue m) (pmPriority m)) (prMessages req)"
  obtain results b1 where r: "PublishBatch W B io acquire order (prTopic req) ?msgs b = Some (results, b1)"
    using assms by (auto simp: Produce_def produceBatch_def Let_def split: option.splits)
  then have "respResults resp = map wire_result results"
    using assms by (auto simp: Produce_def produceBatch_def Let_def split: option.splits if_splits)
  then show ?thesis using PublishBatch_length [OF r] by simp
qed

lemma clientProduceBatch_length:
  fixes b :: "('w, 'd, 'b, 's) broker"
  assumes "clientProduceBatch (Produce W B io acquire order now) ctxDone topic msgs b = (Inr results, b')" and "msgs \<noteq> []"
  shows "length results = length msgs"
proof -
  let ?req = "\<lparr>prTopic = topic, prKey = [], prValue = [], prPriority = 0, prMessages = msgs\<rparr>"
  obtain r0 b0 where a: "produce_attempts (Produce W B io acquire order now) ctxDone ?req produceMaxRetries None b = (r0, b0)" by fastforce
  then obtain resp where r0: "r0 = Inr resp" "respResults resp = results" using assms(1) by (cases r0) (auto simp: clientProduceBatch_def)
  obtain s1 s2 :: "('w, 'd, 'b, 's) broker" where "Produce W B io acquire order now ?req s1 = (Inr resp, s2)"
    using produce_attempts_result [OF a [unfolded r0(1)]] by blast
  then show ?thesis using Produce_results_length [of W B io acquire order now ?req s1 resp s2] assms(2) r0(2) by simp
qed

lemma handleProduce_results_length:
  assumes "handleProduce W B io acquire order now topic (Inr records) b = Some ((StatusOK, Results hs), b')"
  shows "length hs = length records"
proof -
  let ?msgs = "map (\<lambda>r. \<lparr>Header = \<lparr>Priority = ucast (hrPriority r), Timestamp = now, ProduceTime = 0, AppendTime = 0\<rparr>,
      Key = hrKey r, Value = hrValue r, BatchDecoded = False\<rparr>) records"
  obtain results b1 where r: "PublishBatch W B io acquire order topic ?msgs b = Some (results, b1)"
    using assms by (auto simp: handleProduce_def Let_def split: option.splits)
  then have "http_results results = Inr hs" using assms by (auto simp: handleProduce_def Let_def split: sum.splits)
  then show ?thesis using PublishBatch_length [OF r] http_results_length by fastforce
qed

lemma ha_PublishBatch_complete:
  assumes ep: "ep = broker_endpoints W K B S walOpen io acquire order env now fuel polls removeErr"
    and r: "ha_PublishBatch ep L cc topic items (h, w) = Some ((n, e), h', w')"
  shows "n \<le> length items \<and> (n < length items \<longrightarrow> e \<noteq> None)"
proof (cases "items = []")
  case False
  show ?thesis
  proof (cases "haMode h")
    case ModeInProcess
    let ?msgs = "map (\<lambda>it. NewMessage (ccNow cc) (biPriority it) (biKey it) (biValue it)) items"
    obtain results st where p: "PublishBatch W B io acquire order topic ?msgs (woBroker w) = Some (results, st)"
      and n: "n = length (filter (\<lambda>r. rErr r = None) results)" "e = map_option BrokerFailed (first_err results)"
      using r False ModeInProcess by (auto simp: ha_PublishBatch_def ep broker_endpoints_def Let_def split: option.splits)
    have "length results = length items" using PublishBatch_length [OF p] by simp
    moreover have "n < length results \<Longrightarrow> first_err results \<noteq> None"
      using n(1) filter_True [of results "\<lambda>r. rErr r = None"] by (metis first_err_None less_irrefl)
    ultimately show ?thesis using n length_filter_le [of "\<lambda>r. rErr r = None" results] by auto
  next
    case ModeGRPC
    let ?msgs = "map (\<lambda>it. \<lparr>pmKey = biKey it, pmValue = biValue it, pmPriority = ucast (biPriority it)\<rparr>) items"
    obtain res st where c: "clientProduceBatch (Produce W B io acquire order now) (ccDone cc) topic ?msgs (woBroker w) = (res, st)" by fastforce
    show ?thesis
    proof (cases res)
      case (Inr results)
      have "length results = length items" using clientProduceBatch_length [of W B io acquire order now "ccDone cc" topic ?msgs] c Inr False by auto
      then show ?thesis using r False ModeGRPC c Inr by (auto simp: ha_PublishBatch_def ep broker_endpoints_def)
    qed (use r False ModeGRPC c in \<open>auto simp: ha_PublishBatch_def ep broker_endpoints_def\<close>)
  next
    case ModeHTTP
    let ?recs = "map (\<lambda>it. \<lparr>hrKey = biKey it, hrValue = biValue it, hrPriority = ucast (biPriority it)\<rparr>) items"
    obtain res st where c: "httpProduceBatch (\<lambda>records. handleProduce W B io acquire order now topic (Inr records)) ?recs (woBroker w) = (res, st)" by fastforce
    show ?thesis
    proof (cases res)
      case (Inr results)
      then have "handleProduce W B io acquire order now topic (Inr ?recs) (woBroker w) = Some ((StatusOK, Results results), st)"
        using c by (auto simp: httpProduceBatch_def split: option.splits if_splits http_body.splits)
      then have "length results = length items" using handleProduce_results_length by fastforce
      then show ?thesis using r False ModeHTTP c Inr by (auto simp: ha_PublishBatch_def ep broker_endpoints_def)
    qed (use r False ModeHTTP c in \<open>auto simp: ha_PublishBatch_def ep broker_endpoints_def\<close>)
  next
    case ModeKafka
    then show ?thesis using r False by (auto simp: ha_PublishBatch_def split: prod.splits option.splits)
  qed
qed (use r in \<open>simp add: ha_PublishBatch_def\<close>)

text \<open>The two remote modes consume the same messages from the same state of the broker.\<close>

lemma http_of_consumed:
  "\<lparr>cmsgValue = heValue (http_of e), cmsgOffset = heOffset (http_of e), cmsgPriority = ucast (hePriority (http_of e)),
    cmsgProduceTime = heProduceTime (http_of e), cmsgAppendTime = heAppendTime (http_of e)\<rparr> =
   \<lparr>cmsgValue = envValue e, cmsgOffset = envOffset e, cmsgPriority = ucast (envPriority e),
    cmsgProduceTime = envProduceTime e, cmsgAppendTime = envAppendTime e\<rparr>"
  by (simp add: http_of_def)

lemma ha_ConsumeBatch_remote:
  assumes ep: "ep = broker_endpoints W K B S walOpen io acquire order env now fuel polls removeErr" and "haMode h = ModeGRPC"
    and "ha_ConsumeBatch ep L topic grp part (h, w) = Some (Inr msgs, h', w')"
  shows "\<exists>h''. ha_ConsumeBatch ep L topic grp part (h\<lparr>haMode := ModeHTTP\<rparr>, w) = Some (Inr msgs, h'', w')"
proof -
  let ?req = "\<lparr>crTopic = topic, crGroup = grp, crPartition = word_of_int part, crMaxBytes = grpcMaxFetchBytes\<rparr>"
  obtain r st where c: "clientConsume (epConsumeRpc ep) topic grp (word_of_int part) grpcMaxFetchBytes (woBroker w) = (r, st)" by fastforce
  obtain envs where e: "r = Inr envs" "envs \<noteq> []" "w' = w\<lparr>woBroker := st\<rparr>"
    "msgs = map (\<lambda>e. \<lparr>cmsgValue = envValue e, cmsgOffset = envOffset e, cmsgPriority = ucast (envPriority e),
              cmsgProduceTime = envProduceTime e, cmsgAppendTime = envAppendTime e\<rparr>) envs"
    using assms(2,3) c by (cases r) (auto simp: ha_ConsumeBatch_def split: if_splits)
  obtain r' st' where s': "serverConsume S K env fuel polls ?req (woBroker w) = Some (r', st')"
    using c e(1) by (cases "serverConsume S K env fuel polls ?req (woBroker w)") (auto simp: ep broker_endpoints_def clientConsume_def)
  then have s: "serverConsume S K env fuel polls ?req (woBroker w) = Some (Inr envs, st)"
    using c e(1) by (cases r') (auto simp: ep broker_endpoints_def clientConsume_def)
  have "httpConsume (handleConsume S K env fuel polls) topic grp (word_of_int part) grpcMaxFetchBytes (woBroker w) = Some (Inr (map http_of envs), st)"
    unfolding httpConsume_serverConsume s by simp
  then show ?thesis using e by (simp add: ha_ConsumeBatch_def ep broker_endpoints_def comp_def http_of_consumed)
qed

subsection \<open>Waiting and reconnecting end\<close>

lemma waitForReady_terminates:
  assumes "late n"
  shows "\<exists>r. waitForReady probe late ctxDone 0 = Some r"
proof -
  have "\<exists>r. waitForReady probe late ctxDone i = Some r" if "i \<le> n" for i
    using that
  proof (induction rule: inc_induct)
    case base
    then show ?case using assms by (subst waitForReady.simps) simp
  next
    case (step i)
    then show ?case by (subst waitForReady.simps) simp
  qed
  then show ?thesis by simp
qed

lemma reconnect_loop_spec:
  "fst (reconnect_loop connect i n delay slept) \<longleftrightarrow> (\<exists>j < n. connect (i + j))"
proof (induction n arbitrary: i delay slept)
  case (Suc n)
  have "(\<exists>j < Suc n. connect (i + j)) \<longleftrightarrow> connect i \<or> (\<exists>j < n. connect (Suc i + j))"
    by (simp add: less_Suc_eq_0_disj ex_disj_distrib conj_disj_distribR) auto
  then show ?case using Suc by simp
qed simp

lemma reconnect_loop_delay: "0 \<le> delay \<Longrightarrow> snd (reconnect_loop connect i n delay slept) \<le> slept + delay * (2 ^ n - 1)"
proof (induction n arbitrary: i delay slept)
  case (Suc n)
  have "0 \<le> delay * (2 ^ Suc n - 1)" using Suc.prems by simp
  moreover have "slept + delay + delay * 2 * (2 ^ n - 1) = slept + delay * (2 ^ Suc n - 1)" by (simp add: algebra_simps)
  ultimately show ?case using Suc.IH [of "delay * 2" "i + 1" "slept + delay"] Suc.prems by simp
qed simp

lemma reconnectGRPC_delay: "snd (reconnectGRPC connect h) \<le> 3500 * millisecond"
  using reconnect_loop_delay [of "500 * millisecond" connect 1 3 0]
  by (simp add: reconnectGRPC_def reconnectMaxAttempts_def millisecond_def)

end
