(* ===== verification/ExpCollector.thy ===== *)
theory ExpCollector
  imports Preprocessing
begin

text \<open>
  The collector of an experiment run, \<^verbatim>\<open>experiments/collector.go\<close>: the reservoir of latencies kept for every priority, the
  sharded latency histograms, the counters and the result of a run. The histograms of the hdrhistogram library
  are the record \<^verbatim>\<open>hist_ops\<close>, mean and deviation of gonum are arguments, and so are random draws and the current time.
  Durations are numbers of nanoseconds.

  The lemmas show that the collector never leaves the bounds of its arrays, that its counters and reservoirs account for every
  recorded event, and that every observation is equally likely to be in the reservoir.
\<close>

subsection \<open>Reservoirs\<close>

definition maxPrioritySamples :: nat where "maxPrioritySamples = 10000"

record priority_sampler =
  psSamples :: "int list"
  psTotal :: nat

definition emptySampler :: priority_sampler where
  "emptySampler = \<lparr>psSamples = [], psTotal = 0\<rparr>"

definition ps_record :: "(nat \<Rightarrow> nat) \<Rightarrow> int \<Rightarrow> priority_sampler \<Rightarrow> priority_sampler option" where
  "ps_record draw d s =
     (let n = psTotal s + 1; s1 = s\<lparr>psTotal := n\<rparr>
      in if n \<le> maxPrioritySamples then Some (s1\<lparr>psSamples := psSamples s @ [d]\<rparr>)
         else let j = draw n
              in if j < maxPrioritySamples
                 then if j < length (psSamples s) then Some (s1\<lparr>psSamples := (psSamples s)[j := d]\<rparr>) else None
                 else Some s1)"

definition percentile :: "(f64 \<Rightarrow> int) \<Rightarrow> f64 list \<Rightarrow> f64 \<Rightarrow> f64 option" where
  "percentile oob xs p =
     (let n = length xs
      in if n = 0 then Some (Fin 0)
         else if n = 1 \<or> fle p (Fin 0) then Some (xs ! 0)
         else if fle (Fin 1) p then Some (xs ! (n - 1))
         else let pos = fmul p (f_int (int n - 1)); i = f_to_int oob pos; frac = fsub pos (f_int i)
              in if 0 \<le> i \<and> i + 1 < int n
                 then Some (fadd (fmul (xs ! nat i) (fsub (Fin 1) frac)) (fmul (xs ! nat (i + 1)) frac))
                 else None)"

record priority_stats =
  stP50 :: int
  stP99 :: int
  stCount :: nat

text \<open>The conversion to binary64 is monotone, so sorting the durations first is sorting the numbers.\<close>

definition ps_snapshot :: "(f64 \<Rightarrow> int) \<Rightarrow> priority_sampler \<Rightarrow> priority_stats option" where
  "ps_snapshot oob s =
     (if psSamples s = [] then Some \<lparr>stP50 = 0, stP99 = 0, stCount = psTotal s\<rparr>
      else let xs = map f_int (sort (psSamples s))
           in case (percentile oob xs (f_const (1 / 2)), percentile oob xs (f_const (99 / 100))) of
                (Some a, Some b) \<Rightarrow> Some \<lparr>stP50 = f_to_int oob a, stP99 = f_to_int oob b, stCount = psTotal s\<rparr>
              | _ \<Rightarrow> None)"

subsection \<open>The collector\<close>

text \<open>A value out of the range of a histogram is not recorded; the code drops the error.\<close>

record 'h hist_ops =
  hNew :: "int \<Rightarrow> int \<Rightarrow> int \<Rightarrow> 'h"
  hRecordValue :: "'h \<Rightarrow> int \<Rightarrow> 'h"
  hReset :: "'h \<Rightarrow> 'h"
  hMerge :: "'h \<Rightarrow> 'h \<Rightarrow> 'h"
  hTotalCount :: "'h \<Rightarrow> int"
  hValueAtQuantile :: "'h \<Rightarrow> int \<Rightarrow> int"

definition defaultNumShards :: nat where "defaultNumShards = 16"

definition newHistogram :: "'h hist_ops \<Rightarrow> 'h" where
  "newHistogram H = hNew H 1 30000000 4"

record 'h exp_collector =
  xcShards :: "'h list"
  xcLoadStddevs :: "f64 list"
  xcByPriority :: "priority_sampler list"
  xcEnqueueToFlush :: 'h
  xcFlushToAppend :: 'h
  xcAppendToConsume :: 'h
  xcProduced :: nat
  xcConsumed :: nat
  xcPublishErrors :: nat
  xcPublishThrottled :: nat
  xcConsumeErrors :: nat
  xcStartTime :: gotime
  xcEndTime :: gotime

definition NewExpCollector :: "'h hist_ops \<Rightarrow> 'h exp_collector" where
  "NewExpCollector H =
     \<lparr>xcShards = replicate defaultNumShards (newHistogram H), xcLoadStddevs = [], xcByPriority = replicate 10 emptySampler,
      xcEnqueueToFlush = newHistogram H, xcFlushToAppend = newHistogram H, xcAppendToConsume = newHistogram H,
      xcProduced = 0, xcConsumed = 0, xcPublishErrors = 0, xcPublishThrottled = 0, xcConsumeErrors = 0,
      xcStartTime = 0, xcEndTime = 0\<rparr>"

definition xc_Start :: "gotime \<Rightarrow> 'h exp_collector \<Rightarrow> 'h exp_collector" where
  "xc_Start now c = c\<lparr>xcStartTime := now\<rparr>"

definition xc_Stop :: "gotime \<Rightarrow> 'h exp_collector \<Rightarrow> 'h exp_collector" where
  "xc_Stop now c = c\<lparr>xcEndTime := now\<rparr>"

definition xc_Reset :: "'h hist_ops \<Rightarrow> 'h exp_collector \<Rightarrow> 'h exp_collector" where
  "xc_Reset H c =
     c\<lparr>xcShards := map (hReset H) (xcShards c), xcByPriority := map (\<lambda>s. s\<lparr>psSamples := [], psTotal := 0\<rparr>) (xcByPriority c),
       xcEnqueueToFlush := hReset H (xcEnqueueToFlush c), xcFlushToAppend := hReset H (xcFlushToAppend c),
       xcAppendToConsume := hReset H (xcAppendToConsume c), xcLoadStddevs := []\<rparr>"

definition xc_RecordProduce :: "'h exp_collector \<Rightarrow> 'h exp_collector" where
  "xc_RecordProduce c = c\<lparr>xcProduced := xcProduced c + 1\<rparr>"

text \<open>Integer division of Go truncates towards zero.\<close>

definition micros :: "int \<Rightarrow> int" where
  "micros d = (let us = trunc (of_int d / 1000) in if us < 1 then 1 else us)"

definition xc_RecordConsumeWithPriority :: "'h hist_ops \<Rightarrow> (nat \<Rightarrow> nat) \<Rightarrow> byte \<Rightarrow> int \<Rightarrow> 'h exp_collector \<Rightarrow> 'h exp_collector option" where
  "xc_RecordConsumeWithPriority H draw priority latency c =
     (let k = unat priority mod length (xcShards c);
          c1 = c\<lparr>xcConsumed := xcConsumed c + 1, xcShards := (xcShards c)[k := hRecordValue H (xcShards c ! k) (micros latency)]\<rparr>
      in if xcShards c = [] then None
         else if unat priority < length (xcByPriority c)
         then map_option (\<lambda>s. c1\<lparr>xcByPriority := (xcByPriority c)[unat priority := s]\<rparr>)
                (ps_record draw latency (xcByPriority c ! unat priority))
         else Some c1)"

definition xc_RecordConsume :: "'h hist_ops \<Rightarrow> (nat \<Rightarrow> nat) \<Rightarrow> int \<Rightarrow> 'h exp_collector \<Rightarrow> 'h exp_collector option" where
  "xc_RecordConsume H draw latency c = xc_RecordConsumeWithPriority H draw 0 latency c"

definition xc_RecordConsumeMultiStage :: "'h hist_ops \<Rightarrow> gotime \<Rightarrow> int \<Rightarrow> int \<Rightarrow> int \<Rightarrow> 'h exp_collector \<Rightarrow> 'h exp_collector" where
  "xc_RecordConsumeMultiStage H now enqueueTime produceTime appendTime c =
     (if produceTime > 0 \<and> appendTime > 0
      then c\<lparr>xcEnqueueToFlush := (if produceTime > enqueueTime then hRecordValue H (xcEnqueueToFlush c) (micros (produceTime - enqueueTime))
                                  else xcEnqueueToFlush c),
             xcFlushToAppend := (if appendTime > produceTime then hRecordValue H (xcFlushToAppend c) (micros (appendTime - produceTime))
                                 else xcFlushToAppend c),
             xcAppendToConsume := (if now > appendTime then hRecordValue H (xcAppendToConsume c) (micros (now - appendTime))
                                   else xcAppendToConsume c)\<rparr>
      else c)"

definition xc_RecordPublishError :: "'h exp_collector \<Rightarrow> 'h exp_collector" where
  "xc_RecordPublishError c = c\<lparr>xcPublishErrors := xcPublishErrors c + 1\<rparr>"

definition xc_RecordPublishThrottled :: "'h exp_collector \<Rightarrow> 'h exp_collector" where
  "xc_RecordPublishThrottled c = c\<lparr>xcPublishThrottled := xcPublishThrottled c + 1\<rparr>"

definition xc_RecordConsumeError :: "'h exp_collector \<Rightarrow> 'h exp_collector" where
  "xc_RecordConsumeError c = c\<lparr>xcConsumeErrors := xcConsumeErrors c + 1\<rparr>"

definition loadStdDevGracePeriod :: int where "loadStdDevGracePeriod = 5000000000"

definition xc_RecordLoadStdDev :: "gotime \<Rightarrow> f64 \<Rightarrow> 'h exp_collector \<Rightarrow> 'h exp_collector" where
  "xc_RecordLoadStdDev now sd c =
     (if now - xcStartTime c < loadStdDevGracePeriod then c else c\<lparr>xcLoadStddevs := xcLoadStddevs c @ [sd]\<rparr>)"

definition xc_RecordLoadSample :: "(f64 list \<Rightarrow> f64) \<Rightarrow> gotime \<Rightarrow> f64 list \<Rightarrow> 'h exp_collector \<Rightarrow> 'h exp_collector" where
  "xc_RecordLoadSample stdDev now loads c =
     (if length loads < 2 then c
      else if now - xcStartTime c < loadStdDevGracePeriod then c
      else c\<lparr>xcLoadStddevs := xcLoadStddevs c @ [stdDev loads]\<rparr>)"

subsection \<open>The result of a run\<close>

record experiment_result =
  erScenario :: string
  erAlgorithm :: string
  erSystem :: string
  erMode :: string
  erThroughput :: f64
  erLatencyP50 :: int
  erLatencyP95 :: int
  erLatencyP99 :: int
  erLoadStdDev :: f64
  erProduced :: nat
  erConsumed :: nat
  erPublishErrors :: nat
  erMessagesThrottled :: nat
  erConsumeErrors :: nat
  erDuration :: int
  erEnqueueToFlushP50 :: int
  erFlushToAppendP50 :: int
  erAppendToConsumeP50 :: int
  erAppendToConsumeP95 :: int
  erLatencyByPriority :: "priority_stats list"

text \<open>\<^verbatim>\<open>Duration.Seconds\<close> adds the whole seconds and the rest.\<close>

definition duration_seconds :: "int \<Rightarrow> f64" where
  "duration_seconds d =
     (let s = trunc (of_int d / 1000000000); ns = d - s * 1000000000 in fadd (f_int s) (fdiv (f_int ns) (Fin 1000000000)))"

definition hist_quantile :: "'h hist_ops \<Rightarrow> 'h \<Rightarrow> int \<Rightarrow> int" where
  "hist_quantile H h q = (if hTotalCount H h > 0 then hValueAtQuantile H h q * 1000 else 0)"

fun snapshot_all :: "(f64 \<Rightarrow> int) \<Rightarrow> priority_sampler list \<Rightarrow> priority_stats list option" where
  "snapshot_all oob [] = Some []"
| "snapshot_all oob (s # ss) =
     (case (ps_snapshot oob s, snapshot_all oob ss) of (Some r, Some rs) \<Rightarrow> Some (r # rs) | _ \<Rightarrow> None)"

definition xc_Snapshot :: "'h hist_ops \<Rightarrow> (f64 list \<Rightarrow> f64) \<Rightarrow> (f64 \<Rightarrow> int) \<Rightarrow> gotime \<Rightarrow> string \<Rightarrow> string \<Rightarrow> string \<Rightarrow> string \<Rightarrow>
    'h exp_collector \<Rightarrow> experiment_result option" where
  "xc_Snapshot H mean oob now scenario alg system mode c =
     (let d0 = xcEndTime c - xcStartTime c; d = (if d0 \<le> 0 then now - xcStartTime c else d0);
          merged = foldl (hMerge H) (newHistogram H) (xcShards c)
      in map_option (\<lambda>stats.
           \<lparr>erScenario = scenario, erAlgorithm = alg, erSystem = system, erMode = mode,
            erThroughput = (if flt (Fin 0) (duration_seconds d) then fdiv (f_int (int (xcConsumed c))) (duration_seconds d) else Fin 0),
            erLatencyP50 = hist_quantile H merged 50, erLatencyP95 = hist_quantile H merged 95, erLatencyP99 = hist_quantile H merged 99,
            erLoadStdDev = (if length (xcLoadStddevs c) > 0 then mean (xcLoadStddevs c) else Fin 0),
            erProduced = xcProduced c, erConsumed = xcConsumed c, erPublishErrors = xcPublishErrors c,
            erMessagesThrottled = xcPublishThrottled c, erConsumeErrors = xcConsumeErrors c, erDuration = d,
            erEnqueueToFlushP50 = hist_quantile H (xcEnqueueToFlush c) 50, erFlushToAppendP50 = hist_quantile H (xcFlushToAppend c) 50,
            erAppendToConsumeP50 = hist_quantile H (xcAppendToConsume c) 50, erAppendToConsumeP95 = hist_quantile H (xcAppendToConsume c) 95,
            erLatencyByPriority = stats\<rparr>)
         (snapshot_all oob (xcByPriority c)))"

subsection \<open>The reservoir\<close>

definition ps_run :: "nat list \<Rightarrow> int list \<Rightarrow> priority_sampler option" where
  "ps_run js ds = foldl (\<lambda>so (j, d). Option.bind so (ps_record (\<lambda>_. j) d)) (Some emptySampler) (zip js ds)"

text \<open>All possible outcomes of the random draws for \<open>n\<close> observations: the draw for the m-th one is below \<open>m\<close>.\<close>

definition draws :: "nat \<Rightarrow> nat list set" where
  "draws n = {js. length js = n \<and> (\<forall>m < n. js ! m < Suc m)}"

definition sampler_ok :: "priority_sampler \<Rightarrow> bool" where
  "sampler_ok s \<longleftrightarrow> length (psSamples s) = min (psTotal s) maxPrioritySamples"

lemma ps_record_spec:
  assumes "sampler_ok s" and "draw (psTotal s + 1) < psTotal s + 1"
  obtains s' where "ps_record draw d s = Some s'" "sampler_ok s'" "psTotal s' = psTotal s + 1"
    "psSamples s' = (if psTotal s < maxPrioritySamples then psSamples s @ [d] else (psSamples s)[draw (psTotal s + 1) := d])"
proof -
  have "\<exists>s'. ps_record draw d s = Some s' \<and> sampler_ok s' \<and> psTotal s' = psTotal s + 1 \<and>
      psSamples s' = (if psTotal s < maxPrioritySamples then psSamples s @ [d] else (psSamples s)[draw (psTotal s + 1) := d])"
    using assms unfolding ps_record_def sampler_ok_def Let_def by (auto simp: list_update_beyond)
  then show thesis using that by blast
qed

lemma ps_run_snoc: "length js = length ds \<Longrightarrow> ps_run (js @ [j]) (ds @ [d]) = Option.bind (ps_run js ds) (ps_record (\<lambda>_. j) d)"
  by (simp add: ps_run_def)

lemma draws_0: "draws 0 = {[]}"
  by (auto simp: draws_def)

lemma draws_Suc: "draws (Suc n) = (\<lambda>(js, j). js @ [j]) ` (draws n \<times> {..<Suc n})"
proof (rule set_eqI)
  fix xs
  show "xs \<in> draws (Suc n) \<longleftrightarrow> xs \<in> (\<lambda>(js, j). js @ [j]) ` (draws n \<times> {..<Suc n})"
  proof
    assume "xs \<in> draws (Suc n)"
    then have x: "length xs = Suc n" "\<forall>m < Suc n. xs ! m < Suc m" by (simp_all add: draws_def)
    then have e: "xs = butlast xs @ [xs ! n]" by (metis append_butlast_last_id diff_Suc_1 last_conv_nth length_0_conv nat.distinct(1))
    have "butlast xs \<in> draws n" "xs ! n < Suc n" using x by (auto simp: draws_def nth_butlast)
    then show "xs \<in> (\<lambda>(js, j). js @ [j]) ` (draws n \<times> {..<Suc n})" using e by (auto intro!: image_eqI [of _ _ "(butlast xs, xs ! n)"])
  next
    assume "xs \<in> (\<lambda>(js, j). js @ [j]) ` (draws n \<times> {..<Suc n})"
    then show "xs \<in> draws (Suc n)" by (auto simp: draws_def nth_append less_Suc_eq)
  qed
qed

lemma finite_draws [simp]: "finite (draws n)"
  by (induction n) (simp_all add: draws_0 draws_Suc)

lemma card_draws_split: "card {js \<in> draws (Suc n). P js} = (\<Sum>js\<in>draws n. card {j. j < Suc n \<and> P (js @ [j])})"
proof -
  have "{js \<in> draws (Suc n). P js} = (\<lambda>(js, j). js @ [j]) ` (SIGMA js:draws n. {j. j < Suc n \<and> P (js @ [j])})"
    unfolding draws_Suc by auto
  moreover have "inj_on (\<lambda>(js, j). js @ [j]) A" for A :: "(nat list \<times> nat) set" by (auto simp: inj_on_def)
  ultimately show ?thesis by (simp add: card_image card_SigmaI)
qed

lemma card_draws: "card (draws (Suc n)) = Suc n * card (draws n)"
  using card_draws_split [of n "\<lambda>_. True"] by simp

lemma ps_run_spec:
  assumes "js \<in> draws (length ds)" and "distinct ds"
  obtains s where "ps_run js ds = Some s" "sampler_ok s" "psTotal s = length ds" "distinct (psSamples s)" "set (psSamples s) \<subseteq> set ds"
proof -
  have "\<exists>s. ps_run js ds = Some s \<and> sampler_ok s \<and> psTotal s = length ds \<and> distinct (psSamples s) \<and> set (psSamples s) \<subseteq> set ds"
    using assms
  proof (induction ds arbitrary: js rule: rev_induct)
    case Nil
    then show ?case by (simp add: ps_run_def emptySampler_def sampler_ok_def draws_0)
  next
    case (snoc d ds)
    then obtain js0 j where j: "js = js0 @ [j]" "js0 \<in> draws (length ds)" "j < Suc (length ds)" by (auto simp: draws_Suc)
    then obtain s where s: "ps_run js0 ds = Some s" "sampler_ok s" "psTotal s = length ds" "distinct (psSamples s)" "set (psSamples s) \<subseteq> set ds"
      using snoc by auto
    obtain s' where s': "ps_record (\<lambda>_. j) d s = Some s'" "sampler_ok s'" "psTotal s' = psTotal s + 1"
      "psSamples s' = (if psTotal s < maxPrioritySamples then psSamples s @ [d] else (psSamples s)[j := d])"
      by (rule ps_record_spec [of s "\<lambda>_. j" d]) (use s j in simp_all)
    have "length js0 = length ds" using j(2) by (simp add: draws_def)
    moreover have "distinct (psSamples s')" "set (psSamples s') \<subseteq> set (ds @ [d])"
      using s(4,5) snoc.prems(2) set_update_subset_insert [of "psSamples s" j d] by (auto simp: s'(4) intro!: distinct_list_update)
    ultimately show ?case using s s' by (simp add: j(1) ps_run_snoc)
  qed
  then show thesis using that by blast
qed

definition sampled :: "int \<Rightarrow> int list \<Rightarrow> nat list \<Rightarrow> bool" where
  "sampled x ds js \<longleftrightarrow> (case ps_run js ds of None \<Rightarrow> False | Some s \<Rightarrow> x \<in> set (psSamples s))"

text \<open>One more observation: how many of its draws keep an observation in the reservoir.\<close>

lemma sampled_snoc:
  assumes "js \<in> draws (length ds)" and "distinct (ds @ [d])"
  shows "card {j. j < Suc (length ds) \<and> sampled d (ds @ [d]) (js @ [j])} = min maxPrioritySamples (Suc (length ds))"
    and "x \<in> set ds \<Longrightarrow> card {j. j < Suc (length ds) \<and> sampled x (ds @ [d]) (js @ [j])} =
      (if sampled x ds js then if length ds < maxPrioritySamples then Suc (length ds) else length ds else 0)"
proof -
  obtain s where s: "ps_run js ds = Some s" "sampler_ok s" "psTotal s = length ds" "distinct (psSamples s)" "set (psSamples s) \<subseteq> set ds"
    using assms by (auto elim: ps_run_spec)
  have js: "length js = length ds" using assms(1) by (simp add: draws_def)
  have step: "sampled y (ds @ [d]) (js @ [j]) \<longleftrightarrow>
      y \<in> set (if length ds < maxPrioritySamples then psSamples s @ [d] else (psSamples s)[j := d])" if "j < Suc (length ds)" for y j
    by (rule ps_record_spec [OF s(2), of "\<lambda>_. j" d]) (use that s js in \<open>simp_all add: sampled_def ps_run_snoc\<close>)
  have eq: "{j. j < Suc (length ds) \<and> sampled y (ds @ [d]) (js @ [j])} =
      {j. j < Suc (length ds) \<and> y \<in> set (if length ds < maxPrioritySamples then psSamples s @ [d] else (psSamples s)[j := d])}" for y
    using step by blast
  have d: "d \<notin> set (psSamples s)" using s(5) assms(2) by auto
  have len: "length (psSamples s) = min (length ds) maxPrioritySamples" using s(2,3) by (simp add: sampler_ok_def)
  have "{j. j < Suc (length ds) \<and> sampled d (ds @ [d]) (js @ [j])} = {..<min maxPrioritySamples (Suc (length ds))}"
  proof (cases "length ds < maxPrioritySamples")
    case False
    then have "d \<in> set ((psSamples s)[j := d]) \<longleftrightarrow> j < maxPrioritySamples" for j
      using d len by (cases "j < length (psSamples s)") (auto simp: set_update_memI list_update_beyond)
    then show ?thesis using False unfolding eq by (intro set_eqI) (simp, linarith)
  next
    case True
    then show ?thesis unfolding eq by (simp add: lessThan_def min_absorb2)
  qed
  then show "card {j. j < Suc (length ds) \<and> sampled d (ds @ [d]) (js @ [j])} = min maxPrioritySamples (Suc (length ds))" by simp
  assume "x \<in> set ds"
  then have x: "x \<noteq> d" using assms(2) by auto
  have old: "sampled x ds js \<longleftrightarrow> x \<in> set (psSamples s)" by (simp add: sampled_def s(1))
  show "card {j. j < Suc (length ds) \<and> sampled x (ds @ [d]) (js @ [j])} =
      (if sampled x ds js then if length ds < maxPrioritySamples then Suc (length ds) else length ds else 0)"
  proof (cases "length ds < maxPrioritySamples \<or> \<not> sampled x ds js")
    case True
    have no: "x \<notin> set ((psSamples s)[j := d])" if "x \<notin> set (psSamples s)" for j
      using that x set_update_subset_insert [of "psSamples s" j d] by blast
    show ?thesis using True no x unfolding eq old by (cases "length ds < maxPrioritySamples") simp_all
  next
    case False
    then obtain i where i: "i < length (psSamples s)" "psSamples s ! i = x" by (auto simp: old in_set_conv_nth)
    have "x \<in> set ((psSamples s)[j := d]) \<longleftrightarrow> j \<noteq> i" for j
      using i x s(4) by (cases "j < length (psSamples s)") (auto simp: set_update_distinct nth_eq_iff_index_eq list_update_beyond)
    then have "{j. j < Suc (length ds) \<and> sampled x (ds @ [d]) (js @ [j])} = {..<Suc (length ds)} - {i}"
      using False unfolding eq by auto
    moreover have "i < Suc (length ds)" using i(1) len by simp
    ultimately show ?thesis using False by simp
  qed
qed

text \<open>
  C24: reservoir sampling is fair, as its comment says. Over all outcomes of the random draws, every one of n different
  observations is among the kept samples equally often: in the fraction min(10000, n)/n of the outcomes.
\<close>

theorem reservoir_uniform:
  assumes "distinct ds" and "x \<in> set ds"
  shows "card {js \<in> draws (length ds). sampled x ds js} * length ds = min maxPrioritySamples (length ds) * card (draws (length ds))"
  using assms
proof (induction ds rule: rev_induct)
  case (snoc d ds)
  let ?n = "length ds" and ?D = "card (draws (length ds))"
  have split: "card {js \<in> draws (Suc ?n). sampled x (ds @ [d]) js} =
      (\<Sum>js\<in>draws ?n. card {j. j < Suc ?n \<and> sampled x (ds @ [d]) (js @ [j])})" by (rule card_draws_split)
  show ?case
  proof (cases "x = d")
    case True
    have "card {js \<in> draws (Suc ?n). sampled x (ds @ [d]) js} = ?D * min maxPrioritySamples (Suc ?n)"
      unfolding split unfolding True using sampled_snoc(1) [OF _ snoc.prems(1)] by simp
    then show ?thesis by (simp add: card_draws algebra_simps)
  next
    case False
    then have x: "x \<in> set ds" and IH: "card {js \<in> draws ?n. sampled x ds js} * ?n = min maxPrioritySamples ?n * ?D"
      using snoc by simp_all
    let ?k = "if ?n < maxPrioritySamples then Suc ?n else ?n"
    have "card {js \<in> draws (Suc ?n). sampled x (ds @ [d]) js} = (\<Sum>js\<in>draws ?n. if sampled x ds js then ?k else 0)"
      unfolding split using sampled_snoc(2) [OF _ snoc.prems(1) x] by (intro sum.cong) simp_all
    also have "\<dots> = card {js \<in> draws ?n. sampled x ds js} * ?k" by (simp add: sum.If_cases Int_def)
    finally have c: "card {js \<in> draws (Suc ?n). sampled x (ds @ [d]) js} = card {js \<in> draws ?n. sampled x ds js} * ?k" .
    have n: "?n > 0" using x by (cases ds) simp_all
    have "card {js \<in> draws ?n. sampled x ds js} * ?k * Suc ?n = min maxPrioritySamples (Suc ?n) * (Suc ?n * ?D)"
    proof (cases "?n < maxPrioritySamples")
      case True
      then have "card {js \<in> draws ?n. sampled x ds js} = ?D" using IH n by (simp add: min_absorb2)
      then show ?thesis using True by (simp add: min_absorb2)
    next
      case False
      then have "card {js \<in> draws ?n. sampled x ds js} * ?n = maxPrioritySamples * ?D" using IH by (simp add: min_absorb1)
      then show ?thesis using False by (simp add: min_absorb1 ac_simps)
    qed
    then show ?thesis by (simp only: c card_draws length_append_singleton)
  qed
qed simp

theorem reservoir_uniform_witness:
  "card {js \<in> draws 20000. sampled 7 (map int [0..<20000]) js} * 2 = card (draws 20000)"
proof -
  have "distinct (map int [0..<20000])" by (simp add: distinct_map)
  moreover have "7 \<in> set (map int [0..<20000])" by (simp add: image_iff)
  ultimately show ?thesis using reservoir_uniform [of "map int [0..<20000]" 7] by (simp add: maxPrioritySamples_def)
qed

subsection \<open>Percentiles\<close>

lemma rnd_upper:
  assumes "1 / 8 \<le> q" and "q \<le> 2 ^ 60"
  obtains r where "rnd q = Fin r" "1 / 8 \<le> r" "r \<le> q * (1 + 1 / 2 ^ 53)"
proof -
  have "fval (1 / 8)" using fval_powi [of "- 3"] by (simp add: power_int_minus)
  moreover have "fval (2 ^ 60)" using fval_powi [of 60] by (simp add: power_int_def)
  ultimately have "fle (Fin (1 / 8)) (rnd q)" "fle (rnd q) (Fin (2 ^ 60))" using rnd_mono assms by (metis fval_def)+
  then obtain r where r: "rnd q = Fin r" "1 / 8 \<le> r" by (auto elim: fle_Fin_between)
  have "2 powi - 1022 \<le> (2 :: rat) powi - 3" by (rule power_int_increasing) simp_all
  also have "(2 :: rat) powi - 3 = 1 / 8" by (simp add: power_int_minus)
  finally have "2 powi - 1022 \<le> q" using assms(1) by linarith
  then show thesis using that r rnd_relative [of q r] by blast
qed

lemma percentile_total:
  assumes "length xs \<le> 10000" and p: "p = Fin q" "1 / 8 \<le> q" "q \<le> 255 / 256"
  shows "\<exists>y. percentile oob xs p = Some y"
proof (cases "length xs \<le> 1")
  case True
  then show ?thesis by (cases xs) (simp_all add: percentile_def Let_def)
next
  case False
  define n where "n = (of_int (int (length xs) - 1) :: rat)"
  have n: "1 \<le> n" "n \<le> 9999" using False assms(1) by (simp_all add: n_def)
  have i: "f_int (int (length xs) - 1) = Fin n" unfolding f_int_def n_def by (rule rnd_int) (use False assms(1) in simp)
  have lo: "1 / 8 * 1 \<le> q * n" using p n by (intro mult_mono) simp_all
  have hi: "q * n \<le> 255 / 256 * n" using p n by (intro mult_right_mono) simp_all
  have "255 / 256 * n \<le> 2 ^ 60" using n by simp
  then have "q * n \<le> 2 ^ 60" using hi by (rule order_trans [rotated])
  then obtain r where r: "rnd (q * n) = Fin r" "1 / 8 \<le> r" "r \<le> q * n * (1 + 1 / 2 ^ 53)"
    using lo rnd_upper [of "q * n"] by auto
  have "q * n * (1 + 1 / 2 ^ 53) \<le> 255 / 256 * n * (1 + 1 / 2 ^ 53)" using hi by (rule mult_right_mono) simp
  also have "\<dots> = (255 / 256 * (1 + 1 / 2 ^ 53)) * n" by simp
  also have "\<dots> < 1 * n" using n by (intro mult_strict_right_mono) simp_all
  finally have "r < n" using r(3) by linarith
  then have "\<lfloor>r\<rfloor> < int (length xs) - 1" unfolding n_def by (simp only: floor_less_iff)
  then have "0 \<le> trunc r" "trunc r + 1 \<le> int (length xs) - 1" using r(2) by (simp_all add: trunc_def)
  moreover from this have "f_to_int oob (rnd (q * n)) = trunc r" using assms(1) by (simp add: f_to_int_def r(1))
  ultimately show ?thesis using False p by (simp add: percentile_def Let_def i)
qed

lemma f_const_percentile:
  assumes "1 / 8 \<le> q" and "q \<le> 99 / 100"
  obtains r where "f_const q = Fin r" "1 / 8 \<le> r" "r \<le> 255 / 256"
proof -
  have "q \<le> 2 ^ 60" using assms(2) by (rule order_trans) simp
  then obtain r where r: "rnd q = Fin r" "1 / 8 \<le> r" "r \<le> q * (1 + 1 / 2 ^ 53)" by (rule rnd_upper [OF assms(1)])
  have "q * (1 + 1 / 2 ^ 53) \<le> 99 / 100 * (1 + 1 / 2 ^ 53)" using assms(2) by (rule mult_right_mono) simp
  also have "(99 / 100 * (1 + 1 / 2 ^ 53) :: rat) \<le> 255 / 256" by simp
  finally show thesis using that [of r] r by (simp add: f_const_def)
qed

lemma ps_snapshot_total:
  assumes "sampler_ok s"
  shows "\<exists>r. ps_snapshot oob s = Some r \<and> stCount r = psTotal s"
proof -
  have l: "length (map f_int (sort (psSamples s))) \<le> 10000" using assms by (simp add: sampler_ok_def maxPrioritySamples_def)
  obtain a where a: "f_const (1 / 2) = Fin a" "1 / 8 \<le> a" "a \<le> 255 / 256" by (rule f_const_percentile [of "1 / 2"]) simp_all
  obtain b where b: "f_const (99 / 100) = Fin b" "1 / 8 \<le> b" "b \<le> 255 / 256" by (rule f_const_percentile [of "99 / 100"]) simp_all
  obtain x y where "percentile oob (map f_int (sort (psSamples s))) (f_const (1 / 2)) = Some x"
    "percentile oob (map f_int (sort (psSamples s))) (f_const (99 / 100)) = Some y"
    using percentile_total [OF l a] percentile_total [OF l b] by blast
  then show ?thesis by (simp add: ps_snapshot_def Let_def)
qed

lemma snapshot_all_total:
  assumes "list_all sampler_ok ss"
  obtains rs where "snapshot_all oob ss = Some rs" "map stCount rs = map psTotal ss"
proof -
  have "\<exists>rs. snapshot_all oob ss = Some rs \<and> map stCount rs = map psTotal ss" using assms
  proof (induction ss)
    case (Cons s ss)
    then show ?case using ps_snapshot_total [of s oob] by auto
  qed simp
  then show thesis using that by blast
qed

subsection \<open>Runs of the collector\<close>

datatype xc_event =
    EvStart gotime
  | EvStop gotime
  | is_reset: EvReset
  | is_EvProduce: EvProduce
  | EvConsume (evPriority: byte) (evLatency: int) (evDraw: "nat \<Rightarrow> nat")
  | EvMultiStage gotime int int int
  | is_EvPublishError: EvPublishError
  | is_EvPublishThrottled: EvPublishThrottled
  | is_EvConsumeError: EvConsumeError
  | EvLoadStdDev gotime f64
  | EvLoadSample gotime "f64 list"

fun xc_apply :: "'h hist_ops \<Rightarrow> (f64 list \<Rightarrow> f64) \<Rightarrow> xc_event \<Rightarrow> 'h exp_collector \<Rightarrow> 'h exp_collector option" where
  "xc_apply H sd (EvStart t) c = Some (xc_Start t c)"
| "xc_apply H sd (EvStop t) c = Some (xc_Stop t c)"
| "xc_apply H sd EvReset c = Some (xc_Reset H c)"
| "xc_apply H sd EvProduce c = Some (xc_RecordProduce c)"
| "xc_apply H sd (EvConsume prio l draw) c = xc_RecordConsumeWithPriority H draw prio l c"
| "xc_apply H sd (EvMultiStage now e p a) c = Some (xc_RecordConsumeMultiStage H now e p a c)"
| "xc_apply H sd EvPublishError c = Some (xc_RecordPublishError c)"
| "xc_apply H sd EvPublishThrottled c = Some (xc_RecordPublishThrottled c)"
| "xc_apply H sd EvConsumeError c = Some (xc_RecordConsumeError c)"
| "xc_apply H sd (EvLoadStdDev now x) c = Some (xc_RecordLoadStdDev now x c)"
| "xc_apply H sd (EvLoadSample now ls) c = Some (xc_RecordLoadSample sd now ls c)"

definition xc_events :: "'h hist_ops \<Rightarrow> (f64 list \<Rightarrow> f64) \<Rightarrow> xc_event list \<Rightarrow> 'h exp_collector option" where
  "xc_events H sd evs = foldl (\<lambda>co ev. Option.bind co (xc_apply H sd ev)) (Some (NewExpCollector H)) evs"

definition since_reset :: "xc_event list \<Rightarrow> xc_event list" where
  "since_reset evs = takeWhile (\<lambda>e. \<not> is_reset e) (rev evs)"

definition consumes :: "nat \<Rightarrow> xc_event list \<Rightarrow> nat" where
  "consumes i evs = length (filter (\<lambda>e. is_EvConsume e \<and> unat (evPriority e) = i) evs)"

definition draws_ok :: "xc_event \<Rightarrow> bool" where
  "draws_ok e \<longleftrightarrow> (is_EvConsume e \<longrightarrow> (\<forall>n > 0. evDraw e n < n))"

definition xc_inv :: "xc_event list \<Rightarrow> 'h exp_collector \<Rightarrow> bool" where
  "xc_inv evs c \<longleftrightarrow> length (xcShards c) = 16 \<and> length (xcByPriority c) = 10 \<and> list_all sampler_ok (xcByPriority c) \<and>
     (\<forall>i < 10. psTotal (xcByPriority c ! i) = consumes i (since_reset evs)) \<and>
     xcProduced c = length (filter is_EvProduce evs) \<and> xcConsumed c = length (filter is_EvConsume evs) \<and>
     xcPublishErrors c = length (filter is_EvPublishError evs) \<and> xcPublishThrottled c = length (filter is_EvPublishThrottled evs) \<and>
     xcConsumeErrors c = length (filter is_EvConsumeError evs)"

lemma since_reset_snoc: "since_reset (evs @ [e]) = (if is_reset e then [] else e # since_reset evs)"
  by (simp add: since_reset_def)

lemmas xc_defs = xc_Start_def xc_Stop_def xc_Reset_def xc_RecordProduce_def xc_RecordConsumeMultiStage_def xc_RecordPublishError_def
  xc_RecordPublishThrottled_def xc_RecordConsumeError_def xc_RecordLoadStdDev_def xc_RecordLoadSample_def

lemma xc_consume_inv:
  assumes "xc_inv evs c" and "\<forall>n > 0. draw n < n"
  shows "\<exists>c'. xc_RecordConsumeWithPriority H draw prio l c = Some c' \<and> xc_inv (evs @ [EvConsume prio l draw]) c'"
proof (cases "unat prio < 10")
  case True
  have "xcShards c \<noteq> []" using assms(1) by (auto simp: xc_inv_def)
  moreover have "sampler_ok (xcByPriority c ! unat prio)" using assms(1) True by (simp add: xc_inv_def list_all_length)
  then obtain s where "ps_record draw l (xcByPriority c ! unat prio) = Some s" "sampler_ok s" "psTotal s = psTotal (xcByPriority c ! unat prio) + 1"
    by (rule ps_record_spec [of _ draw l]) (use assms(2) in simp_all)
  ultimately show ?thesis using assms(1) True
    by (simp add: xc_RecordConsumeWithPriority_def Let_def xc_inv_def since_reset_snoc consumes_def list_all_length nth_list_update)
next
  case False
  moreover have "xcShards c \<noteq> []" using assms(1) by (auto simp: xc_inv_def)
  moreover from False have "unat prio \<noteq> i" if "i < 10" for i using that by simp
  ultimately show ?thesis using assms(1)
    by (simp add: xc_RecordConsumeWithPriority_def Let_def xc_inv_def since_reset_snoc consumes_def)
qed

lemma xc_apply_inv:
  assumes "xc_inv evs c" and "draws_ok e"
  shows "\<exists>c'. xc_apply H sd e c = Some c' \<and> xc_inv (evs @ [e]) c'"
proof (cases "is_EvConsume e")
  case True
  then obtain prio l draw where e: "e = EvConsume prio l draw" by (cases e) simp_all
  show ?thesis using xc_consume_inv [OF assms(1), of draw H prio l] assms(2) by (simp add: e draws_ok_def)
next
  case False
  then show ?thesis using assms(1)
    by (cases e) (simp_all add: xc_defs xc_inv_def since_reset_snoc consumes_def list_all_length sampler_ok_def)
qed

text \<open>
  C25: the collector accounts for every event. Whatever is recorded in whatever order, with resets in between, no access leaves the
  arrays; the result has the numbers of all produced, consumed, failed and throttled messages and, for each of the ten priorities, the number of
  messages consumed since the last reset.
\<close>

theorem ExpCollector_accounts:
  assumes "\<forall>e\<in>set evs. draws_ok e"
  shows "\<exists>c r. xc_events H sd evs = Some c \<and> xc_Snapshot H mean oob now sc alg system mode c = Some r \<and>
    erProduced r = length (filter is_EvProduce evs) \<and> erConsumed r = length (filter is_EvConsume evs) \<and>
    erPublishErrors r = length (filter is_EvPublishError evs) \<and> erMessagesThrottled r = length (filter is_EvPublishThrottled evs) \<and>
    erConsumeErrors r = length (filter is_EvConsumeError evs) \<and>
    map stCount (erLatencyByPriority r) = map (\<lambda>i. consumes i (since_reset evs)) [0..<10]"
proof -
  have "\<exists>c. xc_events H sd evs = Some c \<and> xc_inv evs c" using assms
  proof (induction evs rule: rev_induct)
    case Nil
    show ?case by (auto simp: xc_events_def NewExpCollector_def xc_inv_def defaultNumShards_def since_reset_def consumes_def
        list_all_iff emptySampler_def sampler_ok_def)
  next
    case (snoc e evs)
    then obtain c where c: "xc_events H sd evs = Some c" "xc_inv evs c" by auto
    then show ?case using xc_apply_inv [OF c(2), of e H sd] snoc.prems by (simp add: xc_events_def)
  qed
  then obtain c where c: "xc_events H sd evs = Some c" "xc_inv evs c" by blast
  obtain rs where rs: "snapshot_all oob (xcByPriority c) = Some rs" "map stCount rs = map psTotal (xcByPriority c)"
    using snapshot_all_total c(2) by (auto simp: xc_inv_def)
  have "map psTotal (xcByPriority c) = map (\<lambda>i. consumes i (since_reset evs)) [0..<10]"
    using c(2) by (intro nth_equalityI) (simp_all add: xc_inv_def)
  then show ?thesis using c rs by (simp add: xc_Snapshot_def Let_def xc_inv_def)
qed

text \<open>Histograms as the lists of their values, without loss of precision.\<close>

definition listHist :: "int list hist_ops" where
  "listHist = \<lparr>hNew = \<lambda>_ _ _. [], hRecordValue = \<lambda>h v. if v \<le> 30000000 then h @ [v] else h, hReset = \<lambda>_. [], hMerge = (@),
     hTotalCount = \<lambda>h. int (length h), hValueAtQuantile = \<lambda>h q. sort h ! ((length h - 1) * nat q div 100)\<rparr>"

definition sampleEvents :: "xc_event list" where
  "sampleEvents = [EvProduce, EvConsume 3 5000 (\<lambda>_. 0), EvReset, EvConsume 3 7000 (\<lambda>_. 0), EvConsume 12 1 (\<lambda>_. 0)]"

theorem ExpCollector_accounts_witness:
  "\<exists>c r. xc_events listHist (\<lambda>_. Fin 0) sampleEvents = Some c \<and>
     xc_Snapshot listHist (\<lambda>_. Fin 0) (\<lambda>_. 0) 9 ''uniform'' ''a'' ''s'' ''m'' c = Some r \<and> erProduced r = 1 \<and> erConsumed r = 3 \<and>
     map stCount (erLatencyByPriority r) = [0, 0, 0, 1, 0, 0, 0, 0, 0, 0]"
proof -
  have ok: "\<forall>e\<in>set sampleEvents. draws_ok e" by (simp add: sampleEvents_def draws_ok_def)
  obtain c r where r: "xc_events listHist (\<lambda>_. Fin 0) sampleEvents = Some c"
    "xc_Snapshot listHist (\<lambda>_. Fin 0) (\<lambda>_. 0) 9 ''uniform'' ''a'' ''s'' ''m'' c = Some r"
    "erProduced r = length (filter is_EvProduce sampleEvents)" "erConsumed r = length (filter is_EvConsume sampleEvents)"
    "map stCount (erLatencyByPriority r) = map (\<lambda>i. consumes i (since_reset sampleEvents)) [0..<10]"
    using ExpCollector_accounts [OF ok, of listHist "\<lambda>_. Fin 0" "\<lambda>_. Fin 0" "\<lambda>_. 0" 9 "''uniform''" "''a''" "''s''" "''m''"] by (elim exE conjE) (rule that)
  have "since_reset sampleEvents = [EvConsume 12 1 (\<lambda>_. 0), EvConsume 3 7000 (\<lambda>_. 0)]" by (simp add: since_reset_def sampleEvents_def)
  moreover have "[0..<10] = [0, 1, 2, 3, 4, 5, 6, 7, 8, 9 :: nat]" by code_simp
  ultimately have "map (\<lambda>i. consumes i (since_reset sampleEvents)) [0..<10] = [0, 0, 0, 1, 0, 0, 0, 0, 0, 0]" by (simp add: consumes_def)
  moreover have "length (filter is_EvProduce sampleEvents) = 1" "length (filter is_EvConsume sampleEvents) = 3" by (simp_all add: sampleEvents_def)
  ultimately show ?thesis using r by (intro exI [of _ c] exI [of _ r]) simp
qed

end
