(* ===== verification/Scenarios.thy ===== *)
theory Scenarios
  imports Config
begin

text \<open>
  The load patterns of the benchmarks, \<^verbatim>\<open>benchmarks/scenarios.go\<close>: the predefined scenarios, the lookup by name and the sampling of
  priorities. Random numbers and bytes are arguments.

  The lemmas show that a sampled priority is a valid level and the first one whose cumulative weight reaches the draw, and that
  every predefined scenario is found by its name.
\<close>

record scenario =
  scnName :: string
  scnDuration :: int
  scnNumPartitions :: int
  scnProducers :: int
  scnConsumers :: int
  scnMsgSize :: int
  scnRatePerSec :: int
  scnBurstEvery :: int
  scnBurstFactor :: int
  scnSkewRatio :: f64
  scnPriorities :: "f64 list"
  scnSeed :: int
  scnBatchBytes :: int
  scnLingerMs :: int

definition uniformPriorities :: "f64 list" where
  "uniformPriorities = replicate 10 (f_const (1 / 10))"

text \<open>The zero value of the struct.\<close>

definition zeroScenario :: scenario where
  "zeroScenario = \<lparr>scnName = [], scnDuration = 0, scnNumPartitions = 0, scnProducers = 0, scnConsumers = 0, scnMsgSize = 0,
     scnRatePerSec = 0, scnBurstEvery = 0, scnBurstFactor = 0, scnSkewRatio = Fin 0, scnPriorities = replicate 10 (Fin 0), scnSeed = 0,
     scnBatchBytes = 0, scnLingerMs = 0\<rparr>"

definition skewedPriorities :: "f64 list" where
  "skewedPriorities = map f_const [30 / 100, 25 / 100, 15 / 100, 10 / 100, 8 / 100, 5 / 100, 3 / 100, 2 / 100, 1 / 100, 1 / 100]"

definition Uniform :: scenario where
  "Uniform = zeroScenario\<lparr>scnName := ''uniform'', scnDuration := 30000000000, scnProducers := 4, scnConsumers := 4, scnMsgSize := 256,
     scnRatePerSec := 1200, scnPriorities := uniformPriorities, scnSeed := 42, scnLingerMs := 1\<rparr>"

definition Skewed :: scenario where
  "Skewed = zeroScenario\<lparr>scnName := ''skewed'', scnDuration := 30000000000, scnProducers := 4, scnConsumers := 4, scnMsgSize := 256,
     scnRatePerSec := 1200, scnSkewRatio := f_const (8 / 10), scnPriorities := uniformPriorities, scnSeed := 42, scnLingerMs := 1\<rparr>"

definition Bursty :: scenario where
  "Bursty = zeroScenario\<lparr>scnName := ''bursty'', scnDuration := 60000000000, scnProducers := 4, scnConsumers := 4, scnMsgSize := 256,
     scnRatePerSec := 1200, scnBurstEvery := 10000000000, scnBurstFactor := 5, scnPriorities := uniformPriorities, scnSeed := 42,
     scnLingerMs := 1\<rparr>"

definition GrowingLoad :: scenario where
  "GrowingLoad = zeroScenario\<lparr>scnName := ''growing'', scnDuration := 60000000000, scnProducers := 4, scnConsumers := 4, scnMsgSize := 256,
     scnRatePerSec := 600, scnPriorities := uniformPriorities, scnSeed := 42, scnLingerMs := 1\<rparr>"

definition MixedPriority :: scenario where
  "MixedPriority = zeroScenario\<lparr>scnName := ''mixed_priority'', scnDuration := 30000000000, scnProducers := 4, scnConsumers := 4,
     scnMsgSize := 256, scnRatePerSec := 1200, scnPriorities := skewedPriorities, scnSeed := 42, scnLingerMs := 1\<rparr>"

definition Overload :: scenario where
  "Overload = zeroScenario\<lparr>scnName := ''overload'', scnDuration := 30000000000, scnProducers := 4, scnConsumers := 4, scnMsgSize := 256,
     scnRatePerSec := 0, scnPriorities := skewedPriorities, scnSeed := 42\<rparr>"

definition SkewedK16 :: scenario where
  "SkewedK16 = zeroScenario\<lparr>scnName := ''skewed_k16'', scnDuration := 30000000000, scnNumPartitions := 16, scnProducers := 16,
     scnConsumers := 16, scnMsgSize := 256, scnRatePerSec := 4800, scnSkewRatio := f_const (8 / 10), scnPriorities := uniformPriorities,
     scnSeed := 42, scnLingerMs := 1\<rparr>"

definition OverloadK16 :: scenario where
  "OverloadK16 = zeroScenario\<lparr>scnName := ''overload_k16'', scnDuration := 30000000000, scnNumPartitions := 16, scnProducers := 16,
     scnConsumers := 16, scnMsgSize := 256, scnRatePerSec := 0, scnPriorities := skewedPriorities, scnSeed := 42\<rparr>"

definition AllScenarios :: "scenario list" where
  "AllScenarios = [Uniform, Skewed, Bursty, GrowingLoad, MixedPriority, Overload, SkewedK16, OverloadK16]"

fun FindByName :: "string \<Rightarrow> scenario list \<Rightarrow> bool \<times> scenario" where
  "FindByName name [] = (False, zeroScenario)"
| "FindByName name (s # ss) = (if scnName s = name then (True, s) else FindByName name ss)"

definition GenerateMessage :: "(nat \<Rightarrow> byte) \<Rightarrow> nat \<Rightarrow> bytes" where
  "GenerateMessage random sz = map random [0..<sz]"

fun sample_level :: "f64 \<Rightarrow> f64 \<Rightarrow> nat \<Rightarrow> f64 list \<Rightarrow> nat" where
  "sample_level r cumulative i [] = 0"
| "sample_level r cumulative i (p # ps) =
     (let c = fadd cumulative p in if fle r c then i else sample_level r c (i + 1) ps)"

definition SamplePriority :: "nat \<Rightarrow> scenario \<Rightarrow> byte" where
  "SamplePriority n s = word_of_nat (sample_level (fdiv (f_int (int n)) (f_int 1000000)) (Fin 0) 0 (scnPriorities s))"

definition SamplePrioritySeeded :: "f64 \<Rightarrow> scenario \<Rightarrow> byte" where
  "SamplePrioritySeeded r s = word_of_nat (sample_level r (Fin 0) 0 (scnPriorities s))"

subsection \<open>Lookup and sampling\<close>

lemma FindByName_known: "distinct (map scnName ss) \<Longrightarrow> s \<in> set ss \<Longrightarrow> FindByName (scnName s) ss = (True, s)"
  by (induction ss) auto

lemma scenario_names:
  "map scnName AllScenarios = [''uniform'', ''skewed'', ''bursty'', ''growing'', ''mixed_priority'', ''overload'', ''skewed_k16'', ''overload_k16'']"
  by (simp add: AllScenarios_def Uniform_def Skewed_def Bursty_def GrowingLoad_def MixedPriority_def Overload_def SkewedK16_def OverloadK16_def)

lemma FindByName_all: "s \<in> set AllScenarios \<Longrightarrow> FindByName (scnName s) AllScenarios = (True, s)"
  by (rule FindByName_known) (simp add: scenario_names)

lemma FindByName_unknown: "name \<notin> scnName ` set ss \<Longrightarrow> FindByName name ss = (False, zeroScenario)"
  by (induction ss) auto

text \<open>The running sum after the first \<open>k\<close> weights, with every rounding.\<close>

definition cumulative_weight :: "f64 \<Rightarrow> f64 list \<Rightarrow> nat \<Rightarrow> f64" where
  "cumulative_weight c ps k = foldl fadd c (take k ps)"

lemma sample_level_first:
  "(\<exists>k < length ps. sample_level r c i ps = i + k \<and> fle r (cumulative_weight c ps (Suc k)) \<and>
      (\<forall>j < k. \<not> fle r (cumulative_weight c ps (Suc j)))) \<or>
   sample_level r c i ps = 0 \<and> (\<forall>j < length ps. \<not> fle r (cumulative_weight c ps (Suc j)))"
proof (induction r c i ps rule: sample_level.induct)
  case (2 r c i p ps)
  show ?case
  proof (cases "fle r (fadd c p)")
    case True
    then show ?thesis by (intro disjI1 exI [of _ 0]) (simp add: Let_def cumulative_weight_def)
  next
    case False
    have cw: "cumulative_weight c (p # ps) (Suc k) = cumulative_weight (fadd c p) ps k" for k by (simp add: cumulative_weight_def)
    have z: "\<not> fle r (cumulative_weight (fadd c p) ps 0)" using False by (simp add: cumulative_weight_def)
    consider (hit) k where "k < length ps" "sample_level r (fadd c p) (i + 1) ps = i + 1 + k"
        "fle r (cumulative_weight (fadd c p) ps (Suc k))" "\<forall>j < k. \<not> fle r (cumulative_weight (fadd c p) ps (Suc j))"
      | (miss) "sample_level r (fadd c p) (i + 1) ps = 0" "\<forall>j < length ps. \<not> fle r (cumulative_weight (fadd c p) ps (Suc j))"
      using 2 [OF refl False] by (elim disjE exE conjE) metis+
    then show ?thesis
    proof cases
      case hit
      then show ?thesis using False z by (intro disjI1 exI [of _ "Suc k"]) (auto simp: Let_def cw less_Suc_eq_0_disj)
    next
      case miss
      then show ?thesis using False z by (intro disjI2) (auto simp: Let_def cw less_Suc_eq_0_disj)
    qed
  qed
qed simp

lemma SamplePrioritySeeded_level:
  assumes "length (scnPriorities s) = 10"
  shows "unat (SamplePrioritySeeded r s) < 10"
  using sample_level_first [of "scnPriorities s" r "Fin 0" 0] assms
  by (auto simp: SamplePrioritySeeded_def unat_of_nat take_bit_nat_eq_self)

end
