(* ===== verification/Runner.thy ===== *)
theory Runner
  imports Harness ExpCollector Scenarios
begin

text \<open>
  The experiment runner, \<^verbatim>\<open>experiments/runner.go\<close> and \<^verbatim>\<open>algorithms.go\<close>: message values that carry their send time, the batching producers,
  the consumer, the load sampler, the drain between runs and the loops over scenarios, modes and algorithms. Times, random numbers and
  the endpoints of each call are arguments; a loop that runs until its context is cancelled takes the list of its iterations.

  The lemmas show that every generated message is counted as produced, throttled or failed and every fetched message as consumed or
  failed, that send times survive the way through the value, that draining ends, and which combinations are run.
\<close>

subsection \<open>Algorithms\<close>

datatype balancer_kind = UseRoundRobin | UseP2C | UsePSA | UseDQNBalancer

datatype scheduler_kind = UseFIFO | UseStrictPriority | UseDQNScheduler

record algorithm_config =
  alName :: string
  alBalancer :: balancer_kind
  alScheduler :: scheduler_kind
  alMode :: int
  alWithOptimizer :: bool

definition AllAlgorithms :: "algorithm_config list" where
  "AllAlgorithms =
     [\<lparr>alName = ''RR+FIFO'', alBalancer = UseRoundRobin, alScheduler = UseFIFO, alMode = ModeFIFO, alWithOptimizer = False\<rparr>,
      \<lparr>alName = ''P2C+FIFO'', alBalancer = UseP2C, alScheduler = UseFIFO, alMode = ModeFIFO, alWithOptimizer = False\<rparr>,
      \<lparr>alName = ''PSA+FIFO'', alBalancer = UsePSA, alScheduler = UseFIFO, alMode = ModeFIFO, alWithOptimizer = False\<rparr>,
      \<lparr>alName = ''DQN+Priority'', alBalancer = UseDQNBalancer, alScheduler = UseStrictPriority, alMode = ModeStrictPriority, alWithOptimizer = False\<rparr>,
      \<lparr>alName = ''DQN+DDPG'', alBalancer = UseDQNBalancer, alScheduler = UseDQNScheduler, alMode = ModeDQNAdaptive, alWithOptimizer = True\<rparr>]"

subsection \<open>Topics, keys and values\<close>

definition timestampPrefixBytes :: nat where "timestampPrefixBytes = 8"
definition defaultMsgSize :: int where "defaultMsgSize = 256"
definition defaultBatchBytes :: int where "defaultBatchBytes = 16 * 1024"

definition expTopicName :: "string \<Rightarrow> string \<Rightarrow> harness_mode \<Rightarrow> string" where
  "expTopicName sc alg mode = ''exp-'' @ sc @ ''-'' @ alg @ ''-'' @ mode_String mode"

definition topicConfigFor :: "scenario \<Rightarrow> topic_config" where
  "topicConfigFor sc =
     DefaultTopicConfig\<lparr>cfgNumPartitions := (if scnNumPartitions sc > 0 then scnNumPartitions sc
                                          else if scnProducers sc < 1 then 1 else scnProducers sc)\<rparr>"

definition scenario_msg_size :: "scenario \<Rightarrow> int" where
  "scenario_msg_size sc =
     (let s = (if scnMsgSize sc = 0 then defaultMsgSize else scnMsgSize sc)
      in if s < int timestampPrefixBytes then int timestampPrefixBytes else s)"

definition scenario_producers :: "scenario \<Rightarrow> int" where
  "scenario_producers sc = (if scnProducers sc < 1 then 1 else scnProducers sc)"

definition lingerInterval :: "scenario \<Rightarrow> int" where
  "lingerInterval sc = (if scnLingerMs sc \<le> 0 then 1 else scnLingerMs sc) * millisecond"

text \<open>The pause of a rate-limited producer; the number of producers is a divisor.\<close>

definition rate_interval :: "scenario \<Rightarrow> int option" where
  "rate_interval sc =
     (if scnProducers sc = 0 then None
      else let per = trunc (of_int (scnRatePerSec sc) / of_int (scnProducers sc)); per' = (if per < 1 then 1 else per)
           in Some (1000000000 div per'))"

definition target_bytes :: "scenario \<Rightarrow> int" where
  "target_bytes sc = (if scnBatchBytes sc \<le> 0 then defaultBatchBytes else scnBatchBytes sc)"

definition generateKeySeeded :: "f64 \<Rightarrow> f64 \<Rightarrow> u64 \<Rightarrow> bytes" where
  "generateKeySeeded skewRatio r u = (if flt (Fin 0) skewRatio \<and> flt r skewRatio then replicate 8 0 else be_put 8 u)"

definition encodeValue :: "(nat \<Rightarrow> byte) \<Rightarrow> i64 \<Rightarrow> nat \<Rightarrow> bytes option" where
  "encodeValue random now sz =
     (let buf = GenerateMessage random sz
      in if length buf < timestampPrefixBytes then None else Some (be_put 8 now @ drop timestampPrefixBytes buf))"

text \<open>The difference of two times saturates at the limits of a duration.\<close>

definition since :: "int \<Rightarrow> i64 \<Rightarrow> int" where
  "since now ts = max (- (2 ^ 63)) (min (2 ^ 63 - 1) (now - sint ts))"

definition decodeLatency :: "int \<Rightarrow> bytes \<Rightarrow> (int \<times> i64) option" where
  "decodeLatency now val =
     (if length val < timestampPrefixBytes then None
      else let ts = (be_get (take timestampPrefixBytes val) :: i64); latency = since now ts
           in if latency < 0 then None else Some (latency, ts))"

subsection \<open>Errors\<close>

fun rpc_of :: "client_error \<Rightarrow> rpc_error option" where
  "rpc_of (CallFailed e) = Some e"
| "rpc_of (BrokerError _ e) = Some e"
| "rpc_of (RetriesExhausted e) = e"
| "rpc_of _ = None"

definition isThrottleError :: "harness_error \<Rightarrow> bool" where
  "isThrottleError e =
     (case e of
        BrokerFailed b \<Rightarrow> b = ErrThrottled
      | ClientFailed c \<Rightarrow> (case rpc_of c of Some r \<Rightarrow> status_code r = ResourceExhausted | None \<Rightarrow> False)
      | _ \<Rightarrow> False)"

subsection \<open>Producers\<close>

record ('h, 'st, 'k, 'wr, 'rd) producer_state =
  pstBatch :: "batch_item list"
  pstBytes :: int
  pstWorld :: "('wr, 'rd) harness \<times> ('st, 'k) world"
  pstCollector :: "'h exp_collector"

definition flush :: "('k, 'c, 'wr, 'rd) kafka_lib \<Rightarrow> string \<Rightarrow> 'st endpoints \<times> call_context \<Rightarrow>
    ('h, 'st, 'k, 'wr, 'rd) producer_state \<Rightarrow> ('h, 'st, 'k, 'wr, 'rd) producer_state option" where
  "flush L topic env p =
     (if pstBatch p = [] then Some p
      else case ha_PublishBatch (fst env) L (snd env) topic (pstBatch p) (pstWorld p) of
        None \<Rightarrow> None
      | Some ((n, e), hw) \<Rightarrow>
          (let c1 = (xc_RecordProduce ^^ n) (pstCollector p);
               failed = length (pstBatch p) - n;
               c2 = (case e of
                       Some x \<Rightarrow> if n < length (pstBatch p)
                                 then if isThrottleError x then (xc_RecordPublishThrottled ^^ failed) c1
                                      else (xc_RecordPublishError ^^ failed) c1
                                 else c1
                     | None \<Rightarrow> c1)
           in Some \<lparr>pstBatch = [], pstBytes = 0, pstWorld = hw, pstCollector = c2\<rparr>))"

definition add_item :: "batch_item \<Rightarrow> ('h, 'st, 'k, 'wr, 'rd) producer_state \<Rightarrow> ('h, 'st, 'k, 'wr, 'rd) producer_state" where
  "add_item it p = p\<lparr>pstBatch := pstBatch p @ [it], pstBytes := pstBytes p + int (length (biKey it) + length (biValue it))\<rparr>"

definition flush_full :: "('k, 'c, 'wr, 'rd) kafka_lib \<Rightarrow> string \<Rightarrow> int \<Rightarrow> 'st endpoints \<times> call_context \<Rightarrow>
    ('h, 'st, 'k, 'wr, 'rd) producer_state \<Rightarrow> ('h, 'st, 'k, 'wr, 'rd) producer_state option" where
  "flush_full L topic target env p = (if pstBytes p \<ge> target then flush L topic env p else Some p)"

text \<open>The item of every iteration until the context is cancelled; \<open>envs\<close> gives each call its endpoints.\<close>

fun runUnlimitedProducer :: "('k, 'c, 'wr, 'rd) kafka_lib \<Rightarrow> string \<Rightarrow> int \<Rightarrow> (nat \<Rightarrow> 'st endpoints \<times> call_context) \<Rightarrow> batch_item list \<Rightarrow>
    ('h, 'st, 'k, 'wr, 'rd) producer_state \<Rightarrow> ('h, 'st, 'k, 'wr, 'rd) producer_state option" where
  "runUnlimitedProducer L topic target envs [] p = flush L topic (envs 0) p"
| "runUnlimitedProducer L topic target envs (it # its) p =
     Option.bind (flush_full L topic target (envs (length its + 1)) (add_item it p)) (runUnlimitedProducer L topic target envs its)"

text \<open>What ends the pause of the rate-limited producer: the context, the linger timer or the interval.\<close>

datatype wake = CtxDone | LingerFired | IntervalPassed

fun runRateLimitedProducer :: "('k, 'c, 'wr, 'rd) kafka_lib \<Rightarrow> string \<Rightarrow> int \<Rightarrow> (nat \<Rightarrow> bool \<Rightarrow> 'st endpoints \<times> call_context) \<Rightarrow>
    (batch_item \<times> wake) list \<Rightarrow> ('h, 'st, 'k, 'wr, 'rd) producer_state \<Rightarrow> ('h, 'st, 'k, 'wr, 'rd) producer_state option" where
  "runRateLimitedProducer L topic target envs [] p = flush L topic (envs 0 False) p"
| "runRateLimitedProducer L topic target envs ((it, wk) # its) p =
     (case flush_full L topic target (envs (length its + 1) False) (add_item it p) of
        None \<Rightarrow> None
      | Some p1 \<Rightarrow>
          (case wk of
             CtxDone \<Rightarrow> flush L topic (envs (length its + 1) True) p1
           | LingerFired \<Rightarrow> Option.bind (flush L topic (envs (length its + 1) True) p1) (runRateLimitedProducer L topic target envs its)
           | IntervalPassed \<Rightarrow> runRateLimitedProducer L topic target envs its p1))"

subsection \<open>Consumers and the load sampler\<close>

text \<open>For every message the two clock readings and the random draw of its recording.\<close>

fun record_messages :: "'h hist_ops \<Rightarrow> (nat \<Rightarrow> int \<times> int \<times> (nat \<Rightarrow> nat)) \<Rightarrow> consumed_message list \<Rightarrow> 'h exp_collector \<Rightarrow> 'h exp_collector option" where
  "record_messages H obs [] c = Some c"
| "record_messages H obs (m # ms) c =
     (case obs (length ms) of (now, now', pick) \<Rightarrow>
        case decodeLatency now (cmsgValue m) of
          None \<Rightarrow> record_messages H obs ms (xc_RecordConsumeError c)
        | Some (latency, enqueueTime) \<Rightarrow>
            (case xc_RecordConsumeWithPriority H pick (cmsgPriority m) latency c of
               None \<Rightarrow> None
             | Some c1 \<Rightarrow>
                 record_messages H obs ms
                   (if sint (cmsgProduceTime m) > 0
                    then xc_RecordConsumeMultiStage H now' (sint enqueueTime) (sint (cmsgProduceTime m)) (sint (cmsgAppendTime m)) c1 else c1)))"

definition consume_once :: "'h hist_ops \<Rightarrow> 'st endpoints \<Rightarrow> ('k, 'c, 'wr, 'rd) kafka_lib \<Rightarrow> (nat \<Rightarrow> int \<times> int \<times> (nat \<Rightarrow> nat)) \<Rightarrow> bool \<Rightarrow>
    string \<Rightarrow> int \<Rightarrow> (('wr, 'rd) harness \<times> ('st, 'k) world) \<times> 'h exp_collector \<Rightarrow>
    ((('wr, 'rd) harness \<times> ('st, 'k) world) \<times> 'h exp_collector) option" where
  "consume_once H ep L obs ctxDone topic part s =
     (case ha_ConsumeBatch ep L topic ''exp-group'' part (fst s) of
        None \<Rightarrow> None
      | Some (Inl e, hw) \<Rightarrow> Some (hw, if ctxDone \<or> e = ErrNoMessage then snd s else xc_RecordConsumeError (snd s))
      | Some (Inr msgs, hw) \<Rightarrow> map_option (\<lambda>c. (hw, c)) (record_messages H obs msgs (snd s)))"

definition sample_loads :: "(f64 list \<Rightarrow> f64) \<Rightarrow> gotime \<Rightarrow> harness_error + metrics_snapshot \<Rightarrow> 'h exp_collector \<Rightarrow> 'h exp_collector" where
  "sample_loads stdDev now snap c =
     (case snap of
        Inl _ \<Rightarrow> c
      | Inr s \<Rightarrow> if msHasStdDev s then xc_RecordLoadStdDev now (msLoadStdDev s) c
                 else if length (msPartitionLoads s) > 0 then xc_RecordLoadSample stdDev now (msPartitionLoads s) c else c)"

subsection \<open>Draining\<close>

text \<open>Turn \<open>i\<close> of the loop reads the clock and the metrics; the result is whether the queues were seen empty, and the number of turns.\<close>

partial_function (option) drain_loop :: "(nat \<Rightarrow> gotime) \<Rightarrow> (nat \<Rightarrow> harness_error + metrics_snapshot) \<Rightarrow> gotime \<Rightarrow> nat \<Rightarrow> (bool \<times> nat) option" where
  "drain_loop now snap deadline i =
     (if \<not> now i < deadline then Some (False, i)
      else case snap i of
             Inl _ \<Rightarrow> drain_loop now snap deadline (i + 1)
           | Inr s \<Rightarrow> if sum_list (msQueueDepth s) = 0 then Some (True, i) else drain_loop now snap deadline (i + 1))"

definition drainQueues :: "gotime \<Rightarrow> (nat \<Rightarrow> gotime) \<Rightarrow> (nat \<Rightarrow> harness_error + metrics_snapshot) \<Rightarrow> int \<Rightarrow> (bool \<times> nat) option" where
  "drainQueues start now snap timeout = drain_loop now snap (start + timeout) 0"

subsection \<open>All combinations\<close>

definition failFastThreshold :: nat where "failFastThreshold = 3"

record 'r runner_state =
  rsDisabled :: "harness_mode \<Rightarrow> bool"
  rsFails :: "harness_mode \<Rightarrow> nat"
  rsResults :: "'r list"

text \<open>One run: its result, or a failure that may disable the mode.\<close>

definition settle :: "harness_mode \<Rightarrow> 'r option \<Rightarrow> 'r runner_state \<Rightarrow> 'r runner_state" where
  "settle mode res s =
     (case res of
        Some r \<Rightarrow> s\<lparr>rsFails := (rsFails s)(mode := 0), rsResults := rsResults s @ [r]\<rparr>
      | None \<Rightarrow> (let n = rsFails s mode + 1; s1 = s\<lparr>rsFails := (rsFails s)(mode := n)\<rparr>
                 in if n \<ge> failFastThreshold then s1\<lparr>rsDisabled := (rsDisabled s1)(mode := True)\<rparr> else s1))"

fun run_algorithms :: "(scenario \<Rightarrow> algorithm_config \<Rightarrow> harness_mode \<Rightarrow> 'r option) \<Rightarrow> scenario \<Rightarrow> harness_mode \<Rightarrow> algorithm_config list \<Rightarrow>
    'r runner_state \<Rightarrow> 'r runner_state" where
  "run_algorithms run sc mode [] s = s"
| "run_algorithms run sc mode (a # as) s =
     (if rsDisabled s mode then s else run_algorithms run sc mode as (settle mode (run sc a mode) s))"

fun run_modes :: "(scenario \<Rightarrow> algorithm_config \<Rightarrow> harness_mode \<Rightarrow> 'r option) \<Rightarrow> (scenario \<Rightarrow> 'r option) \<Rightarrow> scenario \<Rightarrow> algorithm_config list \<Rightarrow>
    harness_mode list \<Rightarrow> 'r runner_state \<Rightarrow> 'r runner_state" where
  "run_modes run kafka sc algs [] s = s"
| "run_modes run kafka sc algs (m # ms) s =
     run_modes run kafka sc algs ms
       (if rsDisabled s m then s
        else if m = ModeKafka then settle m (kafka sc) s else run_algorithms run sc m algs s)"

fun run_scenarios :: "(scenario \<Rightarrow> algorithm_config \<Rightarrow> harness_mode \<Rightarrow> 'r option) \<Rightarrow> (scenario \<Rightarrow> 'r option) \<Rightarrow> algorithm_config list \<Rightarrow>
    harness_mode list \<Rightarrow> scenario list \<Rightarrow> 'r runner_state \<Rightarrow> 'r runner_state" where
  "run_scenarios run kafka algs modes [] s = s"
| "run_scenarios run kafka algs modes (sc # scs) s =
     run_scenarios run kafka algs modes scs (run_modes run kafka sc algs modes (s\<lparr>rsFails := \<lambda>_. 0\<rparr>))"

definition RunAll :: "(scenario \<Rightarrow> algorithm_config \<Rightarrow> harness_mode \<Rightarrow> 'r option) \<Rightarrow> (scenario \<Rightarrow> 'r option) \<Rightarrow> algorithm_config list \<Rightarrow>
    harness_mode list \<Rightarrow> scenario list \<Rightarrow> 'r list" where
  "RunAll run kafka algs modes scs =
     rsResults (run_scenarios run kafka algs modes scs \<lparr>rsDisabled = \<lambda>_. False, rsFails = \<lambda>_. 0, rsResults = []\<rparr>)"

subsection \<open>Every message is counted\<close>

definition accounted :: "'h exp_collector \<Rightarrow> nat" where
  "accounted c = xcProduced c + xcPublishThrottled c + xcPublishErrors c"

lemma accounted_funpow [simp]:
  "accounted ((xc_RecordProduce ^^ n) c) = accounted c + n" "accounted ((xc_RecordPublishThrottled ^^ n) c) = accounted c + n"
  "accounted ((xc_RecordPublishError ^^ n) c) = accounted c + n"
  by (induction n) (simp_all add: accounted_def xc_RecordProduce_def xc_RecordPublishThrottled_def xc_RecordPublishError_def)

definition broker_env :: "'w wal_ops \<Rightarrow> 'd kv_ops \<Rightarrow> 'b balancer_ops \<Rightarrow> ('w, 's) sched_ops \<Rightarrow>
    (string \<times> string \<times> int \<Rightarrow> bool \<Rightarrow> err + 'w) \<Rightarrow> ('w, 'd, 'b, 's) broker endpoints \<times> call_context \<Rightarrow> bool" where
  "broker_env W K B S walOpen env \<longleftrightarrow>
     (\<exists>io acquire order e now fuel polls re. fst env = broker_endpoints W K B S walOpen io acquire order e now fuel polls re)"

text \<open>In the same process the broker has a balancer; then a batch cannot panic.\<close>

definition publishable :: "('wr, 'rd) harness \<times> (('w, 'd, 'b, 's) broker, 'k) world \<Rightarrow> bool" where
  "publishable hw \<longleftrightarrow> (haMode (fst hw) = ModeInProcess \<longrightarrow> rtBalancer (woBroker (snd hw)) \<noteq> None)"

lemma appendPartitionBatch_balancer: "rtBalancer (snd rb) \<noteq> None \<Longrightarrow> rtBalancer (snd (appendPartitionBatch W B io name g rb)) \<noteq> None"
  by (auto simp: appendPartitionBatch_def Let_def putPartition_def split: prod.splits option.splits sum.splits)

lemma gated_balancer: "rtBalancer (snd rb) \<noteq> None \<Longrightarrow> rtBalancer (snd (gated W B io acquire name g rb)) \<noteq> None"
  using appendPartitionBatch_balancer [of rb] by (simp add: gated_def split: option.splits)

lemma fold_snd_inv: "(\<And>x rb. P (snd rb) \<Longrightarrow> P (snd (g x rb))) \<Longrightarrow> P (snd rb) \<Longrightarrow> P (snd (fold g xs rb))"
  by (induction xs arbitrary: rb) simp_all

lemma PublishBatch_total:
  assumes "rtBalancer b \<noteq> None"
  shows "\<exists>rs b'. PublishBatch W B io acquire order name msgs b = Some (rs, b') \<and> rtBalancer b' \<noteq> None"
proof (cases "map_of (topics b) name")
  case None
  then show ?thesis using assms by (simp add: PublishBatch_def Let_def)
next
  case (Some t)
  obtain bl where bl: "rtBalancer b = Some bl" using assms by blast
  obtain res gs bl1 bpo where a: "foldl (assign_one B (ienv io) (produceNs io) name (nat (NumPartitions t)) (snapCfg b))
      (replicate (length msgs) \<lparr>rPartition = 0, rOffset = 0, rErr = None\<rparr>, [], bl, rtBackpressure b) (enumerate 0 msgs) = (res, gs, bl1, bpo)"
    by (metis prod_cases4)
  let ?b1 = "b\<lparr>rtBalancer := Some bl1, rtBackpressure := bpo\<rparr>"
  define out where "out = (if length gs = 1 then fold (appendPartitionBatch W B io name) gs (res, ?b1)
      else fold (gated W B io acquire name) (order gs) (res, ?b1))"
  have "PublishBatch W B io acquire order name msgs b = Some out"
    using Some bl by (simp add: PublishBatch_def Let_def a out_def)
  moreover have "rtBalancer (snd (fold (appendPartitionBatch W B io name) gs (res, ?b1))) \<noteq> None"
    by (rule fold_snd_inv [where P = "\<lambda>b. rtBalancer b \<noteq> None", OF appendPartitionBatch_balancer]) simp_all
  moreover have "rtBalancer (snd (fold (gated W B io acquire name) (order gs) (res, ?b1))) \<noteq> None"
    by (rule fold_snd_inv [where P = "\<lambda>b. rtBalancer b \<noteq> None", OF gated_balancer]) simp_all
  ultimately have "PublishBatch W B io acquire order name msgs b = Some out \<and> rtBalancer (snd out) \<noteq> None" by (simp add: out_def)
  then show ?thesis by (cases out) auto
qed

lemma mode_recordPartition [simp]: "haMode (recordPartition p h) = haMode h"
  by (simp add: recordPartition_def)

lemma mode_fold_recordPartition [simp]: "haMode (fold (recordPartition \<circ> f) xs h) = haMode h"
  by (induction xs arbitrary: h) simp_all

lemma mode_fold_recordPartition2 [simp]: "haMode (fold (recordPartition \<circ> f \<circ> g) xs h) = haMode h"
  by (simp add: comp_assoc)

lemma ha_PublishBatch_total:
  assumes "broker_env W K B S walOpen env" and "publishable hw"
  shows "\<exists>n e hw'. ha_PublishBatch (fst env) L (snd env) topic items hw = Some ((n, e), hw') \<and> publishable hw'"
proof -
  obtain io acquire order ev now fuel polls re where ep: "fst env = broker_endpoints W K B S walOpen io acquire order ev now fuel polls re"
    using assms(1) by (auto simp: broker_env_def)
  obtain h w where hw: "hw = (h, w)" by (cases hw)
  show ?thesis
  proof (cases "items = []")
    case False
    show ?thesis
    proof (cases "haMode h")
      case ModeInProcess
      let ?msgs = "map (\<lambda>it. NewMessage (ccNow (snd env)) (biPriority it) (biKey it) (biValue it)) items"
      obtain rs b' where "PublishBatch W B io acquire order topic ?msgs (woBroker w) = Some (rs, b')" "rtBalancer b' \<noteq> None"
        using PublishBatch_total [of "woBroker w" W B io acquire order topic ?msgs] assms(2) ModeInProcess by (auto simp: publishable_def hw)
      then show ?thesis using False ModeInProcess
        by (simp add: ha_PublishBatch_def hw ep broker_endpoints_def Let_def publishable_def)
    qed (use False in \<open>auto simp: ha_PublishBatch_def hw ep broker_endpoints_def publishable_def split: prod.split sum.split option.split\<close>)
  qed (use assms(2) in \<open>auto simp: ha_PublishBatch_def hw\<close>)
qed

lemma flush_accounts:
  assumes "broker_env W K B S walOpen env" and "publishable (pstWorld p)"
  shows "\<exists>p'. flush L topic env p = Some p' \<and> publishable (pstWorld p') \<and> pstBatch p' = [] \<and>
    accounted (pstCollector p') = accounted (pstCollector p) + length (pstBatch p)"
proof (cases "pstBatch p = []")
  case False
  obtain n e hw where r: "ha_PublishBatch (fst env) L (snd env) topic (pstBatch p) (pstWorld p) = Some ((n, e), hw)" "publishable hw"
    using ha_PublishBatch_total [OF assms] by blast
  have "n \<le> length (pstBatch p) \<and> (n < length (pstBatch p) \<longrightarrow> e \<noteq> None)"
    using assms(1) r(1) ha_PublishBatch_complete by (cases "pstWorld p"; cases hw) (fastforce simp: broker_env_def)
  then show ?thesis using r False by (auto simp: flush_def Let_def split: option.split)
qed (use assms(2) in \<open>simp add: flush_def\<close>)

lemma flush_full_accounts:
  assumes "broker_env W K B S walOpen env" and "publishable (pstWorld p)"
  shows "\<exists>p'. flush_full L topic target env (add_item it p) = Some p' \<and> publishable (pstWorld p') \<and>
    accounted (pstCollector p') + length (pstBatch p') = accounted (pstCollector p) + length (pstBatch p) + 1"
proof (cases "pstBytes (add_item it p) \<ge> target")
  case True
  have "publishable (pstWorld (add_item it p))" using assms(2) by (simp add: add_item_def)
  from flush_accounts [OF assms(1) this, of L topic] show ?thesis using True by (auto simp: flush_full_def) (simp add: add_item_def)
next
  case False
  then show ?thesis using assms(2) by (simp add: flush_full_def) (simp add: add_item_def)
qed

lemma unlimited_accounts:
  assumes "\<And>i. broker_env W K B S walOpen (envs i)" and "publishable (pstWorld p)"
  shows "\<exists>p'. runUnlimitedProducer L topic target envs its p = Some p' \<and> pstBatch p' = [] \<and>
    accounted (pstCollector p') = accounted (pstCollector p) + length (pstBatch p) + length its"
  using assms(2)
proof (induction its arbitrary: p)
  case Nil
  then show ?case using flush_accounts [OF assms(1)] by fastforce
next
  case (Cons it its)
  obtain p1 where "flush_full L topic target (envs (length its + 1)) (add_item it p) = Some p1" "publishable (pstWorld p1)"
    "accounted (pstCollector p1) + length (pstBatch p1) = accounted (pstCollector p) + length (pstBatch p) + 1"
    using flush_full_accounts [OF assms(1) Cons.prems] by blast
  then show ?case using Cons.IH [of p1] by auto
qed

text \<open>The items a rate-limited producer generates: up to the pause that ends with the context.\<close>

fun generated :: "(batch_item \<times> wake) list \<Rightarrow> nat" where
  "generated [] = 0"
| "generated ((it, wk) # its) = (if wk = CtxDone then 1 else Suc (generated its))"

lemma limited_accounts:
  assumes "\<And>i j. broker_env W K B S walOpen (envs i j)" and "publishable (pstWorld p)"
  shows "\<exists>p'. runRateLimitedProducer L topic target envs its p = Some p' \<and> pstBatch p' = [] \<and>
    accounted (pstCollector p') = accounted (pstCollector p) + length (pstBatch p) + generated its"
  using assms(2)
proof (induction its arbitrary: p)
  case Nil
  then show ?case using flush_accounts [OF assms(1)] by fastforce
next
  case (Cons x its)
  obtain it wk where x: "x = (it, wk)" by (cases x)
  obtain p1 where p1: "flush_full L topic target (envs (length its + 1) False) (add_item it p) = Some p1" "publishable (pstWorld p1)"
    "accounted (pstCollector p1) + length (pstBatch p1) = accounted (pstCollector p) + length (pstBatch p) + 1"
    using flush_full_accounts [OF assms(1) Cons.prems] by blast
  obtain p2 where p2: "flush L topic (envs (length its + 1) True) p1 = Some p2" "publishable (pstWorld p2)" "pstBatch p2 = []"
    "accounted (pstCollector p2) = accounted (pstCollector p1) + length (pstBatch p1)"
    using flush_accounts [OF assms(1) p1(2)] by blast
  show ?case using p1 p2 Cons.IH [of p1] Cons.IH [of p2] by (cases wk) (auto simp: x)
qed

text \<open>
  No message of an experiment is lost from the statistics. A producer that has generated its messages over any mode of the harness, however
  the broker answers each batch, ends without a panic and with an empty batch, and has counted every message exactly once as produced, throttled or failed; this holds
  for the unlimited producer and for the rate-limited one with its linger timer.
\<close>

lemma Producer_accounts:
  assumes "\<And>i. broker_env W K B S walOpen (envs i)" and "\<And>i j. broker_env W K B S walOpen (envs' i j)"
    and "publishable (pstWorld p)" and "pstBatch p = []"
  shows "(\<exists>p'. runUnlimitedProducer L topic target envs its p = Some p' \<and> pstBatch p' = [] \<and>
      accounted (pstCollector p') = accounted (pstCollector p) + length its) \<and>
    (\<exists>p'. runRateLimitedProducer L topic target envs' wakes p = Some p' \<and> pstBatch p' = [] \<and>
      accounted (pstCollector p') = accounted (pstCollector p) + generated wakes)"
  using unlimited_accounts [OF assms(1,3), where L = L and topic = topic and target = target and its = its]
    limited_accounts [OF assms(2,3), where L = L and topic = topic and target = target and its = wakes] assms(4) by simp

definition sampleKafka :: "(unit, unit, unit, unit) kafka_lib" where
  "sampleKafka = \<lparr>klDial = \<lambda>_ k. (Inr (), k), klController = \<lambda>_ k. (Inr [], k), klCreateTopics = \<lambda>_ _ _ k. (None, k),
     klDeleteTopics = \<lambda>_ _ k. (None, k), klNewWriter = \<lambda>_ _. (), klWriteMessages = \<lambda>_ _ k. (None, (), k), klCloseWriter = \<lambda>_ k. k,
     klNewReader = \<lambda>_ _ _ _. (), klReadMessage = \<lambda>_ k. (Inl (OtherKafkaError 0), (), k), klCloseReader = \<lambda>_ k. k\<rparr>"

definition sampleHarness :: "(unit, unit) harness" where
  "sampleHarness = \<lparr>haMode = ModeInProcess, haHasApp = True, haExternal = False, haManagedTopic = [], haBrokerAddr = [],
     haHttpBrokerAddr = [], haKafka = kh_New [], haPartitionCounts = []\<rparr>"

definition sampleCall :: "(list_wal, (string \<times> bytes) list, round_robin, unit) broker endpoints \<times> call_context" where
  "sampleCall = (broker_endpoints listWal listKV RoundRobin (FIFO listWal) sampleOpen sampleIO (\<lambda>_. None) id (ienv sampleIO) 7 10 [] None,
     \<lparr>ccDone = \<lambda>_. False, ccNow = 7\<rparr>)"

definition sampleProducerState :: "(int list, (list_wal, (string \<times> bytes) list, round_robin, unit) broker, unit, unit, unit) producer_state" where
  "sampleProducerState = \<lparr>pstBatch = [], pstBytes = 0, pstWorld = (sampleHarness, \<lparr>woBroker = sampleBroker sampleRR, woKafka = ()\<rparr>),
     pstCollector = NewExpCollector listHist\<rparr>"

text \<open>In gRPC mode a batch with some failed messages is counted as produced as a whole.\<close>

lemma grpc_partial_batch_overcounts:
  assumes "fst env = broker_endpoints W K B S walOpen io acquire order e now fuel polls re" and "haMode h = ModeGRPC" and "items \<noteq> []"
    and "PublishBatch W B io acquire order topic
      (map (\<lambda>it. wire_message now (biKey it) (biValue it) (ucast (biPriority it))) items) (woBroker w) = Some (results, b')"
    and "\<not> allFailed results"
  shows "\<exists>h'. ha_PublishBatch (fst env) L (snd env) topic items (h, w) = Some ((length items, None), h', w\<lparr>woBroker := b'\<rparr>)"
proof -
  let ?msgs = "map (\<lambda>it. \<lparr>pmKey = biKey it, pmValue = biValue it, pmPriority = ucast (biPriority it) :: u32\<rparr>) items"
  let ?req = "\<lparr>prTopic = topic, prKey = [], prValue = [], prPriority = 0, prMessages = ?msgs\<rparr>"
  have "Produce W B io acquire order now ?req (woBroker w) =
      (Inr \<lparr>respPartition = 0, respOffset = 0, respResults = map wire_result results\<rparr>, b')"
    using assms(3-5) by (simp add: Produce_def produceBatch_def Let_def comp_def split: option.split)
  then have "clientProduceBatch (Produce W B io acquire order now) (ccDone (snd env)) topic ?msgs (woBroker w) = (Inr (map wire_result results), b')"
    by (simp add: clientProduceBatch_def produceMaxRetries_def numeral_3_eq_3)
  then show ?thesis using assms(1-3) PublishBatch_length [OF assms(4)]
    by (simp add: ha_PublishBatch_def broker_endpoints_def)
qed

subsection \<open>Values carry their send time\<close>

text \<open>
  A message value keeps its send time: whatever payload is generated, a value of at least eight bytes encodes, has the requested
  size, and decoding it later returns the time at which it was encoded and the time passed since; a value read by a clock that is behind is rejected.
\<close>

theorem decodeLatency_encodeValue:
  assumes "8 \<le> sz" and "\<bar>now\<bar> < 2 ^ 62"
  shows "\<exists>v. encodeValue random ts sz = Some v \<and> length v = sz \<and>
    (\<bar>sint ts\<bar> < 2 ^ 62 \<longrightarrow> decodeLatency now v = (if now < sint ts then None else Some (now - sint ts, ts)))"
proof -
  let ?v = "be_put 8 ts @ drop 8 (GenerateMessage random sz)"
  have v: "encodeValue random ts sz = Some ?v" "length ?v = sz"
    using assms(1) by (simp_all add: encodeValue_def Let_def timestampPrefixBytes_def GenerateMessage_def)
  have "take 8 ?v = be_put 8 ts" by simp
  then have g: "(be_get (take 8 ?v) :: i64) = ts" using be_get_put [of 8 ts] by simp
  have "since now ts = now - sint ts" if "\<bar>sint ts\<bar> < 2 ^ 62" using that assms(2) by (simp add: since_def min_def max_def abs_less_iff)
  then have "\<bar>sint ts\<bar> < 2 ^ 62 \<longrightarrow> decodeLatency now ?v = (if now < sint ts then None else Some (now - sint ts, ts))"
    using v(2) assms(1) g by (simp add: decodeLatency_def Let_def timestampPrefixBytes_def)
  then show ?thesis using v by blast
qed

theorem decodeLatency_encodeValue_witness:
  "\<exists>v. encodeValue (\<lambda>_. 7) 1000 10 = Some v \<and> decodeLatency 1500 v = Some (500, 1000) \<and> decodeLatency 900 v = None"
proof -
  obtain v where v: "encodeValue (\<lambda>_. 7) 1000 10 = Some v" "decodeLatency 1500 v = Some (500, 1000)"
    using decodeLatency_encodeValue [of 10 1500 "\<lambda>_. 7" 1000] by auto
  moreover have "decodeLatency 900 v = None" using decodeLatency_encodeValue [of 10 900 "\<lambda>_. 7" 1000] v(1) by auto
  ultimately show ?thesis by blast
qed

subsection \<open>Every fetched message is counted\<close>

definition collector_ok :: "'h exp_collector \<Rightarrow> bool" where
  "collector_ok c \<longleftrightarrow> length (xcShards c) = 16 \<and> list_all sampler_ok (xcByPriority c)"

lemma RecordConsume_counts:
  assumes "xc_RecordConsumeWithPriority H pick prio l c = Some c'"
  shows "xcConsumed c' = xcConsumed c + 1" "xcConsumeErrors c' = xcConsumeErrors c" "accounted c' = accounted c"
  using assms by (auto simp: xc_RecordConsumeWithPriority_def Let_def accounted_def split: if_splits)

lemma RecordConsume_ok:
  assumes ok: "collector_ok c" and "\<forall>n > 0. pick n < n"
  shows "\<exists>c'. xc_RecordConsumeWithPriority H pick prio l c = Some c' \<and> collector_ok c'"
proof (cases "unat prio < length (xcByPriority c)")
  case True
  then have "sampler_ok (xcByPriority c ! unat prio)" using ok by (simp add: collector_ok_def list_all_length)
  then obtain s where "ps_record pick l (xcByPriority c ! unat prio) = Some s" "sampler_ok s"
    by (rule ps_record_spec [of _ pick l]) (use assms(2) in simp_all)
  moreover have "xcShards c \<noteq> []" using ok by (auto simp: collector_ok_def)
  ultimately show ?thesis using True ok
    by (simp add: xc_RecordConsumeWithPriority_def Let_def collector_ok_def list_all_length nth_list_update)
next
  case False
  moreover have "xcShards c \<noteq> []" using ok by (auto simp: collector_ok_def)
  ultimately show ?thesis using ok by (simp add: xc_RecordConsumeWithPriority_def Let_def collector_ok_def)
qed

lemma record_messages_counts:
  assumes "collector_ok c" and "\<And>i n. n > 0 \<Longrightarrow> snd (snd (obs i)) n < n"
  shows "\<exists>c'. record_messages H obs msgs c = Some c' \<and> collector_ok c' \<and> accounted c' = accounted c \<and>
    xcConsumed c' + xcConsumeErrors c' = xcConsumed c + xcConsumeErrors c + length msgs"
  using assms(1)
proof (induction msgs arbitrary: c)
  case (Cons m ms)
  obtain now now' pick where o: "obs (length ms) = (now, now', pick)" by (metis prod_cases3)
  show ?case
  proof (cases "decodeLatency now (cmsgValue m)")
    case None
    have "collector_ok (xc_RecordConsumeError c)" "accounted (xc_RecordConsumeError c) = accounted c"
      using Cons.prems by (simp_all add: xc_RecordConsumeError_def collector_ok_def accounted_def)
    then show ?thesis using Cons.IH [of "xc_RecordConsumeError c"] None o by (auto simp: xc_RecordConsumeError_def)
  next
    case (Some x)
    obtain l t where x: "x = (l, t)" by (cases x)
    have "\<forall>n > 0. pick n < n" using assms(2) [of _ "length ms"] o by simp
    then obtain c1 where c1: "xc_RecordConsumeWithPriority H pick (cmsgPriority m) l c = Some c1" "collector_ok c1"
      using RecordConsume_ok [OF Cons.prems] by blast
    let ?c2 = "if sint (cmsgProduceTime m) > 0
      then xc_RecordConsumeMultiStage H now' (sint t) (sint (cmsgProduceTime m)) (sint (cmsgAppendTime m)) c1 else c1"
    have "collector_ok ?c2" "xcConsumed ?c2 = xcConsumed c1" "xcConsumeErrors ?c2 = xcConsumeErrors c1" "accounted ?c2 = accounted c1"
      using c1 by (simp_all add: xc_RecordConsumeMultiStage_def collector_ok_def accounted_def)
    then show ?thesis using Cons.IH [of ?c2] RecordConsume_counts [OF c1(1)] c1(1) Some x o by auto
  qed
qed simp

subsection \<open>Draining ends\<close>

lemma drain_loop_ends:
  assumes "i \<le> n" and "deadline \<le> now n"
  shows "\<exists>r k. drain_loop now snap deadline i = Some (r, k) \<and> k \<le> n \<and>
    (if r then now k < deadline \<and> (\<exists>s. snap k = Inr s \<and> sum_list (msQueueDepth s) = 0) else deadline \<le> now k)"
  using assms(1)
proof (induction rule: inc_induct)
  case base
  then show ?case using assms(2) by (subst drain_loop.simps) auto
next
  case (step i)
  show ?case
  proof (cases "now i < deadline \<and> (\<forall>s. snap i = Inr s \<longrightarrow> sum_list (msQueueDepth s) \<noteq> 0)")
    case True
    then have "drain_loop now snap deadline i = drain_loop now snap deadline (Suc i)"
      by (subst drain_loop.simps) (cases "snap i"; simp)
    then show ?thesis using step.IH by simp
  next
    case False
    then show ?thesis using step.hyps by (subst drain_loop.simps) (cases "snap i"; auto)
  qed
qed

text \<open>
  C22: draining between runs ends. If a turn of the loop takes at least its sleep of 50 ms, the loop returns, after at most one turn
  per 50 ms of the timeout and one more; it reports empty queues exactly when a turn before the deadline read metrics with no messages queued, and otherwise returns only
  when the deadline has passed.
\<close>

theorem drainQueues_terminates:
  assumes "\<And>i. now (Suc i) \<ge> now i + 50 * millisecond" and "start \<le> now 0" and "0 \<le> timeout"
  shows "\<exists>r k. drainQueues start now snap timeout = Some (r, k) \<and> int k \<le> timeout div (50 * millisecond) + 1 \<and>
    (if r then now k < start + timeout \<and> (\<exists>s. snap k = Inr s \<and> sum_list (msQueueDepth s) = 0) else start + timeout \<le> now k)"
proof -
  define n where "n = nat (timeout div (50 * millisecond)) + 1"
  have t: "now 0 + int i * (50 * millisecond) \<le> now i" for i
  proof (induction i)
    case (Suc i)
    then show ?case using assms(1) [of i] by (simp add: algebra_simps)
  qed simp
  have "timeout < (timeout div (50 * millisecond) + 1) * (50 * millisecond)"
    using pos_mod_bound [of "50 * millisecond" timeout] div_mult_mod_eq [of timeout "50 * millisecond"]
    by (simp add: algebra_simps millisecond_def)
  moreover have "int n = timeout div (50 * millisecond) + 1"
    using assms(3) by (simp add: n_def pos_imp_zdiv_nonneg_iff millisecond_def)
  ultimately have "start + timeout \<le> now n" using t [of n] assms(2) by simp
  then obtain r k where r: "drain_loop now snap (start + timeout) 0 = Some (r, k)" "k \<le> n"
    "if r then now k < start + timeout \<and> (\<exists>s. snap k = Inr s \<and> sum_list (msQueueDepth s) = 0) else start + timeout \<le> now k"
    using drain_loop_ends [of 0 n "start + timeout" now snap] by blast
  moreover have "int k \<le> timeout div (50 * millisecond) + 1" using r(2) \<open>int n = _\<close> by simp
  ultimately show ?thesis unfolding drainQueues_def by blast
qed

theorem drainQueues_terminates_witness:
  "\<exists>r k. drainQueues 0 (\<lambda>i. int i * (50 * millisecond)) (\<lambda>_. Inr (emptySnapshot\<lparr>msQueueDepth := [1]\<rparr>)) (200 * millisecond) = Some (r, k) \<and> \<not> r"
proof -
  obtain r k where "drainQueues 0 (\<lambda>i. int i * (50 * millisecond)) (\<lambda>_. Inr (emptySnapshot\<lparr>msQueueDepth := [1]\<rparr>)) (200 * millisecond) = Some (r, k)"
    "r \<longrightarrow> (\<exists>s. Inr (emptySnapshot\<lparr>msQueueDepth := [1]\<rparr>) = (Inr s :: harness_error + metrics_snapshot) \<and> sum_list (msQueueDepth s) = 0)"
    using drainQueues_terminates [of "\<lambda>i. int i * (50 * millisecond)" 0 "200 * millisecond" "\<lambda>_. Inr (emptySnapshot\<lparr>msQueueDepth := [1]\<rparr>)"]
    by (auto simp: algebra_simps millisecond_def split: if_splits)
  then show ?thesis by auto
qed

subsection \<open>Which combinations are run\<close>

text \<open>What the runs of a mode return, in order, and that no three in a row fail, with \<open>k\<close> failures before.\<close>

definition outcomes :: "(scenario \<Rightarrow> algorithm_config \<Rightarrow> harness_mode \<Rightarrow> 'r option) \<Rightarrow> (scenario \<Rightarrow> 'r option) \<Rightarrow> algorithm_config list \<Rightarrow>
    scenario \<Rightarrow> harness_mode \<Rightarrow> 'r option list" where
  "outcomes run kafka algs sc m = (if m = ModeKafka then [kafka sc] else map (\<lambda>a. run sc a m) algs)"

fun calm :: "nat \<Rightarrow> 'r option list \<Rightarrow> bool" where
  "calm k [] \<longleftrightarrow> True"
| "calm k (Some r # xs) \<longleftrightarrow> calm 0 xs"
| "calm k (None # xs) \<longleftrightarrow> k + 1 < failFastThreshold \<and> calm (k + 1) xs"

lemma calm_iff:
  "k < 3 \<Longrightarrow> calm k xs \<longleftrightarrow> \<not> (\<exists>i. i + 2 < length (replicate k None @ xs) \<and> (\<forall>j < 3. (replicate k None @ xs) ! (i + j) = None))"
proof (induction k xs rule: calm.induct)
  case (1 k)
  then show ?case by auto
next
  case (2 k r xs)
  have "(\<exists>i. i + 2 < length (replicate k None @ Some r # xs) \<and> (\<forall>j < 3. (replicate k None @ Some r # xs) ! (i + j) = None)) \<longleftrightarrow>
      (\<exists>i. i + 2 < length xs \<and> (\<forall>j < 3. xs ! (i + j) = None))" (is "?l \<longleftrightarrow> ?r")
  proof
    assume ?l
    then obtain i where i: "i + 2 < length (replicate k None @ Some r # xs)" "\<forall>j < 3. (replicate k None @ Some r # xs) ! (i + j) = None" by blast
    have "k < i"
    proof (rule ccontr)
      assume "\<not> k < i"
      then have "k - i < 3" "i + (k - i) = k" using 2(2) by simp_all
      then have "(replicate k None @ Some r # xs) ! k = None" using i(2) by metis
      then show False by (simp add: nth_append)
    qed
    then show ?r using i by (intro exI [of _ "i - k - 1"]) (auto simp: nth_append nth_Cons')
  next
    assume ?r
    then obtain i where "i + 2 < length xs" "\<forall>j < 3. xs ! (i + j) = None" by blast
    then show ?l by (intro exI [of _ "i + k + 1"]) (auto simp: nth_append)
  qed
  then show ?case using 2 by simp
next
  case (3 k xs)
  show ?case
  proof (cases "k + 1 < 3")
    case True
    then show ?thesis using 3 by (simp add: failFastThreshold_def replicate_app_Cons_same)
  next
    case False
    then have k: "k = 2" using 3(2) by simp
    have "\<exists>i. i + 2 < length (replicate 2 None @ None # xs) \<and> (\<forall>j < 3. (replicate 2 None @ None # xs) ! (i + j) = None)"
      by (rule exI [of _ 0]) (simp add: numeral_2_eq_2 numeral_3_eq_3 All_less_Suc)
    then show ?thesis unfolding k by (simp add: failFastThreshold_def)
  qed
qed

lemma settle_Some [simp]: "settle m (Some r) s = s\<lparr>rsFails := (rsFails s)(m := 0), rsResults := rsResults s @ [r]\<rparr>"
  by (simp add: settle_def)

lemma settle_None: "rsFails s m + 1 < failFastThreshold \<Longrightarrow> settle m None s = s\<lparr>rsFails := (rsFails s)(m := rsFails s m + 1)\<rparr>"
  by (simp add: settle_def Let_def)

lemma run_algorithms_calm:
  assumes "\<not> rsDisabled s m" and "calm (rsFails s m) (map (\<lambda>a. run sc a m) algs)"
  shows "rsDisabled (run_algorithms run sc m algs s) = rsDisabled s \<and>
    (\<forall>m'. m' \<noteq> m \<longrightarrow> rsFails (run_algorithms run sc m algs s) m' = rsFails s m') \<and>
    rsResults (run_algorithms run sc m algs s) = rsResults s @ List.map_filter (\<lambda>a. run sc a m) algs"
  using assms
proof (induction algs arbitrary: s)
  case (Cons a algs)
  show ?case
  proof (cases "run sc a m")
    case None
    then have "rsFails s m + 1 < failFastThreshold" "calm (rsFails s m + 1) (map (\<lambda>a. run sc a m) algs)" using Cons.prems by simp_all
    then show ?thesis using Cons.IH [of "settle m None s"] Cons.prems(1) None by (simp add: settle_None map_filter_simps)
  next
    case (Some r)
    then show ?thesis using Cons.IH [of "settle m (Some r) s"] Cons.prems by (simp add: map_filter_simps)
  qed
qed (simp add: map_filter_simps)

lemma run_modes_calm:
  assumes "distinct ms" and "\<forall>m\<in>set ms. rsFails s m = 0" and "\<forall>m. \<not> rsDisabled s m"
    and "\<forall>m\<in>set ms. m \<noteq> ModeKafka \<longrightarrow> calm 0 (map (\<lambda>a. run sc a m) algs)"
  shows "(\<forall>m. \<not> rsDisabled (run_modes run kafka sc algs ms s) m) \<and>
    rsResults (run_modes run kafka sc algs ms s) = rsResults s @ concat (map (\<lambda>m. List.map_filter id (outcomes run kafka algs sc m)) ms)"
  using assms
proof (induction ms arbitrary: s)
  case (Cons m ms)
  define s1 where "s1 = (if m = ModeKafka then settle m (kafka sc) s else run_algorithms run sc m algs s)"
  have "(\<forall>m. \<not> rsDisabled s1 m) \<and> (\<forall>m'. m' \<noteq> m \<longrightarrow> rsFails s1 m' = rsFails s m') \<and>
      rsResults s1 = rsResults s @ List.map_filter id (outcomes run kafka algs sc m)"
  proof (cases "m = ModeKafka")
    case True
    then show ?thesis using Cons.prems(2,3)
      by (cases "kafka sc") (simp_all add: s1_def settle_None failFastThreshold_def outcomes_def map_filter_simps)
  next
    case False
    then show ?thesis using run_algorithms_calm [of s m run sc algs] Cons.prems(2-4)
      by (simp add: s1_def outcomes_def map_filter_def comp_def filter_map)
  qed
  moreover from this have "\<forall>m'\<in>set ms. rsFails s1 m' = 0" using Cons.prems(1,2) by (metis distinct.simps(2) list.set_intros(2))
  moreover have "run_modes run kafka sc algs (m # ms) s = run_modes run kafka sc algs ms s1" using Cons.prems(3) by (simp add: s1_def)
  ultimately show ?case using Cons.IH [of s1] Cons.prems by (simp add: id_def)
qed simp

text \<open>
  C23: an experiment is complete unless a mode keeps failing. If in no scenario three consecutive algorithms fail in the same mode, every combination of scenario, mode
  and algorithm is run, and the results are those of all successful runs in the order of the loops; the Kafka runs are complete in any case.
\<close>

theorem RunAll_complete:
  assumes "distinct modes"
    and "\<forall>sc\<in>set scs. \<forall>m\<in>set modes - {ModeKafka}.
      \<not> (\<exists>i. i + 2 < length algs \<and> (\<forall>j < 3. run sc (algs ! (i + j)) m = None))"
  shows "RunAll run kafka algs modes scs =
    concat (map (\<lambda>sc. concat (map (\<lambda>m. List.map_filter id (outcomes run kafka algs sc m)) modes)) scs)"
proof -
  have c: "calm 0 (map (\<lambda>a. run sc a m) algs)" if "sc \<in> set scs" "m \<in> set modes" "m \<noteq> ModeKafka" for sc m
  proof -
    { fix i assume i: "i + 2 < length algs" "\<forall>j < 3. map (\<lambda>a. run sc a m) algs ! (i + j) = None"
      have "\<forall>j < 3. run sc (algs ! (i + j)) m = None"
      proof (intro allI impI)
        fix j :: nat assume "j < 3"
        then show "run sc (algs ! (i + j)) m = None" using i nth_map [of "i + j" algs "\<lambda>a. run sc a m"] by auto
      qed
      then have False using assms(2) that i(1) by blast }
    moreover have "calm 0 xs \<longleftrightarrow> \<not> (\<exists>i. i + 2 < length xs \<and> (\<forall>j < 3. xs ! (i + j) = None))" for xs :: "'a option list"
      using calm_iff [of 0 xs] by simp
    ultimately show ?thesis by (metis (no_types, lifting) length_map)
  qed
  have "rsResults (run_scenarios run kafka algs modes scs' s) =
      rsResults s @ concat (map (\<lambda>sc. concat (map (\<lambda>m. List.map_filter id (outcomes run kafka algs sc m)) modes)) scs')"
    if "set scs' \<subseteq> set scs" "\<forall>m. \<not> rsDisabled s m" for scs' s
    using that
  proof (induction scs' arbitrary: s)
    case (Cons sc scs')
    have "(\<forall>m. \<not> rsDisabled (run_modes run kafka sc algs modes (s\<lparr>rsFails := \<lambda>_. 0\<rparr>)) m) \<and>
        rsResults (run_modes run kafka sc algs modes (s\<lparr>rsFails := \<lambda>_. 0\<rparr>)) =
          rsResults s @ concat (map (\<lambda>m. List.map_filter id (outcomes run kafka algs sc m)) modes)"
      using run_modes_calm [OF assms(1), of "s\<lparr>rsFails := \<lambda>_. 0\<rparr>" run sc algs kafka] c Cons.prems by simp
    then show ?case using Cons.IH [of "run_modes run kafka sc algs modes (s\<lparr>rsFails := \<lambda>_. 0\<rparr>)"] Cons.prems by (simp add: id_def)
  qed simp
  from this [of scs "\<lparr>rsDisabled = \<lambda>_. False, rsFails = \<lambda>_. 0, rsResults = []\<rparr>"] show ?thesis by (simp add: RunAll_def)
qed

theorem RunAll_complete_witness:
  "RunAll (\<lambda>sc a m. if alName a = ''P2C+FIFO'' then None else Some (scnName sc, alName a)) (\<lambda>sc. None) AllAlgorithms [ModeInProcess, ModeKafka] [Uniform] =
     [(''uniform'', ''RR+FIFO''), (''uniform'', ''PSA+FIFO''), (''uniform'', ''DQN+Priority''), (''uniform'', ''DQN+DDPG'')]"
proof -
  have "\<not> (\<exists>i. i + 2 < length AllAlgorithms \<and>
      (\<forall>j < 3. (if alName (AllAlgorithms ! (i + j)) = ''P2C+FIFO'' then None else Some (x, alName (AllAlgorithms ! (i + j)))) = None))" for x :: string
  proof
    assume "\<exists>i. i + 2 < length AllAlgorithms \<and>
      (\<forall>j < 3. (if alName (AllAlgorithms ! (i + j)) = ''P2C+FIFO'' then None else Some (x, alName (AllAlgorithms ! (i + j)))) = None)"
    moreover have "length AllAlgorithms = 5" by (simp add: AllAlgorithms_def)
    ultimately obtain i where i: "i + 2 < 5" "\<forall>j < 3. alName (AllAlgorithms ! (i + j)) = ''P2C+FIFO''"
      by (metis option.distinct(1))
    have "alName (AllAlgorithms ! i) = ''P2C+FIFO''" "alName (AllAlgorithms ! (i + 1)) = ''P2C+FIFO''" using i(2) [rule_format, of 0] i(2) [rule_format, of 1] by simp_all
    moreover have "i = 0 \<or> i = 1 \<or> i = 2" using i(1) by auto
    ultimately show False by (auto simp: AllAlgorithms_def)
  qed
  then show ?thesis
    using RunAll_complete [of "[ModeInProcess, ModeKafka]" "[Uniform]" AllAlgorithms
        "\<lambda>sc a m. if alName a = ''P2C+FIFO'' then None else Some (scnName sc, alName a)" "\<lambda>sc. None"]
    by (simp add: outcomes_def AllAlgorithms_def map_filter_def Uniform_def)
qed

end
