(* ===== verification/App.thy ===== *)
theory App
  imports BrokerInv Optimizer
begin

text \<open>
  The application that wires the parts together, \<^verbatim>\<open>internal/app/app.go\<close> and \<^verbatim>\<open>options.go\<close>: the options as functions on the configuration of the
  application, construction of offset store, broker, schedulers, backpressure and optimizer, start and stop. The database that has been opened, the constructors of the
  three schedulers, the networks and the results of listening on the addresses are arguments; the goroutines of the loops are not represented.

  The lemmas show that the broker of a new application is a reachable state of the broker, that it serves only after a complete start, and which options
  have no effect.
\<close>

subsection \<open>Options\<close>

record ('b, 's) app_config =
  apCfg :: config
  apDataDir :: string
  apBalancer :: 'b
  apSchedulers :: "(string \<times> 's) list"
  apGrpcAddr :: string
  apHttpAddr :: string
  apAdminAddr :: string
  apMetricsInterval :: int
  apLoadPredictor :: "(nat \<times> nat \<times> int) option"
  apBackpressure :: "(f64 \<times> int) option"
  apOptimizer :: "(tunable_param list \<times> optimizer_config \<times> pilot_data list) option"

definition WithBalancer :: "'b \<Rightarrow> ('b, 's) app_config \<Rightarrow> ('b, 's) app_config" where
  "WithBalancer bal a = a\<lparr>apBalancer := bal\<rparr>"

definition WithBalancerFactory :: "(unit \<Rightarrow> 'b) \<Rightarrow> ('b, 's) app_config \<Rightarrow> ('b, 's) app_config" where
  "WithBalancerFactory fn a = a\<lparr>apBalancer := fn ()\<rparr>"

text \<open>\<open>emb\<close> embeds one kind of balancer into the type of all balancers.\<close>

definition WithP2CBalancer :: "(p2c \<Rightarrow> 'b) \<Rightarrow> (p2c \<Rightarrow> p2c) list \<Rightarrow> ('b, 's) app_config \<Rightarrow> ('b, 's) app_config" where
  "WithP2CBalancer emb opts a = a\<lparr>apBalancer := emb (NewPowerOfTwoChoices opts)\<rparr>"

definition WithDefaultBalancer :: "(p2c \<Rightarrow> 'b) \<Rightarrow> ('b, 's) app_config \<Rightarrow> ('b, 's) app_config" where
  "WithDefaultBalancer emb = WithP2CBalancer emb []"

definition WithRoundRobinBalancer :: "(round_robin \<Rightarrow> 'b) \<Rightarrow> (round_robin \<Rightarrow> round_robin) list \<Rightarrow> ('b, 's) app_config \<Rightarrow> ('b, 's) app_config" where
  "WithRoundRobinBalancer emb opts a = a\<lparr>apBalancer := emb (NewRoundRobin opts)\<rparr>"

definition WithScheduler :: "string \<Rightarrow> 's \<Rightarrow> ('b, 's) app_config \<Rightarrow> ('b, 's) app_config" where
  "WithScheduler topic s a = a\<lparr>apSchedulers := AList.update topic s (apSchedulers a)\<rparr>"

definition WithGRPC :: "string \<Rightarrow> ('b, 's) app_config \<Rightarrow> ('b, 's) app_config" where
  "WithGRPC addr a = a\<lparr>apGrpcAddr := addr\<rparr>"

definition WithHTTP :: "string \<Rightarrow> ('b, 's) app_config \<Rightarrow> ('b, 's) app_config" where
  "WithHTTP addr a = a\<lparr>apHttpAddr := addr\<rparr>"

definition WithAdmin :: "string \<Rightarrow> ('b, 's) app_config \<Rightarrow> ('b, 's) app_config" where
  "WithAdmin addr a = a\<lparr>apAdminAddr := addr\<rparr>"

definition WithLoadPredictor :: "nat \<Rightarrow> nat \<Rightarrow> int \<Rightarrow> ('b, 's) app_config \<Rightarrow> ('b, 's) app_config" where
  "WithLoadPredictor w h interval a = a\<lparr>apLoadPredictor := Some (w, h, interval)\<rparr>"

definition WithBackpressure :: "f64 \<Rightarrow> int \<Rightarrow> ('b, 's) app_config \<Rightarrow> ('b, 's) app_config" where
  "WithBackpressure th h a = a\<lparr>apBackpressure := Some (th, h)\<rparr>"

definition WithOptimizer :: "tunable_param list \<Rightarrow> optimizer_config list \<Rightarrow> ('b, 's) app_config \<Rightarrow> ('b, 's) app_config" where
  "WithOptimizer params optCfg a =
     a\<lparr>apOptimizer := Some (params, case optCfg of c # _ \<Rightarrow> c | [] \<Rightarrow> DefaultOptimizerConfig, [])\<rparr>"

definition WithLassoPilot :: "pilot_data list \<Rightarrow> ('b, 's) app_config \<Rightarrow> ('b, 's) app_config" where
  "WithLassoPilot pilot a = a\<lparr>apOptimizer := map_option (\<lambda>(ps, c, _). (ps, c, pilot)) (apOptimizer a)\<rparr>"

definition WithMetricsInterval :: "int \<Rightarrow> ('b, 's) app_config \<Rightarrow> ('b, 's) app_config" where
  "WithMetricsInterval d a = a\<lparr>apMetricsInterval := d\<rparr>"

subsection \<open>Construction\<close>

record ('w, 'd, 'b, 's, 'n) broker_app =
  baConfig :: "('b, 's) app_config"
  baBroker :: "('w, 'd, 'b, 's) broker"
  baLoadPredictor :: "load_predictor option"
  baOptimizer :: "'n optimizer option"
  baServer :: bool
  baHttpServer :: bool
  baAdminServer :: bool
  baReady :: bool

definition default_app :: "(p2c \<Rightarrow> 'b) \<Rightarrow> config \<Rightarrow> string \<Rightarrow> ('b, 's) app_config" where
  "default_app emb cfg dir =
     \<lparr>apCfg = cfg, apDataDir = dir, apBalancer = emb (NewPowerOfTwoChoices []), apSchedulers = [], apGrpcAddr = [], apHttpAddr = [],
      apAdminAddr = [], apMetricsInterval = 0, apLoadPredictor = None, apBackpressure = None, apOptimizer = None\<rparr>"

definition commit_interval :: "config \<Rightarrow> int" where
  "commit_interval cfg =
     (if cfgSyncPolicy cfg = SyncEveryWrite then 0
      else (if FlushIntervalMs cfg \<le> 0 then 100 else FlushIntervalMs cfg) * millisecond)"

definition scheduler_factory :: "'s \<Rightarrow> 's \<Rightarrow> 's \<Rightarrow> topic_config \<Rightarrow> 's" where
  "scheduler_factory strict dqn fifo tc =
     (if ScheduleMode tc = ModeStrictPriority then strict else if ScheduleMode tc = ModeDQNAdaptive then dqn else fifo)"

definition app_broker :: "('g, 'l) compress_lib \<Rightarrow> 's \<Rightarrow> 's \<Rightarrow> 's \<Rightarrow> gotime \<Rightarrow> 'd ostore \<Rightarrow> ('b, 's) app_config \<Rightarrow> ('w, 'd, 'b, 's) broker" where
  "app_broker lib strict dqn fifo now store a =
     (let b0 = New lib (apCfg a) (apDataDir a) (Some (apBalancer a)) (Some store) now;
          b1 = SetSchedulerFactory (Some (scheduler_factory strict dqn fifo)) b0;
          b2 = fold (\<lambda>(topic, s). SetScheduler topic s) (apSchedulers a) b1
      in case apLoadPredictor a of
           None \<Rightarrow> b2
         | Some _ \<Rightarrow>
             SetBackpressure (Some (NewBackpressureController (case apBackpressure a of Some (th, _) \<Rightarrow> th | None \<Rightarrow> f_const (85 / 100)))) b2)"

definition app_New :: "'d kv_ops \<Rightarrow> (string \<Rightarrow> err + 'd) \<Rightarrow> ('g, 'l) compress_lib \<Rightarrow> (nat \<Rightarrow> nat \<Rightarrow> 'n \<times> nat list) \<Rightarrow> gonum \<Rightarrow> 's \<Rightarrow> 's \<Rightarrow> 's \<Rightarrow>
    gotime \<Rightarrow> (p2c \<Rightarrow> 'b) \<Rightarrow> config \<Rightarrow> string \<Rightarrow> (('b, 's) app_config \<Rightarrow> ('b, 's) app_config) list \<Rightarrow>
    (err + ('w, 'd, 'b, 's, 'n) broker_app) option" where
  "app_New K openDb lib mkNets G strict dqn fifo now emb cfg dir opts =
     (let a = foldl (\<lambda>c f. f c) (default_app emb cfg dir) opts
      in case NewOffsetStore K (openDb (apDataDir a)) (Some (commit_interval cfg)) of
           Inl e \<Rightarrow> Some (Inl e)
         | Inr store \<Rightarrow>
             (let b = app_broker lib strict dqn fifo now store a;
                  lp = map_option (\<lambda>(w, h, _). NewLoadPredictor w h) (apLoadPredictor a)
              in case apOptimizer a of
                   None \<Rightarrow> Some (Inr \<lparr>baConfig = a, baBroker = b, baLoadPredictor = lp, baOptimizer = None,
                                 baServer = False, baHttpServer = False, baAdminServer = False, baReady = False\<rparr>)
                 | Some (params, optCfg, pilot) \<Rightarrow>
                     map_option (\<lambda>opt. Inr \<lparr>baConfig = a, baBroker = b, baLoadPredictor = lp, baOptimizer = Some opt,
                         baServer = False, baHttpServer = False, baAdminServer = False, baReady = False\<rparr>)
                       (NewOptimizer mkNets G b params optCfg pilot)))"

subsection \<open>Start and stop\<close>

text \<open>A server is created before it listens, so one that failed to listen is still stopped later.\<close>

definition app_Start :: "(string \<Rightarrow> err option) \<Rightarrow> (string \<Rightarrow> err option) \<Rightarrow> (string \<Rightarrow> err option) \<Rightarrow>
    ('w, 'd, 'b, 's, 'n) broker_app \<Rightarrow> err option \<times> ('w, 'd, 'b, 's, 'n) broker_app" where
  "app_Start listenGrpc listenHttp listenAdmin a =
     (let c = baConfig a; grpc = apGrpcAddr c \<noteq> []; http = apHttpAddr c \<noteq> []; adm = apAdminAddr c \<noteq> [];
          a1 = a\<lparr>baServer := grpc \<or> baServer a\<rparr>
      in case (if grpc then listenGrpc (apGrpcAddr c) else None) of
           Some e \<Rightarrow> (Some e, a1)
         | None \<Rightarrow>
             (let a2 = a1\<lparr>baHttpServer := http \<or> baHttpServer a\<rparr>
              in case (if http then listenHttp (apHttpAddr c) else None) of
                   Some e \<Rightarrow> (Some e, a2)
                 | None \<Rightarrow>
                     (let a3 = a2\<lparr>baAdminServer := adm \<or> baAdminServer a\<rparr>
                      in case (if adm then listenAdmin (apAdminAddr c) else None) of
                           Some e \<Rightarrow> (Some e, a3)
                         | None \<Rightarrow> (None, a3\<lparr>baReady := True\<rparr>))))"

definition app_Stop :: "'w wal_ops \<Rightarrow> 'd kv_ops \<Rightarrow> 'b balancer_ops \<Rightarrow> ('w, 'd, 'b, 's, 'n) broker_app \<Rightarrow> ('w, 'd, 'b, 's, 'n) broker_app" where
  "app_Stop W K B a = a\<lparr>baReady := False, baBroker := Stop W K B (baBroker a)\<rparr>"

definition app_Addr :: "string \<Rightarrow> ('w, 'd, 'b, 's, 'n) broker_app \<Rightarrow> string" where
  "app_Addr bound a = (if baServer a then bound else [])"

definition app_HTTPAddr :: "string \<Rightarrow> ('w, 'd, 'b, 's, 'n) broker_app \<Rightarrow> string" where
  "app_HTTPAddr bound a = (if baHttpServer a then bound else [])"

subsection \<open>The broker of an application\<close>

lemma app_broker_reachable:
  assumes "sched_ok strict" and "sched_ok dqn" and "sched_ok fifo" and "\<forall>(t, s)\<in>set (apSchedulers a). sched_ok s"
  shows "(broker_step W K B S lib walOpen view bal_ok sched_ok)\<^sup>*\<^sup>*
    (New lib (apCfg a) (apDataDir a) (Some (apBalancer a)) (Some store) now) (app_broker lib strict dqn fifo now store a)"
proof -
  let ?step = "broker_step W K B S lib walOpen view bal_ok sched_ok"
  let ?b1 = "SetSchedulerFactory (Some (scheduler_factory strict dqn fifo)) (New lib (apCfg a) (apDataDir a) (Some (apBalancer a)) (Some store) now)"
  have f: "?step\<^sup>*\<^sup>* b (fold (\<lambda>(topic, s). SetScheduler topic s) xs b)" if "\<forall>(t, s)\<in>set xs. sched_ok s" for xs b
    using that
  proof (induction xs arbitrary: b)
    case (Cons x xs)
    obtain t s where x: "x = (t, s)" by (cases x)
    have "?step b (SetScheduler t s b)" using Cons.prems by (intro broker_step.set_scheduler) (simp add: x)
    then show ?case using Cons.IH [of "SetScheduler t s b"] Cons.prems by (simp add: x converse_rtranclp_into_rtranclp)
  qed simp
  have "?step (New lib (apCfg a) (apDataDir a) (Some (apBalancer a)) (Some store) now) ?b1"
    using assms(1-3) by (intro broker_step.set_factory) (auto simp: scheduler_factory_def)
  then have "?step\<^sup>*\<^sup>* (New lib (apCfg a) (apDataDir a) (Some (apBalancer a)) (Some store) now) (fold (\<lambda>(topic, s). SetScheduler topic s) (apSchedulers a) ?b1)"
    using f [OF assms(4), of ?b1] by (simp add: converse_rtranclp_into_rtranclp)
  then show ?thesis
    by (auto simp: app_broker_def Let_def split: option.split intro: rtranclp.rtrancl_into_rtrancl broker_step.set_backpressure)
qed

lemma app_Start_ready:
  assumes "app_Start lg lh la a = (e, a')" and "\<not> baReady a"
  shows "baReady a' \<longleftrightarrow> e = None" and "baBroker a' = baBroker a"
  using assms by (auto simp: app_Start_def Let_def split: if_splits option.splits)

subsection \<open>Options without effect\<close>

lemma SetScheduler_fields [simp]:
  "rtFactory (SetScheduler t s b) = rtFactory b" "topics (SetScheduler t s b) = topics b" "bpredictor (SetScheduler t s b) = bpredictor b"
  by (simp_all add: SetScheduler_def stopScheduler_def Let_def)

lemma fold_SetScheduler_fields [simp]:
  "rtFactory (fold (\<lambda>(t, s). SetScheduler t s) xs b) = rtFactory b" "bpredictor (fold (\<lambda>(t, s). SetScheduler t s) xs b) = bpredictor b"
  by (induction xs arbitrary: b) auto

lemma app_broker_fields:
  "rtFactory (app_broker lib strict dqn fifo now store a) = Some (scheduler_factory strict dqn fifo)"
  "bpredictor (app_broker lib strict dqn fifo now store a) = NewLoadPredictor 100 8"
  by (simp_all add: app_broker_def Let_def SetSchedulerFactory_def SetBackpressure_def New_def split: option.split)

lemma CreateTopic_scheduler:
  "rtFactory b = Some fn \<Longrightarrow> CreateTopic W walOpen t tcfg b = (None, b') \<Longrightarrow> map_of (schedulers b') t = Some (fn tcfg)"
  by (auto simp: CreateTopic_def Let_def update_conv split: sum.splits if_splits prod.splits)

text \<open>A scheduler given for a topic is replaced by the factory's when the topic is created.\<close>

lemma WithScheduler_overwritten:
  assumes "CreateTopic W walOpen t tcfg (app_broker lib strict dqn fifo now store (WithScheduler t s a)) = (None, b')"
  shows "map_of (schedulers b') t = Some (scheduler_factory strict dqn fifo tcfg)"
  using CreateTopic_scheduler [OF app_broker_fields(1) assms] .

text \<open>Without a load predictor the backpressure option is ignored; the broker never uses the predictor of the application or the metrics interval.\<close>

lemma WithBackpressure_ignored:
  "apLoadPredictor a = None \<Longrightarrow> app_broker lib strict dqn fifo now store (WithBackpressure th h a) = app_broker lib strict dqn fifo now store a"
  by (simp add: app_broker_def WithBackpressure_def)

lemma WithMetricsInterval_ignored:
  "app_broker lib strict dqn fifo now store (WithMetricsInterval d a) = app_broker lib strict dqn fifo now store a"
  by (simp add: app_broker_def WithMetricsInterval_def Let_def split: option.split)

lemma WithLassoPilot_order:
  "apOptimizer a = None \<Longrightarrow> apOptimizer (WithOptimizer ps cs (WithLassoPilot pilot a)) = apOptimizer (WithOptimizer ps cs a)"
  "apOptimizer (WithLassoPilot pilot (WithOptimizer ps cs a)) = Some (ps, case cs of c # _ \<Rightarrow> c | [] \<Rightarrow> DefaultOptimizerConfig, pilot)"
  by (simp_all add: WithOptimizer_def WithLassoPilot_def)

end
