(* ===== verification/Experiment.thy ===== *)
theory Experiment
  imports Runner App
begin

text \<open>
  One experiment, \<^verbatim>\<open>experiments/runner.go\<close> with \<^verbatim>\<open>NewHarness\<close> of \<^verbatim>\<open>harness.go\<close>: construction of the harness, preparation of the topic
  with its retries, and a scenario as the interleaving of its goroutines, each step of which is one iteration of a producer, a consumer or the sampler. Whether a connection
  can be made and a service becomes ready, the classification of network errors and \<^verbatim>\<open>backoff.Retry\<close> are arguments; what is
  documented of the latter is the hypothesis \<^verbatim>\<open>retry_law\<close>.

  The lemmas show that a run starts on a topic with the configuration and the scheduler of its scenario and algorithm, and that however the
  goroutines interleave, the result counts every message.
\<close>

subsection \<open>The harness\<close>

datatype setup_error = AppFailed err | ClientNotCreated | NotReady wait_result | DirFailed | TopicFailed harness_error | NoKafkaBrokers

text \<open>Sequencing of steps that may panic or return an error.\<close>

definition bind_ok :: "('e + 'a) option \<Rightarrow> ('a \<Rightarrow> ('e + 'c) option) \<Rightarrow> ('e + 'c) option" where
  "bind_ok m f = (case m of None \<Rightarrow> None | Some (Inl e) \<Rightarrow> Some (Inl e) | Some (Inr x) \<Rightarrow> f x)"

lemma bind_ok_Inr [simp]: "bind_ok m f = Some (Inr y) \<longleftrightarrow> (\<exists>x. m = Some (Inr x) \<and> f x = Some (Inr y))"
  by (simp add: bind_ok_def split: option.split sum.split)

text \<open>Construction and start of the application behind a harness; \<open>new\<close> is \<^const>\<open>app_New\<close> on its configuration.\<close>

definition start_app :: "((('b, 's) app_config \<Rightarrow> ('b, 's) app_config) list \<Rightarrow> (err + ('w, 'd, 'b, 's, 'n) broker_app) option) \<Rightarrow>
    (string \<Rightarrow> err option) \<Rightarrow> (('b, 's) app_config \<Rightarrow> ('b, 's) app_config) list \<Rightarrow> (setup_error + ('w, 'd, 'b, 's, 'n) broker_app) option" where
  "start_app new listen opts =
     bind_ok (map_option (map_sum AppFailed id) (new opts))
       (\<lambda>a. Some (case app_Start listen listen listen a of (Some e, _) \<Rightarrow> Inl (AppFailed e) | (None, a') \<Rightarrow> Inr a'))"

record harness_config =
  hcMode :: harness_mode
  hcKafkaBrokers :: "string list"
  hcBrokerAddr :: string
  hcHTTPBrokerAddr :: string

text \<open>
  The client of a mode: whether it can be created and what waiting for the service gives. A harness without its own application
  leaves the broker of the world as it is.
\<close>

definition NewHarness :: "((('b, 's) app_config \<Rightarrow> ('b, 's) app_config) list \<Rightarrow> (err + ('w, 'd, 'b, 's, 'n) broker_app) option) \<Rightarrow>
    (string \<Rightarrow> err option) \<Rightarrow> 'b \<Rightarrow> bool \<Rightarrow> wait_result \<Rightarrow> harness_config \<Rightarrow>
    (('w, 'd, 'b, 's) broker, 'k) world \<Rightarrow> (setup_error + ('wr, 'rd) harness \<times> (('w, 'd, 'b, 's) broker, 'k) world) option" where
  "NewHarness new listen bal dialled ready hc w =
     (let h = \<lparr>haMode = hcMode hc, haHasApp = False, haExternal = False, haManagedTopic = [], haBrokerAddr = hcBrokerAddr hc,
               haHttpBrokerAddr = hcHTTPBrokerAddr hc, haKafka = kh_New (hcKafkaBrokers hc), haPartitionCounts = []\<rparr>;
          own = (\<lambda>opts. bind_ok (start_app new listen (WithBalancerFactory (\<lambda>_. bal) # opts))
                            (\<lambda>a. Some (Inr (h\<lparr>haHasApp := True\<rparr>, w\<lparr>woBroker := baBroker a\<rparr>))));
          wait = (\<lambda>hw. Some (if ready = Ready then Inr hw else Inl (NotReady ready)));
          dial = (\<lambda>hw. if dialled then wait hw else Some (Inl ClientNotCreated));
          httpAddr = (if hcHTTPBrokerAddr hc = [] then hcBrokerAddr hc else hcHTTPBrokerAddr hc)
      in case hcMode hc of
           ModeInProcess \<Rightarrow> own []
         | ModeGRPC \<Rightarrow> if hcBrokerAddr hc \<noteq> [] then dial (h\<lparr>haExternal := True\<rparr>, w) else bind_ok (own [WithGRPC '':0'']) dial
         | ModeHTTP \<Rightarrow> if httpAddr \<noteq> [] then wait (h\<lparr>haExternal := True\<rparr>, w) else bind_ok (own [WithHTTP '':0'']) wait
         | ModeKafka \<Rightarrow> Some (Inr (h, w)))"

subsection \<open>The topic of a run\<close>

text \<open>One attempt under \<^verbatim>\<open>backoff.Retry\<close>, and what \<open>n\<close> repetitions of it give.\<close>

datatype attempt = Succeeded | Again harness_error | Permanent harness_error

fun attempts :: "('x \<Rightarrow> (attempt \<times> 'x) option) \<Rightarrow> nat \<Rightarrow> 'x \<Rightarrow> (harness_error option \<times> 'x) option" where
  "attempts f n x =
     (case f x of
        None \<Rightarrow> None
      | Some (r, x') \<Rightarrow>
          (case r of
             Succeeded \<Rightarrow> Some (None, x')
           | Permanent e \<Rightarrow> Some (Some e, x')
           | Again e \<Rightarrow> (case n of 0 \<Rightarrow> Some (Some e, x') | Suc n' \<Rightarrow> attempts f n' x')))"

declare attempts.simps [simp del]

text \<open>The documented behaviour of \<^verbatim>\<open>backoff.Retry\<close>: it repeats the operation until it succeeds, fails permanently or the time is used up.\<close>

definition retry_law :: "(('x \<Rightarrow> (attempt \<times> 'x) option) \<Rightarrow> 'x \<Rightarrow> (harness_error option \<times> 'x) option) \<Rightarrow> bool" where
  "retry_law retry \<longleftrightarrow> (\<forall>f x. \<exists>n. retry f x = attempts f n x)"

text \<open>\<^verbatim>\<open>errors.Is\<close> for an error of the broker, which the gRPC client joins to the status it received.\<close>

fun error_is :: "err \<Rightarrow> harness_error \<Rightarrow> bool" where
  "error_is t (BrokerFailed e) \<longleftrightarrow> e = t"
| "error_is t (ClientFailed (BrokerError e _)) \<longleftrightarrow> e = t"
| "error_is t _ \<longleftrightarrow> False"

definition delete_attempt :: "'st endpoints \<Rightarrow> ('k, 'c, 'wr, 'rd) kafka_lib \<Rightarrow> (harness_error \<Rightarrow> bool) \<Rightarrow> string \<Rightarrow>
    ('wr, 'rd) harness \<times> ('st, 'k) world \<Rightarrow> (attempt \<times> ('wr, 'rd) harness \<times> ('st, 'k) world) option" where
  "delete_attempt ep L isRetryableError topic hw =
     map_option (\<lambda>(e, hw'). (case e of
          None \<Rightarrow> Succeeded
        | Some x \<Rightarrow> if error_is ErrTopicNotFound x then Succeeded else if isRetryableError x then Again x else Permanent x, hw'))
       (ha_DeleteTopic ep L topic hw)"

definition create_attempt :: "'st endpoints \<Rightarrow> ('k, 'c, 'wr, 'rd) kafka_lib \<Rightarrow> (harness_error \<Rightarrow> bool) \<Rightarrow> string \<Rightarrow> topic_config \<Rightarrow>
    ('wr, 'rd) harness \<times> ('st, 'k) world \<Rightarrow> (attempt \<times> ('wr, 'rd) harness \<times> ('st, 'k) world) option" where
  "create_attempt ep L isRetryableError topic cfg hw =
     (case ha_CreateTopic ep L topic cfg hw of
        None \<Rightarrow> None
      | Some (None, hw') \<Rightarrow> Some (Succeeded, hw')
      | Some (Some x, hw') \<Rightarrow>
          if error_is ErrTopicAlreadyExists x then map_option (\<lambda>(_, hw''). (Again x, hw'')) (ha_DeleteTopic ep L topic hw')
          else Some (if isRetryableError x then Again x else Permanent x, hw'))"

definition topic_result :: "(harness_error option \<times> 'x) option \<Rightarrow> (setup_error + 'x) option" where
  "topic_result r = map_option (\<lambda>(e, x). case e of Some f \<Rightarrow> Inl (TopicFailed f) | None \<Rightarrow> Inr x) r"

lemma topic_result_Inr [simp]: "topic_result r = Some (Inr x) \<longleftrightarrow> r = Some (None, x)"
  by (cases r) (auto simp: topic_result_def split: option.splits)

text \<open>The preparation of \<^verbatim>\<open>runNyaQueue\<close> up to its first scenario; \<open>setSched\<close> is \<^const>\<open>SetScheduler\<close> on the broker of the harness.\<close>

definition prepare_topic :: "'st endpoints \<Rightarrow> ('k, 'c, 'wr, 'rd) kafka_lib \<Rightarrow> (harness_error \<Rightarrow> bool) \<Rightarrow>
    ((('wr, 'rd) harness \<times> ('st, 'k) world \<Rightarrow> (attempt \<times> ('wr, 'rd) harness \<times> ('st, 'k) world) option) \<Rightarrow>
      ('wr, 'rd) harness \<times> ('st, 'k) world \<Rightarrow> (harness_error option \<times> ('wr, 'rd) harness \<times> ('st, 'k) world) option) \<Rightarrow>
    (string \<Rightarrow> scheduler_kind \<Rightarrow> 'st \<Rightarrow> 'st) \<Rightarrow> scenario \<Rightarrow> algorithm_config \<Rightarrow> harness_mode \<Rightarrow>
    ('wr, 'rd) harness \<times> ('st, 'k) world \<Rightarrow> (setup_error + ('wr, 'rd) harness \<times> ('st, 'k) world) option" where
  "prepare_topic ep L isRetryableError retry setSched sc alg mode hw0 =
     (let topic = expTopicName (scnName sc) (alName alg) mode; cfg = (topicConfigFor sc)\<lparr>ScheduleMode := alMode alg\<rparr>
      in bind_ok (if IsExternal (fst hw0) then topic_result (retry (delete_attempt ep L isRetryableError topic) hw0) else Some (Inr hw0))
           (\<lambda>hw1. bind_ok (topic_result (retry (create_attempt ep L isRetryableError topic cfg) hw1))
             (\<lambda>(h, w). Some (Inr (SetManagedTopic topic h,
                 if haHasApp h then w\<lparr>woBroker := setSched topic (alScheduler alg) (woBroker w)\<rparr> else w)))))"

text \<open>The preparation of \<^verbatim>\<open>runKafka\<close> on its harness.\<close>

definition prepare_kafka :: "'st endpoints \<Rightarrow> ('k, 'c, 'wr, 'rd) kafka_lib \<Rightarrow> string list \<Rightarrow> scenario \<Rightarrow>
    ('wr, 'rd) harness \<times> ('st, 'k) world \<Rightarrow> (setup_error + ('wr, 'rd) harness \<times> ('st, 'k) world) option" where
  "prepare_kafka ep L brokers sc hw0 =
     (let topic = expTopicName (scnName sc) ''Kafka'' ModeKafka
      in if brokers = [] then Some (Inl NoKafkaBrokers)
         else bind_ok (topic_result (map_option (\<lambda>(e, hw1). (Option.bind e (\<lambda>x. if error_is ErrTopicNotFound x then None else Some x), hw1))
                         (ha_DeleteTopic ep L topic hw0)))
                (\<lambda>hw1. topic_result (ha_CreateTopic ep L topic (topicConfigFor sc) hw1)))"

subsection \<open>A scenario\<close>

record draw_values =
  dvSkew :: f64
  dvKey :: u64
  dvPriority :: f64
  dvPayload :: "nat \<Rightarrow> byte"
  dvNow :: i64

definition make_item :: "scenario \<Rightarrow> draw_values \<Rightarrow> batch_item option" where
  "make_item sc d =
     map_option (\<lambda>v. \<lparr>biKey = generateKeySeeded (scnSkewRatio sc) (dvSkew d) (dvKey d), biValue = v,
                     biPriority = SamplePrioritySeeded (dvPriority d) sc\<rparr>)
       (encodeValue (dvPayload d) (dvNow d) (nat (scenario_msg_size sc)))"

text \<open>The goroutines of a scenario share the world and the collector; every producer has its own batch until it has returned.\<close>

record ('h, 'st, 'k, 'wr, 'rd) scen_state =
  ssProducers :: "(batch_item list \<times> int) option list"
  ssWorld :: "('wr, 'rd) harness \<times> ('st, 'k) world"
  ssCollector :: "'h exp_collector"

datatype 'st scen_event =
    Generate nat draw_values "'st endpoints \<times> call_context"
  | LingerTimer nat "'st endpoints \<times> call_context"
  | Finish nat "'st endpoints \<times> call_context"
  | Fetch int "'st endpoints" "nat \<Rightarrow> int \<times> int \<times> (nat \<Rightarrow> nat)" bool "harness_error + consumed_message list"
  | SampleLoads "'st endpoints" "(int \<times> nat) list \<Rightarrow> (int \<times> nat) list" gotime

definition as_producer :: "batch_item list \<times> int \<Rightarrow> ('h, 'st, 'k, 'wr, 'rd) scen_state \<Rightarrow> ('h, 'st, 'k, 'wr, 'rd) producer_state" where
  "as_producer b s = \<lparr>pstBatch = fst b, pstBytes = snd b, pstWorld = ssWorld s, pstCollector = ssCollector s\<rparr>"

definition put_producer :: "nat \<Rightarrow> bool \<Rightarrow> ('h, 'st, 'k, 'wr, 'rd) producer_state \<Rightarrow> ('h, 'st, 'k, 'wr, 'rd) scen_state \<Rightarrow> ('h, 'st, 'k, 'wr, 'rd) scen_state" where
  "put_producer i running p s =
     s\<lparr>ssProducers := (ssProducers s)[i := if running then Some (pstBatch p, pstBytes p) else None],
       ssWorld := pstWorld p, ssCollector := pstCollector p\<rparr>"

text \<open>
  One step of one goroutine: an iteration of a producer, its linger timer (only a rate-limited producer has one), its last flush, one fetch of a consumer,
  one sample of the loads.
\<close>

inductive scen_step :: "'h hist_ops \<Rightarrow> (f64 list \<Rightarrow> f64) \<Rightarrow> ('k, 'c, 'wr, 'rd) kafka_lib \<Rightarrow> scenario \<Rightarrow> string \<Rightarrow>
    ('h, 'st, 'k, 'wr, 'rd) scen_state \<Rightarrow> 'st scen_event \<Rightarrow> ('h, 'st, 'k, 'wr, 'rd) scen_state \<Rightarrow> bool"
  for H stdDev L sc topic where
  generate: "i < length (ssProducers s) \<Longrightarrow> ssProducers s ! i = Some b \<Longrightarrow> make_item sc d = Some it \<Longrightarrow>
    flush_full L topic (target_bytes sc) env (add_item it (as_producer b s)) = Some p \<Longrightarrow>
    scen_step H stdDev L sc topic s (Generate i d env) (put_producer i True p s)"
| linger: "i < length (ssProducers s) \<Longrightarrow> ssProducers s ! i = Some b \<Longrightarrow> scnRatePerSec sc > 0 \<Longrightarrow>
    flush L topic env (as_producer b s) = Some p \<Longrightarrow> scen_step H stdDev L sc topic s (LingerTimer i env) (put_producer i True p s)"
| finish: "i < length (ssProducers s) \<Longrightarrow> ssProducers s ! i = Some b \<Longrightarrow>
    flush L topic env (as_producer b s) = Some p \<Longrightarrow> scen_step H stdDev L sc topic s (Finish i env) (put_producer i False p s)"
| fetch: "0 \<le> part \<Longrightarrow> part < cfgNumPartitions (topicConfigFor sc) \<Longrightarrow>
    map_option fst (ha_ConsumeBatch ep L topic ''exp-group'' part (ssWorld s)) = Some r \<Longrightarrow>
    consume_once H ep L obs ctxDone topic part (ssWorld s, ssCollector s) = Some (hw, c) \<Longrightarrow>
    scen_step H stdDev L sc topic s (Fetch part ep obs ctxDone r) (s\<lparr>ssWorld := hw, ssCollector := c\<rparr>)"
| sample: "scen_step H stdDev L sc topic s (SampleLoads ep order now)
    (s\<lparr>ssCollector := sample_loads stdDev now (GetMetricsSnapshot ep order (ssWorld s)) (ssCollector s)\<rparr>)"

inductive scen_run :: "'h hist_ops \<Rightarrow> (f64 list \<Rightarrow> f64) \<Rightarrow> ('k, 'c, 'wr, 'rd) kafka_lib \<Rightarrow> scenario \<Rightarrow> string \<Rightarrow>
    ('h, 'st, 'k, 'wr, 'rd) scen_state \<Rightarrow> 'st scen_event list \<Rightarrow> ('h, 'st, 'k, 'wr, 'rd) scen_state \<Rightarrow> bool"
  for H stdDev L sc topic s0 where
  run_start: "scen_run H stdDev L sc topic s0 [] s0"
| run_step: "scen_run H stdDev L sc topic s0 evs s \<Longrightarrow> scen_step H stdDev L sc topic s ev s' \<Longrightarrow> scen_run H stdDev L sc topic s0 (evs @ [ev]) s'"

definition scen_start :: "'h hist_ops \<Rightarrow> gotime \<Rightarrow> scenario \<Rightarrow> ('wr, 'rd) harness \<times> ('st, 'k) world \<Rightarrow> ('h, 'st, 'k, 'wr, 'rd) scen_state option" where
  "scen_start H now sc hw =
     (if scnRatePerSec sc > 0 \<and> rate_interval sc = None then None
      else Some \<lparr>ssProducers = replicate (nat (scenario_producers sc)) (Some ([], 0)), ssWorld = hw, ssCollector = xc_Start now (NewExpCollector H)\<rparr>)"

text \<open>The result is taken when all producers have returned and the consumers and the sampler have stopped.\<close>

definition scen_result :: "'h hist_ops \<Rightarrow> (f64 list \<Rightarrow> f64) \<Rightarrow> (f64 \<Rightarrow> int) \<Rightarrow> gotime \<Rightarrow> gotime \<Rightarrow> scenario \<Rightarrow> string \<Rightarrow> string \<Rightarrow> harness_mode \<Rightarrow>
    ('h, 'st, 'k, 'wr, 'rd) scen_state \<Rightarrow> experiment_result option" where
  "scen_result H mean oob stop now sc algName system mode s =
     (if list_all (\<lambda>p. p = None) (ssProducers s)
      then xc_Snapshot H mean oob now (scnName sc) algName system (mode_String mode) (xc_Stop stop (ssCollector s)) else None)"

subsection \<open>Fetching keeps the balancer\<close>

lemma ConsumeFrom_balancer [simp]: "rtBalancer (snd (ConsumeFrom S e name i off b)) = rtBalancer b"
  by (auto simp: ConsumeFrom_def Let_def putPartition_def split: option.splits sum.splits prod.splits)

lemma consume_loop_balancer [simp]: "rtBalancer (snd (consume_loop S e name i n cur msgs l b)) = rtBalancer b"
proof (induction n arbitrary: cur msgs l b)
  case (Suc n)
  obtain r b1 where c: "ConsumeFrom S e name i cur b = (r, b1)" by fastforce
  then have "rtBalancer b1 = rtBalancer b" using ConsumeFrom_balancer [of S e name i cur b] by simp
  then show ?case using Suc.IH by (auto simp: c split: sum.split prod.split)
qed simp

lemma ConsumeBatch_balancer [simp]: "rtBalancer (snd (ConsumeBatch S K e name grp i n b)) = rtBalancer b"
proof -
  obtain r b1 where c: "consume_loop S e name i (nat n) (start_offset grp name i b) [] 0 b = (r, b1)" by fastforce
  then have "rtBalancer b1 = rtBalancer b" using consume_loop_balancer [of S e name i "nat n" "start_offset grp name i b" "[]" 0 b] by simp
  then show ?thesis
    by (auto simp: ConsumeBatch_def c brokerCommit_def Let_def split: sum.split prod.split option.split)
qed

lemma ha_ConsumeBatch_publishable:
  assumes "broker_env W K B S walOpen (ep, cc)" and "publishable hw" and "ha_ConsumeBatch ep L topic grp part hw = Some (r, hw')"
  shows "publishable hw'"
proof -
  obtain io acquire order e now fuel polls re where ep: "ep = broker_endpoints W K B S walOpen io acquire order e now fuel polls re"
    using assms(1) by (auto simp: broker_env_def)
  obtain h w where hw: "hw = (h, w)" by (cases hw)
  show ?thesis
  proof (cases "haMode h")
    case ModeInProcess
    obtain ms l er st where c: "ConsumeBatch S K e topic grp part 16 (woBroker w) = ((ms, l, er), st)" by (metis prod.exhaust)
    then have "rtBalancer st = rtBalancer (woBroker w)" using ConsumeBatch_balancer [of S K e topic grp part 16 "woBroker w"] by simp
    then show ?thesis using assms(2,3) c ModeInProcess
      by (auto simp: ha_ConsumeBatch_def hw ep broker_endpoints_def publishable_def split: option.splits)
  qed (use assms(3) in \<open>auto simp: ha_ConsumeBatch_def hw publishable_def split: prod.splits sum.splits option.splits\<close>)
qed

subsection \<open>The interleaving counts every message\<close>

fun generated_items :: "'st scen_event list \<Rightarrow> nat" where
  "generated_items [] = 0"
| "generated_items (Generate _ _ _ # evs) = Suc (generated_items evs)"
| "generated_items (_ # evs) = generated_items evs"

fun fetched_items :: "'st scen_event list \<Rightarrow> nat" where
  "fetched_items [] = 0"
| "fetched_items (Fetch _ _ _ _ (Inr msgs) # evs) = length msgs + fetched_items evs"
| "fetched_items (Fetch _ _ _ ctxDone (Inl e) # evs) = (if ctxDone \<or> e = ErrNoMessage then 0 else 1) + fetched_items evs"
| "fetched_items (_ # evs) = fetched_items evs"

text \<open>The events of a run against the broker: every call goes to its endpoints, every random draw is below its bound.\<close>

fun event_ok :: "'w wal_ops \<Rightarrow> 'd kv_ops \<Rightarrow> 'b balancer_ops \<Rightarrow> ('w, 's) sched_ops \<Rightarrow>
    (string \<times> string \<times> int \<Rightarrow> bool \<Rightarrow> err + 'w) \<Rightarrow> ('w, 'd, 'b, 's) broker scen_event \<Rightarrow> bool" where
  "event_ok W K B S walOpen (Generate _ _ env) \<longleftrightarrow> broker_env W K B S walOpen env"
| "event_ok W K B S walOpen (LingerTimer _ env) \<longleftrightarrow> broker_env W K B S walOpen env"
| "event_ok W K B S walOpen (Finish _ env) \<longleftrightarrow> broker_env W K B S walOpen env"
| "event_ok W K B S walOpen (Fetch _ ep obs _ _) \<longleftrightarrow>
     (\<exists>cc. broker_env W K B S walOpen (ep, cc)) \<and> (\<forall>i n. n > 0 \<longrightarrow> snd (snd (obs i)) n < n)"
| "event_ok W K B S walOpen (SampleLoads _ _ _) \<longleftrightarrow> True"

lemma generated_items_append [simp]: "generated_items (xs @ ys) = generated_items xs + generated_items ys"
  by (induction xs rule: generated_items.induct) simp_all

lemma fetched_items_append [simp]: "fetched_items (xs @ ys) = fetched_items xs + fetched_items ys"
  by (induction xs rule: fetched_items.induct) simp_all

definition held :: "(batch_item list \<times> int) option \<Rightarrow> nat" where
  "held p = (case p of None \<Rightarrow> 0 | Some b \<Rightarrow> length (fst b))"

definition scen_inv :: "('w, 'd, 'b, 's) broker scen_event list \<Rightarrow> ('h, ('w, 'd, 'b, 's) broker, 'k, 'wr, 'rd) scen_state \<Rightarrow> bool" where
  "scen_inv evs s \<longleftrightarrow>
     collector_ok (ssCollector s) \<and> publishable (ssWorld s) \<and>
     accounted (ssCollector s) + sum_list (map held (ssProducers s)) = generated_items evs \<and>
     xcConsumed (ssCollector s) + xcConsumeErrors (ssCollector s) = fetched_items evs"

lemma sum_list_held:
  assumes "i < length ps"
  shows "sum_list (map held (ps[i := q])) + held (ps ! i) = sum_list (map held ps) + held q"
proof -
  have "held (ps ! i) \<le> sum_list (map held ps)" using assms by (simp add: member_le_sum_list)
  then show ?thesis using assms by (simp add: map_update sum_list_update)
qed

lemma flush_collector:
  assumes "flush L topic env p = Some p'"
  shows "collector_ok (pstCollector p') = collector_ok (pstCollector p)" "xcConsumed (pstCollector p') = xcConsumed (pstCollector p)"
    "xcConsumeErrors (pstCollector p') = xcConsumeErrors (pstCollector p)"
proof -
  have pw: "xcShards ((f ^^ n) c) = xcShards c \<and> xcByPriority ((f ^^ n) c) = xcByPriority c \<and> xcConsumed ((f ^^ n) c) = xcConsumed c \<and>
      xcConsumeErrors ((f ^^ n) c) = xcConsumeErrors c"
    if "f = xc_RecordProduce \<or> f = xc_RecordPublishThrottled \<or> f = xc_RecordPublishError" for f n and c :: "'a exp_collector"
    using that by (induction n) (auto simp: xc_RecordProduce_def xc_RecordPublishThrottled_def xc_RecordPublishError_def)
  show "collector_ok (pstCollector p') = collector_ok (pstCollector p)" "xcConsumed (pstCollector p') = xcConsumed (pstCollector p)"
    "xcConsumeErrors (pstCollector p') = xcConsumeErrors (pstCollector p)"
    using assms by (auto simp: flush_def Let_def collector_ok_def pw split: if_splits option.splits prod.splits)
qed

lemma put_producer_inv:
  assumes "scen_inv evs s" and "i < length (ssProducers s)" and "ssProducers s ! i = Some b"
    and "collector_ok (pstCollector p)" and "publishable (pstWorld p)"
    and "accounted (pstCollector p) + length (pstBatch p) = accounted (ssCollector s) + length (fst b) + generated_items [ev]"
    and "xcConsumed (pstCollector p) = xcConsumed (ssCollector s)" "xcConsumeErrors (pstCollector p) = xcConsumeErrors (ssCollector s)"
    and "fetched_items [ev] = 0" and "\<not> running \<Longrightarrow> pstBatch p = []"
  shows "scen_inv (evs @ [ev]) (put_producer i running p s)"
proof -
  let ?q = "if running then Some (pstBatch p, pstBytes p) else None"
  have "held ?q = length (pstBatch p)" using assms(10) by (simp add: held_def)
  moreover have "sum_list (map held ((ssProducers s)[i := ?q])) + length (fst b) = sum_list (map held (ssProducers s)) + held ?q"
    using sum_list_held [OF assms(2), of ?q] assms(3) by (simp add: held_def)
  ultimately show ?thesis using assms(1,4-9) by (simp add: scen_inv_def put_producer_def)
qed

lemma flush_step:
  assumes "broker_env W K B S walOpen env" and "scen_inv evs s"
  shows "\<exists>p. flush L topic env (as_producer b s) = Some p \<and> publishable (pstWorld p) \<and> pstBatch p = [] \<and> collector_ok (pstCollector p) \<and>
    accounted (pstCollector p) = accounted (ssCollector s) + length (fst b) \<and>
    xcConsumed (pstCollector p) = xcConsumed (ssCollector s) \<and> xcConsumeErrors (pstCollector p) = xcConsumeErrors (ssCollector s)"
proof -
  have "publishable (pstWorld (as_producer b s))" using assms(2) by (simp add: as_producer_def scen_inv_def)
  from flush_accounts [OF assms(1) this, of L topic] obtain p where p: "flush L topic env (as_producer b s) = Some p" "publishable (pstWorld p)"
    "pstBatch p = []" "accounted (pstCollector p) = accounted (ssCollector s) + length (fst b)"
    by (auto simp: as_producer_def)
  then show ?thesis using flush_collector [OF p(1)] assms(2) by (simp add: as_producer_def scen_inv_def)
qed

lemma generate_step:
  assumes "broker_env W K B S walOpen env" and "scen_inv evs s" and "flush_full L topic target env (add_item it (as_producer b s)) = Some p"
  shows "publishable (pstWorld p) \<and> collector_ok (pstCollector p) \<and>
    accounted (pstCollector p) + length (pstBatch p) = accounted (ssCollector s) + length (fst b) + 1 \<and>
    xcConsumed (pstCollector p) = xcConsumed (ssCollector s) \<and> xcConsumeErrors (pstCollector p) = xcConsumeErrors (ssCollector s)"
proof -
  have "publishable (pstWorld (as_producer b s))" using assms(2) by (simp add: as_producer_def scen_inv_def)
  from flush_full_accounts [OF assms(1) this, of L topic target it]
  have "publishable (pstWorld p)" "accounted (pstCollector p) + length (pstBatch p) = accounted (ssCollector s) + length (fst b) + 1"
    using assms(3) by (auto simp: as_producer_def)
  moreover have "collector_ok (pstCollector p) \<and> xcConsumed (pstCollector p) = xcConsumed (ssCollector s) \<and> xcConsumeErrors (pstCollector p) = xcConsumeErrors (ssCollector s)"
    using assms(2,3) flush_collector [of L topic env "add_item it (as_producer b s)" p]
    by (auto simp: flush_full_def as_producer_def add_item_def scen_inv_def split: if_splits)
  ultimately show ?thesis by simp
qed

lemma fetch_step:
  assumes "scen_inv evs s" and "broker_env W K B S walOpen (ep, cc)" and "\<And>i n. n > 0 \<Longrightarrow> snd (snd (obs i)) n < n"
    and "map_option fst (ha_ConsumeBatch ep L topic ''exp-group'' part (ssWorld s)) = Some r"
    and "consume_once H ep L obs ctxDone topic part (ssWorld s, ssCollector s) = Some (hw, c)"
  shows "scen_inv (evs @ [Fetch part ep obs ctxDone r]) (s\<lparr>ssWorld := hw, ssCollector := c\<rparr>)"
proof -
  obtain hw' where f: "ha_ConsumeBatch ep L topic ''exp-group'' part (ssWorld s) = Some (r, hw')" using assms(4) by auto
  have pub: "publishable hw'" using ha_ConsumeBatch_publishable [OF assms(2) _ f] assms(1) by (simp add: scen_inv_def)
  show ?thesis
  proof (cases r)
    case (Inl e)
    then show ?thesis using f assms(1,5) pub
      by (auto simp: consume_once_def scen_inv_def xc_RecordConsumeError_def collector_ok_def accounted_def)
  next
    case (Inr msgs)
    have "collector_ok (ssCollector s)" using assms(1) by (simp add: scen_inv_def)
    from record_messages_counts [of _ obs, OF this assms(3), where H = H and msgs = msgs]
    have "hw = hw'" "collector_ok c" "accounted c = accounted (ssCollector s)"
      "xcConsumed c + xcConsumeErrors c = xcConsumed (ssCollector s) + xcConsumeErrors (ssCollector s) + length msgs"
      using f assms(5) Inr by (auto simp: consume_once_def)
    then show ?thesis using pub assms(1) Inr by (simp add: scen_inv_def)
  qed
qed

lemma sample_loads_fields:
  "collector_ok (sample_loads sd now snap c) = collector_ok c" "accounted (sample_loads sd now snap c) = accounted c"
  "xcConsumed (sample_loads sd now snap c) = xcConsumed c" "xcConsumeErrors (sample_loads sd now snap c) = xcConsumeErrors c"
  by (simp_all add: sample_loads_def xc_RecordLoadStdDev_def xc_RecordLoadSample_def collector_ok_def accounted_def split: sum.split)

lemma scen_step_inv:
  assumes "scen_step H stdDev L sc topic s ev s'" and "event_ok W K B S walOpen ev" and inv: "scen_inv evs s"
  shows "scen_inv (evs @ [ev]) s'"
  using assms(1,2)
proof (cases rule: scen_step.cases)
  case (generate i b d it env p)
  have "broker_env W K B S walOpen env" using assms(2) generate(1) by simp
  from generate_step [OF this inv generate(6)] show ?thesis
    unfolding generate(1,2) by (intro put_producer_inv [OF inv generate(3,4)]) simp_all
next
  case (linger i b env p)
  have "broker_env W K B S walOpen env" using assms(2) linger(1) by simp
  from flush_step [OF this inv, of L topic b] show ?thesis
    unfolding linger(1,2) using linger(6) by (intro put_producer_inv [OF inv linger(3,4)]) simp_all
next
  case (finish i b env p)
  have "broker_env W K B S walOpen env" using assms(2) finish(1) by simp
  from flush_step [OF this inv, of L topic b] show ?thesis
    unfolding finish(1,2) using finish(5) by (intro put_producer_inv [OF inv finish(3,4)]) simp_all
next
  case (fetch part ep r obs ctxDone hw c)
  obtain cc where "broker_env W K B S walOpen (ep, cc)" "\<And>i n. n > 0 \<Longrightarrow> snd (snd (obs i)) n < n" using assms(2) fetch(1) by auto
  from fetch_step [OF inv this fetch(5,6)] show ?thesis unfolding fetch(1,2) .
next
  case (sample ep order now)
  then show ?thesis using inv by (simp add: scen_inv_def sample_loads_fields)
qed

lemma scen_run_inv:
  assumes "scen_run H stdDev L sc topic s0 evs s" and "list_all (event_ok W K B S walOpen) evs" and "scen_inv [] s0"
  shows "scen_inv evs s"
  using assms(1,2)
proof (induction rule: scen_run.induct)
  case run_start
  then show ?case using assms(3) by simp
next
  case (run_step evs s ev s')
  then show ?case using scen_step_inv [OF run_step.hyps(2), of W K B S walOpen evs] by simp
qed

lemma scen_start_inv: "scen_start H now sc hw = Some s0 \<Longrightarrow> publishable hw \<Longrightarrow> scen_inv [] s0"
  by (auto simp: scen_start_def scen_inv_def collector_ok_def accounted_def xc_Start_def NewExpCollector_def defaultNumShards_def
      sampler_ok_def emptySampler_def held_def list_all_length sum_list_replicate split: if_splits)

lemma scen_run_trans: "scen_run H sd L sc topic s0 xs s1 \<Longrightarrow> scen_run H sd L sc topic s1 ys s2 \<Longrightarrow> scen_run H sd L sc topic s0 (xs @ ys) s2"
  by (rotate_tac, induction rule: scen_run.induct) (simp_all flip: append_assoc add: scen_run.run_step)

text \<open>Whatever its goroutines have done so far, a scenario can stop: the producers return after one last flush each.\<close>

lemma scen_can_finish:
  assumes "broker_env W K B S walOpen env" and "scen_inv evs s"
  shows "\<exists>ns s'. length ns \<le> length (ssProducers s) \<and> scen_run H stdDev L sc topic s (map (\<lambda>i. Finish i env) ns) s' \<and>
    list_all (\<lambda>p. p = None) (ssProducers s')"
proof -
  let ?fin = "map (\<lambda>i. Finish i env)"
  have "\<exists>ns s'. length ns \<le> k \<and> scen_run H stdDev L sc topic s (?fin ns) s' \<and> length (ssProducers s') = length (ssProducers s) \<and>
      scen_inv (evs @ ?fin ns) s' \<and> (\<forall>j < k. ssProducers s' ! j = None)" if "k \<le> length (ssProducers s)" for k
    using that
  proof (induction k)
    case 0
    show ?case by (intro exI [of _ "[]"] exI [of _ s]) (simp add: assms(2) scen_run.run_start)
  next
    case (Suc k)
    then obtain ns s1 where s1: "length ns \<le> k" "scen_run H stdDev L sc topic s (?fin ns) s1" "length (ssProducers s1) = length (ssProducers s)"
      "scen_inv (evs @ ?fin ns) s1" "\<forall>j < k. ssProducers s1 ! j = None" by auto
    show ?case
    proof (cases "ssProducers s1 ! k")
      case None
      then show ?thesis using s1 by (intro exI [of _ ns] exI [of _ s1]) (auto simp: less_Suc_eq)
    next
      case (Some b)
      obtain p where p: "flush L topic env (as_producer b s1) = Some p" using flush_step [OF assms(1) s1(4), of L topic b] by blast
      have step: "scen_step H stdDev L sc topic s1 (Finish k env) (put_producer k False p s1)"
        by (rule scen_step.finish [OF _ Some p]) (use Suc.prems s1(3) in simp)
      have "scen_inv (evs @ ?fin (ns @ [k])) (put_producer k False p s1)"
        using scen_step_inv [OF step, of W K B S walOpen "evs @ ?fin ns"] assms(1) s1(4) by simp
      then show ?thesis using s1 scen_run.run_step [OF s1(2) step] Suc.prems
        by (intro exI [of _ "ns @ [k]"] exI [of _ "put_producer k False p s1"]) (auto simp: put_producer_def less_Suc_eq)
    qed
  qed
  from this [of "length (ssProducers s)"] obtain ns s' where "length ns \<le> length (ssProducers s)" "scen_run H stdDev L sc topic s (?fin ns) s'"
    "length (ssProducers s') = length (ssProducers s)" "\<forall>j < length (ssProducers s). ssProducers s' ! j = None" by blast
  then show ?thesis by (intro exI [of _ ns] exI [of _ s']) (simp add: list_all_length)
qed

lemma scen_run_length: "scen_run H stdDev L sc topic s0 evs s \<Longrightarrow> length (ssProducers s) = length (ssProducers s0)"
  by (induction rule: scen_run.induct) (auto simp: put_producer_def elim!: scen_step.cases)

lemma xc_Snapshot_counts:
  assumes "collector_ok c"
  shows "\<exists>r. xc_Snapshot H mean oob now sc alg sys mode c = Some r \<and>
    erProduced r + erMessagesThrottled r + erPublishErrors r = accounted c \<and> erConsumed r + erConsumeErrors r = xcConsumed c + xcConsumeErrors c"
proof -
  obtain rs where "snapshot_all oob (xcByPriority c) = Some rs" by (rule snapshot_all_total [of "xcByPriority c" oob]) (use assms in \<open>simp add: collector_ok_def\<close>)
  then show ?thesis by (simp add: xc_Snapshot_def Let_def accounted_def)
qed

text \<open>
  C20: the result of a scenario counts every message exactly once. However the iterations of the producers, the consumers and the load sampler
  interleave, over any mode of the harness and whatever the broker answers, when the producers have returned every generated message is counted as produced, throttled or failed, and every fetched message
  and every failed fetch as consumed or as an error. At any moment the producers can still return, after at most one flush each.
\<close>

theorem Scenario_accounts:
  assumes "scen_start H start sc hw = Some s0" and "publishable hw" and "scen_run H stdDev L sc topic s0 evs s"
    and "list_all (event_ok W K B S walOpen) evs" and "broker_env W K B S walOpen env"
  shows "(list_all (\<lambda>p. p = None) (ssProducers s) \<longrightarrow> (\<exists>r. scen_result H mean oob stop now sc alg sys mode s = Some r \<and>
      erProduced r + erMessagesThrottled r + erPublishErrors r = generated_items evs \<and> erConsumed r + erConsumeErrors r = fetched_items evs)) \<and>
    (\<exists>ns s'. length ns \<le> nat (scenario_producers sc) \<and> scen_run H stdDev L sc topic s0 (evs @ map (\<lambda>i. Finish i env) ns) s' \<and>
      list_all (\<lambda>p. p = None) (ssProducers s'))"
proof
  have inv: "scen_inv evs s" by (rule scen_run_inv [OF assms(3,4) scen_start_inv [OF assms(1,2)]])
  show "list_all (\<lambda>p. p = None) (ssProducers s) \<longrightarrow> (\<exists>r. scen_result H mean oob stop now sc alg sys mode s = Some r \<and>
      erProduced r + erMessagesThrottled r + erPublishErrors r = generated_items evs \<and> erConsumed r + erConsumeErrors r = fetched_items evs)"
  proof
    assume fin: "list_all (\<lambda>p. p = None) (ssProducers s)"
    then have "sum_list (map held (ssProducers s)) = 0" by (auto simp: list_all_iff held_def)
    then have acc: "accounted (ssCollector s) = generated_items evs" using inv unfolding scen_inv_def by linarith
    have c: "collector_ok (xc_Stop stop (ssCollector s))" "accounted (xc_Stop stop (ssCollector s)) = accounted (ssCollector s)"
      using inv by (simp_all add: scen_inv_def collector_ok_def accounted_def xc_Stop_def)
    show "\<exists>r. scen_result H mean oob stop now sc alg sys mode s = Some r \<and>
      erProduced r + erMessagesThrottled r + erPublishErrors r = generated_items evs \<and> erConsumed r + erConsumeErrors r = fetched_items evs"
      using xc_Snapshot_counts [OF c(1), of H mean oob now "scnName sc" alg sys "mode_String mode"] fin inv acc c(2)
      by (auto simp: scen_result_def scen_inv_def xc_Stop_def)
  qed
  have "length (ssProducers s) = nat (scenario_producers sc)"
    using scen_run_length [OF assms(3)] assms(1) by (auto simp: scen_start_def split: if_splits)
  then show "\<exists>ns s'. length ns \<le> nat (scenario_producers sc) \<and> scen_run H stdDev L sc topic s0 (evs @ map (\<lambda>i. Finish i env) ns) s' \<and>
      list_all (\<lambda>p. p = None) (ssProducers s')"
    using scen_can_finish [OF assms(5) inv, of H stdDev L sc topic] scen_run_trans [OF assms(3)] by metis
qed

subsection \<open>What a run starts with\<close>

lemma map_sum_Inr [simp]: "map_sum f g x = Inr y \<longleftrightarrow> (\<exists>z. x = Inr z \<and> y = g z)"
  by (cases x) auto

lemma app_New_broker:
  assumes "app_New K openDb lib mkNets G strict dqn fifo now emb cfg dir (WithBalancerFactory (\<lambda>_. bal) # opts) = Some (Inr a)"
    and "opts = [] \<or> opts = [WithGRPC addr] \<or> opts = [WithHTTP addr]"
  shows "rtBalancer (baBroker a) = Some bal" and "topics (baBroker a) = []"
  using assms by (auto simp: app_New_def Let_def default_app_def WithBalancerFactory_def WithGRPC_def WithHTTP_def app_broker_def New_def
      SetSchedulerFactory_def split: sum.splits option.splits)

lemma start_app_broker:
  assumes "start_app new listen opts = Some (Inr a)"
  obtains a0 where "new opts = Some (Inr a0)" "baBroker a = baBroker a0"
proof -
  obtain a0 where "new opts = Some (Inr a0)"
      and "(case app_Start listen listen listen a0 of (Some e, _) \<Rightarrow> Inl (AppFailed e) | (None, a') \<Rightarrow> Inr a') = Inr a"
    using assms unfolding start_app_def bind_ok_Inr option.inject map_option_eq_Some map_sum_Inr id_def by blast
  then have a0: "new opts = Some (Inr a0)" "app_Start listen listen listen a0 = (None, a)" by (auto split: prod.splits option.splits)
  have "baBroker a = baBroker a0" using a0(2) by (auto simp: app_Start_def Let_def split: if_splits option.splits)
  with a0(1) that show thesis by blast
qed

text \<open>A harness without addresses of external brokers has its own broker, with the given balancer and no topics.\<close>

lemma NewHarness_own:
  assumes "NewHarness (app_New K openDb lib mkNets G strict dqn fifo now emb cfg dir) listen bal dialled ready hc w0 = Some (Inr (h, w))"
    and "hcMode hc \<noteq> ModeKafka" and "hcBrokerAddr hc = []" and "hcHTTPBrokerAddr hc = []"
  shows "haMode h = hcMode hc" and "haHasApp h" and "\<not> haExternal h" and "rtBalancer (woBroker w) = Some bal" and "topics (woBroker w) = []"
proof -
  let ?new = "app_New K openDb lib mkNets G strict dqn fifo now emb cfg dir"
  obtain opts a where a: "start_app ?new listen (WithBalancerFactory (\<lambda>_. bal) # opts) = Some (Inr a)"
      "opts = [] \<or> opts = [WithGRPC '':0''] \<or> opts = [WithHTTP '':0'']" "woBroker w = baBroker a"
    and h: "haMode h = hcMode hc" "haHasApp h" "\<not> haExternal h"
    using assms by (cases "hcMode hc") (auto simp: NewHarness_def Let_def split: sum.splits if_splits)
  show "haMode h = hcMode hc" "haHasApp h" "\<not> haExternal h" using h by simp_all
  from start_app_broker [OF a(1)] obtain a0 where a0: "?new (WithBalancerFactory (\<lambda>_. bal) # opts) = Some (Inr a0)" "baBroker a = baBroker a0" .
  show "rtBalancer (woBroker w) = Some bal" "topics (woBroker w) = []" using app_New_broker [OF a0(1) a(2)] a0(2) a(3) by simp_all
qed

lemma attempts_success:
  assumes "\<forall>x a x'. P x \<longrightarrow> f x = Some (a, x') \<longrightarrow> P x'"
  shows "P x \<Longrightarrow> attempts f n x = Some (None, x') \<Longrightarrow> \<exists>y. P y \<and> f y = Some (Succeeded, x')"
proof (induction n arbitrary: x)
  case 0
  then show ?case by (subst (asm) attempts.simps) (auto split: option.splits attempt.splits)
next
  case (Suc n)
  show ?case
  proof (cases "\<exists>e x1. f x = Some (Again e, x1)")
    case True
    then obtain e x1 where x1: "f x = Some (Again e, x1)" by blast
    then have "attempts f n x1 = Some (None, x')" using Suc.prems(2) by (subst (asm) attempts.simps) simp
    then show ?thesis using Suc.IH assms Suc.prems(1) x1 by blast
  next
    case False
    then show ?thesis using Suc.prems by (subst (asm) attempts.simps) (auto split: option.splits attempt.splits)
  qed
qed


lemma CreateTopic_balancer [simp]: "rtBalancer (snd (CreateTopic W walOpen name cfg b)) = rtBalancer b"
  by (auto simp: CreateTopic_def Let_def split: sum.splits)

lemma forget_balancer [simp]: "rtBalancer (fold forget_partition ids b) = rtBalancer b"
  by (induction ids arbitrary: b) (simp_all add: forget_partition_def)

lemma DeleteTopic_balancer [simp]: "rtBalancer (snd (DeleteTopic W K re name b)) = rtBalancer b"
  by (auto simp: DeleteTopic_def Let_def stopScheduler_def split: option.splits)

definition own_broker :: "harness_mode \<Rightarrow> ('wr, 'rd) harness \<times> (('w, 'd, 'b, 's) broker, 'k) world \<Rightarrow> bool" where
  "own_broker m hw \<longleftrightarrow> haMode (fst hw) = m \<and> m \<noteq> ModeKafka \<and> haHasApp (fst hw) \<and> \<not> haExternal (fst hw) \<and> rtBalancer (woBroker (snd hw)) \<noteq> None"

lemma own_create:
  assumes "own_broker m hw" and "ha_CreateTopic (broker_endpoints W K B S walOpen io acquire order env ts fuel polls re) L topic cfg hw = Some (e, hw')"
  shows "own_broker m hw' \<and> (\<exists>e'. CreateTopic W walOpen topic cfg (woBroker (snd hw)) = (e', woBroker (snd hw')) \<and> (e = None \<longrightarrow> e' = None))"
proof -
  obtain e' st where c: "CreateTopic W walOpen topic cfg (woBroker (snd hw)) = (e', st)" by fastforce
  then have "rtBalancer st = rtBalancer (woBroker (snd hw))" using CreateTopic_balancer [of W walOpen topic cfg "woBroker (snd hw)"] by simp
  then show ?thesis using assms c
    by (cases hw; cases m) (auto simp: ha_CreateTopic_def broker_endpoints_def own_broker_def)
qed

lemma own_delete:
  assumes "own_broker m hw" and "ha_DeleteTopic (broker_endpoints W K B S walOpen io acquire order env ts fuel polls re) L topic hw = Some (e, hw')"
  shows "own_broker m hw'"
proof -
  obtain e' st where c: "DeleteTopic W K re topic (woBroker (snd hw)) = (e', st)" by fastforce
  then have "rtBalancer st = rtBalancer (woBroker (snd hw))" using DeleteTopic_balancer [of W K re topic "woBroker (snd hw)"] by simp
  then show ?thesis using assms c
    by (cases hw; cases m) (auto simp: ha_DeleteTopic_def broker_endpoints_def own_broker_def)
qed

lemma own_create_attempt:
  assumes "own_broker m hw" and "create_attempt (broker_endpoints W K B S walOpen io acquire order env ts fuel polls re) L rtr topic cfg hw = Some (a, hw')"
  shows "own_broker m hw'"
proof -
  let ?ep = "broker_endpoints W K B S walOpen io acquire order env ts fuel polls re"
  obtain e hw1 where c: "ha_CreateTopic ?ep L topic cfg hw = Some (e, hw1)" using assms(2) by (auto simp: create_attempt_def split: option.splits)
  then have "own_broker m hw1" using own_create [OF assms(1) c] by simp
  then have "ha_DeleteTopic ?ep L topic hw1 = Some (e', hw2) \<Longrightarrow> own_broker m hw2" for e' hw2 by (rule own_delete)
  with \<open>own_broker m hw1\<close> show ?thesis using assms(2) c by (auto simp: create_attempt_def split: option.splits if_splits)
qed

lemma CreateTopic_topic:
  assumes "wal_laws W winv view" and "open_ok winv view walOpen" and "CreateTopic W walOpen name cfg b = (None, b')" and "cfgNumPartitions cfg > 0"
  shows "\<exists>t. map_of (topics b') name = Some t \<and> NumPartitions t = cfgNumPartitions cfg \<and> \<not> tclosed t"
proof -
  obtain t0 where t0: "NewTopic W walOpen name (dataDir b) cfg (cfgSyncPolicy (snapCfg b)) = Inr t0"
    using assms(3) by (auto simp: CreateTopic_def split: sum.splits)
  note NewTopic_spec(3,4) [OF assms(1,2) t0]
  then show ?thesis using assms(3,4) t0
    by (auto simp: CreateTopic_def Let_def update_conv NumPartitions_def split: if_splits)
qed


subsection \<open>Concrete runs\<close>

definition sampleScenario :: scenario where
  "sampleScenario = Uniform\<lparr>scnProducers := 1, scnRatePerSec := 0\<rparr>"

definition sampleHC :: harness_config where
  "sampleHC = \<lparr>hcMode = ModeInProcess, hcKafkaBrokers = [], hcBrokerAddr = [], hcHTTPBrokerAddr = []\<rparr>"

definition sampleNewApp :: "((round_robin, unit) app_config \<Rightarrow> (round_robin, unit) app_config) list \<Rightarrow>
    (err + (list_wal, (string \<times> bytes) list, round_robin, unit, unit) broker_app) option" where
  "sampleNewApp = app_New listKV (\<lambda>_. Inr []) tagLib (\<lambda>_ _. ((), [])) sampleGonum () () () 0 (\<lambda>_. sampleRR) sampleConfig ''/data''"

definition sampleRetry :: "('x \<Rightarrow> (attempt \<times> 'x) option) \<Rightarrow> 'x \<Rightarrow> (harness_error option \<times> 'x) option" where
  "sampleRetry f = attempts f 3"

lemma sampleRetry_law: "retry_law sampleRetry"
  by (auto simp: retry_law_def sampleRetry_def)

definition sampleAppBroker :: "(list_wal, (string \<times> bytes) list, round_robin, unit) broker" where
  "sampleAppBroker = app_broker tagLib () () () 0 \<lparr>odb = [], ocache = [], lastCommit = [], dumpInterval = commit_interval sampleConfig\<rparr>
     (WithBalancerFactory (\<lambda>_. sampleRR) (default_app (\<lambda>_. sampleRR) sampleConfig ''/data''))"

lemma sample_create:
  assumes "topics b = []"
  shows "\<exists>st. CreateTopic listWal sampleOpen n ((topicConfigFor sampleScenario)\<lparr>ScheduleMode := ModeFIFO\<rparr>) b = (None, st)"
proof -
  have "\<exists>t. NewTopic listWal sampleOpen n dir ((topicConfigFor sampleScenario)\<lparr>ScheduleMode := ModeFIFO\<rparr>) sy = Inr t" for dir sy
    by (simp add: NewTopic_def sampleScenario_def Uniform_def zeroScenario_def topicConfigFor_def DefaultTopicConfig_def effectivePartitions_def
        NewPartition_def sampleOpen_def listWal_def memWal_def ModeFIFO_def)
  then obtain t where "NewTopic listWal sampleOpen n (dataDir b) ((topicConfigFor sampleScenario)\<lparr>ScheduleMode := ModeFIFO\<rparr>) (cfgSyncPolicy (snapCfg b)) = Inr t"
    by blast
  then show ?thesis using assms by (simp add: CreateTopic_def Let_def)
qed


text \<open>A scenario with one unlimited producer and nothing else going on is the loop of that producer.\<close>

lemma as_producer_single: "as_producer (pstBatch p, pstBytes p) (put_producer i r p s) = p"
  by (simp add: as_producer_def put_producer_def)

lemma runUnlimitedProducer_run:
  assumes "list_all2 (\<lambda>d it. make_item sc d = Some it) ds its" and "ssProducers s = [Some b]"
    and "runUnlimitedProducer L topic (target_bytes sc) envs its (as_producer b s) = Some p"
  shows "\<exists>evs. scen_run H stdDev L sc topic s evs (put_producer 0 False p s) \<and> generated_items evs = length its"
  using assms
proof (induction its arbitrary: ds s b rule: list.induct)
  case Nil
  then have "scen_step H stdDev L sc topic s (Finish 0 (envs 0)) (put_producer 0 False p s)" by (intro scen_step.finish [where b = b]) simp_all
  from scen_run.run_step [OF scen_run.run_start this] show ?case by (intro exI [of _ "[Finish 0 (envs 0)]"]) simp
next
  case (Cons it its)
  obtain d ds' where ds: "ds = d # ds'" "make_item sc d = Some it" "list_all2 (\<lambda>d it. make_item sc d = Some it) ds' its"
    using Cons.prems(1) by (cases ds) auto
  let ?env = "envs (length its + 1)"
  obtain p1 where p1: "flush_full L topic (target_bytes sc) ?env (add_item it (as_producer b s)) = Some p1"
      "runUnlimitedProducer L topic (target_bytes sc) envs its p1 = Some p"
    using Cons.prems(3) by (auto simp: bind_eq_Some_conv)
  let ?s1 = "put_producer 0 True p1 s"
  have step: "scen_step H stdDev L sc topic s (Generate 0 d ?env) ?s1"
    using Cons.prems(2) ds(2) p1(1) by (intro scen_step.generate [where b = b]) simp_all
  have s1: "ssProducers ?s1 = [Some (pstBatch p1, pstBytes p1)]" using Cons.prems(2) by (simp add: put_producer_def)
  obtain evs where e: "scen_run H stdDev L sc topic ?s1 evs (put_producer 0 False p ?s1)" "generated_items evs = length its"
    using Cons.IH [OF ds(3) s1] p1(2) by (auto simp: as_producer_single)
  moreover have "put_producer 0 False p ?s1 = put_producer 0 False p s" using Cons.prems(2) by (simp add: put_producer_def)
  ultimately have "scen_run H stdDev L sc topic s ([Generate 0 d ?env] @ evs) (put_producer 0 False p s)"
    using scen_run_trans [OF scen_run.run_step [OF scen_run.run_start step]] by simp
  then show ?case using e(2) by (intro exI [of _ "[Generate 0 d ?env] @ evs"]) simp
qed

definition sampleDraw :: draw_values where
  "sampleDraw = \<lparr>dvSkew = Fin 0, dvKey = 9, dvPriority = Fin 0, dvPayload = (\<lambda>_. 1), dvNow = 1000\<rparr>"

theorem Scenario_accounts_witness:
  "\<exists>s0 evs s r. scen_start listHist 0 sampleScenario (sampleHarness, \<lparr>woBroker = sampleBroker sampleRR, woKafka = ()\<rparr>) = Some s0 \<and>
     scen_run listHist (\<lambda>_. Fin 0) sampleKafka sampleScenario ''t'' s0 evs s \<and> generated_items evs = 1 \<and>
     scen_result listHist (\<lambda>_. Fin 0) (\<lambda>_. 0) 5 6 sampleScenario ''RR+FIFO'' ''nyaqueue'' ModeInProcess s = Some r \<and>
     erProduced r + erMessagesThrottled r + erPublishErrors r = 1"
proof -
  let ?hw = "(sampleHarness, \<lparr>woBroker = sampleBroker sampleRR, woKafka = ()\<rparr>)"
  let ?run = "scen_run listHist (\<lambda>_. Fin 0) sampleKafka sampleScenario ''t''"
  let ?ok = "event_ok listWal listKV RoundRobin (FIFO listWal) sampleOpen"
  have e: "broker_env listWal listKV RoundRobin (FIFO listWal) sampleOpen sampleCall" unfolding broker_env_def sampleCall_def fst_conv by (intro exI, rule refl)
  obtain s0 where s0: "scen_start listHist 0 sampleScenario ?hw = Some s0" "ssProducers s0 = [Some ([], 0)]" "ssWorld s0 = ?hw"
    by (simp add: scen_start_def sampleScenario_def scenario_producers_def)
  obtain it where it: "make_item sampleScenario sampleDraw = Some it"
    by (simp add: make_item_def encodeValue_def scenario_msg_size_def sampleScenario_def Uniform_def zeroScenario_def GenerateMessage_def timestampPrefixBytes_def Let_def)
  have pub: "publishable ?hw" by (simp add: publishable_def sampleBroker_fields)
  obtain p1 where "flush_full sampleKafka ''t'' (target_bytes sampleScenario) sampleCall (add_item it (as_producer ([], 0) s0)) = Some p1"
    using flush_full_accounts [OF e, of "as_producer ([], 0) s0" sampleKafka "''t''" "target_bytes sampleScenario" it] pub s0(3) by (auto simp: as_producer_def)
  then have s1: "scen_step listHist (\<lambda>_. Fin 0) sampleKafka sampleScenario ''t'' s0 (Generate 0 sampleDraw sampleCall) (put_producer 0 True p1 s0)"
    using s0(2) it by (intro scen_step.generate [where b = "([], 0)"]) simp_all
  note r1 = scen_run.run_step [OF scen_run.run_start s1, simplified]
  have gen: "generated_items (map (\<lambda>i. Finish i sampleCall) ns) = 0" for ns by (induction ns) simp_all
  have ok: "list_all ?ok (Generate 0 sampleDraw sampleCall # map (\<lambda>i. Finish i sampleCall) ns)" for ns using e by (induction ns) simp_all
  have ok1: "list_all ?ok [Generate 0 sampleDraw sampleCall]" using ok [of "[]"] by simp
  obtain ns s where s: "?run s0 (Generate 0 sampleDraw sampleCall # map (\<lambda>i. Finish i sampleCall) ns) s" "list_all (\<lambda>p. p = None) (ssProducers s)"
    using Scenario_accounts [OF s0(1) pub r1 ok1 e, where mean = "\<lambda>_. Fin 0" and oob = "\<lambda>_. 0" and stop = 5 and now = 6
        and alg = "''RR+FIFO''" and sys = "''nyaqueue''" and mode = ModeInProcess] by auto
  moreover obtain r where "scen_result listHist (\<lambda>_. Fin 0) (\<lambda>_. 0) 5 6 sampleScenario ''RR+FIFO'' ''nyaqueue'' ModeInProcess s = Some r"
    "erProduced r + erMessagesThrottled r + erPublishErrors r = 1"
    using Scenario_accounts [OF s0(1) pub s(1) ok e, where mean = "\<lambda>_. Fin 0" and oob = "\<lambda>_. 0" and stop = 5 and now = 6
        and alg = "''RR+FIFO''" and sys = "''nyaqueue''" and mode = ModeInProcess] s(2) by (auto simp: gen)
  moreover have "generated_items (Generate 0 sampleDraw sampleCall # map (\<lambda>i. Finish i sampleCall) ns) = 1" by (simp add: gen)
  ultimately show ?thesis using s0(1) by blast
qed

end
