(* ===== verification/Spec2Isabelle.thy ===== *)
theory Spec2Isabelle
  imports Message Retention Topic OffsetStore Backpressure LoadPredictor Balancer PSA Config Compression Scheduler BrokerSpec Client Http DQNScheduler DQNBalancer Preprocessing Optimizer Experiment
begin

text \<open>
  \<^bold>\<open>NyaQueue\<close>. This development models the message broker NyaQueue, written in Go, and proves properties of it. Paths are relative to
  \<^verbatim>\<open>src/\<close>.

  \<^bold>\<open>The program.\<close> A broker (\<^verbatim>\<open>pkg/broker\<close>) keeps topics; a topic has partitions, and a partition appends messages to a write-ahead log and, in
  the priority modes, enters them into an in-memory priority index. A balancer (\<^verbatim>\<open>pkg/balancer\<close>) picks the partition of a published message, a
  scheduler (\<^verbatim>\<open>pkg/scheduler\<close>) the next message of a consumer; both have learning variants whose networks run in a library. Consumer groups commit offsets to
  a store. Background ticks collect metrics, predict loads, drive backpressure and delete old messages; an optimizer (\<^verbatim>\<open>pkg/optimizer\<close>,
  \<^verbatim>\<open>pkg/preprocessing\<close>, \<^verbatim>\<open>pkg/nn\<close>) may retune the broker's configuration. Clients use gRPC or HTTP (\<^verbatim>\<open>pkg/transport\<close>), the
  application (\<^verbatim>\<open>internal/app\<close>) wires the parts together, and the experiments (\<^verbatim>\<open>experiments\<close>, \<^verbatim>\<open>benchmarks\<close>,
  \<^verbatim>\<open>internal/kafkadriver\<close>) measure it against Kafka.

  \<^bold>\<open>How code becomes definitions.\<close> A struct is a record, an enumeration a datatype, a method a function from the state before to the result and
  the state after. Machine integers whose overflow or encoding matters are words (offsets, timestamps, priorities, wire fields); times and durations
  are integers counting nanoseconds, and other uses of \<^verbatim>\<open>int\<close> are integers or natural numbers. Floating-point code is computed in IEEE binary64 with
  every rounding. Errors are values, the first component of a sum or an option; a panic is the value
  \<^verbatim>\<open>None\<close> of an outer option or the error \<^verbatim>\<open>ErrPanic\<close>. What the code reads from its surroundings is an argument: the clock, random
  draws, measured latencies, whether a context is done, the visiting order of a Go map, recycled buffers. Goroutines are step relations whose steps are the
  critical sections or loop bodies of the code, so that every interleaving is a run.

  \<^bold>\<open>Third-party code\<close> is a parameter with the laws it documents as hypotheses, and every theorem with such a hypothesis has a concrete instance: the write-ahead log
  (\<^verbatim>\<open>wal_laws\<close>, instance a list), the Badger database (\<^verbatim>\<open>kv_laws\<close>, an association list), the compression libraries (round trips), the LRU
  cache of the sticky balancer, the gomlx networks of the learners (\<^verbatim>\<open>ac_laws\<close> for the actor-critic networks), the linear algebra of gonum, \<^verbatim>\<open>math\<close>
  functions that are not correctly rounded, HdrHistogram, kafka-go and \<^verbatim>\<open>backoff.Retry\<close> (\<^verbatim>\<open>retry_law\<close>).

  \<^bold>\<open>Theories, in the order in which they build on each other.\<close>

  \<^item> \<^verbatim>\<open>Prelude\<close>: names of types, errors, big-endian numbers, lists and ring buffers, and the contracts \<^verbatim>\<open>bounded_log\<close> and \<^verbatim>\<open>bounded_fifo\<close>, which the rings of the
    priority index, the load history and both replay buffers interpret. \<^verbatim>\<open>Float64\<close>: binary64 values, rounding, arithmetic, comparison, square root and their order lemmas.

  \<^item> \<^verbatim>\<open>Message\<close> (\<^verbatim>\<open>message.go\<close>): encoding and decoding, which are inverse. \<^verbatim>\<open>PriorityIndex\<close> (\<^verbatim>\<open>priority_index.go\<close>): the growing ring and the levels; each operation against
    the list of entries of each level. \<^verbatim>\<open>Compression\<close> (\<^verbatim>\<open>compression.go\<close>), \<^verbatim>\<open>Config\<close> (\<^verbatim>\<open>config.go\<close>).

  \<^item> \<^verbatim>\<open>Wal\<close>: the contract of the log. \<^verbatim>\<open>Partition\<close> (\<^verbatim>\<open>partition.go\<close>): appending, compressed batches, reading, rebuilding and truncation over it; appends refine a list of
    readable messages. \<^verbatim>\<open>Retention\<close>: what truncation keeps. \<^verbatim>\<open>Topic\<close> (\<^verbatim>\<open>topic.go\<close>), \<^verbatim>\<open>OffsetStore\<close> (\<^verbatim>\<open>offset_store.go\<close>).

  \<^item> \<^verbatim>\<open>Backpressure\<close>, \<^verbatim>\<open>LoadPredictor\<close>, \<^verbatim>\<open>Metrics\<close> (the files of \<^verbatim>\<open>pkg/broker\<close> with these names): ranges of loads, ratios and predictions.

  \<^item> \<^verbatim>\<open>Balancer\<close> (\<^verbatim>\<open>round_robin.go\<close>, \<^verbatim>\<open>p2c.go\<close>) with the contract \<^verbatim>\<open>balancer\<close>, \<^verbatim>\<open>PSA\<close> (\<^verbatim>\<open>psa.go\<close>), \<^verbatim>\<open>Scheduler\<close> (\<^verbatim>\<open>fifo.go\<close>, \<^verbatim>\<open>priority.go\<close>) with the contract
    \<^verbatim>\<open>scheduler\<close>. The contracts are interpreted by the balancers and schedulers of the code, the learning ones included.

  \<^item> \<^verbatim>\<open>Broker\<close> (\<^verbatim>\<open>broker.go\<close>): every operation and background tick. \<^verbatim>\<open>BrokerInv\<close>: the invariant of all reachable states. \<^verbatim>\<open>BrokerSpec\<close>: publishing and consuming against the
    lists of messages of the partitions.

  \<^item> \<^verbatim>\<open>Transport\<close> (\<^verbatim>\<open>server.go\<close>, \<^verbatim>\<open>errors.go\<close>), \<^verbatim>\<open>Client\<close> (\<^verbatim>\<open>client.go\<close>), \<^verbatim>\<open>Http\<close> (\<^verbatim>\<open>http_server.go\<close>, \<^verbatim>\<open>http_client.go\<close>): fetches in order, retries that store a message at most
    once, the buffered producer under every interleaving, equality of what HTTP and gRPC deliver.

  \<^item> \<^verbatim>\<open>NN\<close> (\<^verbatim>\<open>pkg/nn\<close>), \<^verbatim>\<open>DQN\<close>, \<^verbatim>\<open>DQNScheduler\<close>, \<^verbatim>\<open>DQNBalancer\<close> (the files \<^verbatim>\<open>dqn.go\<close>): replay buffers, normalization, learning steps, safety whatever the networks compute, and the
    hysteresis of the fallback.

  \<^item> \<^verbatim>\<open>Preprocessing\<close> (\<^verbatim>\<open>pkg/preprocessing\<close>), \<^verbatim>\<open>DDPG\<close> (\<^verbatim>\<open>ddpg.go\<close>), \<^verbatim>\<open>Optimizer\<close> (\<^verbatim>\<open>optimizer.go\<close>, \<^verbatim>\<open>params.go\<close>): sampling and reduction of configurations, training on recycled
    buffers, and runs of the optimizer against the broker: valid configurations, emergency rollback, shapes of all vectors.

  \<^item> \<^verbatim>\<open>App\<close> (\<^verbatim>\<open>internal/app\<close>): options, construction, start and stop; its broker is a reachable state of the broker.

  \<^item> \<^verbatim>\<open>Scenarios\<close> (\<^verbatim>\<open>benchmarks/scenarios.go\<close>), \<^verbatim>\<open>ExpCollector\<close> (\<^verbatim>\<open>experiments/collector.go\<close>), \<^verbatim>\<open>KafkaDriver\<close> (\<^verbatim>\<open>internal/kafkadriver\<close>), \<^verbatim>\<open>Harness\<close>
    (\<^verbatim>\<open>experiments/harness.go\<close>), \<^verbatim>\<open>Runner\<close> and \<^verbatim>\<open>Experiment\<close> (\<^verbatim>\<open>experiments/runner.go\<close>, \<^verbatim>\<open>algorithms.go\<close>): load patterns, statistics with a fair reservoir, the four modes over the models of broker,
    service and handlers, and whole runs, in which every message is counted whatever the interleaving.

  \<^bold>\<open>Properties.\<close> The numbered properties are spread over the theories: the broker as a whole (C1 to C4), the clients and the service (C5 to C7), schedulers and balancers (C8 to C13), the learners and
  the optimizer (C14 to C19), the experiments (C20 to C25), and the single components (C26 to C37). C38 to C40 show behaviour that is probably not intended: messages that cannot be read back, a
  partition that stays unusable after one failed write, and values delivered compressed after a change of the codec.

  \<^bold>\<open>Bounds and fuel.\<close> Recursion is structural or has a termination proof, with these exceptions. The fetch loops of \<^verbatim>\<open>Transport\<close> and \<^verbatim>\<open>Http\<close> wait for messages and take fuel, one unit for each
  turn; one unit more than the messages after the committed offset and the polls for new ones is enough, and the theorems show it. \<^verbatim>\<open>waitForReady\<close> and \<^verbatim>\<open>drain_loop\<close> are partial functions over a
  clock; they are proved to return when the clock advances. The retries of the gRPC client and of the harness are bounded by the constants of the code.
  Theorems on offsets assume that a log holds fewer than 2 to the power 64 messages, in the form of the room left for the appended ones.

  \<^bold>\<open>Not modelled.\<close>

  \<^item> Generated protocol code, JSON encoding, sockets, TLS, timeouts of connections, the Prometheus export, the admin server (\<^verbatim>\<open>pkg/transport/admin_server.go\<close>), the commands under
    \<^verbatim>\<open>cmd\<close> and the reporter of the experiments: they are I/O and formatting around the modelled operations.

  \<^item> The graphs of the neural networks, which the gomlx library builds, compiles and differentiates; only what the code does around them.

  \<^item> The loops that only wait for a ticker and repeat an operation; the operation is modelled, and the step relations allow it at any time.

  \<^item> The memory model below critical sections: an operation that holds its lock, or uses an atomic counter, is one step.

  \<^item> The real time of an experiment: a producer's pause appears as the event that ends it. The warm-up runs, the removal of data directories and the recognition of network
    errors in \<^verbatim>\<open>runner.go\<close> are not modelled.
\<close>

end
